(* ===== verification/Prelude.thy ===== *)
theory Prelude
  imports Main "HOL-Library.Word"
begin

unbundle bit_operations_syntax

section \<open>Shared vocabulary of the development\<close>

text \<open>
  Types, the error monad, the byte memory and the generic lemmas that every component uses.

  The C code is modelled for the LP64 data model the project is built for: \<open>u_char\<close> is
  \<open>u8\<close>, \<open>int\<close> and \<open>u_int\<close> are \<open>u32\<close>, \<open>long\<close>, \<open>u_long\<close> and
  \<open>oid\<close> are \<open>u64\<close>.  A \<open>size_t\<close> is a natural number below \<open>2 ^ 64\<close>, and a
  subtraction on it is written with \<open>usub64\<close>, which wraps around as the C does.

  A buffer is the list of the bytes that were allocated for it and a pointer into it is an
  index.  A read or a write beyond the allocation, which is undefined behaviour in C, is the
  error value \<open>OverRead\<close> or \<open>OverWrite\<close>: that these two never occur is a theorem about
  the code and not an assumption of the model.
\<close>

type_synonym u8 = "8 word"
type_synonym u32 = "32 word"
type_synonym u64 = "64 word"
type_synonym bytes = "8 word list"
type_synonym oid = "64 word list"

named_theorems mem_simps \<open>reads and writes that stay inside the allocation\<close>
named_theorems be_simps \<open>big-endian byte sequences\<close>


subsection \<open>Errors as values\<close>

text \<open>
  Every \<open>return NULL\<close> and \<open>return 0\<close> of the encoders and decoders is one of these values:
  one constructor for each \<open>ERROR_MSG\<close> the code sets before it returns, \<open>SnmpErr\<close> for a code left in
  \<open>s_snmp_errno\<close>, the three kinds of undefined behaviour, and \<open>OutOfFuel\<close> for a loop that ran longer than its bound.
\<close>

datatype asn_err =
    OverRead
  | OverWrite
  | Uninitialised
  | SizeErr nat
  | TypeErr u8
  | LengthErr nat
  | MsgOverflow
  | HeaderTooShort
  | ExtensionId
  | Indefinite
  | LengthTooLong
  | NegLength u64
  | BadLength
  | SubidSyntax
  | SubidTooLarge
  | OidTooLong
  | BadFirstSubid
  | BadSecondSubid
  | MalformedNull
  | BitstringTooSmall
  | NoString
  | NoMemory
  | BadVarType u8
  | BadPduType u8
  | SnmpErr int
  | OutOfFuel

type_synonym 'a res = "asn_err + 'a"

definition ebind :: "'e + 'a \<Rightarrow> ('a \<Rightarrow> 'e + 'b) \<Rightarrow> 'e + 'b" where
  "ebind m f = (case m of Inl e \<Rightarrow> Inl e | Inr x \<Rightarrow> f x)"

lemma ebind_Inl [simp]: "ebind (Inl e) f = Inl e"
  by (simp add: ebind_def)

lemma ebind_Inr [simp]: "ebind (Inr x) f = f x"
  by (simp add: ebind_def)

lemma ebind_assoc: "ebind (ebind m f) g = ebind m (\<lambda>x. ebind (f x) g)"
  by (cases m) simp_all

lemma ebind_eq_Inr: "ebind m f = Inr y \<longleftrightarrow> (\<exists>x. m = Inr x \<and> f x = Inr y)"
  by (cases m) simp_all

lemma ebind_eq_Inl: "ebind m f = Inl e \<longleftrightarrow> m = Inl e \<or> (\<exists>x. m = Inr x \<and> f x = Inl e)"
  by (cases m) simp_all

lemma ebind_cong [fundef_cong]:
  "m = m' \<Longrightarrow> (\<And>x. m' = Inr x \<Longrightarrow> f x = f' x) \<Longrightarrow> ebind m f = ebind m' f'"
  by (cases m') simp_all

text \<open>With this congruence rule \<open>simp\<close> evaluates a concrete run from left to right.\<close>

lemma ebind_eval_cong: "m = m' \<Longrightarrow> ebind m f = ebind m' f"
  by simp

text \<open>A result is memory safe when it is not an access outside the allocation.\<close>

definition safe :: "'a res \<Rightarrow> bool" where
  "safe r \<longleftrightarrow> r \<noteq> Inl OverRead \<and> r \<noteq> Inl OverWrite"

lemma safe_Inr [simp]: "safe (Inr x)"
  by (simp add: safe_def)

lemma safe_Inl [simp]: "safe (Inl e) \<longleftrightarrow> e \<noteq> OverRead \<and> e \<noteq> OverWrite"
  by (auto simp: safe_def)

lemma safe_ebind: "safe m \<Longrightarrow> (\<And>x. m = Inr x \<Longrightarrow> safe (f x)) \<Longrightarrow> safe (ebind m f)"
  by (cases m) simp_all


subsection \<open>Unsigned subtraction on \<open>size_t\<close>\<close>

definition usub64 :: "nat \<Rightarrow> nat \<Rightarrow> nat" where
  "usub64 a b = (if b \<le> a then a - b else 2 ^ 64 + a - b)"

lemma usub64_le [simp]: "b \<le> a \<Longrightarrow> usub64 a b = a - b"
  by (simp add: usub64_def)


subsection \<open>The byte memory\<close>

definition rd :: "'a list \<Rightarrow> nat \<Rightarrow> 'a res" where
  "rd mem i = (if i < length mem then Inr (mem ! i) else Inl OverRead)"

definition rd_bytes :: "'a list \<Rightarrow> nat \<Rightarrow> nat \<Rightarrow> 'a list res" where
  "rd_bytes mem i n = (if i + n \<le> length mem then Inr (take n (drop i mem)) else Inl OverRead)"

definition wr :: "'a list \<Rightarrow> nat \<Rightarrow> 'a \<Rightarrow> 'a list res" where
  "wr mem i b = (if i < length mem then Inr (mem[i := b]) else Inl OverWrite)"

fun wr_bytes :: "'a list \<Rightarrow> nat \<Rightarrow> 'a list \<Rightarrow> 'a list res" where
  "wr_bytes mem i [] = Inr mem"
| "wr_bytes mem i (b # bs) = ebind (wr mem i b) (\<lambda>mem'. wr_bytes mem' (Suc i) bs)"

text \<open>The memory after the bytes \<open>bs\<close> were stored at index \<open>i\<close>.\<close>

definition store_at :: "'a list \<Rightarrow> nat \<Rightarrow> 'a list \<Rightarrow> 'a list" where
  "store_at mem i bs = take i mem @ bs @ drop (i + length bs) mem"

lemma length_store_at [simp]: "i + length bs \<le> length mem \<Longrightarrow> length (store_at mem i bs) = length mem"
  by (simp add: store_at_def)

lemma store_at_Nil [simp]: "store_at mem i [] = mem"
  by (simp add: store_at_def)

lemma store_at_store_at [mem_simps]:
  assumes "i + length as + length bs \<le> length mem"
  shows "store_at (store_at mem i as) (i + length as) bs = store_at mem i (as @ bs)"
  using assms by (simp add: store_at_def ac_simps)

lemma store_at_Cons:
  assumes "Suc (i + length bs) \<le> length mem"
  shows "store_at (mem[i := b]) (Suc i) bs = store_at mem i (b # bs)"
proof -
  have "take (Suc i) (mem[i := b]) = take i mem @ [b]"
    using assms by (simp add: take_Suc_conv_app_nth take_update_swap list_update_append)
  then show ?thesis
    using assms by (simp add: store_at_def)
qed

lemma wr_inside [mem_simps]: "i < length mem \<Longrightarrow> wr mem i b = Inr (store_at mem i [b])"
  by (simp add: wr_def store_at_def upd_conv_take_nth_drop)

lemma wr_bytes_inside [mem_simps]:
  "i + length bs \<le> length mem \<Longrightarrow> wr_bytes mem i bs = Inr (store_at mem i bs)"
proof (induction bs arbitrary: mem i)
  case Nil
  then show ?case by simp
next
  case (Cons b bs)
  then have "wr_bytes (mem[i := b]) (Suc i) bs = Inr (store_at (mem[i := b]) (Suc i) bs)"
    by simp
  with Cons.prems show ?case
    by (simp add: wr_def store_at_Cons)
qed

declare wr_bytes.simps(2) [simp del]

lemma rd_inside [mem_simps]: "i < length mem \<Longrightarrow> rd mem i = Inr (mem ! i)"
  by (simp add: rd_def)

lemma rd_at: "rd (pre @ b # post) (length pre) = Inr b"
  by (simp add: rd_def)

lemma rd_bytes_inside [mem_simps]:
  "i + n \<le> length mem \<Longrightarrow> rd_bytes mem i n = Inr (take n (drop i mem))"
  by (simp add: rd_bytes_def)

text \<open>\<open>stored mem i bs\<close>: the memory holds the bytes \<open>bs\<close> at index \<open>i\<close>.\<close>

definition stored :: "'a list \<Rightarrow> nat \<Rightarrow> 'a list \<Rightarrow> bool" where
  "stored mem i bs \<longleftrightarrow> i + length bs \<le> length mem \<and> take (length bs) (drop i mem) = bs"

lemma stored_bound: "stored mem i bs \<Longrightarrow> i + length bs \<le> length mem"
  by (simp add: stored_def)

lemma stored_store_at: "i + length bs \<le> length mem \<Longrightarrow> stored (store_at mem i bs) i bs"
  by (simp add: stored_def store_at_def)

lemma stored_append [simp]:
  "stored mem i (as @ bs) \<longleftrightarrow> stored mem i as \<and> stored mem (i + length as) bs"
proof
  assume h: "stored mem i (as @ bs)"
  have e: "take (length as + length bs) (drop i mem) =
           take (length as) (drop i mem) @ take (length bs) (drop (i + length as) mem)"
    by (simp add: take_add add.commute)
  have "take (length as) (drop i mem) = as"
    using h e by (auto simp: stored_def append_eq_append_conv)
  with h e show "stored mem i as \<and> stored mem (i + length as) bs"
    by (auto simp: stored_def)
next
  assume "stored mem i as \<and> stored mem (i + length as) bs"
  then show "stored mem i (as @ bs)"
    by (auto simp: stored_def take_add add.commute add.left_commute)
qed

lemma stored_Cons [simp]:
  "stored mem i (b # bs) \<longleftrightarrow> i < length mem \<and> mem ! i = b \<and> stored mem (Suc i) bs"
proof -
  have "stored mem i [b] \<longleftrightarrow> i < length mem \<and> mem ! i = b"
    by (auto simp: stored_def take_Suc_conv_app_nth hd_drop_conv_nth take_Suc)
  then show ?thesis
    using stored_append [of mem i "[b]" bs] by simp
qed

lemma stored_Nil [simp]: "stored mem i [] \<longleftrightarrow> i \<le> length mem"
  by (simp add: stored_def)

lemma rd_bytes_stored: "stored mem i bs \<Longrightarrow> n = length bs \<Longrightarrow> rd_bytes mem i n = Inr bs"
  by (simp add: stored_def rd_bytes_def)


subsection \<open>Bits and signs of words\<close>

lemma bit_unat: "bit w n \<longleftrightarrow> odd (unat w div 2 ^ n)"
  by (simp add: bit_unsigned_iff flip: bit_iff_odd)

lemma even_div_top: "m < 2 * k \<Longrightarrow> even (m div k) \<longleftrightarrow> (m::nat) < k"
proof (cases "k \<le> m")
  case True
  assume "m < 2 * k"
  with True have "m div k = 1" by (intro div_nat_eqI) simp_all
  with True show ?thesis by simp
qed simp

lemma and_msb8: "(w::u8) AND 0x80 = 0 \<longleftrightarrow> unat w < 0x80"
proof -
  have "w AND 2 ^ 7 = 0 \<longleftrightarrow> \<not> bit w 7"
    by (simp only: and_exp_eq_0_iff_not_bit)
  then show ?thesis
    using unsigned_less [where ?'a = nat, of w] by (simp add: bit_unat even_div_top)
qed

lemma sint_neg64: "sint (w::u64) < 0 \<longleftrightarrow> 2 ^ 63 \<le> unat w"
proof -
  have "sint w < 0 \<longleftrightarrow> bit w 63"
    using bit_last_iff [of w] by simp
  then show ?thesis
    using unsigned_less [where ?'a = nat, of w] by (simp add: bit_unat even_div_top not_less)
qed

lemma sint_nonneg64:
  assumes "unat (w::u64) < 2 ^ 63" shows "sint w = int (unat w)"
proof -
  have "\<not> bit w 63" using assms by (simp add: bit_unat)
  then have "sint w = take_bit 63 (uint w)"
    by (simp add: sint_uint signed_take_bit_eq_if_positive bit_unsigned_iff)
  also have "\<dots> = uint w"
  proof (rule take_bit_int_eq_self)
    have "int (unat w) < int (2 ^ 63)" using assms by (simp only: of_nat_less_iff)
    then show "uint w < 2 ^ 63" by simp
  qed simp
  finally show ?thesis by simp
qed

lemma unat_drop_bit_less:
  assumes "x \<noteq> 0" and "0 < n" shows "unat (drop_bit n (x :: 'a::len word)) < unat x"
proof -
  have "0 < unat x" using assms(1) by (simp add: unat_gt_0)
  moreover have "unat (drop_bit n x) = unat x div 2 ^ n"
    by (metis unat_drop_bit_eq drop_bit_eq_div)
  moreover have "(1::nat) < 2 ^ n" using assms(2) by (rule one_less_power [rotated]) simp
  ultimately show ?thesis by (simp only: div_less_dividend)
qed

lemma ucast_drop_of_nat:
  assumes "n < 2 ^ 64"
  shows "(ucast (drop_bit k (word_of_nat n :: u64)) :: u8) = word_of_nat (n div 2 ^ k)"
  using assms
  by (simp add: word_unat_eq_iff unsigned_ucast_eq unsigned_drop_bit_eq unat_of_nat
      take_bit_eq_mod [where 'a = nat] drop_bit_eq_div [where 'a = nat])


subsection \<open>Big-endian byte sequences\<close>

text \<open>
  \<open>be_bytes k x\<close> is the low \<open>k\<close> bytes of \<open>x\<close>, the most significant one first: what every
  \<open>integer <<= 8\<close> output loop of the code stores.  \<open>be_acc\<close> is the input loop
  \<open>value = (value << 8) | *bufp++\<close>.
\<close>

primrec be_bytes :: "nat \<Rightarrow> 'a::len word \<Rightarrow> bytes" where
  "be_bytes 0 x = []"
| "be_bytes (Suc k) x = ucast (drop_bit (8 * k) x) # be_bytes k x"

definition be_acc :: "'a::len word \<Rightarrow> bytes \<Rightarrow> 'a word" where
  "be_acc v bs = foldl (\<lambda>v b. push_bit 8 v OR ucast b) v bs"

lemma length_be_bytes [simp]: "length (be_bytes k x) = k"
  by (induction k) simp_all

lemma be_acc_Nil [simp]: "be_acc v [] = v"
  by (simp add: be_acc_def)

lemma be_acc_Cons [simp]: "be_acc v (b # bs) = be_acc (push_bit 8 v OR ucast b) bs"
  by (simp add: be_acc_def)

lemma be_acc_be_bytes [be_simps]:
  "be_acc v (be_bytes k x) = push_bit (8 * k) v OR take_bit (8 * k) (x :: 'a::len word)"
proof (induction k arbitrary: v)
  case 0
  then show ?case by simp
next
  case (Suc k)
  have "push_bit (8 * k) (push_bit 8 v OR ucast (ucast (drop_bit (8 * k) x) :: u8)) OR take_bit (8 * k) x
      = push_bit (8 * Suc k) v OR take_bit (8 * Suc k) x"
    by (rule bit_word_eqI) (auto simp: bit_simps ac_simps)
  with Suc show ?case by simp
qed

end
