(* ===== verification/Lcd_Time.thy ===== *)
theory Lcd_Time
  imports Prelude
begin

unbundle bit_operations_syntax

section \<open>Times of other engines (\<open>snmplib/lcd_time.c\<close>, \<open>snmplib/snmpv3.c\<close>)\<close>

text \<open>
  \<open>etimelist\<close>, the hash table of 23 lists with the boots and time values of the engines this one has talked to, and the clock of
  the local engine.  The digest function behind \<open>sc_hash\<close> is an argument (\<open>None\<close>: it failed); so is \<open>now\<close>, the
  number of seconds since the start of the engine, the result of \<open>calculate_sectime_diff\<close>.  An empty engine
  identifier stands for \<open>NULL\<close> and for the length 0.  \<open>calloc\<close> succeeds: the code uses its
  result without a test.
\<close>

abbreviation (input) ENGINETIME_MAX :: u32 where "ENGINETIME_MAX \<equiv> 2147483647"
abbreviation (input) ENGINEBOOT_MAX :: u32 where "ENGINEBOOT_MAX \<equiv> 2147483647"
abbreviation (input) ETIMELIST_SIZE :: nat where "ETIMELIST_SIZE \<equiv> 23"
abbreviation (input) SNMPERR_SUCCESS :: int where "SNMPERR_SUCCESS \<equiv> 0"
abbreviation (input) SNMPERR_GENERR :: int where "SNMPERR_GENERR \<equiv> - 1"

type_synonym sc_hash = "bytes \<Rightarrow> bytes option"

record enginetime =
  et_engineID :: bytes
  engineTime :: u32
  engineBoot :: u32
  lastReceivedEngineTime :: u64
  authenticatedFlag :: bool

record local_engine =
  engineBoots :: u64
  last_engineTime :: u32

record lcd =
  etimelist :: "enginetime list list"
  local_clock :: local_engine


subsection \<open>The local engine\<close>

definition snmpv3_local_snmpEngineTime :: "u32 \<Rightarrow> local_engine \<Rightarrow> u64 \<times> local_engine" where
  "snmpv3_local_snmpEngineTime now le =
     (let engineTime = now AND 0x7fffffff in
      (ucast engineTime,
       le\<lparr>engineBoots := (if engineTime < last_engineTime le then engineBoots le + 1 else engineBoots le),
          last_engineTime := engineTime\<rparr>))"


subsection \<open>The hash table\<close>

text \<open>Every fourth byte of the digest is added.\<close>

function additive :: "bytes \<Rightarrow> u32" where
  "additive [] = 0"
| "additive (b # bs) = ucast b + additive (drop 3 bs)"
  by pat_completeness auto
termination by (relation "measure length") auto

definition hash_engineID :: "sc_hash \<Rightarrow> bytes \<Rightarrow> nat option" where
  "hash_engineID h engineID =
     (if engineID = [] then None
      else case h engineID of
        None \<Rightarrow> None
      | Some buf \<Rightarrow> Some (unat (additive buf) mod ETIMELIST_SIZE))"

definition search_enginetime_list :: "sc_hash \<Rightarrow> enginetime list list \<Rightarrow> bytes \<Rightarrow> enginetime option" where
  "search_enginetime_list h tbl engineID =
     (if engineID = [] then None
      else case hash_engineID h engineID of
        None \<Rightarrow> None
      | Some i \<Rightarrow> find (\<lambda>e. et_engineID e = engineID) (tbl ! i))"

text \<open>The estimate that both lookup functions compute: boots, time, the time last received, and the clock.\<close>

definition enginetime_estimate :: "u32 \<Rightarrow> bool \<Rightarrow> enginetime \<Rightarrow> local_engine \<Rightarrow> (u32 \<times> u32 \<times> u32) \<times> local_engine" where
  "enginetime_estimate now authenticated e le =
     (let (last_time, boot, timediff, le') =
            (if \<not> authenticated \<or> authenticatedFlag e
             then (case snmpv3_local_snmpEngineTime now le of (t, le') \<Rightarrow>
                     (engineTime e, engineBoot e, ucast (t - lastReceivedEngineTime e) :: u32, le'))
             else (0, 0, 0, le));
          left = ENGINETIME_MAX - last_time in
      if sint timediff > sint left
      then ((if boot < ENGINEBOOT_MAX then boot + 1 else boot, timediff - left, last_time), le')
      else ((boot, last_time + timediff, last_time), le'))"

definition get_enginetime_ex :: "sc_hash \<Rightarrow> u32 \<Rightarrow> lcd \<Rightarrow> bytes \<Rightarrow> bool \<Rightarrow> (int \<times> u32 \<times> u32 \<times> u32) \<times> lcd" where
  "get_enginetime_ex h now s engineID authenticated =
     (if engineID = [] then ((SNMPERR_GENERR, 0, 0, 0), s)
      else case search_enginetime_list h (etimelist s) engineID of
        None \<Rightarrow> ((SNMPERR_GENERR, 0, 0, 0), s)
      | Some e \<Rightarrow> (case enginetime_estimate now authenticated e (local_clock s) of
          ((boot, time, last_time), le') \<Rightarrow> ((SNMPERR_SUCCESS, boot, time, last_time), s\<lparr>local_clock := le'\<rparr>)))"

definition get_enginetime :: "sc_hash \<Rightarrow> u32 \<Rightarrow> lcd \<Rightarrow> bytes \<Rightarrow> bool \<Rightarrow> (int \<times> u32 \<times> u32) \<times> lcd" where
  "get_enginetime h now s engineID authenticated =
     (if engineID = [] then ((SNMPERR_GENERR, 0, 0), s)
      else case search_enginetime_list h (etimelist s) engineID of
        None \<Rightarrow> ((SNMPERR_GENERR, 0, 0), s)
      | Some e \<Rightarrow> (case enginetime_estimate now authenticated e (local_clock s) of
          ((boot, time, _), le') \<Rightarrow> ((SNMPERR_SUCCESS, boot, time), s\<lparr>local_clock := le'\<rparr>)))"

text \<open>The record \<open>calloc\<close> gives, and the assignment through the pointer to the record that was found.\<close>

definition new_enginetime :: "bytes \<Rightarrow> enginetime" where
  "new_enginetime engineID = \<lparr>et_engineID = engineID, engineTime = 0, engineBoot = 0, lastReceivedEngineTime = 0, authenticatedFlag = False\<rparr>"

fun assign :: "bytes \<Rightarrow> (enginetime \<Rightarrow> enginetime) \<Rightarrow> enginetime list \<Rightarrow> enginetime list" where
  "assign engineID f [] = []"
| "assign engineID f (e # es) = (if et_engineID e = engineID then f e # es else e # assign engineID f es)"

definition update_record :: "sc_hash \<Rightarrow> bytes \<Rightarrow> (enginetime \<Rightarrow> enginetime) \<Rightarrow> enginetime list list \<Rightarrow> enginetime list list" where
  "update_record h engineID f tbl =
     (case hash_engineID h engineID of
        None \<Rightarrow> tbl
      | Some i \<Rightarrow> tbl[i := assign engineID f (if search_enginetime_list h tbl engineID = None then new_enginetime engineID # tbl ! i else tbl ! i)])"

definition set_enginetime :: "sc_hash \<Rightarrow> u32 \<Rightarrow> lcd \<Rightarrow> bytes \<Rightarrow> u32 \<Rightarrow> u32 \<Rightarrow> bool \<Rightarrow> int \<times> lcd" where
  "set_enginetime h now s engineID engineboot engine_time authenticated =
     (if engineID = [] then (SNMPERR_SUCCESS, s)
      else if hash_engineID h engineID = None then (SNMPERR_GENERR, s)
      else
        let e = (case search_enginetime_list h (etimelist s) engineID of None \<Rightarrow> new_enginetime engineID | Some e \<Rightarrow> e);
            (t, le') = (if authenticated \<or> \<not> authenticatedFlag e then snmpv3_local_snmpEngineTime now (local_clock s) else (0, local_clock s));
            f = (\<lambda>e. if authenticated \<or> \<not> authenticatedFlag e
                  then e\<lparr>authenticatedFlag := authenticated, engineTime := engine_time, engineBoot := engineboot, lastReceivedEngineTime := t\<rparr>
                  else e) in
        (SNMPERR_SUCCESS, s\<lparr>etimelist := update_record h engineID f (etimelist s), local_clock := le'\<rparr>))"

definition free_enginetime :: "sc_hash \<Rightarrow> bytes \<Rightarrow> enginetime list list \<Rightarrow> enginetime list list" where
  "free_enginetime h engineID tbl = (case hash_engineID h engineID of None \<Rightarrow> tbl | Some i \<Rightarrow> tbl[i := []])"

definition free_etimelist :: "enginetime list list \<Rightarrow> enginetime list list" where
  "free_etimelist tbl = map (\<lambda>_. []) tbl"

text \<open>The macros \<open>ISENGINEKNOWN\<close> and \<open>ENSURE_ENGINE_RECORD\<close>.\<close>

definition ISENGINEKNOWN :: "sc_hash \<Rightarrow> u32 \<Rightarrow> lcd \<Rightarrow> bytes \<Rightarrow> bool \<times> lcd" where
  "ISENGINEKNOWN h now s engineID = (case get_enginetime h now s engineID True of ((rc, _), s') \<Rightarrow> (rc = SNMPERR_SUCCESS, s'))"

definition ENSURE_ENGINE_RECORD :: "sc_hash \<Rightarrow> u32 \<Rightarrow> lcd \<Rightarrow> bytes \<Rightarrow> int \<times> lcd" where
  "ENSURE_ENGINE_RECORD h now s engineID =
     (case set_enginetime h now s engineID 0 0 False of (rc, s') \<Rightarrow> (if rc = SNMPERR_SUCCESS then SNMPERR_SUCCESS else SNMPERR_GENERR, s'))"


subsection \<open>What the table promises\<close>

text \<open>
  The contract of a store of engine records: an update of one engine is seen by lookups of that engine and by no other.
  \<open>known\<close> are the identifiers that can be stored at all.
\<close>

locale engine_store =
  fixes wf :: "'s \<Rightarrow> bool"
    and known :: "bytes \<Rightarrow> bool"
    and search :: "'s \<Rightarrow> bytes \<Rightarrow> enginetime option"
    and update :: "bytes \<Rightarrow> (enginetime \<Rightarrow> enginetime) \<Rightarrow> 's \<Rightarrow> 's"
  assumes search_update: "wf s \<Longrightarrow> known k \<Longrightarrow> (\<And>e. et_engineID (f e) = et_engineID e) \<Longrightarrow>
      search (update k f s) k' =
        (if k' = k then Some (f (case search s k of None \<Rightarrow> new_enginetime k | Some e \<Rightarrow> e)) else search s k')"
    and wf_update: "wf s \<Longrightarrow> (\<And>e. et_engineID (f e) = et_engineID e) \<Longrightarrow> wf (update k f s)"
    and update_unknown: "\<not> known k \<Longrightarrow> update k f s = s"
begin

lemma search_update_other: "wf s \<Longrightarrow> (\<And>e. et_engineID (f e) = et_engineID e) \<Longrightarrow> k' \<noteq> k \<Longrightarrow> search (update k f s) k' = search s k'"
  by (cases "known k") (simp_all add: search_update update_unknown)

lemma search_update_update:
  assumes "wf s" and "known k" and "\<And>e. et_engineID (f e) = et_engineID e" and "\<And>e. et_engineID (g e) = et_engineID e"
  shows "search (update k g (update k f s)) k' = search (update k (g \<circ> f) s) k'"
  using assms by (simp add: search_update wf_update)

text \<open>A run of updates touches only the engines it names.\<close>

lemma search_updates:
  "wf s \<Longrightarrow> (\<And>k f e. (k, f) \<in> set us \<Longrightarrow> et_engineID (f e) = et_engineID e) \<Longrightarrow> k' \<notin> fst ` set us \<Longrightarrow>
   search (fold (\<lambda>(k, f). update k f) us s) k' = search s k'"
proof (induction us arbitrary: s)
  case (Cons u us)
  obtain k f where u: "u = (k, f)" by (cases u)
  have f: "et_engineID (f e) = et_engineID e" for e using Cons.prems(2) [of k f e] u by simp
  have "search (fold (\<lambda>(k, f). update k f) us (update k f s)) k' = search (update k f s) k'"
    using Cons.prems by (intro Cons.IH) (auto intro: wf_update f)
  also have "\<dots> = search s k'" using Cons.prems u f by (intro search_update_other) auto
  finally show ?case by (simp add: u)
qed simp

end

definition etimelist_ok :: "sc_hash \<Rightarrow> enginetime list list \<Rightarrow> bool" where
  "etimelist_ok h tbl \<longleftrightarrow> length tbl = ETIMELIST_SIZE \<and>
     (\<forall>i<ETIMELIST_SIZE. \<forall>e\<in>set (tbl ! i). hash_engineID h (et_engineID e) = Some i)"

lemma hash_engineID_range: "hash_engineID h k = Some i \<Longrightarrow> i < ETIMELIST_SIZE \<and> k \<noteq> []"
  by (auto simp: hash_engineID_def split: if_splits option.splits)

lemma find_assign:
  assumes "\<And>e. et_engineID (f e) = et_engineID e"
  shows "find (\<lambda>e. et_engineID e = k') (assign k f es) =
    (if k' = k then map_option f (find (\<lambda>e. et_engineID e = k) es) else find (\<lambda>e. et_engineID e = k') es)"
  by (induction es) (auto simp: assms)

lemma set_assign: "e \<in> set (assign k f es) \<Longrightarrow> e \<in> set es \<or> (\<exists>e'\<in>set es. e = f e')"
  by (induction es) (auto split: if_splits)

lemma bucket_search:
  "hash_engineID h k = Some i \<Longrightarrow> search_enginetime_list h tbl k = find (\<lambda>e. et_engineID e = k) (tbl ! i)"
  by (auto simp: search_enginetime_list_def dest: hash_engineID_range)

lemma etimelist_ok_update:
  assumes "etimelist_ok h tbl" and f: "\<And>e. et_engineID (f e) = et_engineID e"
  shows "etimelist_ok h (update_record h k f tbl)"
proof (cases "hash_engineID h k")
  case (Some i)
  have "hash_engineID h (et_engineID e) = Some i"
    if "e \<in> set (assign k f (if search_enginetime_list h tbl k = None then new_enginetime k # tbl ! i else tbl ! i))" for e
  proof -
    have "hash_engineID h (et_engineID e') = Some i" if "e' \<in> set (new_enginetime k # tbl ! i)" for e'
      using that assms(1) Some hash_engineID_range [OF Some] by (auto simp: etimelist_ok_def new_enginetime_def)
    then show ?thesis using set_assign [OF that] f by (auto split: if_splits)
  qed
  then show ?thesis
    using assms(1) Some hash_engineID_range [OF Some] by (auto simp: etimelist_ok_def update_record_def nth_list_update)
qed (use assms(1) in \<open>simp add: update_record_def\<close>)

lemma search_update_record:
  assumes ok: "etimelist_ok h tbl" and k: "hash_engineID h k = Some i" and f: "\<And>e. et_engineID (f e) = et_engineID e"
  shows "search_enginetime_list h (update_record h k f tbl) k' =
    (if k' = k then Some (f (case search_enginetime_list h tbl k of None \<Rightarrow> new_enginetime k | Some e \<Rightarrow> e))
     else search_enginetime_list h tbl k')"
proof -
  have i: "i < length tbl" using hash_engineID_range [OF k] ok by (simp add: etimelist_ok_def)
  show ?thesis
  proof (cases "hash_engineID h k'")
    case None
    then show ?thesis using k by (auto simp: search_enginetime_list_def)
  next
    case (Some j)
    show ?thesis
      using i k Some by (auto simp: bucket_search [OF Some] bucket_search [OF k] update_record_def nth_list_update find_assign [OF f] new_enginetime_def
          split: option.splits)
  qed
qed

interpretation etimes: engine_store "etimelist_ok h" "\<lambda>k. hash_engineID h k \<noteq> None" "search_enginetime_list h" "update_record h"
  for h
proof unfold_locales
  show "update_record h k f s = s" if "\<not> hash_engineID h k \<noteq> None" for k f s
    using that by (simp add: update_record_def)
qed (auto simp: search_update_record etimelist_ok_update)

text \<open>
  \<open>free_enginetime\<close> is meant to drop one engine; it drops the whole list that the engine hashes to.
\<close>

lemma free_enginetime_drops_others:
  assumes "hash_engineID h k = Some i" and "hash_engineID h k' = Some i" and "etimelist_ok h tbl"
  shows "search_enginetime_list h (free_enginetime h k tbl) k' = None"
  using assms hash_engineID_range [OF assms(1)] by (simp add: bucket_search free_enginetime_def etimelist_ok_def)

end
