(* ===== verification/Usm_Time.thy ===== *)
theory Usm_Time
  imports Lcd_Time
begin

unbundle bit_operations_syntax

section \<open>Timeliness of SNMPv3 messages (\<open>snmplib/snmpusm.c\<close>)\<close>

text \<open>
  \<open>usm_check_and_update_timeliness\<close> over the table of \<open>Lcd_Time\<close>, with the identifier of the local engine
  (\<open>snmpv3_get_engineID\<close>) and the statistics that the security model counts.
\<close>

abbreviation (input) USM_MAX_ID_LENGTH :: nat where "USM_MAX_ID_LENGTH \<equiv> 1024"
abbreviation (input) USM_TIME_WINDOW :: u32 where "USM_TIME_WINDOW \<equiv> 150"
abbreviation (input) SNMPERR_USM_GENERICERROR :: int where "SNMPERR_USM_GENERICERROR \<equiv> - 42"
abbreviation (input) SNMPERR_USM_NOTINTIMEWINDOW :: int where "SNMPERR_USM_NOTINTIMEWINDOW \<equiv> - 49"

datatype usm_stat =
    UnsupportedSecLevels
  | NotInTimeWindows
  | UnknownUserNames
  | UnknownEngineIDs
  | WrongDigests
  | DecryptionErrors
  | InASNParseErrs
  | UnknownSecurityModels
  | InvalidMsgs

record usm_state =
  u_lcd :: lcd
  u_engineID :: bytes
  u_stats :: "usm_stat \<Rightarrow> u32"

definition count_stat :: "usm_stat \<Rightarrow> usm_state \<Rightarrow> usm_state" where
  "count_stat i s = s\<lparr>u_stats := (u_stats s)(i := u_stats s i + 1)\<rparr>"

definition snmpv3_get_engineID :: "bytes \<Rightarrow> nat \<Rightarrow> bytes" where
  "snmpv3_get_engineID engineID buflen = (if buflen < length engineID then [] else engineID)"

definition time_difference :: "u32 \<Rightarrow> u32 \<Rightarrow> u32" where
  "time_difference a b = (if a > b then a - b else b - a)"

definition usm_check_and_update_timeliness :: "sc_hash \<Rightarrow> u32 \<Rightarrow> usm_state \<Rightarrow> bytes \<Rightarrow> u32 \<Rightarrow> u32 \<Rightarrow> int \<times> usm_state" where
  "usm_check_and_update_timeliness h now s secEngineID boots_uint time_uint =
     (let myID = snmpv3_get_engineID (u_engineID s) USM_MAX_ID_LENGTH in
      if myID = [] then (SNMPERR_USM_GENERICERROR, s)
      else
        let myBoots = ucast (engineBoots (local_clock (u_lcd s))) :: u32;
            (t, le') = snmpv3_local_snmpEngineTime now (local_clock (u_lcd s));
            myTime = ucast t :: u32;
            s1 = s\<lparr>u_lcd := (u_lcd s)\<lparr>local_clock := le'\<rparr>\<rparr> in
        if secEngineID = myID then
          if boots_uint = ENGINEBOOT_MAX \<or> boots_uint \<noteq> myBoots \<or> time_difference myTime time_uint > USM_TIME_WINDOW
          then (SNMPERR_USM_NOTINTIMEWINDOW, count_stat NotInTimeWindows s1)
          else (SNMPERR_SUCCESS, s1)
        else
          case get_enginetime_ex h now (u_lcd s1) secEngineID True of
            ((rc, theirBoots, theirTime, theirLastTime), lcd2) \<Rightarrow>
              let s2 = s1\<lparr>u_lcd := lcd2\<rparr> in
              if rc \<noteq> SNMPERR_SUCCESS then (SNMPERR_USM_GENERICERROR, s2)
              else if theirBoots = ENGINEBOOT_MAX \<or> theirBoots > boots_uint then (SNMPERR_USM_NOTINTIMEWINDOW, s2)
              else if theirBoots = boots_uint \<and> time_uint < theirLastTime then
                (if time_difference theirTime time_uint > USM_TIME_WINDOW then SNMPERR_USM_NOTINTIMEWINDOW else SNMPERR_SUCCESS, s2)
              else
                case set_enginetime h now (u_lcd s2) secEngineID boots_uint time_uint True of
                  (rc', lcd3) \<Rightarrow>
                    (if rc' \<noteq> SNMPERR_SUCCESS then SNMPERR_USM_GENERICERROR else SNMPERR_SUCCESS, s2\<lparr>u_lcd := lcd3\<rparr>))"


subsection \<open>The local engine\<close>

lemma local_time: "fst (snmpv3_local_snmpEngineTime now le) = ucast (now AND 0x7fffffff)"
  by (simp add: snmpv3_local_snmpEngineTime_def Let_def)

lemma unat_time_difference: "unat (time_difference a b) = (if unat a > unat b then unat a - unat b else unat b - unat a)"
proof (cases "a > b")
  case True
  then have "unat (a - b) = unat a - unat b" by (intro unat_sub less_imp_le)
  then show ?thesis using True by (simp add: time_difference_def word_less_nat_alt)
next
  case False
  then have "unat (b - a) = unat b - unat a" by (intro unat_sub) simp
  then show ?thesis using False by (simp add: time_difference_def word_less_nat_alt)
qed

lemma outside_window: "time_difference a b > 150 \<longleftrightarrow> unat a > unat b + 150 \<or> unat b > unat a + 150"
  using unat_time_difference [of a b] by (auto simp: word_less_nat_alt)

subsection \<open>Other engines\<close>

lemma sint_below: "unat (x :: u32) < 2 ^ 31 \<Longrightarrow> sint x = int (unat x)"
proof -
  assume x: "unat x < 2 ^ 31"
  have "signed_take_bit 31 (int n) = int n" if "n < 2 ^ 31" for n using that by (intro signed_take_bit_int_eq_self) simp_all
  from this [OF x] show ?thesis unfolding sint_uint uint_nat by simp
qed

text \<open>The clock runs forward and the engine is up for less than \<open>2 ^ 31\<close> seconds.\<close>

lemma local_time_small: "unat (now :: u32) < 2 ^ 31 \<Longrightarrow> now AND 0x7fffffff = now"
proof -
  assume "unat now < 2 ^ 31"
  then have "take_bit 31 now = now" by (simp add: word_unat_eq_iff unsigned_take_bit_eq take_bit_nat_eq_self)
  moreover have "now AND 0x7fffffff = take_bit 31 now" by (simp add: take_bit_eq_mask mask_eq_exp_minus_1)
  ultimately show ?thesis by simp
qed

lemma estimate_forward:
  assumes flag: "authenticatedFlag e" and now: "unat now < 2 ^ 31" and last: "unat (lastReceivedEngineTime e) \<le> unat now"
    and time: "engineTime e \<le> ENGINETIME_MAX"
    and est: "enginetime_estimate now True e le = ((boot, time, last_time), le')"
  shows "last_time = engineTime e \<and>
    (boot = engineBoot e \<and> unat time = unat (engineTime e) + (unat now - unat (lastReceivedEngineTime e)) \<or>
     boot = (if engineBoot e < ENGINEBOOT_MAX then engineBoot e + 1 else engineBoot e))"
proof -
  define d where "d = (ucast (ucast now - lastReceivedEngineTime e) :: u32)"
  define l where "l = ENGINETIME_MAX - engineTime e"
  have u: "unat (ucast now :: u64) = unat now" using now by (simp add: unsigned_ucast_eq take_bit_nat_eq_self)
  then have "unat (ucast now - lastReceivedEngineTime e :: u64) = unat now - unat (lastReceivedEngineTime e)"
    using last by (subst unat_sub) (simp_all add: word_le_nat_alt)
  then have d: "unat d = unat now - unat (lastReceivedEngineTime e)"
    using now by (simp add: d_def unsigned_ucast_eq take_bit_nat_eq_self)
  have l: "unat l = 2147483647 - unat (engineTime e)" using time by (simp add: l_def unat_sub)
  have t: "unat (engineTime e) \<le> 2147483647" using time by (simp add: word_le_nat_alt)
  have si: "sint d = int (unat d)" "sint l = int (unat l)" using d l now by (simp_all add: sint_below)
  have "unat (engineTime e + d) = unat (engineTime e) + unat d" if "\<not> sint d > sint l"
  proof -
    have "unat d \<le> unat l" using that unfolding si not_less of_nat_le_iff .
    then show ?thesis using l t by (simp add: unat_word_ariths)
  qed
  then show ?thesis
    using est flag d si by (auto simp: enginetime_estimate_def snmpv3_local_snmpEngineTime_def Let_def local_time_small [OF now]
        simp flip: d_def l_def split: if_splits)
qed


definition heard :: "u32 \<Rightarrow> u32 \<Rightarrow> u32 \<Rightarrow> enginetime \<Rightarrow> enginetime" where
  "heard b t now e = e\<lparr>authenticatedFlag := True, engineTime := t, engineBoot := b, lastReceivedEngineTime := ucast (now AND 0x7fffffff)\<rparr>"

lemma heard_engineID [simp]: "et_engineID (heard b t now e) = et_engineID e"
  by (simp add: heard_def)

lemma set_enginetime_authenticated:
  assumes "hash_engineID h k \<noteq> None"
  shows "\<exists>le'. set_enginetime h now l k b t True = (SNMPERR_SUCCESS, l\<lparr>etimelist := update_record h k (heard b t now) (etimelist l), local_clock := le'\<rparr>)"
proof -
  have "k \<noteq> []" using assms by (auto simp: hash_engineID_def)
  moreover have "(\<lambda>e. e\<lparr>authenticatedFlag := True, engineTime := t, engineBoot := b, lastReceivedEngineTime := ucast (now AND 0x7fffffff)\<rparr>) = heard b t now"
    by (intro ext) (simp add: heard_def)
  ultimately show ?thesis
    using assms by (auto simp: set_enginetime_def Let_def snmpv3_local_snmpEngineTime_def split: prod.splits)
qed

text \<open>What a check leaves in the table: nothing new, or the times of the message.\<close>

lemma check_timeliness_remote:
  assumes c: "usm_check_and_update_timeliness h now s k b t = (rc, s')" and k: "k \<noteq> u_engineID s"
    and e: "search_enginetime_list h (etimelist (u_lcd s)) k = Some e"
  shows "\<exists>boot time last_time le le'. enginetime_estimate now True e le = ((boot, time, last_time), le') \<and>
     (rc = SNMPERR_SUCCESS \<longrightarrow> boot \<noteq> ENGINEBOOT_MAX \<and> boot \<le> b \<and>
       (boot = b \<and> t < last_time \<longrightarrow> \<not> time_difference time t > USM_TIME_WINDOW)) \<and>
     (etimelist (u_lcd s') = etimelist (u_lcd s) \<or>
      boot \<noteq> ENGINEBOOT_MAX \<and> boot \<le> b \<and> (boot = b \<longrightarrow> last_time \<le> t) \<and>
      etimelist (u_lcd s') = update_record h k (heard b t now) (etimelist (u_lcd s)))"
proof -
  have kh: "k \<noteq> []" "hash_engineID h k \<noteq> None" using e by (auto simp: search_enginetime_list_def split: if_splits option.splits)
  have myid: "k \<noteq> snmpv3_get_engineID (u_engineID s) 1024" using k kh(1) by (auto simp: snmpv3_get_engineID_def)
  define le where "le = snd (snmpv3_local_snmpEngineTime now (local_clock (u_lcd s)))"
  obtain boot time last_time le' where est: "enginetime_estimate now True e le = ((boot, time, last_time), le')"
    by (metis prod_cases3 surj_pair)
  obtain t0 where cl: "snmpv3_local_snmpEngineTime now (local_clock (u_lcd s)) = (t0, le)"
    by (cases "snmpv3_local_snmpEngineTime now (local_clock (u_lcd s))") (simp add: le_def)
  let ?l = "(u_lcd s)\<lparr>local_clock := le'\<rparr>"
  obtain le2 where set: "set_enginetime h now ?l k b t True =
      (SNMPERR_SUCCESS, ?l\<lparr>etimelist := update_record h k (heard b t now) (etimelist ?l), local_clock := le2\<rparr>)"
    using set_enginetime_authenticated [OF kh(2)] by blast
  have get: "get_enginetime_ex h now ((u_lcd s)\<lparr>local_clock := le\<rparr>) k True = ((SNMPERR_SUCCESS, boot, time, last_time), ?l)"
    using e est kh(1) by (simp add: get_enginetime_ex_def)
  show ?thesis
    using c myid get set est cl
    by (intro exI [of _ boot] exI [of _ time] exI [of _ last_time] exI [of _ le] exI [of _ le'])
      (auto simp: usm_check_and_update_timeliness_def Let_def split: if_splits)
qed

lemma check_timeliness_elsewhere:
  assumes c: "usm_check_and_update_timeliness h now s k b t = (rc, s')"
  shows "u_engineID s' = u_engineID s \<and>
    (etimelist (u_lcd s') = etimelist (u_lcd s) \<or> k \<noteq> u_engineID s \<and> etimelist (u_lcd s') = update_record h k (heard b t now) (etimelist (u_lcd s)))"
proof -
  have id: "u_engineID s' = u_engineID s"
    using c by (auto simp: usm_check_and_update_timeliness_def Let_def count_stat_def split: if_splits prod.splits)
  consider (own) "k = u_engineID s" | (unknown) "k \<noteq> u_engineID s" "search_enginetime_list h (etimelist (u_lcd s)) k = None"
    | (remote) e where "k \<noteq> u_engineID s" "search_enginetime_list h (etimelist (u_lcd s)) k = Some e" by blast
  then show ?thesis
  proof cases
    case own
    then have "etimelist (u_lcd s') = etimelist (u_lcd s)"
      using c by (auto simp: usm_check_and_update_timeliness_def snmpv3_get_engineID_def Let_def count_stat_def split: if_splits prod.splits)
    with id show ?thesis by simp
  next
    case unknown
    then have "get_enginetime_ex h now ((u_lcd s)\<lparr>local_clock := le\<rparr>) k True = ((SNMPERR_GENERR, 0, 0, 0), (u_lcd s)\<lparr>local_clock := le\<rparr>)" for le
      by (simp add: get_enginetime_ex_def)
    then have "etimelist (u_lcd s') = etimelist (u_lcd s)"
      using c by (auto simp: usm_check_and_update_timeliness_def Let_def count_stat_def split: if_splits prod.splits)
    with id show ?thesis by simp
  next
    case remote
    from check_timeliness_remote [OF c this] id remote(1) show ?thesis by blast
  qed
qed

lemma unauthenticated_time:
  assumes "set_enginetime h now l k b t False = (rc, l')"
  shows "\<exists>f. (\<forall>e. et_engineID (f e) = et_engineID e \<and> (authenticatedFlag e \<longrightarrow> f e = e)) \<and>
    (etimelist l' = etimelist l \<or> etimelist l' = update_record h k f (etimelist l))"
proof (cases "k = [] \<or> hash_engineID h k = None")
  case True
  then have "etimelist l' = etimelist l" using assms by (auto simp: set_enginetime_def split: if_splits)
  then show ?thesis by (intro exI [of _ id]) simp
next
  case False
  let ?f = "\<lambda>tm e. if \<not> authenticatedFlag e
      then e\<lparr>authenticatedFlag := False, engineTime := t, engineBoot := b, lastReceivedEngineTime := tm\<rparr> else e"
  have "\<exists>tm. etimelist l' = update_record h k (?f tm) (etimelist l)"
    using assms False by (auto simp: set_enginetime_def Let_def split: prod.splits if_splits)
  then obtain tm where "etimelist l' = update_record h k (?f tm) (etimelist l)" ..
  then show ?thesis by (intro exI [of _ "?f tm"]) auto
qed


subsection \<open>Runs\<close>

text \<open>
  The messages an engine receives, with the local clock.  Boots and times are below \<open>2 ^ 31\<close>, which
  \<open>usm_parse_security_parameters\<close> checks; the clock runs forward and the engine has been up for less than \<open>2 ^ 31\<close> seconds.
\<close>

inductive time_run :: "sc_hash \<Rightarrow> usm_state \<Rightarrow> u32 \<Rightarrow> usm_state \<Rightarrow> u32 \<Rightarrow> bool" for h s n where
  start: "time_run h s n s n"
| authenticated: "time_run h s n s1 n1 \<Longrightarrow> n1 \<le> now \<Longrightarrow> unat now < 2 ^ 31 \<Longrightarrow> b \<le> ENGINEBOOT_MAX \<Longrightarrow> t \<le> ENGINETIME_MAX \<Longrightarrow>
    usm_check_and_update_timeliness h now s1 k b t = (rc, s2) \<Longrightarrow> time_run h s n s2 now"
| unauthenticated: "time_run h s n s1 n1 \<Longrightarrow> n1 \<le> now \<Longrightarrow> unat now < 2 ^ 31 \<Longrightarrow>
    set_enginetime h now (u_lcd s1) k b t False = (rc, l2) \<Longrightarrow> time_run h s n (s1\<lparr>u_lcd := l2\<rparr>) now"

text \<open>The record of engine \<open>k\<close> is authenticated and not older than boots \<open>B\<close>, time \<open>T\<close>.\<close>

definition fresh :: "sc_hash \<Rightarrow> bytes \<Rightarrow> u32 \<Rightarrow> u32 \<Rightarrow> u32 \<Rightarrow> usm_state \<Rightarrow> bool" where
  "fresh h k B T n s \<longleftrightarrow> etimelist_ok h (etimelist (u_lcd s)) \<and> k \<noteq> u_engineID s \<and>
     (\<exists>e. search_enginetime_list h (etimelist (u_lcd s)) k = Some e \<and> authenticatedFlag e \<and>
        (B < engineBoot e \<or> B = engineBoot e \<and> T \<le> engineTime e) \<and>
        engineBoot e \<le> ENGINEBOOT_MAX \<and> engineTime e \<le> ENGINETIME_MAX \<and> unat (lastReceivedEngineTime e) \<le> unat n)"

lemma unat_now: "unat (now :: u32) < 2 ^ 31 \<Longrightarrow> unat (ucast (now AND 0x7fffffff) :: u64) = unat now"
  by (simp add: local_time_small unsigned_ucast_eq take_bit_nat_eq_self)

lemma fresh_later: "fresh h k B T n s \<Longrightarrow> n \<le> n' \<Longrightarrow> fresh h k B T n' s"
  by (auto simp: fresh_def word_le_nat_alt)

lemma fresh_cong: "etimelist l = etimelist (u_lcd s) \<Longrightarrow> fresh h k B T n (s\<lparr>u_lcd := l\<rparr>) = fresh h k B T n s"
  by (simp add: fresh_def)

lemma fresh_update_other:
  assumes "fresh h k B T n s" and "etimelist l = update_record h k' f (etimelist (u_lcd s))" and "k' \<noteq> k" and "\<And>e. et_engineID (f e) = et_engineID e"
  shows "fresh h k B T n (s\<lparr>u_lcd := l\<rparr>)"
proof -
  have ok: "etimelist_ok h (etimelist (u_lcd s))" using assms(1) by (simp add: fresh_def)
  have "search_enginetime_list h (etimelist l) k = search_enginetime_list h (etimelist (u_lcd s)) k"
    using etimes.search_update_other [OF ok assms(4)] assms(2,3) by metis
  moreover have "etimelist_ok h (etimelist l)" using etimes.wf_update [OF ok assms(4)] assms(2) by simp
  ultimately show ?thesis using assms(1) by (simp add: fresh_def)
qed

text \<open>The next message of a fresh engine: it stays fresh, and what is accepted is not too old.\<close>

lemma accepted_not_old:
  assumes fr: "fresh h k B T n s" and n: "n \<le> now" "unat now < 2 ^ 31" and bt: "b \<le> ENGINEBOOT_MAX" "t \<le> ENGINETIME_MAX"
    and c: "usm_check_and_update_timeliness h now s k b t = (rc, s')"
  shows "(rc = SNMPERR_SUCCESS \<longrightarrow> B < b \<or> B = b \<and> unat T \<le> unat t + 150) \<and> fresh h k B T now s'"
proof -
  obtain e where e: "search_enginetime_list h (etimelist (u_lcd s)) k = Some e" and a: "authenticatedFlag e"
    and old: "B < engineBoot e \<or> B = engineBoot e \<and> T \<le> engineTime e"
    and tm: "engineBoot e \<le> ENGINEBOOT_MAX" "engineTime e \<le> ENGINETIME_MAX" "unat (lastReceivedEngineTime e) \<le> unat now"
    and k: "k \<noteq> u_engineID s" and ok: "etimelist_ok h (etimelist (u_lcd s))"
    using fr n(1) by (auto simp: fresh_def word_le_nat_alt)
  have hk: "hash_engineID h k \<noteq> None" using e by (auto simp: search_enginetime_list_def split: if_splits option.splits)
  obtain boot time last_time le le' where est: "enginetime_estimate now True e le = ((boot, time, last_time), le')"
    and acc: "rc = SNMPERR_SUCCESS \<Longrightarrow> boot \<noteq> ENGINEBOOT_MAX \<and> boot \<le> b \<and>
        (boot = b \<and> t < last_time \<longrightarrow> \<not> time_difference time t > USM_TIME_WINDOW)"
    and upd: "etimelist (u_lcd s') = etimelist (u_lcd s) \<or>
      boot \<noteq> ENGINEBOOT_MAX \<and> boot \<le> b \<and> (boot = b \<longrightarrow> last_time \<le> t) \<and>
      etimelist (u_lcd s') = update_record h k (heard b t now) (etimelist (u_lcd s))"
    using check_timeliness_remote [OF c k e] by blast
  have f: "last_time = engineTime e"
    "boot = engineBoot e \<and> unat time = unat (engineTime e) + (unat now - unat (lastReceivedEngineTime e)) \<or>
     boot = (if engineBoot e < ENGINEBOOT_MAX then engineBoot e + 1 else engineBoot e)"
    using estimate_forward [OF a n(2) tm(3,2) est] by simp_all
  then have boots: "boot = engineBoot e \<and> unat (engineTime e) \<le> unat time \<or> engineBoot e < boot" if "boot \<noteq> ENGINEBOOT_MAX"
    using that tm(1) by (auto simp: word_le_nat_alt word_less_nat_alt unat_word_ariths word_unat_eq_iff split: if_splits)
  have "B < b \<or> B = b \<and> unat T \<le> unat t + 150" if "rc = SNMPERR_SUCCESS"
  proof -
    have "boot = b \<and> t < last_time \<longrightarrow> unat time \<le> unat t + 150" using acc [OF that] by (auto simp: outside_window)
    then show ?thesis using acc [OF that] boots old f(1) by (auto simp: word_le_nat_alt word_less_nat_alt word_unat_eq_iff)
  qed
  moreover have "fresh h k B T now s'"
  proof (cases "etimelist (u_lcd s') = etimelist (u_lcd s)")
    case True
    then show ?thesis using check_timeliness_elsewhere [OF c] e a old tm k ok by (simp add: fresh_def)
  next
    case False
    then have u: "boot \<noteq> ENGINEBOOT_MAX" "boot \<le> b" "boot = b \<longrightarrow> last_time \<le> t"
      "etimelist (u_lcd s') = update_record h k (heard b t now) (etimelist (u_lcd s))" using upd by blast+
    have "search_enginetime_list h (etimelist (u_lcd s')) k = Some (heard b t now e)"
      using etimes.search_update [OF ok hk heard_engineID] e by (simp add: u(4))
    moreover have "B < b \<or> B = b \<and> T \<le> t"
      using u(2,3) boots [OF u(1)] old f(1) by (auto simp: word_le_nat_alt word_less_nat_alt word_unat_eq_iff)
    moreover have "etimelist_ok h (etimelist (u_lcd s'))"
      unfolding u(4) by (rule etimes.wf_update [OF ok heard_engineID])
    ultimately show ?thesis
      using check_timeliness_elsewhere [OF c] k bt unat_now [OF n(2)] by (auto simp: fresh_def heard_def)
  qed
  ultimately show ?thesis by blast
qed

lemma fresh_run:
  assumes "time_run h s n s' n'" and "fresh h k B T n s"
  shows "fresh h k B T n' s'"
  using assms(1)
proof (induction rule: time_run.induct)
  case (authenticated s1 n1 now b t k' rc s2)
  show ?case
  proof (cases "k' = k")
    case True
    then show ?thesis using accepted_not_old [OF authenticated.IH] authenticated.hyps by blast
  next
    case False
    have "fresh h k B T now s1" using fresh_later [OF authenticated.IH authenticated.hyps(2)] .
    then have "fresh h k B T now (s1\<lparr>u_lcd := u_lcd s2\<rparr>)"
      using check_timeliness_elsewhere [OF authenticated.hyps(6)] fresh_update_other [of h k B T now s1 "u_lcd s2" k' "heard b t now"] False
      by (auto simp: fresh_def)
    then show ?thesis using check_timeliness_elsewhere [OF authenticated.hyps(6)] by (simp add: fresh_def)
  qed
next
  case (unauthenticated s1 n1 now k' b t rc l2)
  have fr: "fresh h k B T now s1" using fresh_later [OF unauthenticated.IH unauthenticated.hyps(2)] .
  obtain f where f: "\<And>e. et_engineID (f e) = et_engineID e" "\<And>e. authenticatedFlag e \<Longrightarrow> f e = e"
    and l2: "etimelist l2 = etimelist (u_lcd s1) \<or> etimelist l2 = update_record h k' f (etimelist (u_lcd s1))"
    using unauthenticated_time [OF unauthenticated.hyps(4)] by blast
  consider (same) "etimelist l2 = etimelist (u_lcd s1)" | (other) "k' \<noteq> k" "etimelist l2 = update_record h k' f (etimelist (u_lcd s1))"
    | (own) "k' = k" "etimelist l2 = update_record h k' f (etimelist (u_lcd s1))" using l2 by blast
  then show ?case
  proof cases
    case same
    then show ?thesis using fr by (simp add: fresh_cong)
  next
    case other
    then show ?thesis using fresh_update_other [OF fr other(2,1) f(1)] by simp
  next
    case own
    obtain e where e: "search_enginetime_list h (etimelist (u_lcd s1)) k = Some e" "authenticatedFlag e"
      and ok: "etimelist_ok h (etimelist (u_lcd s1))" using fr by (auto simp: fresh_def)
    have "hash_engineID h k \<noteq> None" using e by (auto simp: search_enginetime_list_def split: if_splits option.splits)
    then have "search_enginetime_list h (etimelist l2) k = Some e" "etimelist_ok h (etimelist l2)"
      using own etimes.search_update [OF ok _ f(1)] etimes.wf_update [OF ok f(1)] e f(2) by auto
    then show ?thesis using fr e by (auto simp: fresh_def)
  qed
qed (rule assms(2))


subsection \<open>Properties\<close>

text \<open>
  C39 (time window of the local engine).  A message that names the local engine as authoritative is in time exactly
  when its boots value is the local one and not the largest possible one, and its time differs by
  at most 150 seconds from the local time; otherwise the message is refused and counted.
\<close>

theorem timeliness_local:
  assumes "u_engineID s \<noteq> []" and "length (u_engineID s) \<le> 1024"
  shows "(fst (usm_check_and_update_timeliness h now s (u_engineID s) b t) = SNMPERR_SUCCESS \<longleftrightarrow>
      b \<noteq> ENGINEBOOT_MAX \<and> b = ucast (engineBoots (local_clock (u_lcd s))) \<and>
      unat (now AND 0x7fffffff) \<le> unat t + 150 \<and> unat t \<le> unat (now AND 0x7fffffff) + 150) \<and>
    (fst (usm_check_and_update_timeliness h now s (u_engineID s) b t) \<noteq> SNMPERR_SUCCESS \<longrightarrow>
      fst (usm_check_and_update_timeliness h now s (u_engineID s) b t) = SNMPERR_USM_NOTINTIMEWINDOW \<and>
      u_stats (snd (usm_check_and_update_timeliness h now s (u_engineID s) b t)) NotInTimeWindows = u_stats s NotInTimeWindows + 1)"
proof -
  have id: "snmpv3_get_engineID (u_engineID s) 1024 = u_engineID s" using assms(2) by (simp add: snmpv3_get_engineID_def)
  have w: "ucast (ucast (now AND 0x7fffffff) :: u64) = (now AND 0x7fffffff :: u32)" by (rule ucast_up_ucast_id) (simp add: is_up)
  show ?thesis
    using assms(1) outside_window [of "now AND 0x7fffffff" t]
    by (auto simp: usm_check_and_update_timeliness_def id snmpv3_local_snmpEngineTime_def Let_def count_stat_def w)
qed

abbreviation sample_clock :: local_engine where "sample_clock \<equiv> \<lparr>engineBoots = 3, last_engineTime = 100\<rparr>"

theorem timeliness_local_witness:
  "fst (usm_check_and_update_timeliness (\<lambda>_. None) 1000 \<lparr>u_lcd = \<lparr>etimelist = replicate 23 [], local_clock = sample_clock\<rparr>,
     u_engineID = [0x80, 1], u_stats = (\<lambda>_. 0)\<rparr> [0x80, 1] 3 850) = SNMPERR_SUCCESS"
  using timeliness_local [of "\<lparr>u_lcd = \<lparr>etimelist = replicate 23 [], local_clock = sample_clock\<rparr>,
     u_engineID = [0x80, 1], u_stats = (\<lambda>_. 0)\<rparr>" "\<lambda>_. None" 1000 3 850]
  by simp

text \<open>
  C12 (replay protection).  Suppose an authenticated message of a remote engine with boots \<open>B\<close> and time \<open>T\<close> was accepted and recorded.  Whatever
  messages of whatever engines are processed afterwards, authenticated or not, with the local clock running forward: every
  later authenticated message of that engine that is accepted has larger boots, or the same
  boots and a time not more than 150 seconds before \<open>T\<close>.
\<close>

theorem no_late_replay:
  assumes ok: "etimelist_ok h (etimelist (u_lcd s0))" and k: "k \<noteq> u_engineID s0"
    and first: "usm_check_and_update_timeliness h n s0 k B T = (SNMPERR_SUCCESS, s)"
      "search_enginetime_list h (etimelist (u_lcd s)) k = Some (heard B T n e)"
    and bounds: "unat n < 2 ^ 31" "B \<le> ENGINEBOOT_MAX" "T \<le> ENGINETIME_MAX"
    and run: "time_run h s n s1 n1"
    and last: "n1 \<le> now" "unat now < 2 ^ 31" "b \<le> ENGINEBOOT_MAX" "t \<le> ENGINETIME_MAX"
      "usm_check_and_update_timeliness h now s1 k b t = (SNMPERR_SUCCESS, s2)"
  shows "B < b \<or> B = b \<and> unat T \<le> unat t + 150"
proof -
  have "etimelist_ok h (etimelist (u_lcd s)) \<and> k \<noteq> u_engineID s"
    using check_timeliness_elsewhere [OF first(1)] ok k etimes.wf_update [OF ok heard_engineID] by auto
  then have "fresh h k B T n s"
    using first(2) bounds unat_now [OF bounds(1)] by (simp add: fresh_def heard_def)
  from accepted_not_old [OF fresh_run [OF run this] last(1-5)] show ?thesis by simp
qed


text \<open>Two engines whose identifiers fall into different lists.\<close>

abbreviation sample_hash :: sc_hash where "sample_hash \<equiv> (\<lambda>k. Some k)"

abbreviation sample_usm :: usm_state where
  "sample_usm \<equiv> \<lparr>u_lcd = \<lparr>etimelist = (replicate 23 [])[5 := [new_enginetime [5]]], local_clock = sample_clock\<rparr>, u_engineID = [0x80, 1], u_stats = (\<lambda>_. 0)\<rparr>"

lemmas time_eval = usm_check_and_update_timeliness_def snmpv3_get_engineID_def snmpv3_local_snmpEngineTime_def get_enginetime_ex_def
  search_enginetime_list_def hash_engineID_def enginetime_estimate_def set_enginetime_def update_record_def new_enginetime_def
  time_difference_def Let_def

abbreviation sample_heard :: usm_state where
  "sample_heard \<equiv> \<lparr>u_lcd = \<lparr>etimelist = (replicate 23 [])[5 := [heard 7 1000 200 (new_enginetime [5])]], local_clock = \<lparr>engineBoots = 3, last_engineTime = 200\<rparr>\<rparr>,
     u_engineID = [0x80, 1], u_stats = (\<lambda>_. 0)\<rparr>"

lemma sample_first: "usm_check_and_update_timeliness sample_hash 200 sample_usm [5] 7 1000 = (SNMPERR_SUCCESS, sample_heard)"
  by (simp add: time_eval heard_def)

lemma sample_second: "fst (usm_check_and_update_timeliness sample_hash 300 sample_heard [5] 7 990) = SNMPERR_SUCCESS"
  by (simp add: time_eval heard_def)

theorem no_late_replay_witness:
  "fst (usm_check_and_update_timeliness sample_hash 300 (snd (usm_check_and_update_timeliness sample_hash 200 sample_usm [5] 7 1000)) [5] 7 990) = SNMPERR_SUCCESS \<and>
   ((7 :: u32) < 7 \<or> (7 :: u32) = 7 \<and> unat (1000 :: u32) \<le> unat (990 :: u32) + 150)"
proof
  have ok: "etimelist_ok sample_hash (etimelist (u_lcd sample_usm))"
    by (auto simp: etimelist_ok_def hash_engineID_def new_enginetime_def nth_list_update split: if_splits)
  obtain s2 where s2: "usm_check_and_update_timeliness sample_hash 300 sample_heard [5] 7 990 = (SNMPERR_SUCCESS, s2)"
    using sample_second by (metis prod.collapse)
  have rec: "search_enginetime_list sample_hash (etimelist (u_lcd sample_heard)) [5] = Some (heard 7 1000 200 (new_enginetime [5]))"
    by (simp add: time_eval heard_def)
  show "(7 :: u32) < 7 \<or> (7 :: u32) = 7 \<and> unat (1000 :: u32) \<le> unat (990 :: u32) + 150"
    using no_late_replay [OF ok _ sample_first rec _ _ _ time_run.start _ _ _ _ s2] by simp
  show "fst (usm_check_and_update_timeliness sample_hash 300 (snd (usm_check_and_update_timeliness sample_hash 200 sample_usm [5] 7 1000)) [5] 7 990) = SNMPERR_SUCCESS"
    using sample_first sample_second by simp
qed

end
