(* ===== verification/Oid_Compare.thy ===== *)
theory Oid_Compare
  imports Prelude "HOL-Library.List_Lexorder" "HOL-Library.Sublist"
begin

section \<open>Comparison of object identifiers (\<open>snmplib/snmp_api.c\<close>)\<close>

text \<open>
  \<open>snmp_oid_compare\<close>, \<open>snmp_oid_ncompare\<close>, \<open>netsnmp_oid_compare_ll\<close>, \<open>snmp_oidtree_compare\<close>,
  \<open>snmp_oidsubtree_compare\<close>, \<open>netsnmp_oid_equals\<close>, \<open>netsnmp_oid_is_subtree\<close> and
  \<open>netsnmp_oid_find_prefix\<close>.  An object identifier argument (pointer and length) is the list of
  its sub-identifiers, and a call with a smaller length is a call on a prefix; a length fits an
  \<open>int\<close>.  The specification is the lexicographic order on lists.
\<close>

text \<open>The loop that looks for the first difference in \<open>len\<close> sub-identifiers.\<close>

fun oid_loop :: "nat \<Rightarrow> oid \<Rightarrow> oid \<Rightarrow> int option" where
  "oid_loop (Suc len) (x # name1) (y # name2) =
     (if x \<noteq> y then Some (if x < y then -1 else 1) else oid_loop len name1 name2)"
| "oid_loop _ _ _ = None"

definition snmp_oid_ncompare :: "oid \<Rightarrow> oid \<Rightarrow> nat \<Rightarrow> int" where
  "snmp_oid_ncompare name1 name2 max_len =
     (let len1 = length name1; len2 = length name2;
          min_len = (if len1 < len2 then len1 else len2);
          min_len = (if min_len > max_len then max_len else min_len) in
      case oid_loop min_len name1 name2 of
        Some r \<Rightarrow> r
      | None \<Rightarrow> if min_len \<noteq> max_len \<and> len1 < len2 then -1
                else if min_len \<noteq> max_len \<and> len2 < len1 then 1
                else 0)"

definition snmp_oid_compare :: "oid \<Rightarrow> oid \<Rightarrow> int" where
  "snmp_oid_compare name1 name2 =
     (let len1 = length name1; len2 = length name2;
          len = (if len1 < len2 then len1 else len2) in
      case oid_loop len name1 name2 of
        Some r \<Rightarrow> r
      | None \<Rightarrow> if len1 < len2 then -1 else if len2 < len1 then 1 else 0)"

text \<open>The result and \<open>*offpt\<close>; \<open>n\<close> counts the sub-identifiers compared so far.\<close>

fun oid_loop_ll :: "nat \<Rightarrow> nat \<Rightarrow> oid \<Rightarrow> oid \<Rightarrow> (int \<times> nat) option" where
  "oid_loop_ll n (Suc len) (x # name1) (y # name2) =
     (if x \<noteq> y then Some (if x < y then -1 else 1, n + 1) else oid_loop_ll (n + 1) len name1 name2)"
| "oid_loop_ll _ _ _ _ = None"

definition netsnmp_oid_compare_ll :: "oid \<Rightarrow> oid \<Rightarrow> int \<times> nat" where
  "netsnmp_oid_compare_ll name1 name2 =
     (let len1 = length name1; len2 = length name2;
          initlen = (if len1 < len2 then len1 else len2) in
      case oid_loop_ll 0 initlen name1 name2 of
        Some r \<Rightarrow> r
      | None \<Rightarrow> (if len1 < len2 then -1 else if len2 < len1 then 1 else 0, initlen + 1))"

definition snmp_oidtree_compare :: "oid \<Rightarrow> oid \<Rightarrow> int" where
  "snmp_oidtree_compare name1 name2 =
     (let len = (if length name1 < length name2 then length name1 else length name2) in
      snmp_oid_compare (take len name1) (take len name2))"

definition snmp_oidsubtree_compare :: "oid \<Rightarrow> oid \<Rightarrow> int" where
  "snmp_oidsubtree_compare name1 name2 =
     (let len = (if length name1 < length name2 then length name1 else length name2) in
      snmp_oid_compare name1 (take len name2))"

fun oid_equal_loop :: "nat \<Rightarrow> oid \<Rightarrow> oid \<Rightarrow> bool" where
  "oid_equal_loop (Suc len) (x # name1) (y # name2) = (x = y \<and> oid_equal_loop len name1 name2)"
| "oid_equal_loop _ _ _ = True"

text \<open>\<open>0\<close> for equal; a \<open>NULL\<close> pointer is \<open>None\<close>, with the length given apart.\<close>

definition netsnmp_oid_equals :: "oid option \<Rightarrow> nat \<Rightarrow> oid option \<Rightarrow> nat \<Rightarrow> int" where
  "netsnmp_oid_equals name1 len1 name2 len2 =
     (if len1 \<noteq> len2 then 1
      else if len1 = 0 then 0
      else case (name1, name2) of
             (Some n1, Some n2) \<Rightarrow> if oid_equal_loop len1 n1 n2 then 0 else 1
           | _ \<Rightarrow> 1)"

definition netsnmp_oid_is_subtree :: "oid \<Rightarrow> oid \<Rightarrow> int" where
  "netsnmp_oid_is_subtree name1 name2 =
     (if length name1 > length name2 then 1
      else if name1 \<noteq> take (length name1) name2 then 1 else 0)"

fun oid_prefix_loop :: "nat \<Rightarrow> nat \<Rightarrow> oid \<Rightarrow> oid \<Rightarrow> nat" where
  "oid_prefix_loop i (Suc n) (x # name1) (y # name2) =
     (if x \<noteq> y then i else oid_prefix_loop (i + 1) n name1 name2)"
| "oid_prefix_loop i _ _ _ = i"

definition netsnmp_oid_find_prefix :: "oid option \<Rightarrow> oid option \<Rightarrow> int" where
  "netsnmp_oid_find_prefix name1 name2 =
     (case (name1, name2) of
        (Some n1, Some n2) \<Rightarrow>
          if length n1 = 0 \<or> length n2 = 0 then -1
          else if n1 ! 0 \<noteq> n2 ! 0 then 0
          else int (oid_prefix_loop 0 (min (length n1) (length n2)) n1 n2)
      | _ \<Rightarrow> -1)"


subsection \<open>The lexicographic order\<close>

lemma oid_compare_lex:
  "snmp_oid_compare a b = (if a < b then -1 else if a = b then 0 else 1)"
proof (induction a arbitrary: b)
  case Nil
  then show ?case by (cases b) (simp_all add: snmp_oid_compare_def)
next
  case (Cons x a)
  show ?case
  proof (cases b)
    case Nil
    then show ?thesis by (simp add: snmp_oid_compare_def)
  next
    case b: (Cons y b')
    have "snmp_oid_compare (x # a) (y # b') =
        (if x \<noteq> y then if x < y then -1 else 1 else snmp_oid_compare a b')"
      by (simp add: snmp_oid_compare_def Let_def)
    then show ?thesis unfolding b using Cons [of b'] by (auto simp: not_less)
  qed
qed

lemma oid_loop_take: "n \<le> m \<Longrightarrow> oid_loop n (take m a) (take m b) = oid_loop n a b"
  by (induction n a b arbitrary: m rule: oid_loop.induct) (auto simp: take_Cons split: nat.splits)

lemma oid_ncompare_take: "snmp_oid_ncompare a b n = snmp_oid_compare (take n a) (take n b)"
proof -
  let ?m = "min (min (length a) (length b)) n"
  have "oid_loop ?m (take n a) (take n b) = oid_loop ?m a b" by (rule oid_loop_take) simp
  moreover have "snmp_oid_compare (take n a) (take n b) = (case oid_loop ?m (take n a) (take n b) of
      Some r \<Rightarrow> r
    | None \<Rightarrow> if min (length a) n < min (length b) n then -1 else if min (length b) n < min (length a) n then 1 else 0)"
    by (auto simp: snmp_oid_compare_def Let_def min_def intro!: arg_cong [where f = "case_option _ _"])
  moreover have "snmp_oid_ncompare a b n = (case oid_loop ?m a b of
      Some r \<Rightarrow> r
    | None \<Rightarrow> if ?m \<noteq> n \<and> length a < length b then -1 else if ?m \<noteq> n \<and> length b < length a then 1 else 0)"
    by (auto simp: snmp_oid_ncompare_def Let_def min_def)
  ultimately show ?thesis by (auto split: option.splits simp: min_def)
qed

lemma oid_loop_ll:
  "oid_loop_ll n len a b = None \<longleftrightarrow> oid_loop len a b = None"
  "oid_loop_ll n len a b = Some (r, k) \<Longrightarrow> oid_loop len a b = Some r \<and> n < k \<and> k \<le> n + len \<and>
     k - n \<le> length a \<and> k - n \<le> length b \<and>
     take (k - n - 1) a = take (k - n - 1) b \<and> a ! (k - n - 1) \<noteq> b ! (k - n - 1)"
proof (induction n len a b rule: oid_loop_ll.induct)
  case (1 n len x a y b)
  {
    case 1
    then show ?case using "1.IH" by (cases "x = y") simp_all
  next
    case 2
    show ?case
    proof (cases "x = y")
      case True
      with "1.IH"(2) 2 have ih: "oid_loop len a b = Some r" "n + 1 < k" "k \<le> n + 1 + len"
          "k - (n + 1) \<le> length a" "k - (n + 1) \<le> length b"
          "take (k - (n + 1) - 1) a = take (k - (n + 1) - 1) b" "a ! (k - (n + 1) - 1) \<noteq> b ! (k - (n + 1) - 1)"
        by auto
      obtain m where m: "k = n + 2 + m" using ih(2) by (metis add.commute add_2_eq_Suc' add_Suc less_iff_Suc_add plus_1_eq_Suc)
      then show ?thesis using True ih by simp
    next
      case False
      with 2 show ?thesis by auto
    qed
  }
qed auto

lemma oid_equal_loop_iff: "length a = n \<Longrightarrow> length b = n \<Longrightarrow> oid_equal_loop n a b \<longleftrightarrow> a = b"
proof (induction n arbitrary: a b)
  case (Suc n)
  then show ?case by (cases a; cases b) auto
qed simp

lemma oid_prefix_loop_lcp:
  "oid_prefix_loop i (min (length a) (length b)) a b = i + length (longest_common_prefix a b)"
proof (induction a arbitrary: b i)
  case Nil
  then show ?case by simp
next
  case (Cons x a)
  then show ?case by (cases b) simp_all
qed


subsection \<open>Properties\<close>

text \<open>
  C13 (object identifiers are compared lexicographically).  \<open>snmp_oid_compare\<close> returns -1, 0 or 1
  as its first argument is before, equal to or after the second in the lexicographic order of
  the sub-identifiers taken as unsigned numbers; \<open>snmp_oid_ncompare\<close> does the same for the
  prefixes of the given length, and \<open>netsnmp_oid_compare_ll\<close> returns the same result.
\<close>

theorem snmp_oid_compare_lexicographic:
  "snmp_oid_compare a b = (if a < b then -1 else if a = b then 0 else 1) \<and>
   snmp_oid_ncompare a b n = (if take n a < take n b then -1 else if take n a = take n b then 0 else 1) \<and>
   fst (netsnmp_oid_compare_ll a b) = snmp_oid_compare a b"
proof (intro conjI)
  show "snmp_oid_compare a b = (if a < b then -1 else if a = b then 0 else 1)" by (rule oid_compare_lex)
  show "snmp_oid_ncompare a b n = (if take n a < take n b then -1 else if take n a = take n b then 0 else 1)"
    unfolding oid_ncompare_take by (rule oid_compare_lex)
  show "fst (netsnmp_oid_compare_ll a b) = snmp_oid_compare a b"
    using oid_loop_ll [of 0 "if length a < length b then length a else length b" a b]
    by (auto simp: netsnmp_oid_compare_ll_def snmp_oid_compare_def Let_def split: option.splits)
qed

lemma prefix_take: "prefix a b \<longleftrightarrow> a = take (length a) b" for a b :: oid
  by (metis prefix_def append_eq_conv_conj append_take_drop_id)

text \<open>
  \<open>netsnmp_oid_is_subtree\<close> returns 0 exactly when the second object identifier is equal to the first or below it, as the
  description of the function says.  The note on its return value promises 0 if one is a prefix of the other, which
  the code does not do when the second is a proper prefix of the first.
\<close>

lemma oid_is_subtree_prefix:
  "netsnmp_oid_is_subtree a b = 0 \<longleftrightarrow> prefix a b"
  "strict_prefix b a \<Longrightarrow> netsnmp_oid_is_subtree a b = 1"
  using prefix_length_le [of a b] by (auto simp: netsnmp_oid_is_subtree_def prefix_take dest: prefix_length_less)

text \<open>
  C38 (the subtree tests).  \<open>snmp_oidsubtree_compare\<close> returns 0 exactly
  when the first object identifier is a prefix of the second, \<open>snmp_oidtree_compare\<close> exactly when
  one is a prefix of the other, \<open>netsnmp_oid_equals\<close> exactly when they are equal, and
  \<open>netsnmp_oid_find_prefix\<close> of two object identifiers that are not empty returns the length of their longest common prefix.
\<close>

theorem oid_subtree_tests:
  "(snmp_oidsubtree_compare a b = 0 \<longleftrightarrow> prefix a b) \<and>
   (snmp_oidtree_compare a b = 0 \<longleftrightarrow> prefix a b \<or> prefix b a) \<and>
   (netsnmp_oid_equals (Some a) (length a) (Some b) (length b) = 0 \<longleftrightarrow> a = b) \<and>
   netsnmp_oid_find_prefix (Some (x # a)) (Some (y # b)) = int (length (longest_common_prefix (x # a) (y # b)))"
proof (intro conjI)
  show "snmp_oidsubtree_compare a b = 0 \<longleftrightarrow> prefix a b"
    using prefix_length_le [of a b]
    by (auto simp: snmp_oidsubtree_compare_def oid_compare_lex prefix_take Let_def split: if_splits)
  show "snmp_oidtree_compare a b = 0 \<longleftrightarrow> prefix a b \<or> prefix b a"
    using prefix_length_le [of a b] prefix_length_le [of b a]
    by (auto simp: snmp_oidtree_compare_def oid_compare_lex prefix_take Let_def split: if_splits)
  show "netsnmp_oid_equals (Some a) (length a) (Some b) (length b) = 0 \<longleftrightarrow> a = b"
    using oid_equal_loop_iff [of a "length a" b] by (auto simp: netsnmp_oid_equals_def)
  show "netsnmp_oid_find_prefix (Some (x # a)) (Some (y # b)) = int (length (longest_common_prefix (x # a) (y # b)))"
    using oid_prefix_loop_lcp [of 0 "x # a" "y # b"] by (auto simp: netsnmp_oid_find_prefix_def)
qed

end
