(* ===== verification/Scapi.thy ===== *)
theory Scapi
  imports Oid_Compare
begin

unbundle bit_operations_syntax

section \<open>Keyed hashes and decryption (\<open>snmplib/scapi.c\<close>)\<close>

text \<open>
  The checks that \<open>scapi.c\<close> makes around the cryptographic library, in the build with OpenSSL, DES and AES.  The library itself is an
  argument: \<open>hmac\<close> for \<open>HMAC\<close>, \<open>des\<close> for \<open>DES_cbc_encrypt\<close> and \<open>aes\<close> for \<open>AES_cfb128_encrypt\<close> with key, initialisation
  vector and text.  Keys are byte lists, \<open>NULL\<close> and the empty key are the same; lengths fit in
  \<open>u_int\<close>.  \<open>None\<close> is \<open>SNMPERR_GENERR\<close>.  As the comment of the macro
  says, \<open>ISTRANSFORM\<close> is meant for protocol identifiers of at least ten components.
\<close>

datatype hash_alg = EVP_md5 | EVP_sha1

type_synonym hmac = "hash_alg \<Rightarrow> bytes \<Rightarrow> bytes \<Rightarrow> bytes"
type_synonym cipher = "bytes \<Rightarrow> bytes \<Rightarrow> bytes \<Rightarrow> bytes"

abbreviation (input) USM_LENGTH_OID_TRANSFORM :: nat where "USM_LENGTH_OID_TRANSFORM \<equiv> 10"
abbreviation (input) USM_MD5_AND_SHA_AUTH_LEN :: nat where "USM_MD5_AND_SHA_AUTH_LEN \<equiv> 12"

definition usmNoAuthProtocol :: oid where "usmNoAuthProtocol = [1, 3, 6, 1, 6, 3, 10, 1, 1, 1]"
definition usmHMACMD5AuthProtocol :: oid where "usmHMACMD5AuthProtocol = [1, 3, 6, 1, 6, 3, 10, 1, 1, 2]"
definition usmHMACSHA1AuthProtocol :: oid where "usmHMACSHA1AuthProtocol = [1, 3, 6, 1, 6, 3, 10, 1, 1, 3]"
definition usmNoPrivProtocol :: oid where "usmNoPrivProtocol = [1, 3, 6, 1, 6, 3, 10, 1, 2, 1]"
definition usmDESPrivProtocol :: oid where "usmDESPrivProtocol = [1, 3, 6, 1, 6, 3, 10, 1, 2, 2]"
definition usmAESPrivProtocol :: oid where "usmAESPrivProtocol = [1, 3, 6, 1, 6, 3, 10, 1, 2, 4]"

lemmas usm_protocols = usmNoAuthProtocol_def usmHMACMD5AuthProtocol_def usmHMACSHA1AuthProtocol_def
  usmNoPrivProtocol_def usmDESPrivProtocol_def usmAESPrivProtocol_def

definition ISTRANSFORM :: "oid \<Rightarrow> oid \<Rightarrow> bool" where
  "ISTRANSFORM ttype toid \<longleftrightarrow> snmp_oid_compare (take USM_LENGTH_OID_TRANSFORM ttype) (take USM_LENGTH_OID_TRANSFORM toid) = 0"


subsection \<open>Authentication\<close>

definition sc_get_properlength :: "oid \<Rightarrow> nat option" where
  "sc_get_properlength hashtype =
     (if ISTRANSFORM hashtype usmHMACMD5AuthProtocol then Some 16
      else if ISTRANSFORM hashtype usmHMACSHA1AuthProtocol then Some 20
      else None)"

definition sc_generate_keyed_hash :: "hmac \<Rightarrow> oid \<Rightarrow> bytes \<Rightarrow> bytes \<Rightarrow> nat \<Rightarrow> bytes option" where
  "sc_generate_keyed_hash hmac authtype key message maclen =
     (if authtype = [] \<or> key = [] \<or> message = [] \<or> maclen = 0 \<or> length authtype \<noteq> USM_LENGTH_OID_TRANSFORM then None
      else case sc_get_properlength authtype of
        None \<Rightarrow> None
      | Some properlength \<Rightarrow>
          if length key < properlength then None
          else if ISTRANSFORM authtype usmHMACMD5AuthProtocol then Some (take maclen (hmac EVP_md5 key message))
          else if ISTRANSFORM authtype usmHMACSHA1AuthProtocol then Some (take maclen (hmac EVP_sha1 key message))
          else None)"

text \<open>The buffer for the hash has 512 bytes.\<close>

definition sc_check_keyed_hash :: "hmac \<Rightarrow> oid \<Rightarrow> bytes \<Rightarrow> bytes \<Rightarrow> bytes \<Rightarrow> bool" where
  "sc_check_keyed_hash hmac authtype key message MAC \<longleftrightarrow>
     \<not> (authtype = [] \<or> key = [] \<or> message = [] \<or> MAC = [] \<or> length authtype \<noteq> USM_LENGTH_OID_TRANSFORM) \<and>
     length MAC = USM_MD5_AND_SHA_AUTH_LEN \<and>
     (case sc_generate_keyed_hash hmac authtype key message 512 of
        None \<Rightarrow> False
      | Some buf \<Rightarrow> \<not> length MAC > length message \<and> take (length MAC) buf = MAC)"


subsection \<open>Privacy\<close>

text \<open>The length of the key and of the initialisation vector.\<close>

definition proper_lengths :: "oid \<Rightarrow> (nat \<times> nat) option" where
  "proper_lengths privtype =
     (if ISTRANSFORM privtype usmAESPrivProtocol then Some (16, 16)
      else if ISTRANSFORM privtype usmDESPrivProtocol then Some (8, 8)
      else None)"

text \<open>The plaintext has the length of the ciphertext; \<open>ptlen\<close> is the room for it.\<close>

definition sc_decrypt :: "cipher \<Rightarrow> cipher \<Rightarrow> oid \<Rightarrow> bytes \<Rightarrow> bytes \<Rightarrow> bytes \<Rightarrow> nat \<Rightarrow> bytes option" where
  "sc_decrypt des aes privtype key iv ciphertext ptlen =
     (if privtype = [] \<or> key = [] \<or> iv = [] \<or> ciphertext = [] \<or> ptlen = 0 \<or> ptlen < length ciphertext \<or>
        length privtype \<noteq> USM_LENGTH_OID_TRANSFORM then None
      else case proper_lengths privtype of
        None \<Rightarrow> None
      | Some (properlength, properlength_iv) \<Rightarrow>
          if length key < properlength \<or> length iv < properlength_iv then None
          else if ISTRANSFORM privtype usmDESPrivProtocol then Some (des (take 8 key) iv ciphertext)
          else Some (aes (take properlength key) iv ciphertext))"


subsection \<open>What the checks give\<close>

lemma ISTRANSFORM_iff: "length toid = 10 \<Longrightarrow> ISTRANSFORM ttype toid \<longleftrightarrow> take 10 ttype = toid"
  by (auto simp: ISTRANSFORM_def oid_compare_lex)

definition hash_of :: "oid \<Rightarrow> hash_alg option" where
  "hash_of authtype =
     (if authtype = usmHMACMD5AuthProtocol then Some EVP_md5
      else if authtype = usmHMACSHA1AuthProtocol then Some EVP_sha1 else None)"

text \<open>
  A message is accepted when its code is the first 96 bits of the keyed hash, for one of the two
  hash functions and a key that is long enough for it.
\<close>

lemma sc_check_keyed_hash_iff:
  "sc_check_keyed_hash hmac authtype key message MAC \<longleftrightarrow>
     (\<exists>alg. hash_of authtype = Some alg \<and> length key \<ge> (case alg of EVP_md5 \<Rightarrow> 16 | EVP_sha1 \<Rightarrow> 20) \<and>
        length MAC = 12 \<and> 12 \<le> length message \<and> MAC = take 12 (take 512 (hmac alg key message)))"
proof (cases "length authtype = 10")
  case True
  then have t: "take 10 authtype = authtype" by simp
  have m: "ISTRANSFORM authtype usmHMACMD5AuthProtocol \<longleftrightarrow> authtype = usmHMACMD5AuthProtocol"
    "ISTRANSFORM authtype usmHMACSHA1AuthProtocol \<longleftrightarrow> authtype = usmHMACSHA1AuthProtocol"
    by (simp_all add: ISTRANSFORM_iff usm_protocols t)
  have ne: "usmHMACMD5AuthProtocol \<noteq> usmHMACSHA1AuthProtocol" by (simp add: usm_protocols)
  consider "authtype = usmHMACMD5AuthProtocol" | "authtype = usmHMACSHA1AuthProtocol"
    | "authtype \<noteq> usmHMACMD5AuthProtocol" "authtype \<noteq> usmHMACSHA1AuthProtocol" by blast
  then show ?thesis
  proof cases
    case 1
    then show ?thesis
      using True unfolding sc_check_keyed_hash_def sc_generate_keyed_hash_def sc_get_properlength_def hash_of_def m
      by (cases "length key < 16"; cases "length MAC = 12") auto
  next
    case 2
    then show ?thesis
      using True ne unfolding sc_check_keyed_hash_def sc_generate_keyed_hash_def sc_get_properlength_def hash_of_def m
      by (cases "length key < 20"; cases "length MAC = 12") auto
  next
    case 3
    then show ?thesis
      unfolding sc_check_keyed_hash_def sc_generate_keyed_hash_def sc_get_properlength_def hash_of_def m by simp
  qed
next
  case False
  then show ?thesis by (auto simp: sc_check_keyed_hash_def hash_of_def usm_protocols)
qed

end
