(* ===== verification/Container_Sort.thy ===== *)
theory Container_Sort
  imports Prelude "HOL-Library.Multiset"
begin

section \<open>The sort of the binary array container (\<open>snmplib/container_binary_array.c\<close>)\<close>

text \<open>
  \<open>array_qsort\<close>: the in-place quicksort that the container runs before it searches.  The two inner
  scans are \<open>scan_up\<close> and \<open>scan_down\<close>, the \<open>do ... while\<close> loop is \<open>qsort_loop\<close>, each with its
  termination proof; indices are integers because the C code lets \<open>j\<close> pass below \<open>first\<close>.  The
  comparison function is a parameter.  \<open>compare_order\<close> is the contract the sort and the searches
  rely on: the function orders entries by a key with a linear order.
\<close>

subsection \<open>Quicksort\<close>

function scan_up :: "('a \<Rightarrow> 'a \<Rightarrow> int) \<Rightarrow> 'a list \<Rightarrow> int \<Rightarrow> 'a \<Rightarrow> int \<Rightarrow> int" where
  "scan_up f data lst mid i =
     (if i < lst \<and> f (data ! nat i) mid < 0 then scan_up f data lst mid (i + 1) else i)"
  by pat_completeness auto
termination
  by (relation "measure (\<lambda>(f, data, lst, mid, i). nat (lst - i))") simp_all

function scan_down :: "('a \<Rightarrow> 'a \<Rightarrow> int) \<Rightarrow> 'a list \<Rightarrow> int \<Rightarrow> 'a \<Rightarrow> int \<Rightarrow> int" where
  "scan_down f data first mid j =
     (if j > first \<and> f mid (data ! nat j) < 0 then scan_down f data first mid (j - 1) else j)"
  by pat_completeness auto
termination
  by (relation "measure (\<lambda>(f, data, first, mid, j). nat (j - first))") simp_all

declare scan_up.simps [simp del] scan_down.simps [simp del]

lemma scan_up_spec:
  "i \<le> scan_up f data lst mid i \<and> scan_up f data lst mid i \<le> max i lst \<and>
   (\<forall>m. i \<le> m \<and> m < scan_up f data lst mid i \<longrightarrow> f (data ! nat m) mid < 0) \<and>
   (scan_up f data lst mid i < lst \<longrightarrow> \<not> f (data ! nat (scan_up f data lst mid i)) mid < 0)"
proof (induction f data lst mid i rule: scan_up.induct)
  case (1 f data lst mid i)
  show ?case
  proof (cases "i < lst \<and> f (data ! nat i) mid < 0")
    case True
    have e: "scan_up f data lst mid i = scan_up f data lst mid (i + 1)"
      using True by (subst scan_up.simps) simp
    have "f (data ! nat m) mid < 0" if "i \<le> m" "m < scan_up f data lst mid (i + 1)" for m
      using 1 [OF True] True that by (cases "m = i") auto
    then show ?thesis unfolding e using 1 [OF True] True by auto
  next
    case False
    then have "scan_up f data lst mid i = i" by (subst scan_up.simps) auto
    with False show ?thesis by auto
  qed
qed

lemma scan_down_spec:
  "scan_down f data first mid j \<le> j \<and> min j first \<le> scan_down f data first mid j \<and>
   (\<forall>m. scan_down f data first mid j < m \<and> m \<le> j \<longrightarrow> f mid (data ! nat m) < 0) \<and>
   (first < scan_down f data first mid j \<longrightarrow> \<not> f mid (data ! nat (scan_down f data first mid j)) < 0)"
proof (induction f data first mid j rule: scan_down.induct)
  case (1 f data first mid j)
  show ?case
  proof (cases "j > first \<and> f mid (data ! nat j) < 0")
    case True
    have e: "scan_down f data first mid j = scan_down f data first mid (j - 1)"
      using True by (subst scan_down.simps) simp
    have "f mid (data ! nat m) < 0" if "m \<le> j" "scan_down f data first mid (j - 1) < m" for m
      using 1 [OF True] True that by (cases "m = j") auto
    then show ?thesis unfolding e using 1 [OF True] True by auto
  next
    case False
    then have "scan_down f data first mid j = j" by (subst scan_down.simps) auto
    with False show ?thesis by auto
  qed
qed

lemmas scan_spec = scan_up_spec [THEN conjunct1] scan_up_spec [THEN conjunct2, THEN conjunct1]
  scan_down_spec [THEN conjunct1] scan_down_spec [THEN conjunct2, THEN conjunct1]

text \<open>The \<open>do ... while (i <= j)\<close> loop of \<open>array_qsort\<close>.\<close>

function qsort_loop ::
  "('a \<Rightarrow> 'a \<Rightarrow> int) \<Rightarrow> int \<Rightarrow> int \<Rightarrow> 'a \<Rightarrow> 'a list \<Rightarrow> int \<Rightarrow> int \<Rightarrow> 'a list \<times> int \<times> int" where
  "qsort_loop f first lst mid data i j =
     (let i1 = scan_up f data lst mid i;
          j1 = scan_down f data first mid j in
      if i1 < j1 then
        let tmp = data ! nat i1;
            data' = (data[nat i1 := data ! nat j1])[nat j1 := tmp] in
        if i1 + 1 \<le> j1 - 1 then qsort_loop f first lst mid data' (i1 + 1) (j1 - 1)
        else (data', i1 + 1, j1 - 1)
      else if i1 = j1 then (data, i1 + 1, j1 - 1)
      else (data, i1, j1))"
  by pat_completeness auto
termination
proof (relation "measure (\<lambda>(f, first, lst, mid, data, i, j). nat (j - i))", goal_cases)
  case 1
  then show ?case by simp
next
  case (2 f first lst mid data i j i1 j1 tmp data')
  then show ?case
    using scan_spec(1) [of i f data lst mid] scan_spec(3) [of f data first mid j] by simp
qed

declare qsort_loop.simps [simp del]

lemma qsort_loop_progress:
  assumes "qsort_loop f first lst mid data i j = (data', i', j')" and "i \<le> lst" and "first \<le> j" and "first \<le> i" and "j \<le> lst"
  shows "i \<le> i' \<and> j' \<le> j \<and> (i < i' \<and> j' < j \<or> j' < i' \<and> i' \<le> lst \<and> first \<le> j')"
  using assms
proof (induction f first lst mid data i j rule: qsort_loop.induct)
  case (1 f first lst mid data i j)
  define i1 where "i1 = scan_up f data lst mid i"
  define j1 where "j1 = scan_down f data first mid j"
  have b: "i \<le> i1" "i1 \<le> lst" "j1 \<le> j" "first \<le> j1"
    using scan_spec(1) [of i f data lst mid] scan_spec(2) [of f data lst mid i] scan_spec(3) [of f data first mid j] scan_spec(4) [of j first f data mid] "1.prems"(2,3)
    by (simp_all add: i1_def j1_def)
  consider (rec) "i1 < j1" "i1 + 1 \<le> j1 - 1" | (swap) "i1 < j1" "\<not> i1 + 1 \<le> j1 - 1" | (meet) "i1 = j1" | (past) "j1 < i1"
    by linarith
  then show ?case
  proof cases
    case rec
    define d where "d = (data[nat i1 := data ! nat j1])[nat j1 := data ! nat i1]"
    have "qsort_loop f first lst mid d (i1 + 1) (j1 - 1) = (data', i', j')"
      using "1.prems"(1) rec by (subst (asm) qsort_loop.simps) (simp add: Let_def flip: i1_def j1_def d_def)
    then have "i1 + 1 \<le> i' \<and> j' \<le> j1 - 1"
      using "1.IH" [OF i1_def j1_def rec(1) refl _ rec(2), of d] rec b "1.prems"(4,5) by (auto simp: d_def)
    with b show ?thesis by linarith
  next
    case swap
    then show ?thesis
      using "1.prems"(1) b by (subst (asm) qsort_loop.simps) (auto simp: Let_def simp flip: i1_def j1_def)
  next
    case meet
    then show ?thesis
      using "1.prems"(1) b by (subst (asm) qsort_loop.simps) (auto simp: Let_def simp flip: i1_def j1_def)
  next
    case past
    then show ?thesis
      using "1.prems"(1) b by (subst (asm) qsort_loop.simps) (auto simp: Let_def simp flip: i1_def j1_def)
  qed
qed

lemma qsort_loop_shrinks:
  assumes "qsort_loop f first lst mid data first lst = (data', i, j)"
  shows "first < j \<Longrightarrow> j < lst" and "i < lst \<Longrightarrow> first < i" and "first < j \<Longrightarrow> first < lst" and "i < lst \<Longrightarrow> first < lst"
proof -
  have "first \<le> lst \<or> lst < first" by linarith
  then have "(first < j \<longrightarrow> j < lst) \<and> (i < lst \<longrightarrow> first < i)"
  proof
    assume "first \<le> lst"
    with qsort_loop_progress [OF assms] show ?thesis by auto
  next
    assume lt: "lst < first"
    then have "scan_up f data lst mid first = first" "scan_down f data first mid lst = lst"
      by (subst scan_up.simps scan_down.simps; simp)+
    with assms lt show ?thesis by (subst (asm) qsort_loop.simps) simp
  qed
  then show "first < j \<Longrightarrow> j < lst" and "i < lst \<Longrightarrow> first < i" and "first < j \<Longrightarrow> first < lst" and "i < lst \<Longrightarrow> first < lst" by auto
qed

text \<open>
  The positions are unbounded integers; in C they are of type \<open>int\<close>, and \<open>(first + last) / 2\<close> is the same for arrays
  of at most \<open>2 ^ 30\<close> entries.
\<close>

function array_qsort :: "('a \<Rightarrow> 'a \<Rightarrow> int) \<Rightarrow> 'a list \<Rightarrow> int \<Rightarrow> int \<Rightarrow> 'a list" where
  "array_qsort f data first lst =
     (case qsort_loop f first lst (data ! nat ((first + lst) div 2)) data first lst of
        (data1, i, j) \<Rightarrow>
          let data2 = (if j > first then array_qsort f data1 first j else data1) in
          if i < lst then array_qsort f data2 i lst else data2)"
  by pat_completeness auto
termination
  by (relation "measure (\<lambda>(f, data, first, lst). nat (lst - first))")
     (auto dest: qsort_loop_shrinks [OF sym])

declare array_qsort.simps [simp del]


text \<open>
  What a sorting step on the slots \<open>lo .. hi\<close> may do: permute them, and leave the others alone.
\<close>

definition permuted :: "int \<Rightarrow> int \<Rightarrow> 'a list \<Rightarrow> 'a list \<Rightarrow> bool" where
  "permuted lo hi xs ys \<longleftrightarrow> length ys = length xs \<and> mset ys = mset xs \<and>
     (\<forall>m\<ge>0. (m < lo \<or> hi < m) \<longrightarrow> ys ! nat m = xs ! nat m) \<and>
     (\<forall>m. lo \<le> m \<and> m \<le> hi \<longrightarrow> (\<exists>k. lo \<le> k \<and> k \<le> hi \<and> ys ! nat m = xs ! nat k))"

lemma permuted_refl [simp]: "permuted lo hi xs xs"
  unfolding permuted_def by blast

lemma permutedD:
  assumes "permuted lo hi xs ys"
  shows "length ys = length xs" "mset ys = mset xs"
    and "0 \<le> m \<Longrightarrow> m < lo \<or> hi < m \<Longrightarrow> ys ! nat m = xs ! nat m"
    and "lo \<le> m \<Longrightarrow> m \<le> hi \<Longrightarrow> \<exists>k. lo \<le> k \<and> k \<le> hi \<and> ys ! nat m = xs ! nat k"
  using assms by (auto simp: permuted_def)

lemma permuted_trans:
  assumes "permuted lo hi xs ys" and "permuted lo hi ys zs"
  shows "permuted lo hi xs zs"
proof -
  have "\<exists>k. lo \<le> k \<and> k \<le> hi \<and> zs ! nat m = xs ! nat k" if "lo \<le> m" "m \<le> hi" for m
  proof -
    obtain k where k: "lo \<le> k" "k \<le> hi" "zs ! nat m = ys ! nat k"
      using permutedD(4) [OF assms(2) \<open>lo \<le> m\<close> \<open>m \<le> hi\<close>] by blast
    with permutedD(4) [OF assms(1), of k] show ?thesis by simp
  qed
  with assms show ?thesis by (simp add: permuted_def)
qed

lemma permuted_mono:
  assumes "permuted lo hi xs ys" and "lo' \<le> lo" and "hi \<le> hi'" and "0 \<le> lo'"
  shows "permuted lo' hi' xs ys"
proof -
  have "\<exists>k. lo' \<le> k \<and> k \<le> hi' \<and> ys ! nat m = xs ! nat k" if "lo' \<le> m" "m \<le> hi'" for m
  proof (cases "lo \<le> m \<and> m \<le> hi")
    case True
    then obtain k where "lo \<le> k" "k \<le> hi" "ys ! nat m = xs ! nat k"
      using permutedD(4) [OF assms(1)] by blast
    with assms(2,3) show ?thesis by (meson order_trans)
  next
    case False
    with that assms(4) have "ys ! nat m = xs ! nat m" by (intro permutedD(3) [OF assms(1)]) auto
    with that show ?thesis by blast
  qed
  with assms show ?thesis by (auto simp: permuted_def)
qed

lemma permuted_swap:
  assumes "lo \<le> i" and "i \<le> hi" and "lo \<le> j" and "j \<le> hi" and "0 \<le> lo" and "hi < int (length xs)"
  shows "permuted lo hi xs ((xs[nat i := xs ! nat j])[nat j := xs ! nat i])" (is "permuted lo hi xs ?ys")
proof -
  have nth: "?ys ! nat m = xs ! nat (if m = j then i else if m = i then j else m)" if "0 \<le> m" for m
    using that assms by (auto simp: nth_list_update)
  have "mset ?ys = mset xs" using assms by (intro mset_swap) auto
  moreover have "\<exists>k. lo \<le> k \<and> k \<le> hi \<and> ?ys ! nat m = xs ! nat k" if "lo \<le> m" "m \<le> hi" for m
    using nth [of m] that assms by (intro exI [of _ "if m = j then i else if m = i then j else m"]) auto
  moreover have "?ys ! nat m = xs ! nat m" if "0 \<le> m" "m < lo \<or> hi < m" for m
    using nth [of m] that assms by auto
  ultimately show ?thesis by (auto simp: permuted_def)
qed

text \<open>The contract of a comparison function, and the sort under it.\<close>

locale compare_order =
  fixes cmp :: "'a \<Rightarrow> 'a \<Rightarrow> int" and key :: "'a \<Rightarrow> 'k::linorder"
  assumes cmp_less: "cmp a b < 0 \<longleftrightarrow> key a < key b"
    and cmp_eq: "cmp a b = 0 \<longleftrightarrow> key a = key b"
begin

lemma qsort_loop_partition:
  assumes "qsort_loop cmp first lst mid data i j = (data', i', j')"
    and "0 \<le> first" and "lst < int (length data)" and "first \<le> i" and "j \<le> lst"
    and "\<And>m. first \<le> m \<Longrightarrow> m < i \<Longrightarrow> key (data ! nat m) \<le> key mid"
    and "\<And>m. j < m \<Longrightarrow> m \<le> lst \<Longrightarrow> key mid \<le> key (data ! nat m)"
    and "\<exists>k. i \<le> k \<and> k \<le> lst \<and> key mid \<le> key (data ! nat k)"
    and "\<exists>k. first \<le> k \<and> k \<le> j \<and> key (data ! nat k) \<le> key mid"
  shows "permuted first lst data data' \<and> j' < i' \<and> first - 1 \<le> j' \<and> i' \<le> lst + 1 \<and>
    (\<forall>m. first \<le> m \<and> m < i' \<longrightarrow> key (data' ! nat m) \<le> key mid) \<and>
    (\<forall>m. j' < m \<and> m \<le> lst \<longrightarrow> key mid \<le> key (data' ! nat m))"
  using assms
proof (induction "nat (j - i)" arbitrary: data i j rule: less_induct)
  case less
  define i1 where "i1 = scan_up cmp data lst mid i"
  define j1 where "j1 = scan_down cmp data first mid j"
  obtain ku where ku: "i \<le> ku" "ku \<le> lst" "key mid \<le> key (data ! nat ku)" using less.prems(8) by blast
  obtain kd where kd: "first \<le> kd" "kd \<le> j" "key (data ! nat kd) \<le> key mid" using less.prems(9) by blast
  have up: "i \<le> i1" "i1 \<le> lst" "\<And>m. i \<le> m \<Longrightarrow> m < i1 \<Longrightarrow> key (data ! nat m) < key mid"
      "i1 < lst \<Longrightarrow> key mid \<le> key (data ! nat i1)"
    using scan_up_spec [of i cmp data lst mid] ku(1,2) by (auto simp: i1_def cmp_less)
  have down: "j1 \<le> j" "first \<le> j1" "\<And>m. j1 < m \<Longrightarrow> m \<le> j \<Longrightarrow> key mid < key (data ! nat m)"
      "first < j1 \<Longrightarrow> key (data ! nat j1) \<le> key mid"
    using scan_down_spec [of cmp data first mid j] kd(1,2) by (auto simp: j1_def cmp_less)
  have "ku = lst" if "i1 = lst" using up(3) [of ku] ku that by force
  then have pi: "key mid \<le> key (data ! nat i1)" using up(2,4) ku(3) by (cases "i1 = lst") auto
  have "kd = first" if "j1 = first" using down(3) [of kd] kd that by force
  then have pj: "key (data ! nat j1) \<le> key mid" using down(2,4) kd(3) by (cases "j1 = first") auto
  have lo: "key (data ! nat m) \<le> key mid" if "first \<le> m" "m < i1" for m
    using less.prems(6) [of m] up(3) [of m] that by (cases "m < i") auto
  have hi: "key mid \<le> key (data ! nat m)" if "j1 < m" "m \<le> lst" for m
    using less.prems(7) [of m] down(3) [of m] that by (cases "j < m") auto
  note eq = less.prems(1) [unfolded qsort_loop.simps [of cmp first lst mid data i j], folded i1_def j1_def]
  consider (swap) "i1 < j1" | (meet) "i1 = j1" | (past) "j1 < i1" by linarith
  then show ?case
  proof cases
    case swap
    define d where "d = (data[nat i1 := data ! nat j1])[nat j1 := data ! nat i1]"
    have b: "first \<le> i1" "i1 \<le> lst" "first \<le> j1" "j1 \<le> lst"
      using up down less.prems(4,5) swap by linarith+
    have perm: "permuted first lst data d"
      unfolding d_def using b less.prems(2,3) by (intro permuted_swap) auto
    have nth: "d ! nat m = data ! nat (if m = j1 then i1 else if m = i1 then j1 else m)" if "0 \<le> m" for m
      using that b less.prems(2,3) by (auto simp: d_def nth_list_update)
    have lo': "key (d ! nat m) \<le> key mid" if "first \<le> m" "m < i1 + 1" for m
      using that swap lo [of m] pj less.prems(2) nth [of m] by auto
    have hi': "key mid \<le> key (d ! nat m)" if "j1 - 1 < m" "m \<le> lst" for m
      using that swap hi [of m] pi less.prems(2) b nth [of m] by auto
    have len: "length d = length data" by (simp add: d_def)
    show ?thesis
    proof (cases "i1 + 1 \<le> j1 - 1")
      case True
      have "permuted first lst d data' \<and> j' < i' \<and> first - 1 \<le> j' \<and> i' \<le> lst + 1 \<and>
        (\<forall>m. first \<le> m \<and> m < i' \<longrightarrow> key (data' ! nat m) \<le> key mid) \<and>
        (\<forall>m. j' < m \<and> m \<le> lst \<longrightarrow> key mid \<le> key (data' ! nat m))"
      proof (rule less.hyps)
        show "nat (j1 - 1 - (i1 + 1)) < nat (j - i)" using up(1) down(1) swap by linarith
        show "qsort_loop cmp first lst mid d (i1 + 1) (j1 - 1) = (data', i', j')"
          using eq swap True by (simp add: Let_def flip: d_def)
        show "\<exists>k\<ge>i1 + 1. k \<le> lst \<and> key mid \<le> key (d ! nat k)"
          using hi' [of j1] b swap by (intro exI [of _ j1]) auto
        show "\<exists>k\<ge>first. k \<le> j1 - 1 \<and> key (d ! nat k) \<le> key mid"
          using lo' [of i1] b swap by (intro exI [of _ i1]) auto
      qed (use less.prems(2,3) len b lo' hi' in auto)
      with permuted_trans [OF perm] show ?thesis by blast
    next
      case False
      then have "data' = d" "i' = i1 + 1" "j' = j1 - 1"
        using eq swap by (simp_all add: Let_def flip: d_def)
      with perm False swap b lo' hi' show ?thesis by auto
    qed
  next
    case meet
    then have "data' = data" "i' = i1 + 1" "j' = j1 - 1" using eq by (simp_all add: Let_def)
    moreover have "key (data ! nat m) \<le> key mid" if "first \<le> m" "m < i1 + 1" for m
      using that lo [of m] pj meet by (cases "m = i1") auto
    moreover have "key mid \<le> key (data ! nat m)" if "j1 - 1 < m" "m \<le> lst" for m
      using that hi [of m] pi meet by (cases "m = j1") auto
    ultimately show ?thesis using up(2) down(2) meet by auto
  next
    case past
    then have "data' = data" "i' = i1" "j' = j1" using eq by (simp_all add: Let_def)
    then show ?thesis using up(2) down(2) past lo hi by auto
  qed
qed

lemma array_qsort_sorts:
  assumes "0 \<le> first" and "first \<le> lst" and "lst < int (length data)"
  shows "permuted first lst data (array_qsort cmp data first lst) \<and>
    (\<forall>a b. first \<le> a \<and> a \<le> b \<and> b \<le> lst \<longrightarrow>
      key (array_qsort cmp data first lst ! nat a) \<le> key (array_qsort cmp data first lst ! nat b))"
  using assms
proof (induction "nat (lst - first)" arbitrary: data first lst rule: less_induct)
  case less
  define mid where "mid = data ! nat ((first + lst) div 2)"
  obtain d1 i j where q: "qsort_loop cmp first lst mid data first lst = (d1, i, j)"
    using prod_cases3 by blast
  have c: "first \<le> (first + lst) div 2" "(first + lst) div 2 \<le> lst" using less.prems(2) by auto
  have mid_in: "\<exists>k\<ge>first. k \<le> lst \<and> key mid \<le> key (data ! nat k)"
      "\<exists>k\<ge>first. k \<le> lst \<and> key (data ! nat k) \<le> key mid"
    using c by (auto simp: mid_def intro!: exI [of _ "(first + lst) div 2"])
  have "permuted first lst data d1 \<and> j < i \<and> first - 1 \<le> j \<and> i \<le> lst + 1 \<and>
      (\<forall>m. first \<le> m \<and> m < i \<longrightarrow> key (d1 ! nat m) \<le> key mid) \<and>
      (\<forall>m. j < m \<and> m \<le> lst \<longrightarrow> key mid \<le> key (d1 ! nat m))"
    by (rule qsort_loop_partition [OF q less.prems(1,3) order_refl order_refl _ _ mid_in]) auto
  then have part: "permuted first lst data d1" "j < i" "first - 1 \<le> j" "i \<le> lst + 1"
      "\<And>m. first \<le> m \<Longrightarrow> m < i \<Longrightarrow> key (d1 ! nat m) \<le> key mid"
      "\<And>m. j < m \<Longrightarrow> m \<le> lst \<Longrightarrow> key mid \<le> key (d1 ! nat m)"
    by blast+
  have prog: "first < j \<Longrightarrow> j < lst" "i < lst \<Longrightarrow> first < i"
    using qsort_loop_shrinks [OF q] by blast+
  note len1 = permutedD(1) [OF part(1)]
  define d2 where "d2 = (if j > first then array_qsort cmp d1 first j else d1)"
  define d3 where "d3 = (if i < lst then array_qsort cmp d2 i lst else d2)"
  have res: "array_qsort cmp data first lst = d3"
    by (subst array_qsort.simps) (simp add: d3_def d2_def q Let_def flip: mid_def)
  have s2: "permuted first j d1 d2 \<and>
      (\<forall>a b. first \<le> a \<and> a \<le> b \<and> b \<le> j \<longrightarrow> key (d2 ! nat a) \<le> key (d2 ! nat b))"
  proof (cases "j > first")
    case True
    then show ?thesis using less.hyps [of j first d1] prog(1) less.prems len1 by (simp add: d2_def)
  next
    case False
    then have "key (d1 ! nat a) \<le> key (d1 ! nat b)" if "first \<le> a" "a \<le> b" "b \<le> j" for a b
      using that by (cases "a = b") auto
    with False show ?thesis by (simp add: d2_def)
  qed
  note p2 = conjunct1 [OF s2] and o2 = conjunct2 [OF s2]
  note len2 = permutedD(1) [OF p2]
  have s3: "permuted i lst d2 d3 \<and>
      (\<forall>a b. i \<le> a \<and> a \<le> b \<and> b \<le> lst \<longrightarrow> key (d3 ! nat a) \<le> key (d3 ! nat b))"
  proof (cases "i < lst")
    case True
    then show ?thesis using less.hyps [of lst i d2] prog(2) less.prems len1 len2 by (simp add: d3_def)
  next
    case False
    then have "key (d2 ! nat a) \<le> key (d2 ! nat b)" if "i \<le> a" "a \<le> b" "b \<le> lst" for a b
      using that by (cases "a = b") auto
    with False show ?thesis by (simp add: d3_def)
  qed
  note p3 = conjunct1 [OF s3] and o3 = conjunct2 [OF s3]
  have d3_lo: "d3 ! nat m = d2 ! nat m" if "first \<le> m" "m < i" for m
    using that less.prems(1) by (intro permutedD(3) [OF p3]) auto
  have lo: "key (d3 ! nat m) \<le> key mid" if "first \<le> m" "m < i" for m
  proof (cases "m \<le> j")
    case True
    then obtain k where "first \<le> k" "k \<le> j" "d2 ! nat m = d1 ! nat k"
      using permutedD(4) [OF p2 \<open>first \<le> m\<close> True] by blast
    then show ?thesis using part(2) part(5) [of k] d3_lo [OF that] by simp
  next
    case False
    then have "d2 ! nat m = d1 ! nat m" using that less.prems(1) by (intro permutedD(3) [OF p2]) auto
    then show ?thesis using part(5) [OF that] d3_lo [OF that] by simp
  qed
  have d2_hi: "d2 ! nat m = d1 ! nat m" if "j < m" "m \<le> lst" for m
    using that less.prems(1) part(3) by (intro permutedD(3) [OF p2]) auto
  have hi: "key mid \<le> key (d3 ! nat m)" if "j < m" "m \<le> lst" for m
  proof (cases "i \<le> m")
    case True
    then obtain k where "i \<le> k" "k \<le> lst" "d3 ! nat m = d2 ! nat k"
      using permutedD(4) [OF p3 True \<open>m \<le> lst\<close>] by blast
    then show ?thesis using part(2) part(6) [of k] d2_hi [of k] by simp
  next
    case False
    then have "d3 ! nat m = d2 ! nat m" using that less.prems(1) part(3) by (intro permutedD(3) [OF p3]) auto
    then show ?thesis using part(6) [OF that] d2_hi [OF that] by simp
  qed
  have "key (d3 ! nat a) \<le> key (d3 ! nat b)" if "first \<le> a" "a \<le> b" "b \<le> lst" for a b
  proof -
    consider "b \<le> j" | "i \<le> a" | "a < i" "j < b" by linarith
    then show ?thesis
    proof cases
      case 1
      then show ?thesis using o2 that d3_lo part(2) by simp
    next
      case 2
      then show ?thesis using o3 that by blast
    next
      case 3
      then show ?thesis using lo [of a] hi [of b] that by force
    qed
  qed
  moreover have "permuted first lst data d3"
    using permuted_trans [OF part(1) permuted_trans [OF permuted_mono [OF p2] permuted_mono [OF p3]]]
      part(2-4) less.prems(1) prog len1 by auto
  ultimately show ?case unfolding res by blast
qed

end

end
