(* ===== verification/Container_Compare.thy ===== *)
theory Container_Compare
  imports Container_Sort Oid_Compare "HOL-Library.Char_ord"
begin

section \<open>Comparison functions of the containers (\<open>snmplib/container.c\<close>)\<close>

text \<open>
  The comparison routines containers are created with.  An entry whose first member is the key
  (a \<open>netsnmp_index\<close>, a name, a number) is a pair of that key and the rest of the structure.
  \<open>strcmp\<close>, \<open>strncmp\<close> and \<open>memcmp\<close> are the C library's; only the sign of their result is used, so
  they return -1, 0 or 1 here.  \<open>memcmp\<close> here ends with 0 where a list runs out; its callers compare names that carry their
  length in front, or buffers of at least \<open>n\<close> bytes, so that this does not happen before a difference.  A C string is a \<open>string\<close> without the terminating zero.  Each routine
  satisfies the contract \<open>compare_order\<close>.
\<close>

fun strcmp :: "string \<Rightarrow> string \<Rightarrow> int" where
  "strcmp [] [] = 0"
| "strcmp [] (y # ys) = -1"
| "strcmp (x # xs) [] = 1"
| "strcmp (x # xs) (y # ys) = (if x < y then -1 else if y < x then 1 else strcmp xs ys)"

definition strncmp :: "string \<Rightarrow> string \<Rightarrow> nat \<Rightarrow> int" where
  "strncmp xs ys n = strcmp (take n xs) (take n ys)"

fun memcmp :: "bytes \<Rightarrow> bytes \<Rightarrow> nat \<Rightarrow> int" where
  "memcmp (x # xs) (y # ys) (Suc n) = (if x < y then -1 else if y < x then 1 else memcmp xs ys n)"
| "memcmp _ _ _ = 0"

definition netsnmp_compare_netsnmp_index :: "oid \<times> 'v \<Rightarrow> oid \<times> 'v \<Rightarrow> int" where
  "netsnmp_compare_netsnmp_index lhs rhs = snmp_oid_compare (fst lhs) (fst rhs)"

definition netsnmp_ncompare_netsnmp_index :: "oid \<times> 'v \<Rightarrow> oid \<times> 'v \<Rightarrow> int" where
  "netsnmp_ncompare_netsnmp_index lhs rhs = snmp_oid_ncompare (fst lhs) (fst rhs) (length (fst rhs))"

definition netsnmp_compare_cstring :: "string \<times> 'v \<Rightarrow> string \<times> 'v \<Rightarrow> int" where
  "netsnmp_compare_cstring lhs rhs = strcmp (fst lhs) (fst rhs)"

definition netsnmp_ncompare_cstring :: "string \<times> 'v \<Rightarrow> string \<times> 'v \<Rightarrow> int" where
  "netsnmp_ncompare_cstring lhs rhs = strncmp (fst lhs) (fst rhs) (length (fst rhs))"

definition netsnmp_compare_direct_cstring :: "string \<Rightarrow> string \<Rightarrow> int" where
  "netsnmp_compare_direct_cstring lhs rhs = strcmp lhs rhs"

definition netsnmp_compare_mem :: "bytes \<Rightarrow> bytes \<Rightarrow> int" where
  "netsnmp_compare_mem lhs rhs =
     (let lhs_len = length lhs; rhs_len = length rhs;
          min1 = (if lhs_len < rhs_len then lhs_len else rhs_len);
          rc = memcmp lhs rhs min1 in
      if rc = 0 \<and> lhs_len \<noteq> rhs_len then (if lhs_len < rhs_len then -1 else 1) else rc)"

definition netsnmp_compare_long :: "u64 \<times> 'v \<Rightarrow> u64 \<times> 'v \<Rightarrow> int" where
  "netsnmp_compare_long lhs rhs =
     (if fst lhs <s fst rhs then -1 else if fst rhs <s fst lhs then 1 else 0)"

definition netsnmp_compare_ulong :: "u64 \<times> 'v \<Rightarrow> u64 \<times> 'v \<Rightarrow> int" where
  "netsnmp_compare_ulong lhs rhs = (if fst lhs < fst rhs then -1 else if fst lhs > fst rhs then 1 else 0)"

definition netsnmp_compare_int32 :: "u32 \<times> 'v \<Rightarrow> u32 \<times> 'v \<Rightarrow> int" where
  "netsnmp_compare_int32 lhs rhs =
     (if fst lhs <s fst rhs then -1 else if fst rhs <s fst lhs then 1 else 0)"

definition netsnmp_compare_uint32 :: "u32 \<times> 'v \<Rightarrow> u32 \<times> 'v \<Rightarrow> int" where
  "netsnmp_compare_uint32 lhs rhs = (if fst lhs < fst rhs then -1 else if fst lhs > fst rhs then 1 else 0)"


subsection \<open>They are total orders\<close>

lemma strcmp_lex: "strcmp a b = (if a < b then -1 else if a = b then 0 else 1)"
  by (induction a b rule: strcmp.induct) auto

lemma memcmp_lex:
  "netsnmp_compare_mem a b = (if a < b then -1 else if a = b then 0 else 1)"
proof (induction a arbitrary: b)
  case Nil
  then show ?case by (cases b) (auto simp: netsnmp_compare_mem_def)
next
  case (Cons x a)
  show ?case
  proof (cases b)
    case Nil
    then show ?thesis by (simp add: netsnmp_compare_mem_def)
  next
    case b: (Cons y b')
    have "netsnmp_compare_mem (x # a) (y # b') =
        (if x < y then -1 else if y < x then 1 else netsnmp_compare_mem a b')"
      by (auto simp: netsnmp_compare_mem_def Let_def)
    then show ?thesis unfolding b using Cons [of b'] by (auto simp: not_less)
  qed
qed

interpretation index_order: compare_order netsnmp_compare_netsnmp_index "fst :: oid \<times> 'v \<Rightarrow> oid"
  by unfold_locales (auto simp: netsnmp_compare_netsnmp_index_def oid_compare_lex)

interpretation cstring_order: compare_order netsnmp_compare_cstring "fst :: string \<times> 'v \<Rightarrow> string"
  by unfold_locales (auto simp: netsnmp_compare_cstring_def strcmp_lex)

interpretation direct_order: compare_order netsnmp_compare_direct_cstring "\<lambda>s. s"
  by unfold_locales (auto simp: netsnmp_compare_direct_cstring_def strcmp_lex)

interpretation mem_order: compare_order netsnmp_compare_mem "\<lambda>s. s"
  by unfold_locales (auto simp: memcmp_lex)

interpretation long_order: compare_order netsnmp_compare_long "\<lambda>e :: u64 \<times> 'v. sint (fst e)"
  by unfold_locales (auto simp: netsnmp_compare_long_def word_sless_alt signed_word_eqI)

interpretation ulong_order: compare_order netsnmp_compare_ulong "fst :: u64 \<times> 'v \<Rightarrow> u64"
  by unfold_locales (auto simp: netsnmp_compare_ulong_def)

interpretation int32_order: compare_order netsnmp_compare_int32 "\<lambda>e :: u32 \<times> 'v. sint (fst e)"
  by unfold_locales (auto simp: netsnmp_compare_int32_def word_sless_alt signed_word_eqI)

interpretation uint32_order: compare_order netsnmp_compare_uint32 "fst :: u32 \<times> 'v \<Rightarrow> u32"
  by unfold_locales (auto simp: netsnmp_compare_uint32_def)

end
