(* ===== verification/Usm_User.thy ===== *)
theory Usm_User
  imports Scapi Container_Compare "HOL-Library.Product_Lexorder"
begin

unbundle bit_operations_syntax

section \<open>The users of the security model (\<open>snmplib/snmpusm.c\<close>)\<close>

text \<open>
  \<open>struct usmUser\<close> and the list of users: \<open>usm_get_user_from_list\<close>, \<open>usm_add_user_to_list\<close>, \<open>usm_remove_user_from_list\<close>,
  \<open>usm_check_secLevel\<close> and \<open>usm_check_secLevel_vs_protocols\<close>.  The doubly linked list is a list; a user is a pointer, so
  \<open>usm_remove_user_from_list\<close> gets the position of the node.  A user name is a C string without its
  terminating zero, never \<open>NULL\<close>; an engine identifier may be \<open>NULL\<close> (\<open>None\<close>).
\<close>

abbreviation (input) SNMP_SEC_LEVEL_NOAUTH :: nat where "SNMP_SEC_LEVEL_NOAUTH \<equiv> 1"
abbreviation (input) SNMP_SEC_LEVEL_AUTHNOPRIV :: nat where "SNMP_SEC_LEVEL_AUTHNOPRIV \<equiv> 2"
abbreviation (input) SNMP_SEC_LEVEL_AUTHPRIV :: nat where "SNMP_SEC_LEVEL_AUTHPRIV \<equiv> 3"
abbreviation (input) RS_ACTIVE :: nat where "RS_ACTIVE \<equiv> 1"

record usmUser =
  us_engineID :: "bytes option"
  us_name :: bytes
  us_authProtocol :: oid
  us_authKey :: bytes
  us_privProtocol :: oid
  us_privKey :: "bytes option"
  us_userStatus :: nat

definition engineIDLen :: "usmUser \<Rightarrow> nat" where
  "engineIDLen u = (case us_engineID u of None \<Rightarrow> 0 | Some e \<Rightarrow> length e)"

text \<open>A byte buffer read as a C string.\<close>

definition cstr :: "bytes \<Rightarrow> bytes" where
  "cstr bs = takeWhile (\<lambda>b. b \<noteq> 0) bs"


subsection \<open>Lookup\<close>

text \<open>
  The identifier that is looked for is a buffer; the call with \<open>engineID == NULL\<close>, which finds a user without
  an identifier, is not represented.
\<close>

definition user_matches :: "bytes \<Rightarrow> bytes \<Rightarrow> usmUser \<Rightarrow> bool" where
  "user_matches engineID name u \<longleftrightarrow> us_name u = cstr name \<and> engineIDLen u = length engineID \<and>
     (case us_engineID u of None \<Rightarrow> False | Some e \<Rightarrow> memcmp e engineID (length engineID) = 0)"

definition usm_get_user_from_list :: "bytes \<Rightarrow> bytes \<Rightarrow> usmUser list \<Rightarrow> usmUser option \<Rightarrow> bool \<Rightarrow> usmUser option" where
  "usm_get_user_from_list engineID name puserList noNameUser use_default =
     (case find (user_matches engineID name) puserList of
        Some u \<Rightarrow> Some u
      | None \<Rightarrow> if use_default \<and> cstr name = [] then noNameUser else None)"


subsection \<open>Insertion\<close>

definition same_engine :: "usmUser \<Rightarrow> usmUser \<Rightarrow> bool" where
  "same_engine nptr user \<longleftrightarrow> engineIDLen nptr = engineIDLen user \<and>
     (us_engineID nptr = None \<and> us_engineID user = None \<or>
      memcmp (the (us_engineID nptr)) (the (us_engineID user)) (engineIDLen user) = 0)"

definition strcmp_name :: "bytes \<Rightarrow> bytes \<Rightarrow> int" where
  "strcmp_name a b = netsnmp_compare_mem a b"

fun usm_add_user_to_list :: "usmUser \<Rightarrow> usmUser list \<Rightarrow> usmUser list" where
  "usm_add_user_to_list user [] = [user]"
| "usm_add_user_to_list user (nptr # rest) =
     (if engineIDLen nptr > engineIDLen user then user # nptr # rest
      else if us_engineID user = None \<and> us_engineID nptr \<noteq> None then user # nptr # rest
      else if engineIDLen nptr = engineIDLen user \<and> us_engineID nptr \<noteq> None \<and> us_engineID user \<noteq> None \<and>
        memcmp (the (us_engineID nptr)) (the (us_engineID user)) (engineIDLen user) > 0 then user # nptr # rest
      else if us_engineID nptr = None \<and> us_engineID user \<noteq> None then nptr # usm_add_user_to_list user rest
      else if same_engine nptr user \<and> length (us_name nptr) > length (us_name user) then user # nptr # rest
      else if same_engine nptr user \<and> length (us_name nptr) = length (us_name user) \<and> strcmp_name (us_name nptr) (us_name user) > 0
      then user # nptr # rest
      else if same_engine nptr user \<and> length (us_name nptr) = length (us_name user) \<and> strcmp_name (us_name nptr) (us_name user) = 0
      then user # rest
      else nptr # usm_add_user_to_list user rest)"

text \<open>\<open>NULL\<close> is the result when the list is empty or does not have the node.\<close>

definition usm_remove_user_from_list :: "nat \<Rightarrow> usmUser list \<Rightarrow> usmUser list option \<times> usmUser list" where
  "usm_remove_user_from_list i users =
     (if users = [] then (None, users)
      else if i < length users then let users' = take i users @ drop (Suc i) users in (Some users', users')
      else (None, users))"


subsection \<open>Security levels\<close>

abbreviation same_oid :: "oid \<Rightarrow> oid \<Rightarrow> bool" where
  "same_oid a b \<equiv> netsnmp_oid_equals (Some a) (length a) (Some b) (length b) = 0"

definition usm_check_secLevel_vs_protocols :: "nat \<Rightarrow> oid \<Rightarrow> oid \<Rightarrow> int" where
  "usm_check_secLevel_vs_protocols level authProtocol privProtocol =
     (if level = SNMP_SEC_LEVEL_AUTHPRIV \<and> same_oid privProtocol usmNoPrivProtocol then 1
      else if (level = SNMP_SEC_LEVEL_AUTHPRIV \<or> level = SNMP_SEC_LEVEL_AUTHNOPRIV) \<and>
        same_oid authProtocol usmNoAuthProtocol then 1
      else 0)"

definition usm_check_secLevel :: "nat \<Rightarrow> usmUser \<Rightarrow> int" where
  "usm_check_secLevel level user =
     (if us_userStatus user \<noteq> RS_ACTIVE then - 1
      else if level = SNMP_SEC_LEVEL_AUTHPRIV \<and> same_oid (us_privProtocol user) usmNoPrivProtocol then 1
      else if (level = SNMP_SEC_LEVEL_AUTHPRIV \<or> level = SNMP_SEC_LEVEL_AUTHNOPRIV) \<and>
        same_oid (us_authProtocol user) usmNoAuthProtocol then 1
      else 0)"


subsection \<open>The list is sorted by its index\<close>

definition ukey :: "usmUser \<Rightarrow> nat \<times> bool \<times> bytes \<times> nat \<times> bytes" where
  "ukey u = (engineIDLen u, us_engineID u \<noteq> None, case us_engineID u of None \<Rightarrow> [] | Some e \<Rightarrow> e, length (us_name u), us_name u)"

definition users_sorted :: "usmUser list \<Rightarrow> bool" where
  "users_sorted us \<longleftrightarrow> sorted_wrt (<) (map ukey us)"

lemma memcmp_equal_length: "length a = length b \<Longrightarrow> memcmp a b (length b) = netsnmp_compare_mem a b"
  by (simp add: netsnmp_compare_mem_def)


text \<open>The order of the keys, once the lengths of the identifiers agree.\<close>

definition name_less :: "usmUser \<Rightarrow> usmUser \<Rightarrow> bool" where
  "name_less u v \<longleftrightarrow> length (us_name u) < length (us_name v) \<or> length (us_name u) = length (us_name v) \<and> us_name u < us_name v"

lemma prod_less: "(x :: 'a :: linorder, y :: 'b :: linorder) < (x', y') \<longleftrightarrow> x < x' \<or> x = x' \<and> y < y'"
  by (auto simp: order_le_less)

lemma ukey_less:
  "ukey u < ukey v \<longleftrightarrow> engineIDLen u < engineIDLen v \<or> engineIDLen u = engineIDLen v \<and>
     (case (us_engineID u, us_engineID v) of
        (None, None) \<Rightarrow> name_less u v
      | (None, Some _) \<Rightarrow> True
      | (Some _, None) \<Rightarrow> False
      | (Some a, Some b) \<Rightarrow> a < b \<or> a = b \<and> name_less u v)"
  by (cases "us_engineID u"; cases "us_engineID v") (simp_all add: ukey_def prod_less name_less_def del: less_prod_simp)

lemma ukey_eq: "ukey u = ukey v \<longleftrightarrow> us_engineID u = us_engineID v \<and> us_name u = us_name v"
  by (cases "us_engineID u"; cases "us_engineID v") (auto simp: ukey_def engineIDLen_def)

lemma add_user_key:
  "usm_add_user_to_list user (nptr # rest) =
     (if ukey user < ukey nptr then user # nptr # rest
      else if ukey nptr = ukey user then user # rest
      else nptr # usm_add_user_to_list user rest)"
proof (cases "engineIDLen nptr = engineIDLen user")
  case False
  then show ?thesis by (auto simp: ukey_less ukey_eq engineIDLen_def same_engine_def split: option.splits)
next
  case True
  have n: "strcmp_name (us_name nptr) (us_name user) = (if us_name nptr < us_name user then -1 else if us_name nptr = us_name user then 0 else 1)"
    by (simp add: strcmp_name_def memcmp_lex)
  have nl: "name_less user nptr \<longleftrightarrow> length (us_name nptr) > length (us_name user) \<or>
      length (us_name nptr) = length (us_name user) \<and> strcmp_name (us_name nptr) (us_name user) > 0"
    unfolding n name_less_def by (cases "us_name nptr < us_name user"; cases "us_name nptr = us_name user") auto
  have ne: "us_name nptr = us_name user \<longleftrightarrow>
      length (us_name nptr) = length (us_name user) \<and> strcmp_name (us_name nptr) (us_name user) = 0"
    unfolding n by (cases "us_name nptr < us_name user"; cases "us_name nptr = us_name user") auto
  show ?thesis
  proof (cases "us_engineID nptr"; cases "us_engineID user")
    fix a b assume ab: "us_engineID nptr = Some a" "us_engineID user = Some b"
    then have l: "length a = length b" using True by (simp add: engineIDLen_def)
    have m: "memcmp a b (length b) = (if a < b then -1 else if a = b then 0 else 1)"
      using memcmp_equal_length [OF l] by (simp add: memcmp_lex)
    consider "a < b" | "a = b" | "b < a" using linorder_less_linear by blast
    then show ?thesis using True ab l m nl ne by cases (auto simp: ukey_less ukey_eq same_engine_def engineIDLen_def)
  qed (use True nl ne in \<open>auto simp: ukey_less ukey_eq same_engine_def engineIDLen_def\<close>)
qed


declare usm_add_user_to_list.simps(2) [simp del]

lemma users_sorted_Cons: "users_sorted (n # us) \<longleftrightarrow> users_sorted us \<and> (\<forall>v\<in>set us. ukey n < ukey v)"
  by (auto simp: users_sorted_def simp del: less_prod_simp)

lemma add_user_set:
  "users_sorted us \<Longrightarrow> set (usm_add_user_to_list u us) = insert u {v \<in> set us. ukey v \<noteq> ukey u}"
proof (induction us)
  case (Cons n us)
  have tail: "users_sorted us" "\<And>v. v \<in> set us \<Longrightarrow> ukey n < ukey v" using Cons.prems by (simp_all add: users_sorted_Cons)
  consider "ukey u < ukey n" | "ukey n = ukey u" | "ukey n < ukey u" using linorder_less_linear by blast
  then show ?case
  proof cases
    case 1
    then have "ukey v \<noteq> ukey u" if "v \<in> set us" for v using tail(2) [OF that] by (metis less_asym)
    with 1 show ?thesis by (auto simp: add_user_key)
  next
    case 2
    then have "ukey v \<noteq> ukey u" if "v \<in> set us" for v using tail(2) [OF that] by (metis less_irrefl)
    with 2 show ?thesis by (auto simp: add_user_key)
  next
    case 3
    then show ?thesis using Cons.IH [OF tail(1)] by (auto simp: add_user_key dest: less_asym less_imp_neq)
  qed
qed simp

lemma add_user_sorted: "users_sorted us \<Longrightarrow> users_sorted (usm_add_user_to_list u us)"
proof (induction us)
  case (Cons n us)
  have tail: "users_sorted us" "\<And>v. v \<in> set us \<Longrightarrow> ukey n < ukey v" using Cons.prems by (simp_all add: users_sorted_Cons)
  consider "ukey u < ukey n" | "ukey n = ukey u" | "ukey n < ukey u" using linorder_less_linear by blast
  then show ?case
  proof cases
    case 1
    then show ?thesis using Cons.prems tail by (auto simp: add_user_key users_sorted_Cons intro: less_trans)
  next
    case 2
    then show ?thesis using tail by (simp add: add_user_key users_sorted_Cons)
  next
    case 3
    then have "\<forall>v\<in>set (usm_add_user_to_list u us). ukey n < ukey v" using tail add_user_set [OF tail(1)] by simp
    moreover have "\<not> ukey u < ukey n" "ukey n \<noteq> ukey u" using 3 by (metis less_asym, metis less_irrefl)
    ultimately show ?thesis using Cons.IH [OF tail(1)] by (simp add: add_user_key users_sorted_Cons)
  qed
qed (simp add: users_sorted_def)

lemma users_distinct: "users_sorted us \<Longrightarrow> inj_on ukey (set us)"
  by (simp add: users_sorted_def strict_sorted_iff distinct_map)

lemma find_unique:
  assumes "users_sorted us" and "\<And>u v. P u \<Longrightarrow> P v \<Longrightarrow> ukey u = ukey v"
  shows "find P us = Some u \<longleftrightarrow> u \<in> set us \<and> P u"
proof
  show "find P us = Some u \<Longrightarrow> u \<in> set us \<and> P u" by (auto simp: find_Some_iff)
  assume u: "u \<in> set us \<and> P u"
  then obtain v where v: "find P us = Some v" by (metis find_None_iff not_Some_eq)
  then have "v \<in> set us" "P v" by (auto simp: find_Some_iff)
  then show "find P us = Some u" using v u assms(2) inj_onD [OF users_distinct [OF assms(1)]] by metis
qed

lemma user_matches_key:
  "user_matches engineID name u \<longleftrightarrow> us_engineID u = Some engineID \<and> us_name u = cstr name"
proof (cases "us_engineID u")
  case (Some e)
  have "memcmp e engineID (length engineID) = 0 \<longleftrightarrow> e = engineID" if "length e = length engineID"
    using memcmp_equal_length [OF that] by (simp add: memcmp_lex)
  then show ?thesis using Some by (auto simp: user_matches_def engineIDLen_def)
qed (simp add: user_matches_def)

lemma find_user:
  "users_sorted us \<Longrightarrow> find (user_matches engineID name) us = Some v \<longleftrightarrow>
     v \<in> set us \<and> us_engineID v = Some engineID \<and> us_name v = cstr name"
  using find_unique [of us "user_matches engineID name" v] by (simp add: user_matches_key ukey_eq)

text \<open>
  C40 (user list).  The list of users stays sorted by the index of the \<open>usmUserTable\<close>, which is the length and octets of the engine identifier and the
  length and octets of the name, without duplicates; after \<open>usm_add_user\<close> a lookup of the user's own engine and
  name gives the new user, also when it replaces one with other credentials, and every other lookup gives what it gave before.
\<close>

theorem usm_add_user_lookup:
  assumes "users_sorted us" and "us_engineID u = Some eid"
  shows "users_sorted (usm_add_user_to_list u us) \<and>
    usm_get_user_from_list engineID name (usm_add_user_to_list u us) noNameUser dflt =
      (if engineID = eid \<and> cstr name = us_name u then Some u
       else usm_get_user_from_list engineID name us noNameUser dflt)"
proof
  show s: "users_sorted (usm_add_user_to_list u us)" by (rule add_user_sorted [OF assms(1)])
  have "find (user_matches engineID name) (usm_add_user_to_list u us) = Some v \<longleftrightarrow>
      (if engineID = eid \<and> cstr name = us_name u then Some u else find (user_matches engineID name) us) = Some v" for v
    unfolding find_user [OF s] add_user_set [OF assms(1)]
    using find_user [OF assms(1), of engineID name v] assms(2) by (auto simp: ukey_eq)
  then have "find (user_matches engineID name) (usm_add_user_to_list u us) =
      (if engineID = eid \<and> cstr name = us_name u then Some u else find (user_matches engineID name) us)"
    by (metis not_Some_eq)
  then show "usm_get_user_from_list engineID name (usm_add_user_to_list u us) noNameUser dflt =
      (if engineID = eid \<and> cstr name = us_name u then Some u else usm_get_user_from_list engineID name us noNameUser dflt)"
    by (simp add: usm_get_user_from_list_def)
qed

abbreviation sample_user :: usmUser where
  "sample_user \<equiv> \<lparr>us_engineID = Some [0x80, 1], us_name = [0x61], us_authProtocol = [1], us_authKey = [1, 2], us_privProtocol = [2], us_privKey = None, us_userStatus = RS_ACTIVE\<rparr>"

theorem usm_add_user_lookup_witness:
  "usm_get_user_from_list [0x80, 1] [0x61, 0, 7] (usm_add_user_to_list sample_user [sample_user\<lparr>us_authKey := [9]\<rparr>]) None False = Some sample_user"
  using usm_add_user_lookup [of "[sample_user\<lparr>us_authKey := [9]\<rparr>]" sample_user "[0x80, 1]" "[0x80, 1]" "[0x61, 0, 7]" None False]
  by (simp add: users_sorted_def cstr_def)

end
