(* ===== verification/Asn1_Base.thy ===== *)
theory Asn1_Base
  imports Prelude
begin

unbundle bit_operations_syntax

section \<open>BER tags, lengths and headers (\<open>snmplib/asn1.c\<close>)\<close>

text \<open>
  The tag and length layer of the BER codec: \<open>asn_parse_length\<close>, \<open>asn_build_length\<close>,
  \<open>asn_parse_header\<close>, \<open>asn_build_header\<close>, \<open>asn_parse_sequence\<close>,
  \<open>asn_build_sequence\<close>, \<open>asn_check_packet\<close> and the two checks every typed codec runs after
  them.  A decoder takes the packet, the index \<open>data\<close> of the object and \<open>datalength\<close>, and
  returns the index after the object, the new \<open>datalength\<close> and its other out-parameters.  An
  encoder takes and returns the packet, the index and \<open>datalength\<close>.  The out-parameters of a
  call that returns \<open>NULL\<close> are not part of its result: no caller reads them.

  \<open>enc_length\<close> and \<open>enc_header\<close> are the abstract encodings; \<open>builds f enc\<close> says that an
  encoder stores exactly the bytes \<open>enc\<close>, touches nothing else, and fails without an access
  outside the buffer when \<open>datalength\<close> is too small.
\<close>

subsection \<open>Tags\<close>

abbreviation (input) ASN_INTEGER :: u8 where "ASN_INTEGER \<equiv> 0x02"
abbreviation (input) ASN_BIT_STR :: u8 where "ASN_BIT_STR \<equiv> 0x03"
abbreviation (input) ASN_OCTET_STR :: u8 where "ASN_OCTET_STR \<equiv> 0x04"
abbreviation (input) ASN_NULL :: u8 where "ASN_NULL \<equiv> 0x05"
abbreviation (input) ASN_OBJECT_ID :: u8 where "ASN_OBJECT_ID \<equiv> 0x06"
abbreviation (input) ASN_SEQUENCE_CONSTRUCTOR :: u8 where "ASN_SEQUENCE_CONSTRUCTOR \<equiv> 0x30"
abbreviation (input) ASN_IPADDRESS :: u8 where "ASN_IPADDRESS \<equiv> 0x40"
abbreviation (input) ASN_COUNTER :: u8 where "ASN_COUNTER \<equiv> 0x41"
abbreviation (input) ASN_GAUGE :: u8 where "ASN_GAUGE \<equiv> 0x42"
abbreviation (input) ASN_TIMETICKS :: u8 where "ASN_TIMETICKS \<equiv> 0x43"
abbreviation (input) ASN_OPAQUE :: u8 where "ASN_OPAQUE \<equiv> 0x44"
abbreviation (input) ASN_NSAP :: u8 where "ASN_NSAP \<equiv> 0x45"
abbreviation (input) ASN_COUNTER64 :: u8 where "ASN_COUNTER64 \<equiv> 0x46"
abbreviation (input) ASN_UINTEGER :: u8 where "ASN_UINTEGER \<equiv> 0x47"
abbreviation (input) ASN_OPAQUE_TAG1 :: u8 where "ASN_OPAQUE_TAG1 \<equiv> 0x9f"
abbreviation (input) ASN_OPAQUE_COUNTER64 :: u8 where "ASN_OPAQUE_COUNTER64 \<equiv> 0x76"
abbreviation (input) ASN_OPAQUE_FLOAT :: u8 where "ASN_OPAQUE_FLOAT \<equiv> 0x78"
abbreviation (input) ASN_OPAQUE_DOUBLE :: u8 where "ASN_OPAQUE_DOUBLE \<equiv> 0x79"
abbreviation (input) ASN_OPAQUE_I64 :: u8 where "ASN_OPAQUE_I64 \<equiv> 0x7a"
abbreviation (input) ASN_OPAQUE_U64 :: u8 where "ASN_OPAQUE_U64 \<equiv> 0x7b"


subsection \<open>Decoding\<close>

text \<open>The loop \<open>while (n--) value = (value << 8) | *bufp++\<close>.\<close>

fun be_loop :: "bytes \<Rightarrow> nat \<Rightarrow> nat \<Rightarrow> u64 \<Rightarrow> (nat \<times> u64) res" where
  "be_loop mem bufp 0 value = Inr (bufp, value)"
| "be_loop mem bufp (Suc n) value =
     ebind (rd mem bufp) (\<lambda>b. be_loop mem (Suc bufp) n (push_bit 8 value OR ucast b))"

definition asn_parse_length :: "bytes \<Rightarrow> nat \<Rightarrow> (nat \<times> nat) res" where
  "asn_parse_length mem data =
     ebind (rd mem data) (\<lambda>lengthbyte.
     if lengthbyte AND 0x80 \<noteq> 0 then
       let n = unat (lengthbyte AND NOT 0x80) in
       if n = 0 then Inl Indefinite
       else if n > 8 then Inl LengthTooLong
       else ebind (be_loop mem (data + 1) n 0) (\<lambda>(data', len).
            if sint len < 0 then Inl (NegLength len) else Inr (data', unat len))
     else Inr (data + 1, unat lengthbyte))"

text \<open>\<open>_asn_parse_length_check\<close> after the \<open>NULL\<close> case, which is the error of the call before.\<close>

definition asn_parse_length_check :: "nat \<Rightarrow> nat \<Rightarrow> nat \<Rightarrow> nat \<Rightarrow> bool" where
  "asn_parse_length_check bufp data plen dlen \<longleftrightarrow>
     (let header_len = bufp - data in
      plen > 0x7fffffff \<or> header_len > 0x7fffffff \<or> plen + header_len > dlen)"

text \<open>
  \<open>asn_check_packet\<close> ignores that \<open>asn_parse_length\<close> may return \<open>NULL\<close>: a negative length
  was still stored, every other error leaves \<open>asn_length\<close> uninitialised.
\<close>

definition asn_check_packet :: "bytes \<Rightarrow> nat \<Rightarrow> int res" where
  "asn_check_packet pkt len =
     (if len < 2 then Inr 0
      else ebind (rd pkt 0) (\<lambda>b0.
        if b0 \<noteq> ASN_SEQUENCE_CONSTRUCTOR then Inr (-1)
        else ebind (rd pkt 1) (\<lambda>b1.
          if b1 AND 0x80 \<noteq> 0 then
            let n = unat (b1 AND NOT 0x80) in
            if sint (word_of_nat len :: u32) < int n + 2 then Inr 0
            else (case asn_parse_length pkt 1 of
                    Inr (_, asn_length) \<Rightarrow> Inr (sint (word_of_nat (asn_length + 2 + n) :: u32))
                  | Inl (NegLength l) \<Rightarrow> Inr (sint (ucast (l + 2 + word_of_nat n) :: u32))
                  | Inl OverRead \<Rightarrow> Inl OverRead
                  | Inl _ \<Rightarrow> Inl Uninitialised)
          else Inr (int (unat b1 + 2)))))"

definition opaque_special :: "u8 \<Rightarrow> bool" where
  "opaque_special t \<longleftrightarrow>
     t = ASN_OPAQUE_COUNTER64 \<or> t = ASN_OPAQUE_U64 \<or> t = ASN_OPAQUE_FLOAT \<or>
     t = ASN_OPAQUE_DOUBLE \<or> t = ASN_OPAQUE_I64"

definition asn_parse_header :: "bytes \<Rightarrow> nat \<Rightarrow> nat \<Rightarrow> (nat \<times> nat \<times> u8) res" where
  "asn_parse_header mem data datalength =
     ebind (rd mem data) (\<lambda>type.
     if type AND 0x1f = 0x1f then Inl ExtensionId
     else ebind (asn_parse_length mem (data + 1)) (\<lambda>(bufp, asn_length).
     if asn_parse_length_check bufp data asn_length datalength then Inl MsgOverflow
     else if type = ASN_OPAQUE then
       ebind (rd mem bufp) (\<lambda>tag1.
       if tag1 = ASN_OPAQUE_TAG1 then
         ebind (rd mem (bufp + 1)) (\<lambda>tag2.
         if opaque_special tag2 then
           ebind (asn_parse_length mem (bufp + 2)) (\<lambda>(bufp', asn_length').
           if asn_parse_length_check bufp' data asn_length' datalength then Inl MsgOverflow
           else Inr (bufp', asn_length', tag2))
         else Inr (bufp, asn_length, type))
       else Inr (bufp, asn_length, type))
     else Inr (bufp, asn_length, type)))"

definition asn_parse_sequence :: "bytes \<Rightarrow> nat \<Rightarrow> nat \<Rightarrow> u8 \<Rightarrow> (nat \<times> nat \<times> u8) res" where
  "asn_parse_sequence mem data datalength expected_type =
     ebind (asn_parse_header mem data datalength) (\<lambda>(data', datalength', type).
     if type \<noteq> expected_type then Inl (TypeErr type) else Inr (data', datalength', type))"


subsection \<open>Encoding\<close>

type_synonym bstate = "bytes \<times> nat \<times> nat"

definition asn_build_length :: "bytes \<Rightarrow> nat \<Rightarrow> nat \<Rightarrow> nat \<Rightarrow> bstate res" where
  "asn_build_length mem data datalength len =
     (if len < 0x80 then
        if datalength < 1 then Inl BadLength
        else ebind (wr_bytes mem data [word_of_nat len])
               (\<lambda>mem'. Inr (mem', data + 1, usub64 datalength 1))
      else if len \<le> 0xff then
        if datalength < 2 then Inl BadLength
        else ebind (wr_bytes mem data [0x01 OR 0x80, word_of_nat len])
               (\<lambda>mem'. Inr (mem', data + 2, usub64 datalength 2))
      else
        if datalength < 3 then Inl BadLength
        else ebind (wr_bytes mem data
                      [0x02 OR 0x80, word_of_nat (len div 256), word_of_nat len])
               (\<lambda>mem'. Inr (mem', data + 3, usub64 datalength 3)))"

definition asn_build_header :: "bytes \<Rightarrow> nat \<Rightarrow> nat \<Rightarrow> u8 \<Rightarrow> nat \<Rightarrow> bstate res" where
  "asn_build_header mem data datalength type len =
     (if datalength < 1 then Inl BadLength
      else ebind (wr mem data type) (\<lambda>mem'.
           asn_build_length mem' (data + 1) (usub64 datalength 1) len))"

text \<open>\<open>_asn_build_header_check\<close> after the \<open>NULL\<close> case.\<close>

definition asn_build_header_check :: "nat \<Rightarrow> nat \<Rightarrow> bool" where
  "asn_build_header_check datalen typedlen \<longleftrightarrow> datalen < typedlen"

definition asn_build_sequence :: "bytes \<Rightarrow> nat \<Rightarrow> nat \<Rightarrow> u8 \<Rightarrow> nat \<Rightarrow> bstate res" where
  "asn_build_sequence mem data datalength type len =
     (if datalength < 4 then Inl BadLength
      else ebind (wr_bytes mem data
                    [type, 0x02 OR 0x80, word_of_nat (len div 256), word_of_nat len])
             (\<lambda>mem'. Inr (mem', data + 4, usub64 datalength 4)))"


subsection \<open>Abstract encodings\<close>

definition enc_length :: "nat \<Rightarrow> bytes" where
  "enc_length len =
     (if len < 0x80 then [word_of_nat len]
      else if len \<le> 0xff then [0x81, word_of_nat len]
      else [0x82, word_of_nat (len div 256), word_of_nat len])"

definition enc_header :: "u8 \<Rightarrow> nat \<Rightarrow> bytes" where
  "enc_header type len = type # enc_length len"

definition builds :: "(bytes \<Rightarrow> nat \<Rightarrow> nat \<Rightarrow> bstate res) \<Rightarrow> bytes \<Rightarrow> bool" where
  "builds f enc \<longleftrightarrow>
     (\<forall>mem data datalength. data + datalength \<le> length mem \<longrightarrow>
        (if length enc \<le> datalength
         then f mem data datalength =
                Inr (store_at mem data enc, data + length enc, datalength - length enc)
         else (\<exists>e. f mem data datalength = Inl e \<and> e \<noteq> OverRead \<and> e \<noteq> OverWrite)))"

lemma buildsI:
  assumes "\<And>mem data datalength. data + datalength \<le> length mem \<Longrightarrow> length enc \<le> datalength \<Longrightarrow>
      f mem data datalength =
        Inr (store_at mem data enc, data + length enc, datalength - length enc)"
    and "\<And>mem data datalength. data + datalength \<le> length mem \<Longrightarrow> datalength < length enc \<Longrightarrow>
      \<exists>e. f mem data datalength = Inl e \<and> e \<noteq> OverRead \<and> e \<noteq> OverWrite"
  shows "builds f enc"
  using assms by (auto simp: builds_def not_le)

lemma builds_ok:
  assumes "builds f enc" and "data + datalength \<le> length mem" and "length enc \<le> datalength"
  shows "f mem data datalength =
           Inr (store_at mem data enc, data + length enc, datalength - length enc)"
  using assms by (auto simp: builds_def)

lemma builds_short:
  assumes "builds f enc" and "data + datalength \<le> length mem" and "datalength < length enc"
  shows "\<exists>e. f mem data datalength = Inl e \<and> e \<noteq> OverRead \<and> e \<noteq> OverWrite"
  using assms unfolding builds_def by (auto simp: not_le dest!: spec)

lemma builds_safe:
  assumes "builds f enc" and "data + datalength \<le> length mem"
  shows "safe (f mem data datalength)"
proof (cases "length enc \<le> datalength")
  case True
  with assms show ?thesis by (simp add: builds_ok)
next
  case False
  with assms show ?thesis by (auto simp: not_le dest!: builds_short)
qed

lemma length_enc_length [simp]: "0 < length (enc_length len)" "length (enc_length len) \<le> 3"
  by (simp_all add: enc_length_def)

lemma builds_length: "builds (\<lambda>m d l. asn_build_length m d l len) (enc_length len)"
  by (rule buildsI) (auto simp: asn_build_length_def enc_length_def mem_simps split: if_splits)

lemma builds_header: "builds (\<lambda>m d l. asn_build_header m d l type len) (enc_header type len)"
proof (rule buildsI)
  fix mem :: bytes and data dl :: nat
  assume b: "data + dl \<le> length mem" and l: "length (enc_header type len) \<le> dl"
  then have dl: "1 \<le> dl" and len: "length (enc_length len) \<le> dl - 1"
    by (auto simp: enc_header_def)
  have "asn_build_length (store_at mem data [type]) (data + 1) (dl - 1) len =
        Inr (store_at (store_at mem data [type]) (data + 1) (enc_length len),
             data + 1 + length (enc_length len), dl - 1 - length (enc_length len))"
    by (rule builds_ok [OF builds_length]) (use b dl len in auto)
  moreover have "store_at (store_at mem data [type]) (data + 1) (enc_length len)
      = store_at mem data (enc_header type len)"
    using store_at_store_at [of data "[type]" "enc_length len" mem] b dl len
    by (simp add: enc_header_def)
  ultimately show "asn_build_header mem data dl type len =
      Inr (store_at mem data (enc_header type len), data + length (enc_header type len),
           dl - length (enc_header type len))"
    using b dl by (simp add: asn_build_header_def mem_simps enc_header_def)
next
  fix mem :: bytes and data dl :: nat
  assume b: "data + dl \<le> length mem" and l: "dl < length (enc_header type len)"
  show "\<exists>e. asn_build_header mem data dl type len = Inl e \<and> e \<noteq> OverRead \<and> e \<noteq> OverWrite"
  proof (cases "dl < 1")
    case True
    then show ?thesis by (simp add: asn_build_header_def)
  next
    case False
    then have "\<exists>e. asn_build_length (store_at mem data [type]) (data + 1) (dl - 1) len = Inl e
        \<and> e \<noteq> OverRead \<and> e \<noteq> OverWrite"
      by (intro builds_short [OF builds_length]) (use b l in \<open>auto simp: enc_header_def\<close>)
    with False b show ?thesis by (simp add: asn_build_header_def mem_simps)
  qed
qed

text \<open>The shape of every primitive encoder: a header, the length check, then the contents.\<close>

lemma builds_primitive:
  assumes len: "length content = n"
    and body: "\<And>m d l. n \<le> l \<Longrightarrow> d + l \<le> length m \<Longrightarrow>
      body m d l = Inr (store_at m d content, d + n, l - n)"
  shows "builds (\<lambda>m d l. ebind (asn_build_header m d l type n) (\<lambda>(m', d', l').
           if asn_build_header_check l' n then Inl HeaderTooShort else body m' d' l'))
         (enc_header type n @ content)"
proof (rule buildsI)
  fix mem :: bytes and data dl :: nat
  let ?h = "enc_header type n"
  assume b: "data + dl \<le> length mem" and l: "length (?h @ content) \<le> dl"
  then have "asn_build_header mem data dl type n =
      Inr (store_at mem data ?h, data + length ?h, dl - length ?h)"
    by (intro builds_ok [OF builds_header]) auto
  moreover have "store_at (store_at mem data ?h) (data + length ?h) content
      = store_at mem data (?h @ content)"
    using b l by (intro store_at_store_at) auto
  ultimately show "ebind (asn_build_header mem data dl type n) (\<lambda>(m', d', l').
        if asn_build_header_check l' n then Inl HeaderTooShort else body m' d' l') =
      Inr (store_at mem data (?h @ content), data + length (?h @ content),
           dl - length (?h @ content))"
    using b l len by (simp add: asn_build_header_check_def body)
next
  fix mem :: bytes and data dl :: nat
  let ?h = "enc_header type n"
  assume b: "data + dl \<le> length mem" and l: "dl < length (?h @ content)"
  show "\<exists>e. ebind (asn_build_header mem data dl type n) (\<lambda>(m', d', l').
        if asn_build_header_check l' n then Inl HeaderTooShort else body m' d' l') = Inl e
      \<and> e \<noteq> OverRead \<and> e \<noteq> OverWrite"
  proof (cases "length ?h \<le> dl")
    case True
    then have "dl - length ?h < n"
      using l len by simp
    with b True show ?thesis
      by (simp add: builds_ok [OF builds_header] asn_build_header_check_def)
  next
    case False
    with b have "\<exists>e. asn_build_header mem data dl type n = Inl e \<and> e \<noteq> OverRead \<and> e \<noteq> OverWrite"
      by (intro builds_short [OF builds_header]) auto
    then show ?thesis by auto
  qed
qed


subsection \<open>Decoding what was encoded\<close>

lemma be_loop_inside [mem_simps]:
  "bufp + n \<le> length mem \<Longrightarrow>
   be_loop mem bufp n v = Inr (bufp + n, be_acc v (take n (drop bufp mem)))"
proof (induction n arbitrary: bufp v)
  case 0
  then show ?case by simp
next
  case (Suc n)
  then have "take (Suc n) (drop bufp mem) = mem ! bufp # take n (drop (Suc bufp) mem)"
    by (simp add: Cons_nth_drop_Suc [symmetric])
  with Suc show ?case by (simp add: rd_def)
qed

lemma be_loop_outside:
  "length mem < bufp + n \<Longrightarrow> 0 < n \<Longrightarrow> be_loop mem bufp n v = Inl OverRead"
proof (induction n arbitrary: bufp v)
  case 0
  then show ?case by simp
next
  case (Suc n)
  show ?case
  proof (cases "bufp < length mem")
    case True
    with Suc.prems have "0 < n" by linarith
    with True Suc show ?thesis by (simp add: rd_def)
  qed (simp add: rd_def)
qed

lemma be_loop_Inr:
  assumes "be_loop mem bufp n v = Inr (b, x)" and "0 < n"
  shows "b = bufp + n \<and> b \<le> length mem \<and> x = be_acc v (take n (drop bufp mem))"
proof (cases "bufp + n \<le> length mem")
  case True
  with assms show ?thesis by (auto simp: be_loop_inside)
next
  case False
  with assms show ?thesis by (simp add: be_loop_outside)
qed

lemma be_loop_stored:
  "stored mem bufp bs \<Longrightarrow> n = length bs \<Longrightarrow> be_loop mem bufp n v = Inr (bufp + n, be_acc v bs)"
  by (simp add: stored_def be_loop_inside)
lemma asn_parse_length_two:
  assumes "stored mem data [0x82, word_of_nat (len div 256), word_of_nat len]" and "len \<le> 0xffff"
  shows "asn_parse_length mem data = Inr (data + 3, len)"
proof -
  have "stored mem (Suc data) (be_bytes 2 (word_of_nat len :: u64))"
    using assms by (simp add: numeral_2_eq_2 ucast_drop_of_nat [where k = 8, simplified]
        ucast_drop_of_nat [where k = 0, simplified])
  then have "be_loop mem (Suc data) 2 0 = Inr (data + 3, word_of_nat len)"
    using assms(2)
    by (simp add: be_loop_stored be_acc_be_bytes word_unat_eq_iff unsigned_take_bit_eq unat_of_nat
        take_bit_eq_mod [where 'a = nat])
  then show ?thesis
    using assms
    by (simp add: asn_parse_length_def rd_def unat_of_nat sint_neg64)
qed

lemma asn_parse_length_enc:
  assumes "stored mem data (enc_length len)" and "len \<le> 0xffff"
  shows "asn_parse_length mem data = Inr (data + length (enc_length len), len)"
proof -
  consider (short) "len < 0x80" | (one) "0x80 \<le> len" "len \<le> 0xff" | (two) "0xff < len"
    by linarith
  then show ?thesis
  proof cases
    case short
    then have "(word_of_nat len :: u8) AND 0x80 = 0"
      by (simp add: and_msb8 unat_of_nat)
    then show ?thesis
      using assms short
      by (simp add: asn_parse_length_def enc_length_def rd_def unat_of_nat)
  next
    case one
    then show ?thesis
      using assms
      by (simp add: asn_parse_length_def enc_length_def rd_def unat_of_nat unsigned_ucast_eq sint_neg64
            take_bit_eq_mod)
  next
    case two
    with assms asn_parse_length_two show ?thesis
      by (simp add: enc_length_def)
  qed
qed


subsection \<open>Bounds and safety of the decoders\<close>

lemma asn_parse_length_bounds:
  assumes "asn_parse_length mem data = Inr (bufp, n)"
  shows "data < bufp \<and> bufp \<le> data + 9 \<and> bufp \<le> length mem \<and> n < 2 ^ 63"
proof -
  from assms obtain lb where lb: "data < length mem" "rd mem data = Inr lb"
    by (auto simp: asn_parse_length_def ebind_eq_Inr rd_def split: if_splits)
  show ?thesis
  proof (cases "lb AND 0x80 = 0")
    case True
    with assms lb show ?thesis
      by (auto simp: asn_parse_length_def and_msb8)
  next
    case False
    let ?k = "unat (lb AND NOT 0x80)"
    from False assms lb obtain x where x: "0 < ?k" "?k \<le> 8"
        "be_loop mem (data + 1) ?k 0 = Inr (bufp, x)" "\<not> sint x < 0" "n = unat x"
      by (auto simp: asn_parse_length_def ebind_eq_Inr Let_def split: if_splits)
    from be_loop_Inr [OF x(3,1)] x show ?thesis
      by (auto simp: sint_neg64 not_le)
  qed
qed

lemma asn_parse_length_safe: "data + 9 \<le> length mem \<Longrightarrow> safe (asn_parse_length mem data)"
  by (auto simp: asn_parse_length_def rd_inside be_loop_inside Let_def intro!: safe_ebind)

lemma asn_parse_length_check_ok:
  assumes "\<not> asn_parse_length_check bufp data plen dlen" and "data \<le> bufp"
  shows "bufp + plen \<le> data + dlen \<and> plen \<le> 0x7fffffff \<and> bufp - data \<le> 0x7fffffff"
  using assms by (auto simp: asn_parse_length_check_def Let_def)

lemma asn_parse_length_check_fits:
  assumes "bufp + plen \<le> data + dlen" and "plen \<le> 0x7fffffff"
    and "data \<le> bufp" and "bufp \<le> data + 0x7fffffff"
  shows "\<not> asn_parse_length_check bufp data plen dlen"
  using assms by (auto simp: asn_parse_length_check_def Let_def)

lemma asn_parse_length_checked:
  assumes "asn_parse_length mem d = Inr (bufp, n)" and "\<not> asn_parse_length_check bufp data n dl"
    and "data \<le> d"
  shows "d < bufp \<and> bufp \<le> d + 9 \<and> bufp \<le> length mem \<and> bufp + n \<le> data + dl
    \<and> n \<le> 0x7fffffff"
  using asn_parse_length_bounds [OF assms(1)] asn_parse_length_check_ok [OF assms(2)] assms(3)
  by auto

lemma asn_parse_header_bounds:
  assumes "asn_parse_header mem data dl = Inr (bufp, n, type)"
  shows "data < bufp \<and> bufp + n \<le> data + dl \<and> n \<le> 0x7fffffff"
proof -
  from assms obtain b k where p: "asn_parse_length mem (data + 1) = Inr (b, k)"
      "\<not> asn_parse_length_check b data k dl"
    by (auto simp: asn_parse_header_def ebind_eq_Inr split: if_splits)
  then have "data < b \<and> b + k \<le> data + dl \<and> k \<le> 0x7fffffff"
    by (auto dest: asn_parse_length_checked [where data = data])
  moreover have "data < bufp \<and> bufp + n \<le> data + dl \<and> n \<le> 0x7fffffff"
    if "asn_parse_length mem (b + 2) = Inr (bufp, n)" "\<not> asn_parse_length_check bufp data n dl"
    using asn_parse_length_checked [OF that] calculation by simp
  ultimately show ?thesis
    using assms p by (auto simp: asn_parse_header_def ebind_eq_Inr split: if_splits)
qed

lemma asn_parse_header_safe:
  assumes "data + dl + 11 \<le> length mem"
  shows "safe (asn_parse_header mem data dl)"
proof -
  have "safe (asn_parse_length mem (data + 1))"
    using assms by (intro asn_parse_length_safe) simp
  moreover have "safe (rd mem bufp) \<and> safe (rd mem (bufp + 1)) \<and> safe (asn_parse_length mem (bufp + 2))"
    if "asn_parse_length mem (data + 1) = Inr (bufp, n)"
      and "\<not> asn_parse_length_check bufp data n dl" for bufp n
  proof -
    have "bufp \<le> data + dl"
      using asn_parse_length_bounds [OF that(1)] asn_parse_length_check_ok [OF that(2)] by linarith
    then show ?thesis
      using assms by (simp add: rd_inside asn_parse_length_safe)
  qed
  ultimately show ?thesis
    using assms unfolding asn_parse_header_def
    by (auto simp: rd_inside split: prod.splits intro!: safe_ebind)
qed

text \<open>The octets of the length field that \<open>asn_parse_length\<close> reads when the first one is \<open>b\<close>.\<close>

definition length_octets :: "u8 \<Rightarrow> nat" where
  "length_octets b = (if b AND 0x80 \<noteq> 0 \<and> unat (b AND NOT 0x80) \<le> 8 then 1 + unat (b AND NOT 0x80) else 1)"

lemma asn_parse_length_safe_iff:
  "safe (asn_parse_length mem data) \<longleftrightarrow> data < length mem \<and> data + length_octets (mem ! data) \<le> length mem"
proof (cases "data < length mem")
  case True
  define b where "b = mem ! data"
  define n where "n = unat (b AND NOT 0x80)"
  have r: "rd mem data = Inr b" using True by (simp add: rd_def b_def)
  have n: "unat (b AND - 129) = n" by (simp add: n_def)
  show ?thesis
  proof (cases "b AND 0x80 \<noteq> 0 \<and> 0 < n \<and> n \<le> 8")
    case long: True
    have "safe (asn_parse_length mem data) \<longleftrightarrow> data + 1 + n \<le> length mem"
    proof (cases "data + 1 + n \<le> length mem")
      case inside: True
      then have "be_loop mem (data + 1) n 0 = Inr (data + 1 + n, be_acc 0 (take n (drop (data + 1) mem)))"
        by (intro be_loop_inside)
      then show ?thesis using long r inside by (simp add: asn_parse_length_def n)
    next
      case outside: False
      then have "be_loop mem (data + 1) n 0 = Inl OverRead" using long by (intro be_loop_outside) simp_all
      then show ?thesis using long r outside by (simp add: asn_parse_length_def n)
    qed
    then show ?thesis using True long by (simp add: length_octets_def b_def [symmetric] n)
  next
    case short: False
    then have "safe (asn_parse_length mem data)" "length_octets b = 1"
      using r by (auto simp: asn_parse_length_def length_octets_def n Let_def)
    then show ?thesis using True by (simp add: b_def)
  qed
qed (simp add: asn_parse_length_def rd_def)

lemma asn_parse_header_safe_iff:
  assumes "data < length mem" and "mem ! data AND 0x1f \<noteq> 0x1f" and "mem ! data \<noteq> ASN_OPAQUE"
  shows "safe (asn_parse_header mem data dl) \<longleftrightarrow>
    data + 1 < length mem \<and> data + 1 + length_octets (mem ! (data + 1)) \<le> length mem"
proof (cases "asn_parse_length mem (data + 1)")
  case (Inl e)
  then show ?thesis using assms asn_parse_length_safe_iff [of mem "data + 1"] by (simp add: asn_parse_header_def rd_def)
next
  case (Inr r)
  then show ?thesis using assms asn_parse_length_safe_iff [of mem "data + 1"]
    by (cases r) (simp add: asn_parse_header_def rd_def)
qed

lemma asn_parse_header_reads_21:
  assumes "data + 21 \<le> length mem"
  shows "safe (asn_parse_header mem data dl)"
proof -
  have "safe (asn_parse_length mem (data + 1))"
    using assms by (intro asn_parse_length_safe) simp
  moreover have "safe (rd mem bufp) \<and> safe (rd mem (bufp + 1)) \<and> safe (asn_parse_length mem (bufp + 2))"
    if "asn_parse_length mem (data + 1) = Inr (bufp, n)" for bufp n
    using asn_parse_length_bounds [OF that] assms by (simp add: rd_inside asn_parse_length_safe)
  ultimately show ?thesis
    using assms unfolding asn_parse_header_def
    by (auto simp: rd_inside split: prod.splits intro!: safe_ebind)
qed

lemma asn_parse_header_enc:
  assumes "stored mem data (enc_header type n)" and "n \<le> 0xffff"
    and "length (enc_header type n) + n \<le> dl"
    and "type AND 0x1f \<noteq> 0x1f" and "type \<noteq> ASN_OPAQUE"
  shows "asn_parse_header mem data dl = Inr (data + length (enc_header type n), n, type)"
proof -
  have s: "stored mem (Suc data) (enc_length n)" and r: "rd mem data = Inr type"
    using assms(1) by (auto simp: enc_header_def rd_def)
  have "\<not> asn_parse_length_check (Suc data + length (enc_length n)) data n dl"
    using assms(2,3) le_trans [OF length_enc_length(2) [of n], of 100]
    by (intro asn_parse_length_check_fits) (auto simp: enc_header_def)
  with assms r asn_parse_length_enc [OF s assms(2)] show ?thesis
    by (simp add: asn_parse_header_def enc_header_def)
qed

lemma builds_sequence:
  "builds (\<lambda>m d l. asn_build_sequence m d l type len)
     [type, 0x82, word_of_nat (len div 256), word_of_nat len]"
  by (rule buildsI) (auto simp: asn_build_sequence_def mem_simps)

lemma asn_parse_sequence_enc:
  assumes "stored mem data [type, 0x82, word_of_nat (len div 256), word_of_nat len]"
    and "len \<le> 0xffff" and "4 + len \<le> dl" and "type AND 0x1f \<noteq> 0x1f" and "type \<noteq> ASN_OPAQUE"
  shows "asn_parse_sequence mem data dl type = Inr (data + 4, len, type)"
proof -
  have "asn_parse_length mem (data + 1) = Inr (data + 4, len)"
    using asn_parse_length_two [of mem "data + 1" len] assms(1,2) by simp
  moreover have "\<not> asn_parse_length_check (data + 4) data len dl"
    using assms(2,3) by (intro asn_parse_length_check_fits) auto
  moreover have "rd mem data = Inr type"
    using assms(1) by (simp add: rd_def)
  ultimately show ?thesis
    using assms(4,5) by (simp add: asn_parse_sequence_def asn_parse_header_def)
qed


subsection \<open>The contract of a codec\<close>

text \<open>
  What the callers of a typed encoder and decoder pair rely on: the encoder stores the abstract
  encoding \<open>enc v\<close>, and the decoder, on a packet that holds it, returns \<open>dec v\<close> and moves past
  exactly those bytes.  Every pair of \<open>asn1.c\<close> is an interpretation of this locale.
\<close>

locale asn_codec =
  fixes ok :: "'v \<Rightarrow> bool"
    and enc :: "'v \<Rightarrow> bytes"
    and build :: "'v \<Rightarrow> bytes \<Rightarrow> nat \<Rightarrow> nat \<Rightarrow> bstate res"
    and parse :: "bytes \<Rightarrow> nat \<Rightarrow> nat \<Rightarrow> (nat \<times> nat \<times> 'r) res"
    and dec :: "'v \<Rightarrow> 'r"
  assumes build_enc: "ok v \<Longrightarrow> builds (build v) (enc v)"
    and parse_enc: "ok v \<Longrightarrow> stored mem data (enc v) \<Longrightarrow> length (enc v) \<le> dl \<Longrightarrow>
      parse mem data dl = Inr (data + length (enc v), dl - length (enc v), dec v)"
begin

lemma round_trip:
  assumes "ok v" and "data + dl \<le> length mem" and "length (enc v) \<le> dl"
  shows "\<exists>mem' data' dl'. build v mem data dl = Inr (mem', data', dl') \<and>
    parse mem' data dl = Inr (data', dl', dec v) \<and>
    data' + dl' = data + dl \<and> length mem' = length mem \<and>
    (\<forall>i. i < data \<or> data' \<le> i \<longrightarrow> mem' ! i = mem ! i)"
proof -
  let ?m = "store_at mem data (enc v)"
  have "build v mem data dl = Inr (?m, data + length (enc v), dl - length (enc v))"
    using assms by (intro builds_ok build_enc)
  moreover have "parse ?m data dl = Inr (data + length (enc v), dl - length (enc v), dec v)"
    using assms by (intro parse_enc stored_store_at) auto
  moreover have "?m ! i = mem ! i" if "i < data \<or> data + length (enc v) \<le> i" for i
    using that assms by (auto simp: store_at_def nth_append)
  ultimately show ?thesis
    using assms by (intro exI [of _ ?m]) auto
qed

lemma build_is_safe: "ok v \<Longrightarrow> data + dl \<le> length mem \<Longrightarrow> safe (build v mem data dl)"
  by (rule builds_safe [OF build_enc])

lemma build_needs_room:
  assumes "ok v" and "data + dl \<le> length mem" and "dl < length (enc v)"
  shows "\<exists>e. build v mem data dl = Inl e"
  using builds_short [OF build_enc [OF assms(1)] assms(2,3)] by blast

end


subsection \<open>Properties of the header layer\<close>



text \<open>
  Sequence headers.  The four bytes \<open>asn_build_sequence\<close> stores are read back by
  \<open>asn_parse_sequence\<close> as the same type and length, for every length up to 65535 and every type
  that is neither an extension identifier nor \<open>ASN_OPAQUE\<close>.
\<close>

lemma asn_sequence_roundtrip:
  assumes "len \<le> 0xffff" and "4 + len \<le> dl" and "data + dl \<le> length mem"
    and "type AND 0x1f \<noteq> 0x1f" and "type \<noteq> ASN_OPAQUE"
  shows "\<exists>mem'. asn_build_sequence mem data dl type len = Inr (mem', data + 4, dl - 4) \<and>
    asn_parse_sequence mem' data dl type = Inr (data + 4, len, type)"
proof -
  let ?enc = "[type, 0x82, word_of_nat (len div 256), word_of_nat len] :: bytes"
  have "stored (store_at mem data ?enc) data ?enc"
    using assms(2,3) by (intro stored_store_at) simp
  then have "asn_parse_sequence (store_at mem data ?enc) data dl type = Inr (data + 4, len, type)"
    using assms by (intro asn_parse_sequence_enc)
  moreover have "asn_build_sequence mem data dl type len = Inr (store_at mem data ?enc, data + 4, dl - 4)"
    using builds_ok [OF builds_sequence [of type len], of data dl mem] assms by simp
  ultimately show ?thesis by blast
qed

theorem asn_sequence_roundtrip_witness:
  "\<exists>mem'. asn_build_sequence (replicate 310 0) 4 304 0x30 300 = Inr (mem', 8, 300) \<and>
    asn_parse_sequence mem' 4 304 0x30 = Inr (8, 300, 0x30)"
  using asn_sequence_roundtrip [of 300 304 4 "replicate 310 0" "0x30"] by simp

text \<open>
  Framing of a stream.  When a buffer holds a whole message whose outer sequence header
  announces \<open>n\<close> bytes, \<open>asn_check_packet\<close> returns exactly the length of the message, so that a
  stream transport cuts the message there.
\<close>

lemma asn_check_packet_complete:
  assumes "n \<le> 0xffff" and "stored pkt 0 (enc_header ASN_SEQUENCE_CONSTRUCTOR n)"
    and "length (enc_header ASN_SEQUENCE_CONSTRUCTOR n) + n \<le> len" and "len \<le> length pkt" and "len < 2 ^ 31"
  shows "asn_check_packet pkt len = Inr (int (length (enc_header ASN_SEQUENCE_CONSTRUCTOR n) + n))"
proof -
  have e: "stored pkt 1 (enc_length n)" and b0: "rd pkt 0 = Inr ASN_SEQUENCE_CONSTRUCTOR"
    using assms(2) by (auto simp: enc_header_def rd_def)
  have pl: "asn_parse_length pkt 1 = Inr (1 + length (enc_length n), n)"
    using asn_parse_length_enc [OF e assms(1)] .
  have s31: "sint (word_of_nat k :: u32) = int k" if "k < 2 ^ 31" for k
  proof -
    have "signed_take_bit 31 (int k) = int k"
      using that by (intro signed_take_bit_int_eq_self) simp_all
    then show ?thesis by (simp add: signed_of_nat)
  qed
  have l2: "2 \<le> len"
    using assms(3) by (auto simp: enc_header_def enc_length_def split: if_splits)
  consider (short) "n < 0x80" | (one) "0x80 \<le> n" "n \<le> 0xff" | (two) "0xff < n"
    by linarith
  then show ?thesis
  proof cases
    case short
    then have "rd pkt 1 = Inr (word_of_nat n)" using e by (simp add: enc_length_def rd_def)
    moreover have "(word_of_nat n :: u8) AND 0x80 = 0" using short by (simp add: and_msb8 unat_of_nat)
    ultimately show ?thesis
      using l2 b0 short by (simp add: asn_check_packet_def enc_header_def enc_length_def unat_of_nat)
  next
    case one
    then have "rd pkt 1 = Inr 0x81" using e by (simp add: enc_length_def rd_def)
    then show ?thesis
      using l2 b0 pl one assms(1,3,5) s31 [of len] s31 [of "3 + n"]
      by (simp add: asn_check_packet_def enc_header_def enc_length_def)
  next
    case two
    then have "rd pkt 1 = Inr 0x82" using e by (simp add: enc_length_def rd_def)
    then show ?thesis
      using l2 b0 pl two assms(1,3,5) s31 [of len] s31 [of "4 + n"]
      by (simp add: asn_check_packet_def enc_header_def enc_length_def)
  qed
qed

lemma asn_check_packet_complete_witness:
  "asn_check_packet [0x30, 3, 1, 2, 3, 0x30, 0] 7 = Inr 5"
  using asn_check_packet_complete [of 3 "[0x30, 3, 1, 2, 3, 0x30, 0]" 7]
  by (simp add: enc_header_def enc_length_def)

text \<open>
  The length of an indefinite-form message is not initialised.  \<open>asn_check_packet\<close> does not
  test the result of \<open>asn_parse_length\<close>: on the length octet \<open>0x80\<close> it computes its result from a
  variable that was never assigned.
\<close>

lemma asn_check_packet_indefinite:
  "asn_check_packet [0x30, 0x80, 0x00, 0x00] 4 = Inl Uninitialised"
  by (simp add: asn_check_packet_def asn_parse_length_def rd_def)

end
