(* ===== verification/Asn1_Int.thy ===== *)
theory Asn1_Int
  imports Asn1_Base
begin

unbundle bit_operations_syntax

section \<open>BER integers (\<open>snmplib/asn1.c\<close>)\<close>

text \<open>
  \<open>asn_parse_int\<close>, \<open>asn_parse_unsigned_int\<close>, \<open>asn_build_int\<close> and
  \<open>asn_build_unsigned_int\<close> with the macros \<open>CHECK_OVERFLOW_S\<close> and \<open>CHECK_OVERFLOW_U\<close>, on
  64-bit \<open>long\<close>s.  A \<open>long\<close> is its 64-bit word; \<open>integer <<= 8\<close> on it is the two's
  complement shift.  The lemmas show that the truncation loop drops exactly the redundant sign
  octets, that the output loop stores the remaining octets big-endian first, and that the
  decoders read back what the encoders stored.
\<close>

subsection \<open>The overflow macros\<close>

definition check_overflow_s :: "u64 \<Rightarrow> u64" where
  "check_overflow_s x =
     (if sint x > 2147483647 then x AND 0xffffffff
      else if sint x < -2147483648 then 0 - (x AND 0xffffffff)
      else x)"

definition check_overflow_u :: "u64 \<Rightarrow> u64" where
  "check_overflow_u x = (if x > 0xffffffff then x AND 0xffffffff else x)"


subsection \<open>Decoders\<close>

definition asn_parse_int :: "bytes \<Rightarrow> nat \<Rightarrow> nat \<Rightarrow> nat \<Rightarrow> (nat \<times> nat \<times> u8 \<times> u64) res" where
  "asn_parse_int mem data datalength intsize =
     (if intsize \<noteq> 8 then Inl (SizeErr intsize)
      else ebind (rd mem data) (\<lambda>type.
        if type \<noteq> ASN_INTEGER then Inl (TypeErr type)
        else ebind (asn_parse_length mem (data + 1)) (\<lambda>(bufp, asn_length).
          if asn_parse_length_check bufp data asn_length datalength then Inl MsgOverflow
          else if asn_length > intsize \<or> asn_length = 0 then Inl (LengthErr asn_length)
          else ebind (rd mem bufp) (\<lambda>b.
            ebind (be_loop mem bufp asn_length (if b AND 0x80 \<noteq> 0 then -1 else 0))
              (\<lambda>(bufp', value).
                Inr (bufp', usub64 datalength (asn_length + (bufp - data)), type,
                     check_overflow_s value))))))"

definition asn_parse_unsigned_int ::
  "bytes \<Rightarrow> nat \<Rightarrow> nat \<Rightarrow> nat \<Rightarrow> (nat \<times> nat \<times> u8 \<times> u64) res" where
  "asn_parse_unsigned_int mem data datalength intsize =
     (if intsize \<noteq> 8 then Inl (SizeErr intsize)
      else ebind (rd mem data) (\<lambda>type.
        if type \<noteq> ASN_COUNTER \<and> type \<noteq> ASN_GAUGE \<and> type \<noteq> ASN_TIMETICKS \<and> type \<noteq> ASN_UINTEGER
        then Inl (TypeErr type)
        else ebind (asn_parse_length mem (data + 1)) (\<lambda>(bufp, asn_length).
          if asn_parse_length_check bufp data asn_length datalength then Inl MsgOverflow
          else if asn_length > intsize + 1 \<or> asn_length = 0 then Inl (LengthErr asn_length)
          else ebind (rd mem bufp) (\<lambda>b.
            if asn_length = intsize + 1 \<and> b \<noteq> 0 then Inl (LengthErr asn_length)
            else ebind (be_loop mem bufp asn_length (if b AND 0x80 \<noteq> 0 then NOT 0 else 0))
              (\<lambda>(bufp', value).
                Inr (bufp', usub64 datalength (asn_length + (bufp - data)), type,
                     check_overflow_u value))))))"


subsection \<open>Encoders\<close>

text \<open>
  The two \<open>while\<close> loops of the encoders: the first drops redundant leading octets, the second
  stores the top octet and shifts.
\<close>

definition int_mask :: u64 where
  "int_mask = push_bit (8 * (8 - 1) - 1) 0x1ff"

fun int_trunc :: "u64 \<Rightarrow> nat \<Rightarrow> u64 \<times> nat" where
  "int_trunc integer intsize =
     (if (integer AND int_mask = 0 \<or> integer AND int_mask = int_mask) \<and> intsize > 1
      then int_trunc (push_bit 8 integer) (intsize - 1)
      else (integer, intsize))"

declare int_trunc.simps [simp del]

definition top_octet :: "u64 \<Rightarrow> u8" where
  "top_octet integer = ucast (drop_bit (8 * (8 - 1)) (integer AND push_bit (8 * (8 - 1)) 0xff))"

fun int_out :: "bytes \<Rightarrow> nat \<Rightarrow> nat \<Rightarrow> u64 \<Rightarrow> (bytes \<times> nat) res" where
  "int_out mem data 0 integer = Inr (mem, data)"
| "int_out mem data (Suc n) integer =
     ebind (wr mem data (top_octet integer)) (\<lambda>mem'. int_out mem' (Suc data) n (push_bit 8 integer))"

definition asn_build_int :: "bytes \<Rightarrow> nat \<Rightarrow> nat \<Rightarrow> u8 \<Rightarrow> u64 \<Rightarrow> nat \<Rightarrow> bstate res" where
  "asn_build_int mem data datalength type intp intsize =
     (if intsize \<noteq> 8 then Inl (SizeErr intsize)
      else let (integer, n) = int_trunc (check_overflow_s intp) intsize in
        ebind (asn_build_header mem data datalength type n) (\<lambda>(mem', data', dl').
          if asn_build_header_check dl' n then Inl HeaderTooShort
          else ebind (int_out mem' data' n integer) (\<lambda>(mem'', data'').
               Inr (mem'', data'', usub64 dl' n))))"

definition asn_build_unsigned_int :: "bytes \<Rightarrow> nat \<Rightarrow> nat \<Rightarrow> u8 \<Rightarrow> u64 \<Rightarrow> nat \<Rightarrow> bstate res" where
  "asn_build_unsigned_int mem data datalength type intp intsize =
     (if intsize \<noteq> 8 then Inl (SizeErr intsize)
      else let integer = check_overflow_u intp;
               add_null_byte = (top_octet integer AND 0x80 \<noteq> 0);
               (integer', n) = (if add_null_byte then (integer, intsize + 1) else int_trunc integer intsize) in
        ebind (asn_build_header mem data datalength type n) (\<lambda>(mem', data', dl').
          if asn_build_header_check dl' n then Inl HeaderTooShort
          else if add_null_byte then
            ebind (wr mem' data' 0) (\<lambda>mem''.
            ebind (int_out mem'' (data' + 1) (n - 1) integer') (\<lambda>(mem3, data3).
               Inr (mem3, data3, usub64 dl' n)))
          else ebind (int_out mem' data' n integer') (\<lambda>(mem'', data'').
               Inr (mem'', data'', usub64 dl' n))))"


subsection \<open>The truncation and output loops\<close>

text \<open>\<open>sext n x\<close>: every bit of \<open>x\<close> above bit \<open>n\<close> repeats bit \<open>n\<close>.\<close>

definition sext :: "nat \<Rightarrow> u64 \<Rightarrow> bool" where
  "sext n x \<longleftrightarrow> (\<forall>j < 64. n \<le> j \<longrightarrow> bit x j = bit x n)"

lemma sext_mono:
  assumes "sext m x" "m \<le> n" "n < 64"
  shows "sext n x"
  unfolding sext_def
proof (intro allI impI)
  fix j :: nat assume "j < 64" "n \<le> j"
  then have "bit x j = bit x m" and "bit x n = bit x m"
    using assms le_trans [OF assms(2)] unfolding sext_def by blast+
  then show "bit x j = bit x n" by simp
qed

lemma int_mask_bit: "bit int_mask i \<longleftrightarrow> 55 \<le> i \<and> i < 64"
proof -
  have m: "int_mask = push_bit 55 (mask 9)"
    by (simp add: int_mask_def mask_eq_exp_minus_1)
  show ?thesis unfolding m by (auto simp: bit_simps)
qed

lemma int_mask_iff:
  "(y AND int_mask = 0 \<or> y AND int_mask = int_mask) \<longleftrightarrow> (\<forall>j < 64. 55 \<le> j \<longrightarrow> bit y j = bit y 55)"
proof -
  have "y AND int_mask = 0 \<longleftrightarrow> (\<forall>j < 64. 55 \<le> j \<longrightarrow> \<not> bit y j)"
    by (auto simp: bit_eq_iff bit_simps int_mask_bit)
  moreover have "y AND int_mask = int_mask \<longleftrightarrow> (\<forall>j < 64. 55 \<le> j \<longrightarrow> bit y j)"
    by (auto simp: bit_eq_iff bit_simps int_mask_bit)
  ultimately show ?thesis by auto
qed

lemma int_mask_sext:
  assumes "2 \<le> k" "k \<le> 8" "sext (8 * k - 1) x"
  shows "(push_bit (8 * (8 - k)) x AND int_mask = 0 \<or> push_bit (8 * (8 - k)) x AND int_mask = int_mask)
    \<longleftrightarrow> sext (8 * (k - 1) - 1) x"
proof -
  define s where "s = 8 * (8 - k)"
  define q where "q = 8 * (k - 1) - 1"
  have s: "s + q = 55" "8 * k - 1 = q + 8"
    using assms(1,2) by (simp_all add: s_def q_def)
  have b: "bit (push_bit s x) j \<longleftrightarrow> bit x (j - s)" if "55 \<le> j" "j < 64" for j
    using that s(1) by (simp add: bit_simps)
  have high: "bit x i = bit x (q + 8)" if "q + 8 \<le> i" "i < 64" for i
    using assms(3) that unfolding sext_def s(2) by blast
  have "(\<forall>j < 64. 55 \<le> j \<longrightarrow> bit (push_bit s x) j = bit (push_bit s x) 55) \<longleftrightarrow>
      (\<forall>i < 64. q \<le> i \<longrightarrow> bit x i = bit x q)" (is "?L \<longleftrightarrow> ?R")
  proof
    assume L: ?L
    have low: "bit x i = bit x q" if "q \<le> i" "i < q + 9" for i
    proof -
      have j: "55 \<le> i + s" "i + s < 64" "55 - s = q"
        using that s(1) by linarith+
      with L have "bit (push_bit s x) (i + s) = bit (push_bit s x) 55" by blast
      then show ?thesis
        using b [of "i + s"] b [of 55] j by simp
    qed
    show ?R
    proof (intro allI impI)
      fix i :: nat assume i: "i < 64" "q \<le> i"
      show "bit x i = bit x q"
      proof (cases "i < q + 9")
        case False
        with i have "bit x i = bit x (q + 8)" by (intro high) auto
        then show ?thesis using low [of "q + 8"] by simp
      qed (use i low in blast)
    qed
  next
    assume R: ?R
    show ?L
    proof (intro allI impI)
      fix j :: nat assume j: "j < 64" "55 \<le> j"
      have "q \<le> j - s" "j - s < 64" "55 - s = q"
        using j s(1) by linarith+
      then have "bit x (j - s) = bit x (55 - s)"
        using R by metis
      then show "bit (push_bit s x) j = bit (push_bit s x) 55"
        using b [of j] b [of 55] j by simp
    qed
  qed
  then show ?thesis unfolding int_mask_iff sext_def s_def q_def .
qed

lemma int_trunc_shifted:
  assumes "1 \<le> k" "k \<le> 8" "sext (8 * k - 1) x"
  shows "\<exists>n. int_trunc (push_bit (8 * (8 - k)) x) k = (push_bit (8 * (8 - n)) x, n) \<and>
    1 \<le> n \<and> n \<le> k \<and> sext (8 * n - 1) x \<and> (n = 1 \<or> \<not> sext (8 * (n - 1) - 1) x)"
  using assms
proof (induction k)
  case 0
  then show ?case by simp
next
  case (Suc k)
  show ?case
  proof (cases "k = 0 \<or> \<not> sext (8 * k - 1) x")
    case True
    then have "int_trunc (push_bit (8 * (8 - Suc k)) x) (Suc k) = (push_bit (8 * (8 - Suc k)) x, Suc k)"
      using Suc.prems int_mask_sext [of "Suc k" x]
      by (subst int_trunc.simps) auto
    with True Suc.prems show ?thesis by auto
  next
    case False
    have "8 + 8 * (8 - Suc k) = 8 * (8 - k)"
      using Suc.prems by simp
    then have "push_bit 8 (push_bit (8 * (8 - Suc k)) x) = push_bit (8 * (8 - k)) x"
      by (simp only: push_bit_push_bit)
    then have "int_trunc (push_bit (8 * (8 - Suc k)) x) (Suc k) = int_trunc (push_bit (8 * (8 - k)) x) k"
      using False Suc.prems int_mask_sext [of "Suc k" x]
      by (subst int_trunc.simps) auto
    with Suc.IH False Suc.prems show ?thesis by fastforce
  qed
qed

lemma sext_64: "sext 63 x"
proof -
  have "bit x j = bit x 63" if "j < 64" "63 \<le> j" for j
  proof -
    have "j = 63" using that by linarith
    then show ?thesis by simp
  qed
  then show ?thesis unfolding sext_def by blast
qed

lemma int_trunc_spec:
  obtains n where "int_trunc x 8 = (push_bit (8 * (8 - n)) x, n)" "1 \<le> n" "n \<le> 8"
    "sext (8 * n - 1) x" "n = 1 \<or> \<not> sext (8 * (n - 1) - 1) x"
  using int_trunc_shifted [of 8 x] by (auto simp: sext_64)

lemma int_out_byte:
  assumes "k \<le> 7"
  shows "top_octet (push_bit (8 * (7 - k)) x) = ucast (drop_bit (8 * k) x)"
proof -
  have m: "(0xff :: u64) = mask 8" by (simp add: mask_eq_exp_minus_1)
  obtain d where d: "d = 8 * (7 - k)" "d + 8 * k = 56"
    using assms by simp
  then have "56 + i - d = 8 * k + i" for i by linarith
  then show ?thesis
    unfolding top_octet_def m d(1) [symmetric] using d(2)
    by (intro bit_word_eqI) (auto simp: bit_simps)
qed

lemma int_out_bytes:
  "n \<le> 8 \<Longrightarrow> int_out mem data n (push_bit (8 * (8 - n)) x) =
     ebind (wr_bytes mem data (be_bytes n x)) (\<lambda>mem'. Inr (mem', data + n))"
proof (induction n arbitrary: mem data)
  case 0
  then show ?case by simp
next
  case (Suc n)
  have "8 + 8 * (7 - n) = 8 * (8 - n)" using Suc.prems by simp
  then have "push_bit 8 (push_bit (8 * (7 - n)) x) = push_bit (8 * (8 - n)) x"
    by (simp only: push_bit_push_bit)
  with Suc int_out_byte [of n x] show ?case
    by (simp add: wr_bytes.simps(2)) (cases "wr mem data (ucast (drop_bit (8 * n) x))"; simp)
qed

lemma be_acc_sext:
  assumes "1 \<le> n" "sext (8 * n - 1) x"
  shows "be_acc (if bit x (8 * n - 1) then - 1 else 0) (be_bytes n x) = x"
proof (rule bit_word_eqI)
  fix i assume "i < LENGTH(64)"
  then have i: "i < 64" by simp
  show "bit (be_acc (if bit x (8 * n - 1) then - 1 else 0 :: u64) (be_bytes n x)) i = bit x i"
  proof (cases "i < 8 * n")
    case True
    then show ?thesis using i by (simp add: be_acc_be_bytes bit_simps)
  next
    case False
    then have "8 * n - 1 \<le> i" by simp
    then have "bit x i = bit x (8 * n - 1)"
      using assms(2) i unfolding sext_def by blast
    then show ?thesis using i False by (simp add: be_acc_be_bytes bit_simps less_imp_diff_less)
  qed
qed

lemma hd_be_bytes: "1 \<le> n \<Longrightarrow> hd (be_bytes n (x::u64)) AND 0x80 = 0 \<longleftrightarrow> \<not> bit x (8 * n - 1)"
proof (cases n)
  case (Suc k)
  have "ucast (drop_bit (8 * k) x) AND (2 ^ 7 :: u8) = 0 \<longleftrightarrow> \<not> bit x (8 * n - 1)"
    unfolding and_exp_eq_0_iff_not_bit using Suc by (simp add: bit_simps add.commute)
  then show ?thesis using Suc by simp
qed simp

subsection \<open>The encoders store the shortest two's complement form\<close>

definition int_octets :: "u64 \<Rightarrow> nat" where
  "int_octets x = snd (int_trunc x 8)"

definition enc_int :: "u8 \<Rightarrow> u64 \<Rightarrow> bytes" where
  "enc_int type x = enc_header type (int_octets x) @ be_bytes (int_octets x) x"

lemma int_octets:
  "int_trunc x 8 = (push_bit (8 * (8 - int_octets x)) x, int_octets x)"
  "1 \<le> int_octets x" "int_octets x \<le> 8" "sext (8 * int_octets x - 1) x"
  "int_octets x = 1 \<or> \<not> sext (8 * (int_octets x - 1) - 1) x"
  by (rule int_trunc_spec [of x]; simp add: int_octets_def)+

lemma builds_int: "builds (\<lambda>m d l. asn_build_int m d l type x 8) (enc_int type (check_overflow_s x))"
proof -
  let ?x = "check_overflow_s x"
  let ?n = "int_octets ?x"
  have "builds (\<lambda>m d l. ebind (asn_build_header m d l type ?n) (\<lambda>(m', d', l').
      if asn_build_header_check l' ?n then Inl HeaderTooShort
      else ebind (int_out m' d' ?n (push_bit (8 * (8 - ?n)) ?x)) (\<lambda>(m'', d'').
        Inr (m'', d'', usub64 l' ?n)))) (enc_header type ?n @ be_bytes ?n ?x)"
    by (rule builds_primitive)
       (use int_octets(3) [of ?x] in \<open>simp_all add: int_out_bytes wr_bytes_inside\<close>)
  then show ?thesis
    by (simp add: asn_build_int_def int_octets(1) enc_int_def)
qed

lemma and_low32: "(x::u64) AND 0xffffffff = take_bit 32 x"
  by (simp add: take_bit_eq_mask mask_eq_exp_minus_1)

lemma check_overflow_u_bound: "unat (check_overflow_u x) < 2 ^ 32"
proof -
  have "x AND 0xffffffff = take_bit 32 x" by (rule and_low32)
  then show ?thesis
    by (auto simp: check_overflow_u_def word_less_nat_alt not_less unsigned_take_bit_eq
          take_bit_nat_less_exp [of 32, simplified])
qed

lemma bit_above: "unat x < 2 ^ n \<Longrightarrow> n \<le> i \<Longrightarrow> \<not> bit x i"
  by (simp add: bit_unat) (metis div_less even_zero le_less_trans less_le_trans nat_power_less_imp_less
      not_less one_le_numeral power_increasing)

lemma builds_unsigned_int:
  "builds (\<lambda>m d l. asn_build_unsigned_int m d l type x 8) (enc_int type (check_overflow_u x))"
proof -
  let ?x = "check_overflow_u x"
  let ?n = "int_octets ?x"
  have "\<not> bit ?x 63"
    using check_overflow_u_bound by (rule bit_above) simp
  then have nul: "top_octet ?x AND 0x80 = 0"
    using int_out_byte [of 7 ?x] hd_be_bytes [of 8 ?x] be_bytes.simps(2) [of 7 ?x] by simp
  have "builds (\<lambda>m d l. ebind (asn_build_header m d l type ?n) (\<lambda>(m', d', l').
      if asn_build_header_check l' ?n then Inl HeaderTooShort
      else ebind (int_out m' d' ?n (push_bit (8 * (8 - ?n)) ?x)) (\<lambda>(m'', d'').
        Inr (m'', d'', usub64 l' ?n)))) (enc_header type ?n @ be_bytes ?n ?x)"
    by (rule builds_primitive)
       (use int_octets(3) [of ?x] in \<open>simp_all add: int_out_bytes wr_bytes_inside\<close>)
  with nul show ?thesis
    by (simp add: asn_build_unsigned_int_def Let_def int_octets(1) enc_int_def cong: if_cong)
qed


subsection \<open>Reading the encodings back\<close>

lemma sext_le:
  assumes "unat x < 2 ^ m" "m \<le> n" shows "sext n x"
  using bit_above [OF assms(1)] assms(2) unfolding sext_def by (meson le_trans)

lemma enc_int_stored:
  assumes "stored mem data (enc_int type x)"
  shows "rd mem data = Inr type"
    and "asn_parse_length mem (data + 1) = Inr (data + length (enc_header type (int_octets x)), int_octets x)"
    and "stored mem (data + length (enc_header type (int_octets x))) (be_bytes (int_octets x) x)"
proof -
  let ?n = "int_octets x"
  have s: "stored mem data (enc_header type ?n)" "stored mem (data + length (enc_header type ?n)) (be_bytes ?n x)"
    using assms by (simp_all add: enc_int_def)
  show "rd mem data = Inr type"
    using s(1) by (simp add: enc_header_def rd_def)
  show "stored mem (data + length (enc_header type ?n)) (be_bytes ?n x)" by (fact s(2))
  show "asn_parse_length mem (data + 1) = Inr (data + length (enc_header type ?n), ?n)"
    using s(1) int_octets(3) [of x] asn_parse_length_enc [of mem "data + 1" ?n]
    by (simp add: enc_header_def)
qed

lemma be_loop_enc_int:
  assumes "stored mem bufp (be_bytes (int_octets x) x)"
  shows "\<exists>b. rd mem bufp = Inr b \<and>
    be_loop mem bufp (int_octets x) (if b AND 0x80 \<noteq> 0 then - 1 else 0) = Inr (bufp + int_octets x, x)"
proof -
  let ?n = "int_octets x"
  obtain b bs where b: "be_bytes ?n x = b # bs"
    using int_octets(2) [of x] length_be_bytes [of ?n x] by (cases "be_bytes ?n x") auto
  have "b AND 0x80 = 0 \<longleftrightarrow> \<not> bit x (8 * ?n - 1)"
    using hd_be_bytes [OF int_octets(2), of x x] b by simp
  then have "be_acc (if b AND 0x80 \<noteq> 0 then - 1 else 0) (be_bytes ?n x) = x"
    using be_acc_sext [OF int_octets(2,4), of x] by simp
  moreover have "rd mem bufp = Inr b"
    using assms b by (simp add: rd_def)
  ultimately show ?thesis
    using be_loop_stored [OF assms] by auto
qed

lemma asn_length_check_enc_int:
  assumes "length (enc_int type x) \<le> dl"
  shows "\<not> asn_parse_length_check (data + length (enc_header type (int_octets x))) data (int_octets x) dl"
  by (rule asn_parse_length_check_fits)
     (use assms int_octets(3) [of x] length_enc_length(2) [of "int_octets x"]
      in \<open>auto simp: enc_int_def enc_header_def intro: le_trans [where j = 3]\<close>)

lemma asn_parse_int_enc:
  assumes "stored mem data (enc_int ASN_INTEGER x)" and "length (enc_int ASN_INTEGER x) \<le> dl"
  shows "asn_parse_int mem data dl 8 =
    Inr (data + length (enc_int ASN_INTEGER x), dl - length (enc_int ASN_INTEGER x), ASN_INTEGER,
         check_overflow_s x)"
proof -
  let ?n = "int_octets x" and ?h = "length (enc_header ASN_INTEGER (int_octets x))"
  note s = enc_int_stored [OF assms(1)]
  obtain b where "rd mem (data + ?h) = Inr b"
      "be_loop mem (data + ?h) ?n (if b AND 0x80 \<noteq> 0 then - 1 else 0) = Inr (data + ?h + ?n, x)"
    using be_loop_enc_int [OF s(3)] by blast
  with s(1,2) asn_length_check_enc_int [OF assms(2), of data] int_octets(2,3) [of x] assms(2)
  show ?thesis
    by (simp add: asn_parse_int_def enc_int_def ac_simps)
qed

definition unsigned_type :: "u8 \<Rightarrow> bool" where
  "unsigned_type type \<longleftrightarrow> type = ASN_COUNTER \<or> type = ASN_GAUGE \<or> type = ASN_TIMETICKS \<or> type = ASN_UINTEGER"

lemma asn_parse_unsigned_int_enc:
  assumes "stored mem data (enc_int type x)" and "length (enc_int type x) \<le> dl"
    and "unsigned_type type"
  shows "asn_parse_unsigned_int mem data dl 8 =
    Inr (data + length (enc_int type x), dl - length (enc_int type x), type, check_overflow_u x)"
proof -
  let ?n = "int_octets x" and ?h = "length (enc_header type (int_octets x))"
  note s = enc_int_stored [OF assms(1)]
  obtain b where "rd mem (data + ?h) = Inr b"
      "be_loop mem (data + ?h) ?n (if b AND 0x80 \<noteq> 0 then - 1 else 0) = Inr (data + ?h + ?n, x)"
    using be_loop_enc_int [OF s(3)] by blast
  with s(1,2) asn_length_check_enc_int [OF assms(2), of data] int_octets(2,3) [of x] assms(2,3)
  show ?thesis
    by (auto simp: asn_parse_unsigned_int_def enc_int_def unsigned_type_def ac_simps)
qed

interpretation int_codec: asn_codec "\<lambda>_. True" "\<lambda>x. enc_int ASN_INTEGER (check_overflow_s x)"
  "\<lambda>x m d l. asn_build_int m d l ASN_INTEGER x 8" "\<lambda>m d l. asn_parse_int m d l 8"
  "\<lambda>x. (ASN_INTEGER, check_overflow_s (check_overflow_s x))"
  by unfold_locales (simp_all add: builds_int asn_parse_int_enc)

interpretation uint_codec: asn_codec "\<lambda>(type, x). unsigned_type type"
  "\<lambda>(type, x). enc_int type (check_overflow_u x)"
  "\<lambda>(type, x) m d l. asn_build_unsigned_int m d l type x 8" "\<lambda>m d l. asn_parse_unsigned_int m d l 8"
  "\<lambda>(type, x). (type, check_overflow_u (check_overflow_u x))"
  by unfold_locales (auto simp: builds_unsigned_int asn_parse_unsigned_int_enc)

lemma length_enc_int: "length (enc_int type x) \<le> 10"
  using int_octets(3) [of x] by (simp add: enc_int_def enc_header_def enc_length_def)

lemma check_overflow_s_id: "- (2 ^ 31) \<le> sint x \<Longrightarrow> sint x < 2 ^ 31 \<Longrightarrow> check_overflow_s x = x"
  by (simp add: check_overflow_s_def)

lemma check_overflow_s_upper:
  assumes "0 \<le> sint x" "sint x < 2 ^ 32"
  shows "check_overflow_s x = x"
proof -
  have "sint x = int (unat x)"
    using assms(1) sint_neg64 [of x] by (intro sint_nonneg64) linarith
  then have "int (unat x) < int (2 ^ 32)" using assms(2) by simp
  then have "unat x < 2 ^ 32" by (simp only: of_nat_less_iff)
  then have "x AND 0xffffffff = x"
    by (simp add: and_low32 word_unat_eq_iff unsigned_take_bit_eq take_bit_nat_eq_self)
  then show ?thesis using assms by (simp add: check_overflow_s_def)
qed

lemma check_overflow_u_idem [simp]: "check_overflow_u (check_overflow_u x) = check_overflow_u x"
  using check_overflow_u_bound [of x]
  by (simp add: check_overflow_u_def [of "check_overflow_u x"] word_less_nat_alt)

lemma check_overflow_u_id: "unat x < 2 ^ 32 \<Longrightarrow> check_overflow_u x = x"
  by (simp add: check_overflow_u_def word_less_nat_alt)


subsection \<open>Properties\<close>

text \<open>
  C9 (INTEGER round trip).  For every value between \<open>INT32_MIN\<close> and \<open>UINT32_MAX\<close>, and a buffer
  with room for ten bytes, \<open>asn_build_int\<close> succeeds and \<open>asn_parse_int\<close> on the bytes it stored
  returns the same value, the tag, and the same position and remaining length as the encoder;
  no byte outside the object changes.
\<close>

theorem asn_int_roundtrip:
  assumes "- (2 ^ 31) \<le> sint x" and "sint x < 2 ^ 32"
    and "data + dl \<le> length mem" and "10 \<le> dl"
  shows "\<exists>mem' data' dl'. asn_build_int mem data dl ASN_INTEGER x 8 = Inr (mem', data', dl') \<and>
    asn_parse_int mem' data dl 8 = Inr (data', dl', ASN_INTEGER, x) \<and>
    data' + dl' = data + dl \<and> length mem' = length mem \<and>
    (\<forall>i. i < data \<or> data' \<le> i \<longrightarrow> mem' ! i = mem ! i)"
proof -
  have "check_overflow_s x = x"
    using assms(1,2) check_overflow_s_id [of x] check_overflow_s_upper [of x] by linarith
  then show ?thesis
    using int_codec.round_trip [of data dl mem x] assms(3,4)
      le_trans [OF length_enc_int assms(4), of ASN_INTEGER x] by simp
qed

theorem asn_int_roundtrip_witness:
  "\<exists>mem' data' dl'. asn_build_int (replicate 12 0) 1 10 ASN_INTEGER (- 129) 8 = Inr (mem', data', dl') \<and>
    asn_parse_int mem' 1 10 8 = Inr (data', dl', ASN_INTEGER, - 129)"
  using asn_int_roundtrip [of "- 129" 1 10 "replicate 12 0"] by auto

text \<open>
  Unsigned round trip.  For the four unsigned tags and every value below \<open>2 ^ 32\<close>,
  \<open>asn_parse_unsigned_int\<close> reads back exactly what \<open>asn_build_unsigned_int\<close> stored.
\<close>

lemma asn_unsigned_int_roundtrip:
  assumes "unat x < 2 ^ 32" and "unsigned_type type"
    and "data + dl \<le> length mem" and "10 \<le> dl"
  shows "\<exists>mem' data' dl'. asn_build_unsigned_int mem data dl type x 8 = Inr (mem', data', dl') \<and>
    asn_parse_unsigned_int mem' data dl 8 = Inr (data', dl', type, x) \<and>
    data' + dl' = data + dl \<and> length mem' = length mem \<and>
    (\<forall>i. i < data \<or> data' \<le> i \<longrightarrow> mem' ! i = mem ! i)"
  using uint_codec.round_trip [of "(type, x)" data dl mem] assms
    le_trans [OF length_enc_int assms(4), of type x]
  by (simp add: check_overflow_u_id)

lemma asn_unsigned_int_roundtrip_witness:
  "\<exists>mem' data' dl'. asn_build_unsigned_int (replicate 10 0) 0 10 ASN_GAUGE 0xffffffff 8 =
      Inr (mem', data', dl') \<and>
    asn_parse_unsigned_int mem' 0 10 8 = Inr (data', dl', ASN_GAUGE, 0xffffffff)"
  using asn_unsigned_int_roundtrip [of "0xffffffff" ASN_GAUGE 0 10 "replicate 10 0"]
  by (auto simp: unsigned_type_def)

text \<open>
  Shortest form.  \<open>asn_build_int\<close> stores the header and then the low octets of the value,
  most significant first, and their number is the least one whose sign extension is the value:
  the comment's promise that no nine leading bits are equal.
\<close>

lemma asn_build_int_shortest:
  assumes "data + dl \<le> length mem" and "asn_build_int mem data dl type x 8 = Inr (mem', data', dl')"
  shows "\<exists>n. stored mem' data (enc_header type n @ be_bytes n (check_overflow_s x)) \<and>
    data' = data + length (enc_header type n) + n \<and>
    1 \<le> n \<and> sext (8 * n - 1) (check_overflow_s x) \<and>
    (\<forall>k. 1 \<le> k \<and> sext (8 * k - 1) (check_overflow_s x) \<longrightarrow> n \<le> k)"
proof -
  let ?x = "check_overflow_s x"
  let ?e = "enc_int type ?x"
  have "length ?e \<le> dl"
    using builds_short [OF builds_int assms(1), of type x] assms(2) by fastforce
  with assms have "mem' = store_at mem data ?e" "data' = data + length ?e"
    using builds_ok [OF builds_int assms(1), of type x] by auto
  moreover have "stored (store_at mem data ?e) data ?e"
    using \<open>length ?e \<le> dl\<close> assms(1) by (intro stored_store_at) simp
  moreover have "int_octets ?x \<le> k" if "1 \<le> k" "sext (8 * k - 1) ?x" for k
  proof (rule ccontr)
    assume "\<not> int_octets ?x \<le> k"
    then have "8 * k - 1 \<le> 8 * (int_octets ?x - 1) - 1" and "int_octets ?x \<noteq> 1"
      and "8 * (int_octets ?x - 1) - 1 < 64"
      using that(1) int_octets(3) [of ?x] by auto
    with that(2) have "sext (8 * (int_octets ?x - 1) - 1) ?x"
      by (blast intro: sext_mono)
    with int_octets(5) [of ?x] \<open>int_octets ?x \<noteq> 1\<close> show False by blast
  qed
  ultimately show ?thesis
    using int_octets(2,4) [of ?x]
    by (intro exI [of _ "int_octets ?x"]) (auto simp: enc_int_def)
qed

lemma asn_build_int_shortest_witness:
  "\<exists>n mem' data' dl'. asn_build_int (replicate 10 0) 0 10 ASN_INTEGER 128 8 = Inr (mem', data', dl') \<and>
    data' = length (enc_header ASN_INTEGER n) + n \<and> sext (8 * n - 1) (check_overflow_s 128)"
proof -
  obtain mem' data' dl' where
    b: "asn_build_int (replicate 10 0) 0 10 ASN_INTEGER 128 8 = Inr (mem', data', dl')"
    using builds_ok [OF builds_int, of 0 10 "replicate 10 0" ASN_INTEGER 128]
      le_trans [OF length_enc_int, of 10 ASN_INTEGER "check_overflow_s 128"] by simp
  show ?thesis using asn_build_int_shortest [OF _ b] b by auto
qed

lemma parse_int_safe:
  assumes "data + max dl 10 \<le> length mem"
  shows "safe (asn_parse_int mem data dl intsize)"
proof -
  have "safe (asn_parse_length mem (data + 1))"
    using assms by (intro asn_parse_length_safe) simp
  moreover have "bufp < length mem \<and> bufp + n \<le> length mem"
    if "asn_parse_length mem (data + 1) = Inr (bufp, n)"
      "\<not> asn_parse_length_check bufp data n dl" "n \<noteq> 0" for bufp n
    using asn_parse_length_checked [OF that(1,2)] that(3) assms by auto
  ultimately show ?thesis
    using assms unfolding asn_parse_int_def
    by (auto simp: rd_inside be_loop_inside split: prod.splits intro!: safe_ebind)
qed

text \<open>
  Memory safety of the integer decoder.  \<open>asn_parse_int\<close> reads only inside a buffer that
  extends to the end of the announced data and at least ten bytes from the object: a tag and
  the longest length field are read before \<open>datalength\<close> is looked at.
\<close>

lemma asn_parse_int_safe:
  assumes "data + max dl 10 \<le> length mem"
  shows "safe (asn_parse_int mem data dl intsize)"
  by (rule parse_int_safe [OF assms])

lemma asn_parse_int_safe_witness:
  "safe (asn_parse_int (0x02 # 0x84 # replicate 8 0xff) 0 2 8)"
  using asn_parse_int_safe [of 0 2 "0x02 # 0x84 # replicate 8 0xff" 8] by simp

text \<open>
  The header is read before the length is checked.  On the two-byte message \<open>02 84\<close>, with
  \<open>datalength = 2\<close>, \<open>asn_parse_int\<close> reads past the end of the message: eight more readable bytes are really needed.
\<close>

lemma asn_parse_int_overread: "asn_parse_int [0x02, 0x84] 0 2 8 = Inl OverRead"
  by (simp add: asn_parse_int_def asn_parse_length_def rd_def be_loop_outside)

end
