(* ===== verification/Asn1_Int64.thy ===== *)
theory Asn1_Int64
  imports Asn1_Int
begin

unbundle bit_operations_syntax

section \<open>BER 64-bit integers (\<open>snmplib/asn1.c\<close>)\<close>

text \<open>
  \<open>asn_parse_unsigned_int64\<close>, \<open>asn_build_unsigned_int64\<close>, \<open>asn_parse_signed_int64\<close> and
  \<open>asn_build_signed_int64\<close>.  A \<open>struct counter64\<close> holds the two halves of the number in two
  \<open>u_long\<close>s.  The four loops shift the pair by one octet: \<open>loop64\<close> is the input loop (on
  \<open>u_long\<close>s in the unsigned decoder, on \<open>u_int\<close>s in the signed one), \<open>trunc64\<close> and \<open>out64\<close> are
  the loops of the encoders.

  \<open>pair64\<close> is the 64-bit number such a pair stands for.  The lemmas show that each pair loop
  computes what the 64-bit loops of \<open>asn_build_int\<close> compute on \<open>pair64\<close>, whatever is in the
  upper half of the \<open>u_long\<close>s.
\<close>

record counter64 =
  ctr_high :: u64
  ctr_low :: u64

definition shift_high :: "'a::len word \<Rightarrow> 'a word \<Rightarrow> 'a word" where
  "shift_high high low = push_bit 8 (high AND 0x00ffffff) OR drop_bit 24 (low AND 0xff000000)"

definition shift_low :: "'a::len word \<Rightarrow> 'a word" where
  "shift_low low = push_bit 8 (low AND 0x00ffffff)"

fun loop64 :: "bytes \<Rightarrow> nat \<Rightarrow> nat \<Rightarrow> 'a::len word \<Rightarrow> 'a word \<Rightarrow> (nat \<times> 'a word \<times> 'a word) res" where
  "loop64 mem bufp 0 high low = Inr (bufp, high, low)"
| "loop64 mem bufp (Suc n) high low =
     ebind (rd mem bufp) (\<lambda>b.
     loop64 mem (Suc bufp) n (shift_high high low) (shift_low low OR ucast b))"


subsection \<open>Decoders\<close>

text \<open>The opaque wrapper: the inner tag becomes the type and the inner length the length.\<close>

definition opaque_int64 ::
  "bytes \<Rightarrow> nat \<Rightarrow> nat \<Rightarrow> u8 \<Rightarrow> nat \<Rightarrow> nat \<Rightarrow> (nat \<times> nat \<times> u8) res" where
  "opaque_int64 mem data datalength type bufp asn_length =
     (if type = ASN_OPAQUE \<and> asn_length \<le> 12 then
        ebind (rd mem bufp) (\<lambda>tag1.
        if tag1 = ASN_OPAQUE_TAG1 then
          ebind (rd mem (bufp + 1)) (\<lambda>tag2.
          if tag2 = ASN_OPAQUE_COUNTER64 \<or> tag2 = ASN_OPAQUE_U64 then
            ebind (asn_parse_length mem (bufp + 2)) (\<lambda>(bufp', asn_length').
            if asn_parse_length_check bufp' data asn_length' datalength then Inl MsgOverflow
            else Inr (bufp', asn_length', tag2))
          else Inr (bufp, asn_length, type))
        else Inr (bufp, asn_length, type))
      else Inr (bufp, asn_length, type))"

definition asn_parse_unsigned_int64 ::
  "bytes \<Rightarrow> nat \<Rightarrow> nat \<Rightarrow> nat \<Rightarrow> (nat \<times> nat \<times> u8 \<times> counter64) res" where
  "asn_parse_unsigned_int64 mem data datalength countersize =
     (if countersize \<noteq> 16 then Inl (SizeErr countersize)
      else ebind (rd mem data) (\<lambda>type.
        if type \<noteq> ASN_COUNTER64 \<and> type \<noteq> ASN_OPAQUE then Inl (TypeErr type)
        else ebind (asn_parse_length mem (data + 1)) (\<lambda>(bufp, asn_length).
          if asn_parse_length_check bufp data asn_length datalength then Inl MsgOverflow
          else ebind (opaque_int64 mem data datalength type bufp asn_length) (\<lambda>(bufp, asn_length, type).
            if asn_length > 9 then Inl (LengthErr asn_length)
            else ebind (if asn_length = 9 then rd mem bufp else Inr 0) (\<lambda>b.
              if b \<noteq> 0 then Inl (LengthErr asn_length)
              else ebind (loop64 mem bufp asn_length (0::u64) 0) (\<lambda>(bufp', high, low).
                Inr (bufp', usub64 datalength (asn_length + (bufp - data)), type,
                     \<lparr>ctr_high = check_overflow_u high, ctr_low = check_overflow_u low\<rparr>)))))))"

definition asn_parse_signed_int64 ::
  "bytes \<Rightarrow> nat \<Rightarrow> nat \<Rightarrow> nat \<Rightarrow> (nat \<times> nat \<times> u8 \<times> counter64) res" where
  "asn_parse_signed_int64 mem data datalength countersize =
     (if countersize \<noteq> 16 then Inl (SizeErr countersize)
      else ebind (rd mem data) (\<lambda>type.
        ebind (asn_parse_length mem (data + 1)) (\<lambda>(bufp, asn_length).
          if asn_parse_length_check bufp data asn_length datalength then Inl MsgOverflow
          else ebind (rd mem bufp) (\<lambda>tag1.
          ebind (rd mem (bufp + 1)) (\<lambda>tag2.
          if type = ASN_OPAQUE \<and> asn_length \<le> 12 \<and> tag1 = ASN_OPAQUE_TAG1 \<and> tag2 = ASN_OPAQUE_I64 then
            ebind (asn_parse_length mem (bufp + 2)) (\<lambda>(bufp, asn_length).
            if asn_parse_length_check bufp data asn_length datalength then Inl MsgOverflow
            else if asn_length > 9 then Inl (LengthErr asn_length)
            else ebind (rd mem bufp) (\<lambda>b.
              if asn_length = 9 \<and> b \<noteq> 0 then Inl (LengthErr asn_length)
              else ebind (loop64 mem bufp asn_length (if b AND 0x80 \<noteq> 0 then 0xffffff else 0 :: u32)
                           (if b AND 0x80 \<noteq> 0 then 0xffffffff else 0)) (\<lambda>(bufp', high, low).
                Inr (bufp', usub64 datalength (asn_length + (bufp - data)), tag2,
                     \<lparr>ctr_high = ucast high, ctr_low = ucast low\<rparr>))))
          else Inl (TypeErr type))))))"


subsection \<open>Encoders\<close>

fun trunc64 :: "u64 \<Rightarrow> u64 \<Rightarrow> nat \<Rightarrow> u64 \<times> u64 \<times> nat" where
  "trunc64 high low intsize =
     (if (high AND 0xff800000 = 0 \<or> high AND 0xff800000 = 0xff800000) \<and> intsize > 1
      then trunc64 (shift_high high low) (shift_low low) (intsize - 1)
      else (high, low, intsize))"

declare trunc64.simps [simp del]

fun out64 :: "bytes \<Rightarrow> nat \<Rightarrow> nat \<Rightarrow> u64 \<Rightarrow> u64 \<Rightarrow> (bytes \<times> nat) res" where
  "out64 mem data 0 high low = Inr (mem, data)"
| "out64 mem data (Suc n) high low =
     ebind (wr mem data (ucast (drop_bit 24 high))) (\<lambda>mem'.
     out64 mem' (Suc data) n (shift_high high low) (shift_low low))"

text \<open>The octets \<open>asn_build_unsigned_int64\<close> sends, and its output code.\<close>

definition uint64_trunc :: "counter64 \<Rightarrow> bool \<times> u64 \<times> u64 \<times> nat" where
  "uint64_trunc cp =
     (let low = check_overflow_u (ctr_low cp); high = check_overflow_u (ctr_high cp) in
      if high AND 0x80000000 \<noteq> 0 then (True, high, low, 9)
      else (False, trunc64 high low 8))"

definition uint64_out :: "bool \<times> u64 \<times> u64 \<times> nat \<Rightarrow> bytes \<Rightarrow> nat \<Rightarrow> nat \<Rightarrow> bstate res" where
  "uint64_out t mem data datalength =
     (case t of (add_null_byte, high, low, intsize) \<Rightarrow>
      if add_null_byte then
        ebind (wr mem data 0) (\<lambda>mem'.
        ebind (out64 mem' (data + 1) (intsize - 1) high low) (\<lambda>(mem'', data').
        Inr (mem'', data', usub64 datalength intsize)))
      else ebind (out64 mem data intsize high low) (\<lambda>(mem', data').
        Inr (mem', data', usub64 datalength intsize)))"

definition asn_build_unsigned_int64 ::
  "bytes \<Rightarrow> nat \<Rightarrow> nat \<Rightarrow> u8 \<Rightarrow> counter64 \<Rightarrow> nat \<Rightarrow> bstate res" where
  "asn_build_unsigned_int64 mem data datalength type cp countersize =
     (if countersize \<noteq> 16 then Inl (SizeErr countersize)
      else let t = uint64_trunc cp; (_, _, _, intsize) = t in
        if type = ASN_OPAQUE_COUNTER64 \<or> type = ASN_OPAQUE_U64 then
          ebind (asn_build_header mem data datalength ASN_OPAQUE (intsize + 3)) (\<lambda>(mem', data', dl').
          if asn_build_header_check dl' (intsize + 3) then Inl HeaderTooShort
          else ebind (wr_bytes mem' data' [ASN_OPAQUE_TAG1, type, word_of_nat intsize]) (\<lambda>mem''.
               uint64_out t mem'' (data' + 3) (usub64 dl' 3)))
        else
          ebind (asn_build_header mem data datalength type intsize) (\<lambda>(mem', data', dl').
          if asn_build_header_check dl' intsize then Inl HeaderTooShort
          else uint64_out t mem' data' dl'))"

definition asn_build_signed_int64 ::
  "bytes \<Rightarrow> nat \<Rightarrow> nat \<Rightarrow> u8 \<Rightarrow> counter64 \<Rightarrow> nat \<Rightarrow> bstate res" where
  "asn_build_signed_int64 mem data datalength type cp countersize =
     (if countersize \<noteq> 16 then Inl (SizeErr countersize)
      else let low = check_overflow_u (ctr_low cp);
               high = check_overflow_s (ctr_high cp);
               (high, low, intsize) = trunc64 high low 8 in
        ebind (asn_build_header mem data datalength ASN_OPAQUE (intsize + 3)) (\<lambda>(mem', data', dl').
        if asn_build_header_check dl' (intsize + 3) then Inl HeaderTooShort
        else ebind (wr_bytes mem' data' [ASN_OPAQUE_TAG1, ASN_OPAQUE_I64, word_of_nat intsize]) (\<lambda>mem''.
             ebind (out64 mem'' (data' + 3) intsize high low) (\<lambda>(mem3, data3).
             Inr (mem3, data3, usub64 dl' (3 + intsize))))))"


subsection \<open>The pair loops are the 64-bit loops\<close>

definition pair64 :: "'a::len word \<Rightarrow> 'a word \<Rightarrow> u64" where
  "pair64 high low = push_bit 32 (take_bit 32 (ucast high)) OR take_bit 32 (ucast low)"

lemma mask24: "(0x00ffffff :: 'a::len word) = mask 24"
  by (simp add: mask_eq_exp_minus_1)

lemma mask_top8: "(0xff000000 :: 'a::len word) = push_bit 24 (mask 8)"
  by (simp add: mask_eq_exp_minus_1 push_bit_eq_mult)

lemma mask_top9: "(0xff800000 :: u64) = push_bit 23 (mask 9)"
  by (simp add: mask_eq_exp_minus_1 push_bit_eq_mult)

lemma bit_pair64:
  assumes "32 \<le> LENGTH('a::len)"
  shows "bit (pair64 high (low :: 'a word)) i \<longleftrightarrow>
    (if i < 32 then bit low i else i < 64 \<and> bit high (i - 32))"
  using assms by (auto simp: pair64_def bit_simps)

lemma pair64_step:
  assumes "32 \<le> LENGTH('a::len)"
  shows "pair64 (shift_high high low) (shift_low low OR ucast (b::u8)) =
    push_bit 8 (pair64 high (low :: 'a word)) OR ucast b"
proof (rule bit_word_eqI)
  fix i assume "i < LENGTH(64)"
  then have "i < 64" by simp
  then consider "i < 8" | "8 \<le> i" "i < 32" | "32 \<le> i" "i < 40" | "40 \<le> i" "i < 64" by linarith
  then show "bit (pair64 (shift_high high low) (shift_low low OR ucast b)) i =
      bit (push_bit 8 (pair64 high low) OR ucast b) i"
    using assms
    by cases (auto simp: bit_pair64 bit_simps shift_high_def shift_low_def mask24 mask_top8
      dest: bit_imp_le_length)
qed

lemma pair64_shift: "pair64 (shift_high high low) (shift_low low) = push_bit 8 (pair64 high (low :: u64))"
  using pair64_step [of high low 0] by simp

text \<open>A half that fits 32 bits.\<close>

definition half32 :: "'a::len word \<Rightarrow> bool" where
  "half32 x \<longleftrightarrow> take_bit 32 x = x"

lemma half32_bit: "half32 x \<Longrightarrow> bit x i \<Longrightarrow> i < 32"
  unfolding half32_def by (metis bit_take_bit_iff)

lemma half32_shift:
  assumes "32 \<le> LENGTH('a::len)"
  shows "half32 (shift_high high (low :: 'a word))" "half32 (shift_low low OR ucast (b::u8))"
  unfolding half32_def
  by (rule bit_word_eqI, use assms in \<open>auto simp: bit_simps shift_high_def shift_low_def mask24 mask_top8
      dest: bit_imp_le_length\<close>)+

lemma loop64_be_acc:
  fixes low :: "'a::len word"
  assumes "32 \<le> LENGTH('a)"
  shows "bufp + n \<le> length mem \<Longrightarrow> half32 high \<Longrightarrow> half32 low \<Longrightarrow>
    \<exists>h l. loop64 mem bufp n high low = Inr (bufp + n, h, l) \<and> half32 h \<and> half32 l \<and>
      pair64 h l = be_acc (pair64 high low) (take n (drop bufp mem))"
proof (induction n arbitrary: bufp high low)
  case 0
  then show ?case by simp
next
  case (Suc n)
  let ?h = "shift_high high low" and ?l = "shift_low low OR ucast (mem ! bufp)"
  have "take (Suc n) (drop bufp mem) = mem ! bufp # take n (drop (Suc bufp) mem)"
    using Suc.prems(1) by (simp add: Cons_nth_drop_Suc [symmetric])
  moreover have "\<exists>h l. loop64 mem (Suc bufp) n ?h ?l = Inr (Suc bufp + n, h, l) \<and> half32 h \<and> half32 l \<and>
      pair64 h l = be_acc (pair64 ?h ?l) (take n (drop (Suc bufp) mem))"
    using Suc.prems(1) by (intro Suc.IH half32_shift assms) simp
  ultimately show ?case
    using Suc.prems(1) by (simp add: rd_def pair64_step [OF assms])
qed

lemma pair64_halves:
  fixes high :: "'a::len word"
  assumes "32 \<le> LENGTH('a)" "half32 high" "half32 low"
  shows "ucast high = drop_bit 32 (pair64 high low)" "ucast low = take_bit 32 (pair64 high low)"
  by (rule bit_word_eqI, use assms in \<open>auto simp: bit_simps bit_pair64 dest: half32_bit bit_imp_le_length\<close>)+

lemma trunc64_int_trunc:
  "\<exists>h l. trunc64 high low n = (h, l, snd (int_trunc (pair64 high low) n)) \<and>
     pair64 h l = fst (int_trunc (pair64 high low) n)"
proof (induction high low n rule: trunc64.induct)
  case (1 high low n)
  have b: "bit (high AND 0xff800000) i \<longleftrightarrow> 23 \<le> i \<and> i < 32 \<and> bit high i" for i
    unfolding mask_top9 by (auto simp: bit_simps)
  have m: "bit (0xff800000 :: u64) i \<longleftrightarrow> 23 \<le> i \<and> i < 32" for i
    unfolding mask_top9 by (auto simp: bit_simps)
  have "(high AND 0xff800000 = 0 \<or> high AND 0xff800000 = 0xff800000) \<longleftrightarrow>
      (\<forall>i < 32. 23 \<le> i \<longrightarrow> bit high i = bit high 23)"
  proof -
    have "high AND 0xff800000 = 0 \<longleftrightarrow> (\<forall>i < 32. 23 \<le> i \<longrightarrow> \<not> bit high i)"
      unfolding bit_eq_iff b by (auto simp: less_trans [where y = 32])
    moreover have "high AND 0xff800000 = 0xff800000 \<longleftrightarrow> (\<forall>i < 32. 23 \<le> i \<longrightarrow> bit high i)"
    proof
      assume h: "high AND 0xff800000 = 0xff800000"
      have "bit (high AND 0xff800000) i \<longleftrightarrow> bit (0xff800000 :: u64) i" for i by (simp only: h)
      then show "\<forall>i < 32. 23 \<le> i \<longrightarrow> bit high i" unfolding b m by blast
    next
      assume "\<forall>i < 32. 23 \<le> i \<longrightarrow> bit high i"
      then show "high AND 0xff800000 = 0xff800000" unfolding bit_eq_iff b m by blast
    qed
    ultimately show ?thesis by auto
  qed
  also have "\<dots> \<longleftrightarrow> (\<forall>j < 64. 55 \<le> j \<longrightarrow> bit (pair64 high low) j = bit (pair64 high low) 55)"
    (is "?L \<longleftrightarrow> ?R")
  proof
    assume L: ?L
    show ?R
    proof (intro allI impI)
      fix j :: nat assume j: "j < 64" "55 \<le> j"
      then have "j - 32 < 32" "23 \<le> j - 32" by linarith+
      with L have "bit high (j - 32) = bit high 23" by blast
      then show "bit (pair64 high low) j = bit (pair64 high low) 55" using j by (simp add: bit_pair64)
    qed
  next
    assume R: ?R
    show ?L
    proof (intro allI impI)
      fix i :: nat assume i: "i < 32" "23 \<le> i"
      then have "i + 32 < 64" "55 \<le> i + 32" by linarith+
      with R have "bit (pair64 high low) (i + 32) = bit (pair64 high low) 55" by blast
      then show "bit high i = bit high 23" using i by (simp add: bit_pair64)
    qed
  qed
  finally have c: "(high AND 0xff800000 = 0 \<or> high AND 0xff800000 = 0xff800000) \<longleftrightarrow>
      (pair64 high low AND int_mask = 0 \<or> pair64 high low AND int_mask = int_mask)"
    unfolding int_mask_iff .
  show ?case
  proof (cases "(high AND 0xff800000 = 0 \<or> high AND 0xff800000 = 0xff800000) \<and> n > 1")
    case True
    then have "int_trunc (pair64 high low) n = int_trunc (push_bit 8 (pair64 high low)) (n - 1)"
      using c by (subst int_trunc.simps) simp
    with "1.IH" [OF True] True show ?thesis
      by (subst trunc64.simps) (simp add: pair64_shift)
  next
    case False
    then have "int_trunc (pair64 high low) n = (pair64 high low, n)"
      using c by (subst int_trunc.simps) auto
    with False show ?thesis
      by (subst trunc64.simps) auto
  qed
qed

lemma out64_int_out: "out64 mem data n high low = int_out mem data n (pair64 high low)"
proof (induction n arbitrary: mem data high low)
  case 0
  then show ?case by simp
next
  case (Suc n)
  have "(ucast (drop_bit 24 high) :: u8) = top_octet (pair64 high low)"
  proof -
    have "top_octet (pair64 high low) = ucast (drop_bit 56 (pair64 high low))"
      using int_out_byte [of 7 "pair64 high low"] by simp
    also have "\<dots> = ucast (drop_bit 24 high)"
      by (rule bit_word_eqI) (auto simp: bit_simps bit_pair64)
    finally show ?thesis by simp
  qed
  then show ?case by (simp add: Suc pair64_shift)
qed


subsection \<open>The opaque wrapper\<close>

definition enc_opaque :: "u8 \<Rightarrow> bytes \<Rightarrow> bytes" where
  "enc_opaque tag c = enc_header ASN_OPAQUE (length c + 3) @ [ASN_OPAQUE_TAG1, tag, word_of_nat (length c)] @ c"

lemma length_enc_opaque [simp]: "length c < 100 \<Longrightarrow> length (enc_opaque tag c) = length c + 5"
  by (simp add: enc_opaque_def enc_header_def enc_length_def)

lemma builds_opaque:
  assumes len: "length c = n"
    and body: "\<And>m d l. n \<le> l \<Longrightarrow> d + l \<le> length m \<Longrightarrow> body m d l = Inr (store_at m d c, d + n, l - n)"
  shows "builds (\<lambda>m d l. ebind (asn_build_header m d l ASN_OPAQUE (n + 3)) (\<lambda>(m', d', l').
           if asn_build_header_check l' (n + 3) then Inl HeaderTooShort
           else ebind (wr_bytes m' d' [ASN_OPAQUE_TAG1, tag, word_of_nat n]) (\<lambda>m''.
                body m'' (d' + 3) (usub64 l' 3)))) (enc_opaque tag c)"
  unfolding enc_opaque_def len
proof (rule builds_primitive)
  let ?t = "[ASN_OPAQUE_TAG1, tag, word_of_nat n] :: bytes"
  show "length (?t @ c) = n + 3" using len by simp
  fix m :: bytes and d l :: nat
  assume l: "n + 3 \<le> l" "d + l \<le> length m"
  then have "body (store_at m d ?t) (d + 3) (l - 3) =
      Inr (store_at (store_at m d ?t) (d + 3) c, d + 3 + n, l - 3 - n)"
    by (intro body) simp_all
  moreover have "store_at (store_at m d ?t) (d + 3) c = store_at m d (?t @ c)"
    using store_at_store_at [of d ?t c m] l len by (simp add: numeral_3_eq_3)
  ultimately show "ebind (wr_bytes m d ?t) (\<lambda>m''. body m'' (d + 3) (usub64 l 3)) =
      Inr (store_at m d (?t @ c), d + (n + 3), l - (n + 3))"
    using l by (simp add: mem_simps ac_simps)
qed

lemma enc_opaque_stored:
  assumes "stored mem data (enc_opaque tag c)" and "length c < 100"
  shows "rd mem data = Inr ASN_OPAQUE"
    and "asn_parse_length mem (data + 1) = Inr (data + 2, length c + 3)"
    and "rd mem (data + 2) = Inr ASN_OPAQUE_TAG1" and "rd mem (data + 3) = Inr tag"
    and "asn_parse_length mem (data + 4) = Inr (data + 5, length c)"
    and "stored mem (data + 5) c"
proof -
  have e: "enc_length k = [word_of_nat k]" if "k < 0x80" for k
    using that by (simp add: enc_length_def)
  have s: "stored mem data [ASN_OPAQUE]" "stored mem (data + 1) (enc_length (length c + 3))"
      "stored mem (data + 2) [ASN_OPAQUE_TAG1]" "stored mem (data + 3) [tag]"
      "stored mem (data + 4) (enc_length (length c))" "stored mem (data + 5) c"
    using assms by (simp_all add: enc_opaque_def enc_header_def e numeral_eq_Suc)
  show "rd mem data = Inr ASN_OPAQUE" "rd mem (data + 2) = Inr ASN_OPAQUE_TAG1" "rd mem (data + 3) = Inr tag"
      "stored mem (data + 5) c"
    using s by (simp_all add: rd_def)
  show "asn_parse_length mem (data + 1) = Inr (data + 2, length c + 3)"
    using asn_parse_length_enc [OF s(2)] assms(2) by (simp add: e)
  show "asn_parse_length mem (data + 4) = Inr (data + 5, length c)"
    using asn_parse_length_enc [OF s(5)] assms(2) by (simp add: e)
qed

lemma enc_opaque_checks:
  assumes "length (enc_opaque tag c) \<le> dl" and "length c < 100"
  shows "\<not> asn_parse_length_check (data + 2) data (length c + 3) dl"
    and "\<not> asn_parse_length_check (data + 5) data (length c) dl"
  using assms by (intro asn_parse_length_check_fits; simp)+


subsection \<open>Encodings of 64-bit integers\<close>

definition octets_u64 :: "u64 \<Rightarrow> bytes" where
  "octets_u64 v = (if bit v 63 then 0 # be_bytes 8 v else be_bytes (int_octets v) v)"

definition enc_uint64 :: "u8 \<Rightarrow> u64 \<Rightarrow> bytes" where
  "enc_uint64 type v =
     (if type = ASN_OPAQUE_COUNTER64 \<or> type = ASN_OPAQUE_U64 then enc_opaque type (octets_u64 v)
      else enc_header type (length (octets_u64 v)) @ octets_u64 v)"

definition enc_int64 :: "u64 \<Rightarrow> bytes" where
  "enc_int64 v = enc_opaque ASN_OPAQUE_I64 (be_bytes (int_octets v) v)"

definition value64 :: "counter64 \<Rightarrow> u64" where
  "value64 cp = pair64 (ctr_high cp) (ctr_low cp)"

definition halves64 :: "u64 \<Rightarrow> counter64" where
  "halves64 v = \<lparr>ctr_high = drop_bit 32 v, ctr_low = take_bit 32 v\<rparr>"

lemma length_octets_u64: "1 \<le> length (octets_u64 v)" "length (octets_u64 v) \<le> 9"
  using int_octets(2,3) [of v] by (simp_all add: octets_u64_def)

lemma take_check_overflow_u: "take_bit 32 (check_overflow_u x) = take_bit 32 x"
  by (simp add: check_overflow_u_def and_low32)

lemma pair64_check_overflow_u [simp]:
  "pair64 (check_overflow_u h) l = pair64 h l" "pair64 h (check_overflow_u l) = pair64 h (l::u64)"
  by (simp_all add: pair64_def take_check_overflow_u)

lemma msb_pair64: "(check_overflow_u h AND 0x80000000 \<noteq> 0) \<longleftrightarrow> bit (pair64 h (l::u64)) 63"
proof -
  have "check_overflow_u h AND 2 ^ 31 = 0 \<longleftrightarrow> \<not> bit (check_overflow_u h) 31"
    by (simp only: and_exp_eq_0_iff_not_bit)
  moreover have "bit (check_overflow_u h) 31 \<longleftrightarrow> bit h 31"
    using bit_take_bit_iff [of 32 "check_overflow_u h" 31] bit_take_bit_iff [of 32 h 31]
    by (simp add: take_check_overflow_u)
  ultimately show ?thesis by (simp add: bit_pair64)
qed

lemma uint64_out_spec:
  fixes cp :: counter64
  defines "v \<equiv> value64 cp" and "n \<equiv> length (octets_u64 (value64 cp))"
  shows "\<exists>add_null high low. uint64_trunc cp = (add_null, high, low, n) \<and>
    (\<forall>m d l. n \<le> l \<longrightarrow> d + l \<le> length m \<longrightarrow>
       uint64_out (add_null, high, low, n) m d l = Inr (store_at m d (octets_u64 v), d + n, l - n))"
proof (cases "bit v 63")
  case True
  have msb: "check_overflow_u (ctr_high cp) AND 0x80000000 \<noteq> 0"
    using True msb_pair64 [of "ctr_high cp" "ctr_low cp"] by (simp add: v_def value64_def)
  have o: "octets_u64 v = 0 # be_bytes 8 v" "n = 9"
    using True by (simp_all add: octets_u64_def n_def v_def)
  have "uint64_out (True, check_overflow_u (ctr_high cp), check_overflow_u (ctr_low cp), n) m d l =
      Inr (store_at m d (octets_u64 v), d + n, l - n)" if l: "n \<le> l" "d + l \<le> length m" for m d l
  proof -
    have "store_at (store_at m d [0]) (d + 1) (be_bytes 8 v) = store_at m d (octets_u64 v)"
      using store_at_store_at [of d "[0]" "be_bytes 8 v" m] l o by simp
    then show ?thesis
      using int_out_bytes [of 8 "store_at m d [0]" "d + 1" v] l o
      by (simp add: uint64_out_def out64_int_out v_def value64_def wr_inside wr_bytes_inside)
  qed
  moreover have "uint64_trunc cp = (True, check_overflow_u (ctr_high cp), check_overflow_u (ctr_low cp), n)"
    using msb o(2) by (simp add: uint64_trunc_def)
  ultimately show ?thesis by blast
next
  case False
  have msb: "check_overflow_u (ctr_high cp) AND 0x80000000 = 0"
    using False msb_pair64 [of "ctr_high cp" "ctr_low cp"] by (simp add: v_def value64_def)
  have o: "octets_u64 v = be_bytes n v" "n = int_octets v"
    using False by (simp_all add: octets_u64_def n_def v_def)
  obtain high low where t: "trunc64 (check_overflow_u (ctr_high cp)) (check_overflow_u (ctr_low cp)) 8 =
      (high, low, n)" "pair64 high low = push_bit (8 * (8 - n)) v"
    using trunc64_int_trunc [of "check_overflow_u (ctr_high cp)" "check_overflow_u (ctr_low cp)" 8]
      int_octets(1) [of v] o(2) by (auto simp: v_def value64_def)
  have "n \<le> 8" using int_octets(3) o(2) by simp
  then have "uint64_out (False, high, low, n) m d l = Inr (store_at m d (octets_u64 v), d + n, l - n)"
    if "n \<le> l" "d + l \<le> length m" for m d l
    using that t o(1) by (simp add: uint64_out_def out64_int_out int_out_bytes wr_bytes_inside)
  moreover have "uint64_trunc cp = (False, high, low, n)"
    using msb t(1) by (simp add: uint64_trunc_def)
  ultimately show ?thesis by blast
qed

lemma builds_uint64:
  "builds (\<lambda>m d l. asn_build_unsigned_int64 m d l type cp 16) (enc_uint64 type (value64 cp))"
proof -
  let ?v = "value64 cp" and ?n = "length (octets_u64 (value64 cp))"
  obtain add_null high low where t: "uint64_trunc cp = (add_null, high, low, ?n)"
    and body: "\<And>m d l. ?n \<le> l \<Longrightarrow> d + l \<le> length m \<Longrightarrow>
      uint64_out (add_null, high, low, ?n) m d l = Inr (store_at m d (octets_u64 ?v), d + ?n, l - ?n)"
    using uint64_out_spec [of cp] by blast
  show ?thesis
  proof (cases "type = ASN_OPAQUE_COUNTER64 \<or> type = ASN_OPAQUE_U64")
    case True
    have "enc_uint64 type ?v = enc_opaque type (octets_u64 ?v)"
      using True by (simp only: enc_uint64_def if_True)
    then show ?thesis
      using builds_opaque [OF refl body, of type] True
      by (simp only: asn_build_unsigned_int64_def t Let_def prod.case if_True simp_thms if_False)
  next
    case False
    have "enc_uint64 type ?v = enc_header type ?n @ octets_u64 ?v"
      using False by (simp only: enc_uint64_def if_False)
    then show ?thesis
      using builds_primitive [OF refl body, of type] False
      by (simp only: asn_build_unsigned_int64_def t Let_def prod.case if_False simp_thms)
  qed
qed

lemma builds_int64:
  "builds (\<lambda>m d l. asn_build_signed_int64 m d l type cp 16)
     (enc_int64 (pair64 (check_overflow_s (ctr_high cp)) (ctr_low cp)))"
proof -
  let ?v = "pair64 (check_overflow_s (ctr_high cp)) (ctr_low cp)" and ?c = "\<lambda>v. be_bytes (int_octets v) v"
  obtain high low where t: "trunc64 (check_overflow_s (ctr_high cp)) (check_overflow_u (ctr_low cp)) 8 =
      (high, low, int_octets ?v)" "pair64 high low = push_bit (8 * (8 - int_octets ?v)) ?v"
    using trunc64_int_trunc [of "check_overflow_s (ctr_high cp)" "check_overflow_u (ctr_low cp)" 8]
      int_octets(1) [of ?v] by auto
  have "builds (\<lambda>m d l. ebind (asn_build_header m d l ASN_OPAQUE (int_octets ?v + 3)) (\<lambda>(m', d', l').
           if asn_build_header_check l' (int_octets ?v + 3) then Inl HeaderTooShort
           else ebind (wr_bytes m' d' [ASN_OPAQUE_TAG1, ASN_OPAQUE_I64, word_of_nat (int_octets ?v)]) (\<lambda>m''.
                (\<lambda>m d l. ebind (out64 m d (int_octets ?v) high low) (\<lambda>(m3, d3). Inr (m3, d3, usub64 l (int_octets ?v))))
                  m'' (d' + 3) (usub64 l' 3)))) (enc_opaque ASN_OPAQUE_I64 (?c ?v))"
    by (rule builds_opaque) (use t int_octets(3) [of ?v] in \<open>simp_all add: out64_int_out int_out_bytes wr_bytes_inside\<close>)
  moreover have "usub64 (usub64 l 3) (int_octets ?v) = usub64 l (3 + int_octets ?v)"
    if "\<not> asn_build_header_check l (int_octets ?v + 3)" for l
    using that by (simp add: asn_build_header_check_def)
  ultimately show ?thesis
    using t by (simp add: asn_build_signed_int64_def enc_int64_def Let_def cong: if_cong)
qed


subsection \<open>Reading the encodings back\<close>

lemma pair64_0 [simp]: "pair64 0 (0::'a::len word) = 0"
  by (simp add: pair64_def)

lemma be_acc_octets_u64: "be_acc 0 (octets_u64 v) = v"
proof (cases "bit v 63")
  case True
  have "be_acc 0 (be_bytes 8 v) = v"
    by (simp add: be_acc_be_bytes take_bit_word_eq_self)
  with True show ?thesis by (simp add: octets_u64_def)
next
  case False
  let ?n = "int_octets v"
  have "8 * ?n - 1 \<le> 63" "(63::nat) < 64" using int_octets(3) [of v] by linarith+
  then have "bit v 63 = bit v (8 * ?n - 1)"
    using int_octets(4) [of v] unfolding sext_def by blast
  with False show ?thesis
    using be_acc_sext [OF int_octets(2,4), of v] by (simp add: octets_u64_def)
qed

lemma loop64_stored:
  fixes low :: "'a::len word"
  assumes "32 \<le> LENGTH('a)" "stored mem bufp c" "half32 high" "half32 low"
    and "be_acc (pair64 high low) c = v"
  shows "\<exists>h l. loop64 mem bufp (length c) high low = Inr (bufp + length c, h, l) \<and>
    ucast h = drop_bit 32 v \<and> ucast l = take_bit 32 v \<and> half32 h \<and> half32 l"
proof -
  have c: "bufp + length c \<le> length mem" "take (length c) (drop bufp mem) = c"
    using assms(2) by (simp_all add: stored_def)
  obtain h l where h: "loop64 mem bufp (length c) high low = Inr (bufp + length c, h, l)"
      "half32 h" "half32 l" "pair64 h l = v"
    using loop64_be_acc [OF assms(1) c(1) assms(3,4)] c(2) assms(5) by auto
  with pair64_halves [OF assms(1) h(2,3)] show ?thesis by blast
qed

lemma half32_0 [simp]: "half32 0"
  by (simp add: half32_def)

lemma half32_check:
  assumes "half32 (x::u64)" shows "check_overflow_u x = x"
proof (rule check_overflow_u_id)
  have "unat (take_bit 32 x) < 2 ^ 32"
    by (simp only: unsigned_take_bit_eq take_bit_nat_less_exp)
  then show "unat x < 2 ^ 32" using assms by (simp only: half32_def)
qed

definition uint64_type :: "u8 \<Rightarrow> bool" where
  "uint64_type type \<longleftrightarrow> type = ASN_COUNTER64 \<or> type = ASN_OPAQUE_COUNTER64 \<or> type = ASN_OPAQUE_U64"

text \<open>The second half of the unsigned decoder, on contents that hold \<open>octets_u64 v\<close>.\<close>

lemma uint64_contents:
  assumes "stored mem bufp (octets_u64 v)"
  defines "n \<equiv> length (octets_u64 v)"
  shows "n \<le> 9" "(if n = 9 then rd mem bufp else Inr 0) = Inr 0"
    and "\<exists>h l. loop64 mem bufp n (0::u64) 0 = Inr (bufp + n, h, l) \<and>
      \<lparr>ctr_high = check_overflow_u h, ctr_low = check_overflow_u l\<rparr> = halves64 v"
proof -
  show "n \<le> 9" using length_octets_u64 by (simp add: n_def)
  show "(if n = 9 then rd mem bufp else Inr 0) = Inr 0"
    using assms int_octets(3) [of v] by (auto simp: octets_u64_def rd_def split: if_splits)
  obtain h l where h: "loop64 mem bufp n (0::u64) 0 = Inr (bufp + n, h, l)"
      "ucast h = drop_bit 32 v" "ucast l = take_bit 32 v" "half32 h" "half32 l"
    using loop64_stored [OF _ assms(1), of "0::u64" 0 v] by (auto simp: be_acc_octets_u64 n_def)
  then show "\<exists>h l. loop64 mem bufp n (0::u64) 0 = Inr (bufp + n, h, l) \<and>
      \<lparr>ctr_high = check_overflow_u h, ctr_low = check_overflow_u l\<rparr> = halves64 v"
    by (simp add: half32_check halves64_def)
qed

lemma asn_parse_unsigned_int64_enc:
  assumes "stored mem data (enc_uint64 type v)" and "length (enc_uint64 type v) \<le> dl" and "uint64_type type"
  shows "asn_parse_unsigned_int64 mem data dl 16 =
    Inr (data + length (enc_uint64 type v), dl - length (enc_uint64 type v), type, halves64 v)"
proof (cases "type = ASN_COUNTER64")
  case True
  let ?n = "length (octets_u64 v)"
  have e: "enc_uint64 type v = enc_header type ?n @ octets_u64 v"
    using True by (simp add: enc_uint64_def)
  have h: "enc_header type ?n = [type, word_of_nat ?n]"
    using length_octets_u64(2) [of v] by (simp add: enc_header_def enc_length_def)
  have s: "rd mem data = Inr type" "stored mem (data + 1) (enc_length ?n)" "stored mem (data + 2) (octets_u64 v)"
    using assms(1) e h by (simp_all add: enc_header_def rd_def)
  have pl: "asn_parse_length mem (data + 1) = Inr (data + 2, ?n)"
    using asn_parse_length_enc [OF s(2)] h length_octets_u64(2) [of v] by (simp add: enc_header_def)
  have ck: "\<not> asn_parse_length_check (data + 2) data ?n dl"
    using assms(2) e h length_octets_u64(2) [of v] by (intro asn_parse_length_check_fits) simp_all
  show ?thesis
    using uint64_contents [OF s(3)] s(1) pl ck True assms(2) e h
    by (auto simp: asn_parse_unsigned_int64_def opaque_int64_def)
next
  case False
  then have t: "type = ASN_OPAQUE_COUNTER64 \<or> type = ASN_OPAQUE_U64"
    using assms(3) by (simp add: uint64_type_def)
  then have e: "enc_uint64 type v = enc_opaque type (octets_u64 v)"
    by (simp only: enc_uint64_def if_True)
  let ?n = "length (octets_u64 v)"
  have n: "?n < 100" "?n \<le> 9" using length_octets_u64(2) [of v] by simp_all
  note s = enc_opaque_stored [OF assms(1) [unfolded e] n(1)]
  note ck = enc_opaque_checks [OF assms(2) [unfolded e] n(1), of data]
  have "opaque_int64 mem data dl ASN_OPAQUE (data + 2) (?n + 3) = Inr (data + 5, ?n, type)"
    using s ck n t by (simp add: opaque_int64_def eval_nat_numeral)
  then show ?thesis
    using uint64_contents [OF s(6)] s ck assms(2) n e
    by (auto simp: asn_parse_unsigned_int64_def)
qed

lemma not_mask8: "(NOT (mask 8) :: u64) = 0xffffffffffffff00"
  by (simp add: mask_eq_exp_minus_1)

lemma asn_parse_signed_int64_enc:
  assumes "stored mem data (enc_int64 v)" and "length (enc_int64 v) \<le> dl"
  shows "asn_parse_signed_int64 mem data dl 16 =
    Inr (data + length (enc_int64 v), dl - length (enc_int64 v), ASN_OPAQUE_I64, halves64 v)"
proof -
  let ?n = "int_octets v" and ?c = "be_bytes (int_octets v) v"
  have n: "?n < 100" "?n \<le> 8" "1 \<le> ?n" using int_octets(2,3) [of v] by simp_all
  note s = enc_opaque_stored [OF assms(1) [unfolded enc_int64_def], unfolded length_be_bytes, OF n(1)]
  note ck = enc_opaque_checks [OF assms(2) [unfolded enc_int64_def], of data, unfolded length_be_bytes, OF n(1)]
  obtain b bs where b: "?c = b # bs" using n(3) length_be_bytes [of ?n v] by (cases ?c) auto
  have rb: "rd mem (data + 5) = Inr b" using s(6) b by (simp add: rd_def)
  have msb: "b AND 0x80 = 0 \<longleftrightarrow> \<not> bit v (8 * ?n - 1)"
    using hd_be_bytes [OF n(3), of v] b by simp
  let ?h = "if b AND 0x80 \<noteq> 0 then 0xffffff else 0 :: u32" and ?l = "if b AND 0x80 \<noteq> 0 then 0xffffffff else 0 :: u32"
  have "be_acc (pair64 ?h ?l) ?c = v"
  proof -
    have "push_bit 8 (pair64 ?h ?l) = push_bit 8 (if bit v (8 * ?n - 1) then - 1 else 0)"
      using msb by (simp add: pair64_def not_mask8)
    then show ?thesis
      using be_acc_sext [OF n(3) int_octets(4)] by (simp add: b)
  qed
  moreover have "half32 ?h" "half32 ?l" by (simp_all add: half32_def)
  ultimately obtain h l where "loop64 mem (data + 5) ?n ?h ?l = Inr (data + 5 + ?n, h, l)"
      "ucast h = drop_bit 32 v" "ucast l = take_bit 32 v"
    using loop64_stored [OF _ s(6), of ?h ?l v] by auto
  then show ?thesis
    using s ck n rb assms(2)
    by (simp add: asn_parse_signed_int64_def enc_int64_def halves64_def eval_nat_numeral)
qed


subsection \<open>Interpretations of the codec contract\<close>

interpretation uint64_codec: asn_codec "\<lambda>(type, cp). uint64_type type"
  "\<lambda>(type, cp). enc_uint64 type (value64 cp)"
  "\<lambda>(type, cp) m d l. asn_build_unsigned_int64 m d l type cp 16" "\<lambda>m d l. asn_parse_unsigned_int64 m d l 16"
  "\<lambda>(type, cp). (type, halves64 (value64 cp))"
  by unfold_locales (auto simp: builds_uint64 asn_parse_unsigned_int64_enc)

interpretation int64_codec: asn_codec "\<lambda>_. True"
  "\<lambda>cp. enc_int64 (pair64 (check_overflow_s (ctr_high cp)) (ctr_low cp))"
  "\<lambda>cp m d l. asn_build_signed_int64 m d l ASN_OPAQUE_I64 cp 16" "\<lambda>m d l. asn_parse_signed_int64 m d l 16"
  "\<lambda>cp. (ASN_OPAQUE_I64, halves64 (pair64 (check_overflow_s (ctr_high cp)) (ctr_low cp)))"
  by unfold_locales (simp_all add: builds_int64 asn_parse_signed_int64_enc)

lemma length_enc_uint64: "length (enc_uint64 type v) \<le> 14"
  using length_octets_u64(2) [of v] by (simp add: enc_uint64_def enc_header_def enc_length_def)

lemma length_enc_int64: "length (enc_int64 v) \<le> 13"
  using int_octets(3) [of v] by (simp add: enc_int64_def)

lemma halves64_pair64: "half32 h \<Longrightarrow> half32 l \<Longrightarrow> halves64 (pair64 h l) = \<lparr>ctr_high = h, ctr_low = l\<rparr>"
  using pair64_halves [of h l] by (simp add: halves64_def)

lemma half32_unat: "half32 (x::u64) \<Longrightarrow> unat x < 2 ^ 32"
  using check_overflow_u_bound [of x] by (simp add: half32_check)

lemma half32_check_s:
  assumes "half32 (x::u64)" shows "check_overflow_s x = x"
proof -
  have "x AND 0xffffffff = x" using assms by (simp only: and_low32 half32_def)
  moreover have "sint x = int (unat x)"
    using half32_unat [OF assms] by (intro sint_nonneg64) simp
  moreover have "\<not> int (unat x) < - 2147483648" by linarith
  ultimately show ?thesis by (simp only: check_overflow_s_def if_False if_cancel)
qed

subsection \<open>Properties\<close>

text \<open>
  C35 (unsigned 64-bit round trip).  A counter whose two halves fit 32 bits, sent as a Counter64
  or in an opaque wrapper as a Counter64 or an unsigned 64-bit integer, is read back with the
  same tag and the same halves, and the decoder stops where the encoder stopped.
\<close>

theorem asn_unsigned_int64_roundtrip:
  assumes "uint64_type type" and "half32 (ctr_high cp)" and "half32 (ctr_low cp)"
    and "data + dl \<le> length mem" and "14 \<le> dl"
  shows "\<exists>mem' data' dl'. asn_build_unsigned_int64 mem data dl type cp 16 = Inr (mem', data', dl') \<and>
    asn_parse_unsigned_int64 mem' data dl 16 = Inr (data', dl', type, cp) \<and>
    data' + dl' = data + dl \<and> length mem' = length mem \<and>
    (\<forall>i. i < data \<or> data' \<le> i \<longrightarrow> mem' ! i = mem ! i)"
proof -
  have "length (enc_uint64 type (value64 cp)) \<le> dl"
    using length_enc_uint64 assms(5) le_trans by blast
  moreover have "halves64 (value64 cp) = cp"
    using assms(2,3) by (simp add: value64_def halves64_pair64)
  ultimately show ?thesis
    using uint64_codec.round_trip [of "(type, cp)" data dl mem] assms(1,4) by simp
qed

theorem asn_unsigned_int64_roundtrip_witness:
  "\<exists>mem' data' dl'. asn_build_unsigned_int64 (replicate 20 0) 1 16 ASN_OPAQUE_U64 \<lparr>ctr_high = 0x80000000, ctr_low = 7\<rparr> 16
      = Inr (mem', data', dl') \<and>
    asn_parse_unsigned_int64 mem' 1 16 16 = Inr (data', dl', ASN_OPAQUE_U64, \<lparr>ctr_high = 0x80000000, ctr_low = 7\<rparr>)"
  using asn_unsigned_int64_roundtrip [of ASN_OPAQUE_U64 "\<lparr>ctr_high = 0x80000000, ctr_low = 7\<rparr>" 1 16 "replicate 20 0"]
  by (auto simp: uint64_type_def half32_def)

text \<open>
  Signed 64-bit round trip.  A 64-bit integer given by two halves of 32 bits is read back
  with the same halves and the tag \<open>ASN_OPAQUE_I64\<close>, negative numbers included.
\<close>

lemma asn_signed_int64_roundtrip:
  assumes "half32 (ctr_high cp)" and "half32 (ctr_low cp)" and "data + dl \<le> length mem" and "13 \<le> dl"
  shows "\<exists>mem' data' dl'. asn_build_signed_int64 mem data dl ASN_OPAQUE_I64 cp 16 = Inr (mem', data', dl') \<and>
    asn_parse_signed_int64 mem' data dl 16 = Inr (data', dl', ASN_OPAQUE_I64, cp) \<and>
    data' + dl' = data + dl \<and> length mem' = length mem \<and>
    (\<forall>i. i < data \<or> data' \<le> i \<longrightarrow> mem' ! i = mem ! i)"
proof -
  let ?v = "pair64 (check_overflow_s (ctr_high cp)) (ctr_low cp)"
  have "length (enc_int64 ?v) \<le> dl"
    using length_enc_int64 assms(4) le_trans by blast
  moreover have "halves64 ?v = cp"
    using assms(1,2) by (simp add: halves64_pair64 half32_check_s)
  ultimately show ?thesis
    using int64_codec.round_trip [of data dl mem cp] assms(3) by simp
qed

lemma asn_signed_int64_roundtrip_witness:
  "\<exists>mem' data' dl'. asn_build_signed_int64 (replicate 20 0) 1 16 ASN_OPAQUE_I64 \<lparr>ctr_high = 0xffffffff, ctr_low = 0xfffffffe\<rparr> 16
      = Inr (mem', data', dl') \<and>
    asn_parse_signed_int64 mem' 1 16 16 = Inr (data', dl', ASN_OPAQUE_I64, \<lparr>ctr_high = 0xffffffff, ctr_low = 0xfffffffe\<rparr>)"
  using asn_signed_int64_roundtrip [of "\<lparr>ctr_high = 0xffffffff, ctr_low = 0xfffffffe\<rparr>" 1 16 "replicate 20 0"]
  by (auto simp: half32_def)

end
