(* ===== verification/Asn1_Float.thy ===== *)
theory Asn1_Float
  imports Asn1_Int64
begin

unbundle bit_operations_syntax

section \<open>BER floating-point numbers (\<open>snmplib/asn1.c\<close>)\<close>

text \<open>
  \<open>asn_parse_float\<close>, \<open>asn_build_float\<close>, \<open>asn_parse_double\<close> and \<open>asn_build_double\<close>.  A
  \<open>float\<close> is its 32-bit and a \<open>double\<close> its 64-bit pattern; the unions of the code reinterpret
  the pattern and \<open>htonl\<close>/\<open>ntohl\<close> reverse the octets of its \<open>int\<close>s on the little-endian hosts
  this model is for: the contents octets are the pattern, most significant octet first.
\<close>

definition asn_parse_float :: "bytes \<Rightarrow> nat \<Rightarrow> nat \<Rightarrow> nat \<Rightarrow> (nat \<times> nat \<times> u8 \<times> u32) res" where
  "asn_parse_float mem data datalength floatsize =
     (if floatsize \<noteq> 4 then Inl (SizeErr floatsize)
      else ebind (rd mem data) (\<lambda>type.
        ebind (asn_parse_length mem (data + 1)) (\<lambda>(bufp, asn_length).
        if asn_parse_length_check bufp data asn_length datalength then Inl MsgOverflow
        else ebind (if type = ASN_OPAQUE \<and> asn_length = 7 then
                      ebind (rd mem bufp) (\<lambda>tag1.
                      if tag1 \<noteq> ASN_OPAQUE_TAG1 then Inr (bufp, asn_length, type)
                      else ebind (rd mem (bufp + 1)) (\<lambda>tag2.
                      if tag2 \<noteq> ASN_OPAQUE_FLOAT then Inr (bufp, asn_length, type)
                      else ebind (asn_parse_length mem (bufp + 2)) (\<lambda>(bufp', asn_length').
                        if asn_parse_length_check bufp' data asn_length' datalength then Inl MsgOverflow
                        else Inr (bufp', asn_length', ASN_OPAQUE_FLOAT))))
                    else Inr (bufp, asn_length, type)) (\<lambda>(bufp, asn_length, type).
          if type \<noteq> ASN_OPAQUE_FLOAT then Inl (TypeErr type)
          else if asn_length \<noteq> 4 then Inl (SizeErr asn_length)
          else ebind (rd_bytes mem bufp asn_length) (\<lambda>c.
            Inr (bufp, usub64 datalength (asn_length + (bufp - data)), type, be_acc 0 c))))))"

definition asn_build_float :: "bytes \<Rightarrow> nat \<Rightarrow> nat \<Rightarrow> u8 \<Rightarrow> u32 \<Rightarrow> nat \<Rightarrow> bstate res" where
  "asn_build_float mem data datalength type floatp floatsize =
     (if floatsize \<noteq> 4 then Inl (SizeErr floatsize)
      else ebind (asn_build_header mem data datalength ASN_OPAQUE (floatsize + 3)) (\<lambda>(mem', data', dl').
        if asn_build_header_check dl' (floatsize + 3) then Inl HeaderTooShort
        else ebind (wr_bytes mem' data' [ASN_OPAQUE_TAG1, ASN_OPAQUE_FLOAT, word_of_nat floatsize]) (\<lambda>mem''.
             ebind (wr_bytes mem'' (data' + 3) (be_bytes 4 floatp)) (\<lambda>mem3.
             Inr (mem3, data' + 3 + floatsize, usub64 (usub64 dl' 3) floatsize)))))"

definition asn_parse_double :: "bytes \<Rightarrow> nat \<Rightarrow> nat \<Rightarrow> nat \<Rightarrow> (nat \<times> nat \<times> u8 \<times> u64) res" where
  "asn_parse_double mem data datalength doublesize =
     (if doublesize \<noteq> 8 then Inl (SizeErr doublesize)
      else ebind (rd mem data) (\<lambda>type.
        ebind (asn_parse_length mem (data + 1)) (\<lambda>(bufp, asn_length).
        if asn_parse_length_check bufp data asn_length datalength then Inl MsgOverflow
        else ebind (if type = ASN_OPAQUE \<and> asn_length = 11 then
                      ebind (rd mem bufp) (\<lambda>tag1.
                      if tag1 \<noteq> ASN_OPAQUE_TAG1 then Inr (bufp, asn_length, type)
                      else ebind (rd mem (bufp + 1)) (\<lambda>tag2.
                      if tag2 \<noteq> ASN_OPAQUE_DOUBLE then Inr (bufp, asn_length, type)
                      else ebind (asn_parse_length mem (bufp + 2)) (\<lambda>(bufp', asn_length').
                        if asn_parse_length_check bufp' data asn_length' datalength then Inl MsgOverflow
                        else Inr (bufp', asn_length', ASN_OPAQUE_DOUBLE))))
                    else Inr (bufp, asn_length, type)) (\<lambda>(bufp, asn_length, type).
          if type \<noteq> ASN_OPAQUE_DOUBLE then Inl (TypeErr type)
          else if asn_length \<noteq> 8 then Inl (SizeErr asn_length)
          else ebind (rd_bytes mem bufp asn_length) (\<lambda>c.
            let tmp = be_acc (0::u32) (take 4 c);
                int0 = be_acc (0::u32) (drop 4 c) in
            Inr (bufp, usub64 datalength (asn_length + (bufp - data)), type,
                 push_bit 32 (ucast tmp) OR ucast int0))))))"

definition asn_build_double :: "bytes \<Rightarrow> nat \<Rightarrow> nat \<Rightarrow> u8 \<Rightarrow> u64 \<Rightarrow> nat \<Rightarrow> bstate res" where
  "asn_build_double mem data datalength type doublep doublesize =
     (if doublesize \<noteq> 8 then Inl (SizeErr doublesize)
      else ebind (asn_build_header mem data datalength ASN_OPAQUE (doublesize + 3)) (\<lambda>(mem', data', dl').
        if asn_build_header_check dl' (doublesize + 3) then Inl HeaderTooShort
        else ebind (wr_bytes mem' data' [ASN_OPAQUE_TAG1, ASN_OPAQUE_DOUBLE, word_of_nat doublesize]) (\<lambda>mem''.
             let int1 = ucast (drop_bit 32 doublep) :: u32; int0 = ucast doublep :: u32 in
             ebind (wr_bytes mem'' (data' + 3) (be_bytes 4 int1 @ be_bytes 4 int0)) (\<lambda>mem3.
             Inr (mem3, data' + 3 + doublesize, usub64 (usub64 dl' 3) doublesize)))))"


subsection \<open>What the encoders store and the decoders read\<close>

definition enc_float :: "u32 \<Rightarrow> bytes" where
  "enc_float x = enc_opaque ASN_OPAQUE_FLOAT (be_bytes 4 x)"

definition enc_double :: "u64 \<Rightarrow> bytes" where
  "enc_double x = enc_opaque ASN_OPAQUE_DOUBLE (be_bytes 4 (ucast (drop_bit 32 x) :: u32) @ be_bytes 4 (ucast x :: u32))"

lemma builds_float: "builds (\<lambda>m d l. asn_build_float m d l type x 4) (enc_float x)"
proof -
  have "builds (\<lambda>m d l. ebind (asn_build_header m d l ASN_OPAQUE (4 + 3)) (\<lambda>(m', d', l').
           if asn_build_header_check l' (4 + 3) then Inl HeaderTooShort
           else ebind (wr_bytes m' d' [ASN_OPAQUE_TAG1, ASN_OPAQUE_FLOAT, word_of_nat 4]) (\<lambda>m''.
                (\<lambda>m d l. ebind (wr_bytes m d (be_bytes 4 x)) (\<lambda>m3. Inr (m3, d + 4, usub64 l 4)))
                  m'' (d' + 3) (usub64 l' 3)))) (enc_opaque ASN_OPAQUE_FLOAT (be_bytes 4 x))"
    by (rule builds_opaque) (simp_all add: wr_bytes_inside)
  then show ?thesis
    unfolding asn_build_float_def enc_float_def by (simp only: simp_thms if_False)
qed

lemma builds_double: "builds (\<lambda>m d l. asn_build_double m d l type x 8) (enc_double x)"
proof -
  let ?c = "be_bytes 4 (ucast (drop_bit 32 x) :: u32) @ be_bytes 4 (ucast x :: u32)"
  have "builds (\<lambda>m d l. ebind (asn_build_header m d l ASN_OPAQUE (8 + 3)) (\<lambda>(m', d', l').
           if asn_build_header_check l' (8 + 3) then Inl HeaderTooShort
           else ebind (wr_bytes m' d' [ASN_OPAQUE_TAG1, ASN_OPAQUE_DOUBLE, word_of_nat 8]) (\<lambda>m''.
                (\<lambda>m d l. ebind (wr_bytes m d ?c) (\<lambda>m3. Inr (m3, d + 8, usub64 l 8)))
                  m'' (d' + 3) (usub64 l' 3)))) (enc_opaque ASN_OPAQUE_DOUBLE ?c)"
    by (rule builds_opaque) (simp_all add: wr_bytes_inside)
  then show ?thesis
    unfolding asn_build_double_def enc_double_def Let_def by (simp only: simp_thms if_False)
qed

lemma be_acc_word [be_simps]: "8 * k = LENGTH('a::len) \<Longrightarrow> be_acc 0 (be_bytes k x) = (x :: 'a word)"
  by (simp add: be_acc_be_bytes take_bit_word_eq_self)

lemma asn_parse_float_enc:
  assumes "stored mem data (enc_float x)" and "length (enc_float x) \<le> dl"
  shows "asn_parse_float mem data dl 4 = Inr (data + 5, dl - 9, ASN_OPAQUE_FLOAT, x)"
proof -
  note s = enc_opaque_stored [OF assms(1) [unfolded enc_float_def], unfolded length_be_bytes]
  note ck = enc_opaque_checks [OF assms(2) [unfolded enc_float_def], of data, unfolded length_be_bytes]
  have "rd_bytes mem (data + 5) 4 = Inr (be_bytes 4 x)"
    using s(6) by (intro rd_bytes_stored) simp_all
  then show ?thesis
    using s(1-5) ck assms(2)
    by (simp add: asn_parse_float_def enc_float_def be_acc_word add.assoc del: One_nat_def add_2_eq_Suc')
qed

lemma asn_parse_double_enc:
  assumes "stored mem data (enc_double x)" and "length (enc_double x) \<le> dl"
  shows "asn_parse_double mem data dl 8 = Inr (data + 5, dl - 13, ASN_OPAQUE_DOUBLE, x)"
proof -
  let ?h = "ucast (drop_bit 32 x) :: u32" and ?l = "ucast x :: u32"
  let ?c = "be_bytes 4 ?h @ be_bytes 4 ?l"
  have l: "length ?c = 8" by simp
  note s = enc_opaque_stored [OF assms(1) [unfolded enc_double_def], unfolded l]
  note ck = enc_opaque_checks [OF assms(2) [unfolded enc_double_def], of data, unfolded l]
  have "rd_bytes mem (data + 5) 8 = Inr ?c"
    using s(6) by (intro rd_bytes_stored) simp_all
  moreover have "push_bit 32 (ucast ?h) OR ucast ?l = x"
    by (rule bit_word_eqI) (auto simp: bit_simps)
  ultimately show ?thesis
    using s(1-5) ck assms(2)
    by (simp add: asn_parse_double_def enc_double_def be_acc_word add.assoc Let_def del: One_nat_def add_2_eq_Suc')
qed


subsection \<open>Properties\<close>

text \<open>
  Floating-point round trip.  Every \<open>float\<close> and every \<open>double\<close> pattern is read back
  unchanged.  The decoders account for the whole object in \<open>datalength\<close>, but the pointer they
  return is the start of the contents, five bytes after \<open>data\<close>, and not the end of the object
  their comment promises.
\<close>

lemma asn_float_double_roundtrip:
  assumes "data + dl \<le> length mem" and "13 \<le> dl"
  shows "(\<exists>mem'. asn_build_float mem data dl ASN_OPAQUE_FLOAT x 4 = Inr (mem', data + 9, dl - 9) \<and>
      asn_parse_float mem' data dl 4 = Inr (data + 5, dl - 9, ASN_OPAQUE_FLOAT, x)) \<and>
    (\<exists>mem'. asn_build_double mem data dl ASN_OPAQUE_DOUBLE y 8 = Inr (mem', data + 13, dl - 13) \<and>
      asn_parse_double mem' data dl 8 = Inr (data + 5, dl - 13, ASN_OPAQUE_DOUBLE, y))"
proof
  have l: "length (enc_float x) = 9" "length (enc_double y) = 13"
    by (simp_all add: enc_float_def enc_double_def)
  have "stored (store_at mem data (enc_float x)) data (enc_float x)"
    using assms l by (intro stored_store_at) simp
  then show "\<exists>mem'. asn_build_float mem data dl ASN_OPAQUE_FLOAT x 4 = Inr (mem', data + 9, dl - 9) \<and>
      asn_parse_float mem' data dl 4 = Inr (data + 5, dl - 9, ASN_OPAQUE_FLOAT, x)"
    using builds_ok [OF builds_float [of ASN_OPAQUE_FLOAT x] assms(1)] asn_parse_float_enc assms(2) l by simp
  have "stored (store_at mem data (enc_double y)) data (enc_double y)"
    using assms l by (intro stored_store_at) simp
  then show "\<exists>mem'. asn_build_double mem data dl ASN_OPAQUE_DOUBLE y 8 = Inr (mem', data + 13, dl - 13) \<and>
      asn_parse_double mem' data dl 8 = Inr (data + 5, dl - 13, ASN_OPAQUE_DOUBLE, y)"
    using builds_ok [OF builds_double [of ASN_OPAQUE_DOUBLE y] assms(1)] asn_parse_double_enc assms(2) l by simp
qed

lemma asn_float_double_roundtrip_witness:
  "\<exists>mem'. asn_build_float (replicate 16 0) 2 13 ASN_OPAQUE_FLOAT 0x42f6e979 4 = Inr (mem', 11, 4) \<and>
      asn_parse_float mem' 2 13 4 = Inr (7, 4, ASN_OPAQUE_FLOAT, 0x42f6e979)"
  using asn_float_double_roundtrip [of 2 13 "replicate 16 0" "0x42f6e979" 0] by simp

end
