(* ===== verification/Asn1_String.thy ===== *)
theory Asn1_String
  imports Asn1_Base
begin

unbundle bit_operations_syntax

section \<open>BER octet strings, bit strings and nulls (\<open>snmplib/asn1.c\<close>)\<close>

text \<open>
  \<open>asn_parse_string\<close>, \<open>asn_build_string\<close>, \<open>asn_parse_bitstring\<close>, \<open>asn_build_bitstring\<close>,
  \<open>asn_parse_null\<close> and \<open>asn_build_null\<close>.  The caller's output buffer is the list \<open>str\<close> with
  the capacity \<open>strlength\<close> the caller announces; \<open>memmove\<close> is a bounded read and a bounded
  write.  A \<open>NULL\<close> input string is \<open>None\<close>.
\<close>

subsection \<open>Decoders\<close>

definition asn_parse_string ::
  "bytes \<Rightarrow> nat \<Rightarrow> nat \<Rightarrow> bytes \<Rightarrow> nat \<Rightarrow> (nat \<times> nat \<times> u8 \<times> bytes \<times> nat) res" where
  "asn_parse_string mem data datalength str strlength =
     ebind (rd mem data) (\<lambda>type.
     if type \<noteq> ASN_OCTET_STR \<and> type \<noteq> ASN_IPADDRESS \<and> type \<noteq> ASN_OPAQUE \<and> type \<noteq> ASN_NSAP
     then Inl (TypeErr type)
     else ebind (asn_parse_length mem (data + 1)) (\<lambda>(bufp, asn_length).
       if asn_parse_length_check bufp data asn_length datalength then Inl MsgOverflow
       else if asn_length > strlength then Inl (LengthErr asn_length)
       else ebind (rd_bytes mem bufp asn_length) (\<lambda>bs.
         ebind (wr_bytes str 0 bs) (\<lambda>str'.
         ebind (if strlength > asn_length then wr str' asn_length 0 else Inr str') (\<lambda>str''.
         Inr (bufp + asn_length, usub64 datalength (asn_length + (bufp - data)), type,
              str'', asn_length))))))"

definition asn_bitstring_check :: "nat \<Rightarrow> u8 \<Rightarrow> bool" where
  "asn_bitstring_check asn_length datum \<longleftrightarrow> asn_length < 1"

definition asn_parse_bitstring ::
  "bytes \<Rightarrow> nat \<Rightarrow> nat \<Rightarrow> bytes \<Rightarrow> nat \<Rightarrow> (nat \<times> nat \<times> u8 \<times> bytes \<times> nat) res" where
  "asn_parse_bitstring mem data datalength str strlength =
     ebind (rd mem data) (\<lambda>type.
     if type \<noteq> ASN_BIT_STR then Inl (TypeErr type)
     else ebind (asn_parse_length mem (data + 1)) (\<lambda>(bufp, asn_length).
       if asn_parse_length_check bufp data asn_length datalength then Inl MsgOverflow
       else if asn_length > strlength then Inl (LengthErr asn_length)
       else ebind (rd mem bufp) (\<lambda>datum.
         if asn_bitstring_check asn_length datum then Inl BitstringTooSmall
         else ebind (rd_bytes mem bufp asn_length) (\<lambda>bs.
           ebind (wr_bytes str 0 bs) (\<lambda>str'.
           Inr (bufp + asn_length, usub64 datalength (asn_length + (bufp - data)), type,
                str', asn_length))))))"

text \<open>\<open>asn_parse_null\<close> never compares the header with \<open>datalength\<close>: its subtraction may wrap.\<close>

definition asn_parse_null :: "bytes \<Rightarrow> nat \<Rightarrow> nat \<Rightarrow> (nat \<times> nat \<times> u8) res" where
  "asn_parse_null mem data datalength =
     ebind (rd mem data) (\<lambda>type.
     ebind (asn_parse_length mem (data + 1)) (\<lambda>(bufp, asn_length).
     if asn_length \<noteq> 0 then Inl MalformedNull
     else Inr (bufp + asn_length, usub64 datalength (bufp - data), type)))"


subsection \<open>Encoders\<close>

definition asn_build_string :: "bytes \<Rightarrow> nat \<Rightarrow> nat \<Rightarrow> u8 \<Rightarrow> bytes option \<Rightarrow> nat \<Rightarrow> bstate res" where
  "asn_build_string mem data datalength type str strlength =
     ebind (asn_build_header mem data datalength type strlength) (\<lambda>(mem', data', dl').
     if asn_build_header_check dl' strlength then Inl HeaderTooShort
     else ebind (if strlength \<noteq> 0 then
                   case str of
                     None \<Rightarrow> wr_bytes mem' data' (replicate strlength 0)
                   | Some s \<Rightarrow> ebind (rd_bytes s 0 strlength) (wr_bytes mem' data')
                 else Inr mem') (\<lambda>mem''.
          Inr (mem'', data' + strlength, usub64 dl' strlength)))"

definition asn_build_bitstring :: "bytes \<Rightarrow> nat \<Rightarrow> nat \<Rightarrow> u8 \<Rightarrow> bytes option \<Rightarrow> nat \<Rightarrow> bstate res" where
  "asn_build_bitstring mem data datalength type str strlength =
     ebind (case str of Some s \<Rightarrow> rd s 0 | None \<Rightarrow> Inr 0) (\<lambda>datum.
     if asn_bitstring_check strlength datum then Inl BitstringTooSmall
     else ebind (asn_build_header mem data datalength type strlength) (\<lambda>(mem', data', dl').
       if asn_build_header_check dl' strlength then Inl HeaderTooShort
       else (case str of
               None \<Rightarrow> Inl NoString
             | Some s \<Rightarrow> ebind (rd_bytes s 0 strlength) (\<lambda>bs.
                 ebind (wr_bytes mem' data' bs) (\<lambda>mem''.
                 Inr (mem'', data' + strlength, usub64 dl' strlength))))))"

definition asn_build_null :: "bytes \<Rightarrow> nat \<Rightarrow> nat \<Rightarrow> u8 \<Rightarrow> bstate res" where
  "asn_build_null mem data datalength type = asn_build_header mem data datalength type 0"


subsection \<open>Encodings\<close>

definition enc_string :: "u8 \<Rightarrow> bytes \<Rightarrow> bytes" where
  "enc_string type s = enc_header type (length s) @ s"

definition string_type :: "u8 \<Rightarrow> bool" where
  "string_type type \<longleftrightarrow>
     type = ASN_OCTET_STR \<or> type = ASN_IPADDRESS \<or> type = ASN_OPAQUE \<or> type = ASN_NSAP"

lemma builds_string:
  "builds (\<lambda>m d l. asn_build_string m d l type (Some s) (length s)) (enc_string type s)"
  unfolding asn_build_string_def enc_string_def
  by (rule builds_primitive) (simp_all add: mem_simps)

lemma builds_string_null:
  "builds (\<lambda>m d l. asn_build_string m d l type None n) (enc_string type (replicate n 0))"
  unfolding asn_build_string_def enc_string_def length_replicate
  by (rule builds_primitive) (simp_all add: mem_simps)

lemma builds_bitstring:
  assumes "s \<noteq> []"
  shows "builds (\<lambda>m d l. asn_build_bitstring m d l type (Some s) (length s)) (enc_string type s)"
proof -
  have "builds (\<lambda>m d l. ebind (asn_build_header m d l type (length s)) (\<lambda>(mem', data', dl').
      if asn_build_header_check dl' (length s) then Inl HeaderTooShort
      else ebind (rd_bytes s 0 (length s)) (\<lambda>bs. ebind (wr_bytes mem' data' bs) (\<lambda>mem''.
        Inr (mem'', data' + length s, usub64 dl' (length s)))))) (enc_header type (length s) @ s)"
    by (rule builds_primitive) (simp_all add: mem_simps)
  with assms show ?thesis
    by (simp add: asn_build_bitstring_def asn_bitstring_check_def enc_string_def rd_def cong: if_cong)
qed

lemma enc_string_stored:
  assumes "stored mem data (enc_string type s)" and "length s \<le> 0xffff"
  shows "rd mem data = Inr type"
    and "asn_parse_length mem (data + 1) =
      Inr (data + length (enc_header type (length s)), length s)"
    and "rd_bytes mem (data + length (enc_header type (length s))) (length s) = Inr s"
proof -
  let ?h = "enc_header type (length s)"
  have s: "stored mem data ?h" "stored mem (data + length ?h) s"
    using assms(1) by (simp_all add: enc_string_def)
  show "rd mem data = Inr type" using s(1) by (simp add: enc_header_def rd_def)
  show "asn_parse_length mem (data + 1) = Inr (data + length ?h, length s)"
    using s(1) asn_parse_length_enc [of mem "data + 1" "length s"] assms(2) by (simp add: enc_header_def)
  show "rd_bytes mem (data + length ?h) (length s) = Inr s"
    using s(2) by (rule rd_bytes_stored) simp
qed

lemma asn_length_check_enc_string:
  assumes "length (enc_string type s) \<le> dl" and "length s \<le> 0xffff"
  shows "\<not> asn_parse_length_check (data + length (enc_header type (length s))) data (length s) dl"
  by (rule asn_parse_length_check_fits)
     (use assms length_enc_length(2) [of "length s"]
      in \<open>auto simp: enc_string_def enc_header_def intro: le_trans [where j = 3]\<close>)

text \<open>The caller's buffer after a string of \<open>n\<close> bytes was copied: terminated when there is room.\<close>

definition copied :: "bytes \<Rightarrow> nat \<Rightarrow> bytes \<Rightarrow> bytes" where
  "copied str strlength s = store_at str 0 (s @ (if length s < strlength then [0] else []))"

lemma copy_out:
  assumes "length s \<le> strlength" and "strlength \<le> length str"
  shows "ebind (wr_bytes str 0 s) (\<lambda>str'. ebind (if strlength > length s then wr str' (length s) 0 else Inr str') f)
    = f (copied str strlength s)"
  using assms store_at_store_at [of 0 s "[0]" str]
  by (auto simp: copied_def mem_simps)

lemma asn_parse_string_enc:
  assumes "stored mem data (enc_string type s)" and "length (enc_string type s) \<le> dl"
    and "string_type type" and "length s \<le> 0xffff"
    and "length s \<le> strlength" and "strlength \<le> length str"
  shows "asn_parse_string mem data dl str strlength =
    Inr (data + length (enc_string type s), dl - length (enc_string type s), type,
         copied str strlength s, length s)"
  using enc_string_stored [OF assms(1,4)] asn_length_check_enc_string [OF assms(2,4), of data]
    assms(2,3,5,6)
  by (auto simp: asn_parse_string_def copy_out string_type_def enc_string_def ac_simps)

lemma asn_parse_bitstring_enc:
  assumes "stored mem data (enc_string ASN_BIT_STR s)" and "length (enc_string ASN_BIT_STR s) \<le> dl"
    and "s \<noteq> []" and "length s \<le> 0xffff"
    and "length s \<le> strlength" and "strlength \<le> length str"
  shows "asn_parse_bitstring mem data dl str strlength =
    Inr (data + length (enc_string ASN_BIT_STR s), dl - length (enc_string ASN_BIT_STR s), ASN_BIT_STR,
         store_at str 0 s, length s)"
proof -
  let ?b = "data + length (enc_header ASN_BIT_STR (length s))"
  have "stored mem ?b s" using assms(1) by (simp add: enc_string_def)
  then have "rd mem ?b = Inr (hd s)"
    using assms(3) by (cases s) (auto simp: rd_def)
  then show ?thesis
    using enc_string_stored [OF assms(1,4)] asn_length_check_enc_string [OF assms(2,4), of data]
      assms(2,3,5,6)
    by (auto simp: asn_parse_bitstring_def asn_bitstring_check_def mem_simps enc_string_def ac_simps
        simp flip: length_greater_0_conv)
qed

lemma builds_null: "builds (\<lambda>m d l. asn_build_null m d l type) [type, 0]"
  using builds_header [of type 0] by (simp add: asn_build_null_def enc_header_def enc_length_def)

lemma asn_parse_null_enc:
  assumes "stored mem data [type, 0]" and "2 \<le> dl"
  shows "asn_parse_null mem data dl = Inr (data + 2, dl - 2, type)"
  using assms asn_parse_length_enc [of mem "data + 1" 0]
  by (simp add: asn_parse_null_def rd_def enc_length_def)


subsection \<open>Interpretations of the codec contract\<close>

interpretation string_codec: asn_codec
  "\<lambda>(type, s). string_type type \<and> length s \<le> 0xffff \<and> length s \<le> strlength \<and> strlength \<le> length str"
  "\<lambda>(type, s). enc_string type s"
  "\<lambda>(type, s) m d l. asn_build_string m d l type (Some s) (length s)"
  "\<lambda>m d l. asn_parse_string m d l str strlength"
  "\<lambda>(type, s). (type, copied str strlength s, length s)"
  for str :: bytes and strlength :: nat
  by unfold_locales (auto simp: builds_string asn_parse_string_enc)

interpretation bitstring_codec: asn_codec
  "\<lambda>s. s \<noteq> [] \<and> length s \<le> 0xffff \<and> length s \<le> strlength \<and> strlength \<le> length str"
  "enc_string ASN_BIT_STR"
  "\<lambda>s m d l. asn_build_bitstring m d l ASN_BIT_STR (Some s) (length s)"
  "\<lambda>m d l. asn_parse_bitstring m d l str strlength"
  "\<lambda>s. (ASN_BIT_STR, store_at str 0 s, length s)"
  for str :: bytes and strlength :: nat
  by unfold_locales (auto simp: builds_bitstring asn_parse_bitstring_enc)

interpretation null_codec: asn_codec "\<lambda>_. True" "\<lambda>type. [type, 0]"
  "\<lambda>type m d l. asn_build_null m d l type" "asn_parse_null" "\<lambda>type. type"
  by unfold_locales (simp_all add: builds_null asn_parse_null_enc)


subsection \<open>Properties\<close>

lemma length_enc_string: "length (enc_string type s) \<le> length s + 4"
  using length_enc_length(2) [of "length s"] by (simp add: enc_string_def enc_header_def)

text \<open>
  Octet string round trip.  For each of the four string tags and every string of at most
  65535 bytes, \<open>asn_build_string\<close> succeeds when four more bytes are free, and \<open>asn_parse_string\<close>
  on what it stored copies exactly those bytes into the caller's buffer, terminates them when
  there is room, reports their number and stops where the encoder stopped.
\<close>

lemma asn_string_roundtrip:
  assumes "string_type type" and "length s \<le> 0xffff"
    and "length s \<le> strlength" and "strlength \<le> length str"
    and "data + dl \<le> length mem" and "length s + 4 \<le> dl"
  shows "\<exists>mem' data' dl'. asn_build_string mem data dl type (Some s) (length s) = Inr (mem', data', dl') \<and>
    asn_parse_string mem' data dl str strlength = Inr (data', dl', type, copied str strlength s, length s) \<and>
    take (length s) (copied str strlength s) = s \<and>
    (length s < strlength \<longrightarrow> copied str strlength s ! length s = 0) \<and>
    data' + dl' = data + dl \<and> length mem' = length mem"
proof -
  have "length (enc_string type s) \<le> dl"
    using length_enc_string [of type s] assms(6) by linarith
  then show ?thesis
    using string_codec.round_trip [of strlength str "(type, s)" data dl mem] assms(1-5)
    by (auto simp: copied_def store_at_def nth_append)
qed

lemma asn_string_roundtrip_witness:
  "\<exists>mem' data' dl'. asn_build_string (replicate 16 0) 2 10 ASN_OCTET_STR (Some [0x70, 0x75, 0x62]) 3 =
      Inr (mem', data', dl') \<and>
    asn_parse_string mem' 2 10 [9, 9, 9, 9, 9] 5 = Inr (data', dl', ASN_OCTET_STR, [0x70, 0x75, 0x62, 0, 9], 3)"
proof -
  have l: "length [0x70, 0x75, 0x62 :: u8] = 3" and t: "string_type ASN_OCTET_STR"
    by (simp_all add: string_type_def)
  have c: "copied [9, 9, 9, 9, 9] 5 [0x70, 0x75, 0x62] = [0x70, 0x75, 0x62, 0, 9]"
    by (simp add: copied_def store_at_def)
  from asn_string_roundtrip [OF t, of "[0x70, 0x75, 0x62]" 5 "[9, 9, 9, 9, 9]" 2 10 "replicate 16 0", unfolded l c]
  show ?thesis by auto
qed

lemma parse_string_safe:
  assumes "data + dl + 10 \<le> length mem" and "strlength \<le> length str"
  shows "safe (asn_parse_string mem data dl str strlength) \<and>
    (\<forall>data' dl' type str' n. asn_parse_string mem data dl str strlength = Inr (data', dl', type, str', n) \<longrightarrow>
       data' + dl' = data + dl \<and> length str' = length str \<and> n \<le> strlength)"
proof -
  have l: "safe (asn_parse_length mem (data + 1))" "rd mem data = Inr (mem ! data)"
    using assms(1) by (auto intro: asn_parse_length_safe rd_inside)
  show ?thesis
  proof (cases "asn_parse_length mem (data + 1)")
    case (Inl e)
    with l show ?thesis by (simp add: asn_parse_string_def)
  next
    case (Inr t)
    obtain bufp n where p: "asn_parse_length mem (data + 1) = Inr (bufp, n)"
      using Inr by (cases t) simp
    show ?thesis
    proof (cases "asn_parse_length_check bufp data n dl \<or> n > strlength")
      case True
      with l(2) p show ?thesis by (auto simp: asn_parse_string_def)
    next
      case False
      have b: "data < bufp" "bufp + n \<le> data + dl" "bufp + n \<le> length mem"
        using asn_parse_length_checked [OF p, of data dl] False assms(1) by auto
      define s where "s = take n (drop bufp mem)"
      have s: "length s = n" "rd_bytes mem bufp n = Inr s"
        using b by (simp_all add: s_def rd_bytes_def)
      have "asn_parse_string mem data dl str strlength =
          (if string_type (mem ! data)
           then Inr (bufp + n, usub64 dl (n + (bufp - data)), mem ! data, copied str strlength s, n)
           else Inl (TypeErr (mem ! data)))"
        using False l(2) p s copy_out [of s strlength str] assms(2)
        by (auto simp: asn_parse_string_def string_type_def)
      moreover have "length (copied str strlength s) = length str"
        using False s assms(2) by (simp add: copied_def)
      ultimately show ?thesis
        using b False by auto
    qed
  qed
qed

text \<open>
  Memory safety of the octet string decoder.  With ten readable bytes after the announced
  data and an output buffer as large as announced, \<open>asn_parse_string\<close> neither reads behind these ten bytes
  nor writes outside the output buffer, whatever the packet holds; a success consumed
  bytes of the announced data only and reported a length that fits the buffer.
\<close>

lemma asn_parse_string_safe:
  assumes "data + dl + 10 \<le> length mem" and "strlength \<le> length str"
  shows "safe (asn_parse_string mem data dl str strlength) \<and>
    (\<forall>data' dl' type str' n. asn_parse_string mem data dl str strlength = Inr (data', dl', type, str', n) \<longrightarrow>
       data' + dl' = data + dl \<and> length str' = length str \<and> n \<le> strlength)"
  by (rule parse_string_safe [OF assms])

lemma asn_parse_string_safe_witness:
  "safe (asn_parse_string (0x04 # 0x84 # 0xff # replicate 10 0xff) 0 3 [] 0)"
  using asn_parse_string_safe [of 0 3 "0x04 # 0x84 # 0xff # replicate 10 0xff" 0 "[]"] by simp

text \<open>
  The remaining length wraps in \<open>asn_parse_null\<close>.  The null decoder never compares its
  header with \<open>datalength\<close>.  On a null that starts at the last announced byte it succeeds and
  reports \<open>2 ^ 64 - 1\<close> bytes left.
\<close>

lemma asn_parse_null_wraps:
  "asn_parse_null [0x05, 0x00] 0 1 = Inr (2, 2 ^ 64 - 1, ASN_NULL)"
  by (simp add: asn_parse_null_def asn_parse_length_def rd_def usub64_def)

end
