(* ===== verification/Asn1_Oid.thy ===== *)
theory Asn1_Oid
  imports Asn1_Int
begin

unbundle bit_operations_syntax

section \<open>BER object identifiers (\<open>snmplib/asn1.c\<close>)\<close>

text \<open>
  \<open>asn_parse_objid\<close> and \<open>asn_build_objid\<close>.  The output buffer \<open>objid\<close> of the decoder is the list
  of the sub-identifiers allocated for it, with the capacity \<open>objidlength\<close> the caller announces.
  The inner \<open>do ... while\<close> of the decoder is \<open>parse_subid\<close>, which also returns the last octet it
  read (\<open>*last_byte\<close>); the outer loop is \<open>parse_subids\<close>.  The two \<open>for\<close> loops of the encoder are
  \<open>oid_sizes\<close> and \<open>oid_out\<close>.
\<close>

subsection \<open>Decoder\<close>

fun parse_subid :: "bytes \<Rightarrow> nat \<Rightarrow> nat \<Rightarrow> u64 \<Rightarrow> (nat \<times> nat \<times> u64 \<times> u8) res" where
  "parse_subid mem bufp len subidentifier =
     ebind (rd mem bufp) (\<lambda>b.
     let subidentifier' = push_bit 7 subidentifier + ucast (b AND 0x7f) in
     if b AND 0x80 \<noteq> 0 \<and> len - 1 > 0 then parse_subid mem (bufp + 1) (len - 1) subidentifier'
     else Inr (bufp + 1, len - 1, subidentifier', b))"

declare parse_subid.simps [simp del]

fun parse_subids ::
  "bytes \<Rightarrow> nat \<Rightarrow> nat \<Rightarrow> nat \<Rightarrow> oid \<Rightarrow> nat \<Rightarrow> (nat \<times> nat \<times> oid \<times> nat) res" where
  "parse_subids mem bufp len 0 objid oidp = Inr (bufp, len, objid, oidp)"
| "parse_subids mem bufp len (Suc objidlength) objid oidp =
     (if len = 0 then Inr (bufp, len, objid, oidp)
      else ebind (parse_subid mem bufp len 0) (\<lambda>(bufp', len', subidentifier, last_byte).
        if len' = 0 \<and> last_byte AND 0x80 \<noteq> 0 then Inl SubidSyntax
        else if subidentifier > 0xffffffff then Inl SubidTooLarge
        else ebind (wr objid oidp subidentifier) (\<lambda>objid'.
             parse_subids mem bufp' len' objidlength objid' (oidp + 1))))"

definition split_first :: "u64 \<Rightarrow> u64 \<times> u64" where
  "split_first subidentifier =
     (if subidentifier = 0x2b then (1, 3)
      else if subidentifier < 40 then (0, subidentifier)
      else if subidentifier < 80 then (1, subidentifier - 40)
      else (2, subidentifier - 80))"

definition asn_parse_objid ::
  "bytes \<Rightarrow> nat \<Rightarrow> nat \<Rightarrow> oid \<Rightarrow> nat \<Rightarrow> (nat \<times> nat \<times> u8 \<times> oid \<times> nat) res" where
  "asn_parse_objid mem data datalength objid objidlength =
     ebind (rd mem data) (\<lambda>type.
     if type \<noteq> ASN_OBJECT_ID then Inl (TypeErr type)
     else ebind (asn_parse_length mem (data + 1)) (\<lambda>(bufp, asn_length).
       if asn_parse_length_check bufp data asn_length datalength then Inl MsgOverflow
       else
         ebind (if asn_length = 0 then wr_bytes objid 0 [0, 0] else Inr objid) (\<lambda>objid0.
         ebind (parse_subids mem bufp asn_length (usub64 objidlength 1) objid0 1)
           (\<lambda>(bufp', len, objid1, oidp).
           if len \<noteq> 0 then Inl OidTooLong
           else ebind (rd objid1 1) (\<lambda>subidentifier.
             let (x, y) = split_first subidentifier in
             ebind (wr_bytes objid1 0 [x, y]) (\<lambda>objid2.
             Inr (bufp', usub64 datalength (asn_length + (bufp - data)), type, objid2, oidp)))))))"


subsection \<open>Encoder\<close>

definition subid_size :: "u64 \<Rightarrow> nat" where
  "subid_size objid_val =
     (if objid_val < 0x80 then 1
      else if objid_val < 0x4000 then 2
      else if objid_val < 0x200000 then 3
      else if objid_val < 0x10000000 then 4
      else 5)"

fun oid_sizes :: "oid \<Rightarrow> nat \<Rightarrow> nat \<Rightarrow> u64 \<Rightarrow> nat list res" where
  "oid_sizes objid op 0 objid_val = Inr [subid_size (check_overflow_u objid_val)]"
| "oid_sizes objid op (Suc n) objid_val =
     ebind (rd objid op) (\<lambda>next_val.
     ebind (oid_sizes objid (op + 1) n next_val) (\<lambda>sizes.
     Inr (subid_size (check_overflow_u objid_val) # sizes)))"

definition subid_octets :: "nat \<Rightarrow> u64 \<Rightarrow> bytes" where
  "subid_octets sz objid_val =
     (if sz = 1 then [ucast objid_val]
      else if sz = 2 then
        [ucast (drop_bit 7 objid_val OR 0x80), ucast (objid_val AND 0x7f)]
      else if sz = 3 then
        [ucast (drop_bit 14 objid_val OR 0x80), ucast ((drop_bit 7 objid_val AND 0x7f) OR 0x80),
         ucast (objid_val AND 0x7f)]
      else if sz = 4 then
        [ucast (drop_bit 21 objid_val OR 0x80), ucast ((drop_bit 14 objid_val AND 0x7f) OR 0x80),
         ucast ((drop_bit 7 objid_val AND 0x7f) OR 0x80), ucast (objid_val AND 0x7f)]
      else
        [ucast (drop_bit 28 objid_val OR 0x80), ucast ((drop_bit 21 objid_val AND 0x7f) OR 0x80),
         ucast ((drop_bit 14 objid_val AND 0x7f) OR 0x80),
         ucast ((drop_bit 7 objid_val AND 0x7f) OR 0x80), ucast (objid_val AND 0x7f)])"

fun oid_out :: "bytes \<Rightarrow> nat \<Rightarrow> oid \<Rightarrow> nat \<Rightarrow> nat list \<Rightarrow> u64 \<Rightarrow> (bytes \<times> nat) res" where
  "oid_out mem data objid op [] objid_val = Inr (mem, data)"
| "oid_out mem data objid op [sz] objid_val =
     ebind (wr_bytes mem data (subid_octets sz objid_val)) (\<lambda>mem'. Inr (mem', data + sz))"
| "oid_out mem data objid op (sz # sz' # sizes) objid_val =
     ebind (wr_bytes mem data (subid_octets sz objid_val)) (\<lambda>mem'.
     ebind (rd objid op) (\<lambda>next_val.
     oid_out mem' (data + sz) objid (op + 1) (sz' # sizes) (take_bit 32 next_val)))"

text \<open>The value of the first octets, the number of sub-identifiers and the index after them.\<close>

definition first_subid :: "oid \<Rightarrow> nat \<Rightarrow> (u64 \<times> nat \<times> nat) res" where
  "first_subid objid objidlength =
     (if objidlength = 0 then Inr (0, 2, 0)
      else ebind (rd objid 0) (\<lambda>x.
        if x > 2 then Inl BadFirstSubid
        else if objidlength = 1 then Inr (x * 40, 2, 1)
        else ebind (rd objid 1) (\<lambda>y.
          if y > 40 \<and> x < 2 then Inl BadSecondSubid
          else Inr (x * 40 + y, objidlength, 2))))"

definition asn_build_objid :: "bytes \<Rightarrow> nat \<Rightarrow> nat \<Rightarrow> u8 \<Rightarrow> oid \<Rightarrow> nat \<Rightarrow> bstate res" where
  "asn_build_objid mem data datalength type objid objidlength =
     ebind (first_subid objid objidlength) (\<lambda>(first_objid_val, n, op).
     if n > 128 then Inl OidTooLong
     else ebind (oid_sizes objid op (n - 2) first_objid_val) (\<lambda>sizes.
       let asnlength = sum_list sizes in
       ebind (asn_build_header mem data datalength type asnlength) (\<lambda>(mem', data', dl').
       if asn_build_header_check dl' asnlength then Inl HeaderTooShort
       else ebind (oid_out mem' data' objid 2 sizes first_objid_val) (\<lambda>(mem'', data'').
            Inr (mem'', data'', usub64 dl' asnlength)))))"


subsection \<open>Base-128 sub-identifiers\<close>

primrec b128 :: "nat \<Rightarrow> u64 \<Rightarrow> bytes" where
  "b128 0 v = [ucast (v AND 0x7f)]"
| "b128 (Suc k) v = ucast ((drop_bit (7 * Suc k) v AND 0x7f) OR 0x80) # b128 k v"

lemma length_b128 [simp]: "length (b128 k v) = Suc k"
  by (induction k) simp_all

lemma low7: "(b::u8) AND 0x7f = take_bit 7 b"
  by (simp add: take_bit_eq_mask mask_eq_exp_minus_1)

lemma low7_64: "(v::u64) AND 0x7f = take_bit 7 v"
  by (simp add: take_bit_eq_mask mask_eq_exp_minus_1)

lemma bit_0x80: "bit (0x80::int) i \<longleftrightarrow> i = 7"
proof -
  have "(0x80::int) = 2 ^ 7" by simp
  then show ?thesis by (simp only: bit_exp_iff) auto
qed

lemma b128_head:
  "(ucast ((ucast ((x AND 0x7f) OR 0x80 :: u64) :: u8) AND 0x7f) :: u64) = take_bit 7 x"
  unfolding low7 low7_64 by (rule bit_word_eqI) (auto simp: bit_simps bit_0x80)

lemma b128_last:
  "(ucast ((ucast (x AND 0x7f :: u64) :: u8) AND 0x7f) :: u64) = take_bit 7 x"
  unfolding low7 low7_64 by (rule bit_word_eqI) (auto simp: bit_simps)

lemma msb_b128_head: "(ucast ((x AND 0x7f) OR 0x80 :: u64) :: u8) AND 0x80 \<noteq> 0"
proof -
  have "bit ((ucast ((x AND 0x7f) OR 0x80 :: u64) :: u8)) 7"
    by (simp add: bit_simps bit_0x80)
  then show ?thesis using and_exp_eq_0_iff_not_bit [of "ucast ((x AND 0x7f) OR 0x80 :: u64) :: u8" 7] by simp
qed

lemma msb_b128_last: "(ucast (x AND 0x7f :: u64) :: u8) AND 0x80 = 0"
proof -
  have "\<not> bit (ucast (x AND 0x7f :: u64) :: u8) 7"
    unfolding low7_64 by (simp add: bit_simps)
  then show ?thesis using and_exp_eq_0_iff_not_bit [of "ucast (x AND 0x7f :: u64) :: u8" 7] by simp
qed

lemma take_bit_step: "push_bit n (take_bit 7 (drop_bit n (v::u64))) + take_bit n v = take_bit (n + 7) v"
  using bits_ident [of n "take_bit (n + 7) v"] by (simp add: drop_bit_take_bit)

lemma parse_subid_b128:
  "stored mem bufp (b128 k v) \<Longrightarrow> Suc k \<le> len \<Longrightarrow>
   parse_subid mem bufp len s =
     Inr (bufp + Suc k, len - Suc k, push_bit (7 * Suc k) s + take_bit (7 * Suc k) v,
          ucast (v AND 0x7f))"
proof (induction k arbitrary: bufp len s)
  case 0
  then show ?case
    by (subst parse_subid.simps) (simp add: rd_def b128_last msb_b128_last)
next
  case (Suc k)
  let ?n = "7 * Suc k"
  let ?s = "push_bit 7 s + take_bit 7 (drop_bit ?n v)"
  have "parse_subid mem (bufp + 1) (len - 1) ?s =
      Inr (bufp + 1 + Suc k, len - 1 - Suc k, push_bit ?n ?s + take_bit ?n v, ucast (v AND 0x7f))"
    using Suc.prems by (intro Suc.IH) simp_all
  moreover have "push_bit ?n ?s + take_bit ?n v = push_bit (7 * Suc (Suc k)) s + take_bit (7 * Suc (Suc k)) v"
    using take_bit_step [of ?n v] by (simp add: push_bit_add ac_simps)
  ultimately show ?case
    using Suc.prems msb_b128_head [of "drop_bit ?n v"] b128_head [of "drop_bit ?n v"]
    by (subst parse_subid.simps) (simp add: rd_def Let_def)
qed

definition enc_subid :: "u64 \<Rightarrow> bytes" where
  "enc_subid v = b128 (subid_size v - 1) v"

lemma subid_size_pos: "1 \<le> subid_size v" "subid_size v \<le> 5"
  by (simp_all add: subid_size_def)

lemma length_enc_subid [simp]: "length (enc_subid v) = subid_size v"
  using subid_size_pos(1) [of v] by (simp add: enc_subid_def)

lemma subid_size_fits:
  assumes "unat v < 2 ^ 32"
  shows "unat v < 2 ^ (7 * subid_size v)"
  using assms by (auto simp: subid_size_def word_less_nat_alt)

lemma top_b128:
  assumes "unat (v::u64) < 2 ^ (n + 7)"
  shows "drop_bit n v AND 0x7f = drop_bit n v"
  unfolding low7_64
proof (rule bit_word_eqI)
  fix i
  show "bit (take_bit 7 (drop_bit n v)) i = bit (drop_bit n v) i"
    using bit_above [OF assms, of "n + i"] by (cases "7 \<le> i") (auto simp: bit_simps)
qed

lemma subid_octets_enc:
  assumes "unat v < 2 ^ 32"
  shows "subid_octets (subid_size v) v = enc_subid v"
proof -
  have t: "drop_bit (7 * (subid_size v - 1)) v AND 0x7f = drop_bit (7 * (subid_size v - 1)) v"
  proof (rule top_b128)
    have "7 * (subid_size v - 1) + 7 = 7 * subid_size v"
      using subid_size_pos(1) [of v] by simp
    then show "unat v < 2 ^ (7 * (subid_size v - 1) + 7)"
      using subid_size_fits [OF assms] by (simp only:)
  qed
  have "subid_size v \<in> {1, 2, 3, 4, 5}"
    by (auto simp: subid_size_def)
  then show ?thesis
    using t by (auto simp: subid_octets_def enc_subid_def eval_nat_numeral)
qed

lemma parse_subid_enc:
  assumes "stored mem bufp (enc_subid v)" "subid_size v \<le> len" "unat v < 2 ^ 32"
  shows "\<exists>b. parse_subid mem bufp len 0 = Inr (bufp + subid_size v, len - subid_size v, v, b) \<and> b AND 0x80 = 0"
proof -
  have "take_bit (7 * subid_size v) v = v"
    using subid_size_fits [OF assms(3)]
    by (simp add: word_unat_eq_iff unsigned_take_bit_eq take_bit_nat_eq_self)
  then show ?thesis
    using parse_subid_b128 [of mem bufp "subid_size v - 1" v len 0] assms subid_size_pos(1) [of v]
    by (simp add: enc_subid_def msb_b128_last)
qed


subsection \<open>Whole object identifiers\<close>

abbreviation subids32 :: "oid \<Rightarrow> bool" where
  "subids32 vs \<equiv> (\<forall>v \<in> set vs. unat v < 2 ^ 32)"

definition enc_subids :: "oid \<Rightarrow> bytes" where
  "enc_subids vs = concat (map enc_subid vs)"

lemma enc_subids_Nil [simp]: "enc_subids [] = []"
  by (simp add: enc_subids_def)

lemma enc_subids_Cons [simp]: "enc_subids (v # vs) = enc_subid v @ enc_subids vs"
  by (simp add: enc_subids_def)

lemma length_enc_subids: "length (enc_subids vs) = sum_list (map subid_size vs)"
  by (induction vs) simp_all

lemma length_enc_subids_le: "length (enc_subids vs) \<le> 5 * length vs"
  by (induction vs) (use subid_size_pos(2) in \<open>auto intro: add_mono\<close>)

lemma parse_subids_enc:
  "stored mem bufp (enc_subids vs) \<Longrightarrow> len = length (enc_subids vs) \<Longrightarrow> length vs \<le> cap \<Longrightarrow>
   oidp + length vs \<le> length objid \<Longrightarrow> subids32 vs \<Longrightarrow>
   parse_subids mem bufp len cap objid oidp =
     Inr (bufp + len, 0, store_at objid oidp vs, oidp + length vs)"
proof (induction vs arbitrary: bufp len cap objid oidp)
  case Nil
  then show ?case by (cases cap) simp_all
next
  case (Cons v vs)
  obtain c where c: "cap = Suc c" using Cons.prems by (cases cap) auto
  have st: "stored mem bufp (enc_subid v)" "stored mem (bufp + subid_size v) (enc_subids vs)"
    using Cons.prems(1) by simp_all
  obtain b where b: "parse_subid mem bufp len 0 = Inr (bufp + subid_size v, len - subid_size v, v, b)"
      "b AND 0x80 = 0"
    using parse_subid_enc [OF st(1), of len] Cons.prems by auto
  have "parse_subids mem (bufp + subid_size v) (length (enc_subids vs)) c (store_at objid oidp [v]) (oidp + 1)
      = Inr (bufp + subid_size v + length (enc_subids vs), 0,
             store_at (store_at objid oidp [v]) (oidp + 1) vs, oidp + 1 + length vs)"
    using Cons.prems c st(2) by (intro Cons.IH) auto
  moreover have "store_at (store_at objid oidp [v]) (oidp + 1) vs = store_at objid oidp (v # vs)"
    using store_at_store_at [of oidp "[v]" vs objid] Cons.prems(4) by simp
  moreover have "\<not> v > 0xffffffff" "0 < len"
    using Cons.prems(2,5) subid_size_pos(1) [of v] by (auto simp: word_less_nat_alt)
  ultimately show ?case
    using b c Cons.prems by (simp add: mem_simps)
qed

lemma oid_sizes_spec:
  "op + n \<le> length objid \<Longrightarrow>
   oid_sizes objid op n val = Inr (map (\<lambda>v. subid_size (check_overflow_u v)) (val # take n (drop op objid)))"
proof (induction n arbitrary: op val)
  case 0
  then show ?case by simp
next
  case (Suc n)
  then have "take (Suc n) (drop op objid) = objid ! op # take n (drop (Suc op) objid)"
    by (simp add: Cons_nth_drop_Suc [symmetric])
  with Suc show ?case by (simp add: rd_def)
qed

lemma oid_out_spec:
  "drop op objid = vs \<Longrightarrow> subids32 (val # vs) \<Longrightarrow> data + length (enc_subids (val # vs)) \<le> length mem \<Longrightarrow>
   oid_out mem data objid op (map subid_size (val # vs)) val =
     Inr (store_at mem data (enc_subids (val # vs)), data + length (enc_subids (val # vs)))"
proof (induction vs arbitrary: op val mem data)
  case Nil
  then show ?case by (simp add: subid_octets_enc mem_simps)
next
  case (Cons w ws)
  have op1: "op < length objid"
    by (rule ccontr) (use Cons.prems(1) in simp)
  then have op: "objid ! op = w" "drop (Suc op) objid = ws"
    using Cons.prems(1) Cons_nth_drop_Suc [OF op1] by simp_all
  have w: "take_bit 32 w = w"
    using Cons.prems(2) by (simp add: word_unat_eq_iff unsigned_take_bit_eq take_bit_nat_eq_self)
  have "oid_out (store_at mem data (enc_subid val)) (data + subid_size val) objid (op + 1)
      (map subid_size (w # ws)) w =
    Inr (store_at (store_at mem data (enc_subid val)) (data + subid_size val) (enc_subids (w # ws)),
         data + subid_size val + length (enc_subids (w # ws)))"
    using Cons.prems op by (intro Cons.IH) simp_all
  moreover have "store_at (store_at mem data (enc_subid val)) (data + subid_size val) (enc_subids (w # ws))
      = store_at mem data (enc_subids (val # w # ws))"
    using store_at_store_at [of data "enc_subid val" "enc_subids (w # ws)" mem] Cons.prems(3) by simp
  ultimately show ?case
    using Cons.prems op1 op w by (simp add: subid_octets_enc mem_simps ac_simps)
qed

text \<open>The object identifiers the two-component rule of BER can represent.\<close>

definition valid_oid :: "oid \<Rightarrow> bool" where
  "valid_oid o1 \<longleftrightarrow> 2 \<le> length o1 \<and> length o1 \<le> 128 \<and>
     (unat (o1 ! 0) < 2 \<and> unat (o1 ! 1) < 40 \<or> o1 ! 0 = 2 \<and> unat (o1 ! 1) + 80 < 2 ^ 32) \<and>
     subids32 (drop 2 o1)"

definition oid_values :: "oid \<Rightarrow> oid" where
  "oid_values o1 = (o1 ! 0 * 40 + o1 ! 1) # drop 2 o1"

definition enc_oid :: "u8 \<Rightarrow> oid \<Rightarrow> bytes" where
  "enc_oid type o1 =
     enc_header type (length (enc_subids (oid_values o1))) @ enc_subids (oid_values o1)"

lemma valid_oid_length: "valid_oid o1 \<Longrightarrow> 2 \<le> length o1"
  by (simp add: valid_oid_def)

lemma first_value:
  assumes "unat x < 2 \<and> unat y < 40 \<or> x = 2 \<and> unat y + 80 < 2 ^ 32"
  shows "unat (x * 40 + y :: u64) = unat x * 40 + unat y"
  using assms by (auto simp: unat_word_ariths)

lemma split_first_value:
  assumes "unat x < 2 \<and> unat y < 40 \<or> x = 2 \<and> unat y + 80 < 2 ^ 32"
  shows "split_first (x * 40 + y) = (x, y)"
proof -
  have "x = 0 \<or> x = 1 \<or> x = 2"
    using assms by (auto simp: word_unat_eq_iff)
  then show ?thesis
    using assms first_value [OF assms]
    by (auto simp: split_first_def word_less_nat_alt word_unat_eq_iff unat_sub_if')
qed

lemma valid_oid_values:
  assumes "valid_oid o1"
  shows "subids32 (oid_values o1)" and "length (oid_values o1) \<le> 127"
    and "length (enc_subids (oid_values o1)) \<le> 0xffff"
proof -
  show "subids32 (oid_values o1)"
    using assms first_value [of "o1 ! 0" "o1 ! 1"] by (auto simp: valid_oid_def oid_values_def)
  show l: "length (oid_values o1) \<le> 127"
    using assms unfolding valid_oid_def oid_values_def by simp linarith
  show "length (enc_subids (oid_values o1)) \<le> 0xffff"
    using l length_enc_subids_le [of "oid_values o1"] by linarith
qed

lemma oid_split: "2 \<le> length o1 \<Longrightarrow> o1 = o1 ! 0 # o1 ! 1 # drop 2 o1"
  by (cases o1; cases "tl o1") auto

lemma builds_objid:
  assumes "valid_oid o1"
  shows "builds (\<lambda>m d l. asn_build_objid m d l type o1 (length o1)) (enc_oid type o1)"
proof -
  let ?v = "o1 ! 0 * 40 + o1 ! 1"
  let ?c = "enc_subids (oid_values o1)"
  have len: "2 \<le> length o1" "length o1 \<le> 128" using assms by (auto simp: valid_oid_def)
  have first: "first_subid o1 (length o1) = Inr (?v, length o1, 2)"
    using assms by (auto simp: first_subid_def rd_def valid_oid_def word_less_nat_alt)
  have sizes: "oid_sizes o1 2 (length o1 - 2) ?v = Inr (map subid_size (oid_values o1))"
    using len valid_oid_values(1) [OF assms]
    by (simp add: oid_sizes_spec oid_values_def check_overflow_u_id cong: map_cong)
  have out: "oid_out m d o1 2 (map subid_size (oid_values o1)) ?v = Inr (store_at m d ?c, d + length ?c)"
    if "d + length ?c \<le> length m" for m d
    using that valid_oid_values(1) [OF assms] oid_out_spec [of 2 o1 "drop 2 o1" ?v d m]
    by (simp add: oid_values_def)
  have "builds (\<lambda>m d l. ebind (asn_build_header m d l type (length ?c)) (\<lambda>(m', d', l').
      if asn_build_header_check l' (length ?c) then Inl HeaderTooShort
      else ebind (oid_out m' d' o1 2 (map subid_size (oid_values o1)) ?v) (\<lambda>(m'', d'').
        Inr (m'', d'', usub64 l' (length ?c))))) (enc_header type (length ?c) @ ?c)"
    by (rule builds_primitive) (simp_all add: out del: One_nat_def)
  then show ?thesis
    using len by (simp add: asn_build_objid_def first sizes enc_oid_def length_enc_subids [symmetric]
        Let_def del: One_nat_def cong: if_cong)
qed

lemma asn_parse_objid_enc:
  assumes "stored mem data (enc_oid ASN_OBJECT_ID o1)" and "length (enc_oid ASN_OBJECT_ID o1) \<le> dl"
    and "valid_oid o1" and "length o1 \<le> objidlength" and "objidlength \<le> length objid"
  shows "asn_parse_objid mem data dl objid objidlength =
    Inr (data + length (enc_oid ASN_OBJECT_ID o1), dl - length (enc_oid ASN_OBJECT_ID o1),
         ASN_OBJECT_ID, store_at objid 0 o1, length o1)"
proof -
  let ?vs = "oid_values o1" and ?c = "enc_subids (oid_values o1)"
  let ?h = "enc_header ASN_OBJECT_ID (length ?c)"
  have len: "2 \<le> length o1" using assms(3) by (simp add: valid_oid_def)
  note v = valid_oid_values [OF assms(3)]
  have st: "stored mem data ?h" "stored mem (data + length ?h) ?c"
    using assms(1) by (simp_all add: enc_oid_def)
  have c0: "length ?c \<noteq> 0"
    using subid_size_pos(1) [of "hd ?vs"] by (simp add: oid_values_def)
  have pl: "asn_parse_length mem (data + 1) = Inr (data + length ?h, length ?c)"
    using st(1) asn_parse_length_enc [of mem "data + 1" "length ?c"] v(3) by (simp add: enc_header_def)
  have ck: "\<not> asn_parse_length_check (data + length ?h) data (length ?c) dl"
    by (rule asn_parse_length_check_fits)
       (use assms(2) v(3) length_enc_length(2) [of "length ?c"] in
         \<open>auto simp: enc_oid_def enc_header_def intro: le_trans [where j = 3]\<close>)
  have lv: "length ?vs = length o1 - 1" using len by (simp add: oid_values_def)
  have ps: "parse_subids mem (data + length ?h) (length ?c) (objidlength - 1) objid 1 =
      Inr (data + length ?h + length ?c, 0, store_at objid 1 ?vs, length o1)"
    using parse_subids_enc [OF st(2) refl, of "objidlength - 1" 1 objid] v(1) lv len assms(4,5) by simp
  have r1: "rd (store_at objid 1 ?vs) 1 = Inr (o1 ! 0 * 40 + o1 ! 1)"
    using len assms(4,5) lv by (simp add: rd_def store_at_def nth_append oid_values_def)
  have fin: "store_at (store_at objid 1 ?vs) 0 [o1 ! 0, o1 ! 1] = store_at objid 0 o1"
  proof -
    have "drop 2 (store_at objid 1 ?vs) = drop 2 o1 @ drop (length o1) objid"
    proof -
      obtain k where "length o1 = 2 + k" using le_Suc_ex [OF len] by blast
      then show ?thesis using assms(4,5) by (simp add: store_at_def oid_values_def)
    qed
    moreover have "store_at m 0 [x, y] = x # y # drop 2 m" for m :: oid and x y
      by (simp add: store_at_def numeral_2_eq_2)
    moreover have "store_at objid 0 o1 = o1 @ drop (length o1) objid"
      by (simp add: store_at_def)
    ultimately show ?thesis
      using oid_split [OF len] by (metis append_Cons)
  qed
  show ?thesis
    using pl ck ps r1 c0 st(1) fin len assms(2-5) split_first_value [of "o1 ! 0" "o1 ! 1"] lv
    by (simp add: asn_parse_objid_def rd_def enc_header_def [of ASN_OBJECT_ID "length ?c"] mem_simps valid_oid_def
        enc_oid_def ac_simps)
qed

interpretation oid_codec: asn_codec
  "\<lambda>o1. valid_oid o1 \<and> length o1 \<le> objidlength \<and> objidlength \<le> length objid"
  "enc_oid ASN_OBJECT_ID"
  "\<lambda>o1 m d l. asn_build_objid m d l ASN_OBJECT_ID o1 (length o1)"
  "\<lambda>m d l. asn_parse_objid m d l objid objidlength"
  "\<lambda>o1. (ASN_OBJECT_ID, store_at objid 0 o1, length o1)"
  for objid :: oid and objidlength :: nat
  by unfold_locales (auto simp: builds_objid asn_parse_objid_enc)

lemma length_enc_oid:
  assumes "valid_oid o1"
  shows "length (enc_oid type o1) \<le> 5 * length o1 - 1"
proof -
  have c: "length (enc_subids (oid_values o1)) \<le> 5 * (length o1 - 1)"
  proof -
    have "length (oid_values o1) = length o1 - 1"
      using valid_oid_length [OF assms] by (simp add: oid_values_def)
    then show ?thesis using length_enc_subids_le [of "oid_values o1"] by simp
  qed
  have "length (enc_header type n) \<le> 4" for n
    using length_enc_length(2) [of n] by (simp add: enc_header_def)
  from this [of "length (enc_subids (oid_values o1))"] show ?thesis
    using c valid_oid_length [OF assms] unfolding enc_oid_def length_append by linarith
qed

lemma parse_subid_safe:
  "1 \<le> len \<Longrightarrow> bufp + len \<le> length mem \<Longrightarrow>
   \<exists>b l s x. parse_subid mem bufp len v = Inr (b, l, s, x) \<and> b + l = bufp + len \<and> l < len"
proof (induction mem bufp len v rule: parse_subid.induct)
  case (1 mem bufp len v)
  show ?case
  proof (cases "mem ! bufp AND 0x80 \<noteq> 0 \<and> len - 1 > 0")
    case True
    have "rd mem bufp = Inr (mem ! bufp)" using "1.prems" by (simp add: rd_def)
    moreover obtain b l s x where
      "parse_subid mem (bufp + 1) (len - 1) (push_bit 7 v + ucast (mem ! bufp AND 0x7f)) = Inr (b, l, s, x)"
      "b + l = bufp + len" "l < len - 1"
    proof -
      have "1 \<le> len - 1" "bufp + 1 + (len - 1) = bufp + len" using True by linarith+
      then show thesis
        using "1.IH" [OF calculation refl True] "1.prems" that by (metis (no_types, lifting))
    qed
    ultimately show ?thesis
      using True by (subst parse_subid.simps) (simp add: Let_def)
  next
    case False
    then show ?thesis using "1.prems"
      by (subst parse_subid.simps) (auto simp: rd_def Let_def)
  qed
qed

lemma parse_subids_safe:
  "bufp + len \<le> length mem \<Longrightarrow> oidp + cap \<le> length objid \<Longrightarrow>
   safe (parse_subids mem bufp len cap objid oidp) \<and>
   (\<forall>b l o' p. parse_subids mem bufp len cap objid oidp = Inr (b, l, o', p) \<longrightarrow>
      length o' = length objid \<and> oidp \<le> p \<and> p \<le> oidp + cap)"
proof (induction cap arbitrary: bufp len objid oidp)
  case 0
  then show ?case by simp
next
  case (Suc cap)
  show ?case
  proof (cases "len = 0")
    case True
    then show ?thesis by simp
  next
    case False
    obtain b l s x where p: "parse_subid mem bufp len 0 = Inr (b, l, s, x)" "b + l = bufp + len"
      using parse_subid_safe [of len bufp mem 0] False Suc.prems by auto
    let ?o = "store_at objid oidp [s]"
    have lo: "length ?o = length objid" using Suc.prems by simp
    have w: "wr objid oidp s = Inr ?o"
      using Suc.prems by (intro wr_inside) simp
    have eq: "parse_subids mem bufp len (Suc cap) objid oidp =
        (if l = 0 \<and> x AND 0x80 \<noteq> 0 then Inl SubidSyntax
         else if s > 0xffffffff then Inl SubidTooLarge
         else parse_subids mem b l cap ?o (oidp + 1))"
      using False by (simp add: p(1) w)
    have IH: "safe (parse_subids mem b l cap ?o (oidp + 1)) \<and>
       (\<forall>b' l' o' p. parse_subids mem b l cap ?o (oidp + 1) = Inr (b', l', o', p) \<longrightarrow>
          length o' = length ?o \<and> oidp + 1 \<le> p \<and> p \<le> oidp + 1 + cap)"
      using Suc.prems p(2) by (intro Suc.IH) (simp_all add: lo)
    show ?thesis
      unfolding eq using IH by (fastforce simp: lo split: if_splits)
  qed
qed



subsection \<open>Properties\<close>



lemma parse_objid_safe:
  assumes "data + dl + 10 \<le> length mem" and "2 \<le> objidlength" and "objidlength \<le> length objid"
  shows "safe (asn_parse_objid mem data dl objid objidlength) \<and>
    (\<forall>data' dl' type objid' n. asn_parse_objid mem data dl objid objidlength = Inr (data', dl', type, objid', n) \<longrightarrow>
       length objid' = length objid \<and> n \<le> objidlength)"
proof -
  have l: "safe (asn_parse_length mem (data + 1))" "rd mem data = Inr (mem ! data)"
    using assms(1) by (auto intro: asn_parse_length_safe rd_inside)
  have body: "safe r \<and> (\<forall>a b c d e. r = Inr (a, b, c, d, e) \<longrightarrow> length d = length objid \<and> e \<le> objidlength)"
    if pl: "asn_parse_length mem (data + 1) = Inr (bufp, n)" "\<not> asn_parse_length_check bufp data n dl"
      and r: "r = ebind (if n = 0 then wr_bytes objid 0 [0, 0] else Inr objid) (\<lambda>objid0.
         ebind (parse_subids mem bufp n (usub64 objidlength 1) objid0 1)
           (\<lambda>(bufp', len, objid1, oidp).
           if len \<noteq> 0 then Inl OidTooLong
           else ebind (rd objid1 1) (\<lambda>subidentifier.
             let (x, y) = split_first subidentifier in
             ebind (wr_bytes objid1 0 [x, y]) (\<lambda>objid2.
             Inr (bufp', usub64 dl (n + (bufp - data)), ASN_OBJECT_ID, objid2, oidp)))))"
    for bufp n and r :: "(nat \<times> nat \<times> u8 \<times> oid \<times> nat) res"
  proof -
    have b: "bufp + n \<le> length mem"
      using asn_parse_length_checked [OF pl] assms(1) by simp
    obtain o0 where o0: "(if n = 0 then wr_bytes objid 0 [0, 0] else Inr objid) = Inr o0"
        "length o0 = length objid"
    proof (cases "n = 0")
      case True
      then show thesis using that [of "store_at objid 0 [0, 0]"] assms(2,3) by (simp add: mem_simps)
    qed (use that in simp)
    have ps: "safe (parse_subids mem bufp n (objidlength - 1) o0 1) \<and>
        (\<forall>b l o' p. parse_subids mem bufp n (objidlength - 1) o0 1 = Inr (b, l, o', p) \<longrightarrow>
           length o' = length o0 \<and> 1 \<le> p \<and> p \<le> 1 + (objidlength - 1))"
      using b assms(2,3) o0(2) by (intro parse_subids_safe) auto
    show ?thesis
    proof (cases "parse_subids mem bufp n (objidlength - 1) o0 1")
      case (Inl e)
      with ps o0 assms(2) show ?thesis by (simp add: r)
    next
      case (Inr t)
      obtain b' l o' p where t: "t = (b', l, o', p)" by (cases t)
      with Inr ps have "length o' = length objid" "p \<le> objidlength"
        using o0(2) assms(2) by auto
      then show ?thesis
        using Inr t o0 assms(2,3) by (auto simp: r mem_simps Let_def split: prod.splits)
    qed
  qed
  show ?thesis
  proof (cases "mem ! data = ASN_OBJECT_ID \<and> (\<exists>bufp n. asn_parse_length mem (data + 1) = Inr (bufp, n) \<and>
      \<not> asn_parse_length_check bufp data n dl)")
    case True
    then obtain bufp n where p: "asn_parse_length mem (data + 1) = Inr (bufp, n)"
        "\<not> asn_parse_length_check bufp data n dl" by blast
    have t: "mem ! data = ASN_OBJECT_ID" using True by blast
    show ?thesis
      by (rule body [OF p]) (simp only: asn_parse_objid_def l(2) p t ebind_Inr prod.case if_False simp_thms)
  next
    case False
    show ?thesis
    proof (cases "asn_parse_length mem (data + 1)")
      case (Inl e)
      with l show ?thesis by (simp add: asn_parse_objid_def)
    next
      case (Inr t)
      obtain bufp n where t: "t = (bufp, n)" by (cases t)
      with Inr False consider "mem ! data \<noteq> ASN_OBJECT_ID" | "asn_parse_length_check bufp data n dl"
        by blast
      then show ?thesis
        by cases (simp_all add: asn_parse_objid_def Inr [unfolded t] l(2) del: One_nat_def add_Suc_right add_0_right)
    qed
  qed
qed

text \<open>
  Memory safety of the OBJECT IDENTIFIER decoder.  Given a packet buffer with ten bytes
  after the announced data and an output buffer of at least two components that is as large as
  announced, \<open>asn_parse_objid\<close> stays inside both, and never reports more components than fit.
\<close>

lemma asn_parse_objid_safe:
  assumes "data + dl + 10 \<le> length mem" and "2 \<le> objidlength" and "objidlength \<le> length objid"
  shows "safe (asn_parse_objid mem data dl objid objidlength) \<and>
    (\<forall>data' dl' type objid' n. asn_parse_objid mem data dl objid objidlength = Inr (data', dl', type, objid', n) \<longrightarrow>
       length objid' = length objid \<and> n \<le> objidlength)"
  by (rule parse_objid_safe [OF assms])

lemma asn_parse_objid_safe_witness:
  "safe (asn_parse_objid (0x06 # 0x02 # 0x2b # 0x86 # replicate 10 0xff) 0 4 [0, 0] 2)"
  using asn_parse_objid_safe [of 0 4 "0x06 # 0x02 # 0x2b # 0x86 # replicate 10 0xff" 2 "[0, 0]"] by simp

lemma parse_subid_rd:
  "rd mem bufp = Inr b \<Longrightarrow> parse_subid mem bufp len subidentifier =
     (if b AND 0x80 \<noteq> 0 \<and> len - 1 > 0
      then parse_subid mem (bufp + 1) (len - 1) (push_bit 7 subidentifier + ucast (b AND 0x7f))
      else Inr (bufp + 1, len - 1, push_bit 7 subidentifier + ucast (b AND 0x7f), b))"
  by (subst parse_subid.simps) (simp add: Let_def)

lemma parse_subids_pos:
  "0 < cap \<Longrightarrow> parse_subids mem bufp len cap objid oidp =
     (if len = 0 then Inr (bufp, len, objid, oidp)
      else ebind (parse_subid mem bufp len 0) (\<lambda>(bufp', len', subidentifier, last_byte).
        if len' = 0 \<and> last_byte AND 0x80 \<noteq> 0 then Inl SubidSyntax
        else if subidentifier > 0xffffffff then Inl SubidTooLarge
        else ebind (wr objid oidp subidentifier) (\<lambda>objid'.
             parse_subids mem bufp' len' (cap - 1) objid' (oidp + 1))))"
  by (cases cap) (simp, simp only: parse_subids.simps diff_Suc_1)

lemmas oid_eval = asn_parse_objid_def asn_build_objid_def asn_parse_length_def asn_parse_length_check_def
  asn_build_header_def asn_build_length_def asn_build_header_check_def first_subid_def split_first_def
  subid_size_def subid_octets_def check_overflow_u_def rd_def wr_def wr_bytes.simps(2) Let_def
  parse_subid_rd parse_subids_pos

text \<open>
  The second component 40 is not rejected.  \<open>asn_build_objid\<close> rejects a second component
  above 40 under the arcs 0 and 1, but accepts 40 itself, which the encoding cannot represent:
  0.40 is stored and read back as 1.0.
\<close>

lemma asn_objid_second_component_40:
  "asn_build_objid [0, 0, 0, 0] 0 4 ASN_OBJECT_ID [0, 40] 2 = Inr ([0x06, 0x01, 0x28, 0], 3, 1) \<and>
   asn_parse_objid [0x06, 0x01, 0x28, 0] 0 4 [0, 0] 2 = Inr (3, 1, ASN_OBJECT_ID, [1, 0], 2)"
  by (simp add: oid_eval cong: ebind_eval_cong)

text \<open>
  A sub-identifier of ten octets wraps.  The decoder compares a sub-identifier with
  \<open>MAX_SUBID\<close> only after it was accumulated modulo \<open>2 ^ 64\<close>: the component \<open>2 ^ 64 + 5\<close> is
  accepted and read as 5.
\<close>

lemma asn_parse_objid_wraps:
  "asn_parse_objid ([0x06, 0x0b, 0x2b, 0x82, 0x80, 0x80, 0x80, 0x80, 0x80, 0x80, 0x80, 0x80, 0x05]) 0 13 [0, 0, 0] 3 =
     Inr (13, 0, ASN_OBJECT_ID, [1, 3, 5], 3)"
  by (simp add: oid_eval cong: ebind_eval_cong)


end
