(* ===== verification/Asn1_Safe.thy ===== *)
theory Asn1_Safe
  imports Asn1_Float Asn1_String Asn1_Oid
begin

unbundle bit_operations_syntax

section \<open>Bounds of the BER decoders (\<open>snmplib/asn1.c\<close>)\<close>

text \<open>
  What the message decoders rely on, whatever the packet holds.  The decoders of fixed-size types
  never leave the 30 bytes that start at the object.  The decoders of strings, bit strings and
  object identifiers stay inside the contents when the header fits; a larger \<open>datalength\<close> does not
  change what they read.  A successful decoder moves forward and accounts for every byte.
\<close>

subsection \<open>Decoders of fixed-size types\<close>

lemma asn_parse_length_near:
  assumes "asn_parse_length mem (data + 1) = Inr (bufp, n)"
  shows "bufp \<le> data + 10"
  using asn_parse_length_bounds [OF assms] by simp

lemma int_decoders_near:
  assumes "data + 30 \<le> length mem"
  shows "safe (asn_parse_int mem data dl k)" and "safe (asn_parse_unsigned_int mem data dl k)"
proof -
  have l: "safe (asn_parse_length mem (data + 1))" "rd mem data = Inr (mem ! data)"
    using assms by (auto intro: asn_parse_length_safe rd_inside)
  have b: "bufp < length mem" "bufp + n \<le> length mem"
    if "asn_parse_length mem (data + 1) = Inr (bufp, n)" "n \<le> 9" for bufp n
    using asn_parse_length_near [OF that(1)] that(2) assms by linarith+
  show "safe (asn_parse_int mem data dl k)"
    using l b unfolding asn_parse_int_def
    by (auto simp: rd_inside be_loop_inside split: prod.splits intro!: safe_ebind)
  show "safe (asn_parse_unsigned_int mem data dl k)"
    using l b unfolding asn_parse_unsigned_int_def
    by (auto simp: rd_inside be_loop_inside split: prod.splits intro!: safe_ebind)
qed

lemma safe_rd: "i < length mem \<Longrightarrow> safe (rd mem i)"
  by (simp add: rd_def)

lemma safe_rd_bytes: "i + n \<le> length mem \<Longrightarrow> safe (rd_bytes mem i n)"
  by (simp add: rd_bytes_def)

lemma loop64_safe: "bufp + n \<le> length mem \<Longrightarrow> safe (loop64 mem bufp n h l)"
  by (induction mem bufp n h l rule: loop64.induct) (auto simp: rd_inside)

lemma opaque_near:
  assumes "asn_parse_length mem (Suc data) = Inr (bufp, n)" and "data + 30 \<le> length mem"
  shows "bufp + 9 \<le> length mem"
    and "safe (asn_parse_length mem (Suc (Suc bufp)))"
proof -
  have b: "bufp \<le> data + 10" using asn_parse_length_near [of mem data bufp n] assms(1) by simp
  then show "bufp + 9 \<le> length mem" using assms(2) by linarith
  show "safe (asn_parse_length mem (Suc (Suc bufp)))" using b assms(2) by (intro asn_parse_length_safe) linarith
qed

lemma opaque_inner_near:
  assumes "asn_parse_length mem (Suc (Suc bufp)) = Inr (bufp', n')" and "asn_parse_length mem (Suc data) = Inr (bufp, n)"
    and "data + 30 \<le> length mem"
  shows "bufp' + 9 \<le> length mem"
  using asn_parse_length_bounds [OF assms(1)] asn_parse_length_near [of mem data bufp n] assms(2,3) by auto

lemma opaque_int64_near:
  assumes "data + 30 \<le> length mem" and "asn_parse_length mem (Suc data) = Inr (bufp, n)"
  shows "safe (opaque_int64 mem data dl type bufp n)"
    and "opaque_int64 mem data dl type bufp n = Inr (b', n', t') \<Longrightarrow> b' < length mem \<and> b' + 9 \<le> length mem"
  using opaque_near [OF assms(2,1)] opaque_inner_near [OF _ assms(2,1)]
  by (auto simp: opaque_int64_def ebind_eq_Inr intro!: safe_ebind safe_rd split: if_splits prod.splits)

lemma opaque_int64_inner:
  assumes "opaque_int64 mem data dl type bufp n = Inr (b', n', t')" and "asn_parse_length mem (Suc data) = Inr (bufp, n)"
    and "data + 30 \<le> length mem"
  shows "b' + 9 \<le> length mem"
  using opaque_int64_near(2) [OF assms(3,2,1)] by simp

lemma uint64_decoder_near:
  assumes "data + 30 \<le> length mem"
  shows "safe (asn_parse_unsigned_int64 mem data dl k)"
proof -
  have "safe (asn_parse_length mem (Suc data))" "safe (rd mem data)"
    using assms by (auto intro: asn_parse_length_safe safe_rd)
  then show ?thesis
    unfolding asn_parse_unsigned_int64_def
    by (auto intro!: safe_ebind safe_rd loop64_safe opaque_int64_near(1) [OF assms] split: prod.splits)
       (drule (1) opaque_int64_inner [OF _ _ assms]; simp)+
qed

lemma int64_decoder_near:
  assumes "data + 30 \<le> length mem"
  shows "safe (asn_parse_signed_int64 mem data dl k)"
proof -
  have "safe (asn_parse_length mem (Suc data))" "safe (rd mem data)"
    using assms by (auto intro: asn_parse_length_safe safe_rd)
  then show ?thesis
    unfolding asn_parse_signed_int64_def
    by (auto intro!: safe_ebind safe_rd loop64_safe split: prod.splits) (frule opaque_near(1) [OF _ assms], frule opaque_near(2) [OF _ assms], (drule (1) opaque_inner_near [OF _ _ assms])?, simp)+
qed

lemma float_decoders_near:
  assumes "data + 30 \<le> length mem"
  shows "safe (asn_parse_float mem data dl k)" and "safe (asn_parse_double mem data dl k)"
proof -
  have l: "safe (asn_parse_length mem (Suc data))" "safe (rd mem data)"
    using assms by (auto intro: asn_parse_length_safe safe_rd)
  show "safe (asn_parse_float mem data dl k)"
    unfolding asn_parse_float_def using l
    by (auto simp: ebind_eq_Inr intro!: safe_ebind safe_rd safe_rd_bytes split: if_splits prod.splits)
       (frule opaque_near(1) [OF _ assms], frule opaque_near(2) [OF _ assms], (drule (1) opaque_inner_near [OF _ _ assms])?, simp)+
  show "safe (asn_parse_double mem data dl k)"
    unfolding asn_parse_double_def using l
    by (auto simp: ebind_eq_Inr Let_def intro!: safe_ebind safe_rd safe_rd_bytes split: if_splits prod.splits)
       (frule opaque_near(1) [OF _ assms], frule opaque_near(2) [OF _ assms], (drule (1) opaque_inner_near [OF _ _ assms])?, simp)+
qed


subsection \<open>Decoders of strings and object identifiers\<close>

lemma asn_parse_header_plain:
  assumes "asn_parse_header mem data dl = Inr (bufp, n, type)" and "\<not> opaque_special type"
  shows "rd mem data = Inr type" and "asn_parse_length mem (data + 1) = Inr (bufp, n)" and "data < bufp"
    and "bufp + n \<le> data + dl"
proof -
  show "rd mem data = Inr type" "asn_parse_length mem (data + 1) = Inr (bufp, n)"
    using assms by (auto simp: asn_parse_header_def ebind_eq_Inr split: if_splits prod.splits)
  show "data < bufp" "bufp + n \<le> data + dl" using asn_parse_header_bounds [OF assms(1)] by simp_all
qed

lemma string_decoder_inside:
  assumes "rd mem data = Inr type" and "asn_parse_length mem (data + 1) = Inr (bufp, n)" and "bufp + n \<le> length mem"
    and "k \<le> length str"
  shows "safe (asn_parse_string mem data dl str k)"
proof (cases "asn_parse_length_check bufp data n dl \<or> n > k")
  case True
  with assms(1,2) show ?thesis by (auto simp: asn_parse_string_def)
next
  case False
  define s where "s = take n (drop bufp mem)"
  have "length s = n" "rd_bytes mem bufp n = Inr s"
    using assms(3) by (simp_all add: s_def rd_bytes_def)
  with False assms show ?thesis by (auto simp: asn_parse_string_def copy_out)
qed

lemma bitstring_decoder_inside:
  assumes "rd mem data = Inr type" and "asn_parse_length mem (data + 1) = Inr (bufp, n)" and "bufp + n \<le> length mem"
    and "bufp < length mem" and "k \<le> length str"
  shows "safe (asn_parse_bitstring mem data dl str k)"
  using assms by (auto simp: asn_parse_bitstring_def rd_inside mem_simps)

lemma objid_decoder_inside:
  assumes "rd mem data = Inr type" and "asn_parse_length mem (data + 1) = Inr (bufp, n)" and "bufp + n \<le> length mem"
    and "2 \<le> k" and "k \<le> length objid"
  shows "safe (asn_parse_objid mem data dl objid k) \<and>
    (\<forall>data' dl' ty objid' m. asn_parse_objid mem data dl objid k = Inr (data', dl', ty, objid', m) \<longrightarrow>
       length objid' = length objid \<and> m \<le> k)"
proof -
  let ?o = "if n = 0 then store_at objid 0 [0, 0] else objid"
  have o: "(if n = 0 then wr_bytes objid 0 [0, 0] else Inr objid) = Inr ?o" "length ?o = length objid"
    using assms(4,5) by (simp_all add: mem_simps)
  have ps: "safe (parse_subids mem bufp n (k - 1) ?o 1) \<and>
      (\<forall>b l o' p. parse_subids mem bufp n (k - 1) ?o 1 = Inr (b, l, o', p) \<longrightarrow>
         length o' = length ?o \<and> 1 \<le> p \<and> p \<le> 1 + (k - 1))"
    using assms(3-5) o(2) by (intro parse_subids_safe) auto
  have e: "asn_parse_objid mem data dl objid k =
      (if type \<noteq> ASN_OBJECT_ID then Inl (TypeErr type)
       else if asn_parse_length_check bufp data n dl then Inl MsgOverflow
       else ebind (parse_subids mem bufp n (k - 1) ?o 1) (\<lambda>(bufp', len, objid1, oidp).
           if len \<noteq> 0 then Inl OidTooLong
           else ebind (rd objid1 1) (\<lambda>subidentifier.
             let (x, y) = split_first subidentifier in
             ebind (wr_bytes objid1 0 [x, y]) (\<lambda>objid2.
             Inr (bufp', usub64 dl (n + (bufp - data)), type, objid2, oidp)))))"
    using assms(4) unfolding asn_parse_objid_def assms(1,2) ebind_Inr prod.case o(1) by simp
  show ?thesis
  proof (cases "parse_subids mem bufp n (k - 1) ?o 1")
    case (Inl x)
    with ps show ?thesis unfolding e by simp
  next
    case (Inr t)
    obtain b' l o' p where t: "t = (b', l, o', p)" by (cases t)
    with Inr ps have "length o' = length objid" "p \<le> k" using o(2) assms(4) by auto
    then show ?thesis unfolding e using Inr t assms(4,5) by (auto simp: mem_simps Let_def split: prod.splits)
  qed
qed


subsection \<open>A successful decoder moves forward\<close>

lemma checked_rest:
  assumes "asn_parse_length mem (Suc data) = Inr (bufp, n)" and "\<not> asn_parse_length_check bufp data n dl"
  shows "data < bufp" and "bufp + n + usub64 dl (n + (bufp - data)) = data + dl"
  using asn_parse_length_bounds [OF assms(1)] asn_parse_length_check_ok [OF assms(2)] by auto

lemma be_loop_moves: "be_loop mem bufp n v = Inr (bufp', x) \<Longrightarrow> bufp' = bufp + n"
  by (induction mem bufp n v rule: be_loop.induct) (auto simp: ebind_eq_Inr)

lemma asn_parse_int_moves:
  "asn_parse_int mem data dl k = Inr (data', dl', r) \<Longrightarrow> data < data' \<and> data' + dl' = data + dl"
  "asn_parse_unsigned_int mem data dl k = Inr (data', dl', r) \<Longrightarrow> data < data' \<and> data' + dl' = data + dl"
  by (auto simp: asn_parse_int_def asn_parse_unsigned_int_def ebind_eq_Inr split: if_splits prod.splits
      dest!: be_loop_moves dest: checked_rest)

lemma asn_parse_string_moves:
  "asn_parse_string mem data dl str k = Inr (data', dl', r) \<Longrightarrow> data < data' \<and> data' + dl' = data + dl"
  by (auto simp: asn_parse_string_def ebind_eq_Inr split: if_splits prod.splits dest: checked_rest)

lemma parse_subid_moves:
  "parse_subid mem bufp len v = Inr (b, l, s, x) \<Longrightarrow> 1 \<le> len \<Longrightarrow> b + l = bufp + len"
proof (induction mem bufp len v rule: parse_subid.induct)
  case (1 mem bufp len v)
  show ?case
  proof (cases "rd mem bufp")
    case (Inl e)
    then show ?thesis using "1.prems" by (subst (asm) parse_subid.simps) simp
  next
    case (Inr c)
    then show ?thesis
      using "1.prems" "1.IH" [OF Inr refl]
      by (auto simp: parse_subid_rd [OF Inr] split: if_splits)
  qed
qed

lemma parse_subids_moves:
  "parse_subids mem bufp len cap objid oidp = Inr (b, l, o', p) \<Longrightarrow> b + l = bufp + len"
proof (induction cap arbitrary: bufp len objid oidp)
  case 0
  then show ?case by simp
next
  case (Suc cap)
  show ?case
  proof (cases "len = 0")
    case True
    then show ?thesis using Suc.prems by simp
  next
    case False
    then obtain b1 l1 s x objid' where "parse_subid mem bufp len 0 = Inr (b1, l1, s, x)"
        "parse_subids mem b1 l1 cap objid' (oidp + 1) = Inr (b, l, o', p)"
      using Suc.prems by (auto simp: ebind_eq_Inr split: if_splits)
    then show ?thesis using Suc.IH parse_subid_moves [of mem bufp len 0 b1 l1 s x] False by fastforce
  qed
qed

lemma asn_parse_objid_moves:
  assumes "asn_parse_objid mem data dl objid k = Inr (data', dl', r)"
  shows "data < data' \<and> data' + dl' = data + dl"
proof -
  obtain bufp n o0 o1 p where "asn_parse_length mem (Suc data) = Inr (bufp, n)" "\<not> asn_parse_length_check bufp data n dl"
      "parse_subids mem bufp n (usub64 k 1) o0 1 = Inr (data', 0, o1, p)" "dl' = usub64 dl (n + (bufp - data))"
    using assms by (auto simp: asn_parse_objid_def ebind_eq_Inr Let_def case_prod_beta split: if_splits)
  then show ?thesis using checked_rest [of mem data bufp n dl] parse_subids_moves by fastforce
qed

end
