(* ===== verification/Asn1_Rbuild.thy ===== *)
theory Asn1_Rbuild
  imports Asn1_Oid Asn1_String Asn1_Float
begin

unbundle bit_operations_syntax

section \<open>Reverse BER encoders (\<open>snmplib/asn1.c\<close>, \<open>snmplib/tools.c\<close>)\<close>

text \<open>
  \<open>snmp_realloc\<close>, \<open>asn_realloc\<close> and the \<open>asn_realloc_rbuild_*\<close> encoders, which write a message
  from its end towards its start into a buffer that grows when it is full.  The state of an
  encoding is the pair of the buffer \<open>*pkt\<close> (its length is \<open>*pkt_len\<close>) and \<open>*offset\<close>, the
  number of bytes already written at the top of the buffer.

  The allocator is a parameter: \<open>malloc n\<close> is \<open>None\<close> when it fails and otherwise the contents of
  the fresh block of \<open>n\<close> bytes, by index.  Every call within one encoding asks for more bytes than
  the one before, so a function of the size describes every pattern of failures.

  \<open>rgood\<close> is the contract of every reverse encoder: it either puts exactly the given bytes in front of
  what was already written, growing the buffer only when they do not fit, or fails because there was no
  room and the buffer could not grow.  The bytes are those of the forward encoders.
\<close>

type_synonym malloc = "nat \<Rightarrow> (nat \<Rightarrow> u8) option"
type_synonym rstate = "bytes \<times> nat"

subsection \<open>Growing the buffer\<close>

definition realloc :: "malloc \<Rightarrow> bytes \<Rightarrow> nat \<Rightarrow> bytes option" where
  "realloc malloc buf n =
     (case malloc n of None \<Rightarrow> None | Some block \<Rightarrow> Some (take n buf @ map block [length buf..<n]))"

definition new_buf_len :: "nat \<Rightarrow> nat" where
  "new_buf_len buf_len =
     (if buf_len \<le> 255 then buf_len + 256
      else if buf_len > 255 \<and> buf_len \<le> 8191 then buf_len * 2
      else if buf_len > 8191 then buf_len + 8192
      else 0)"

definition snmp_realloc :: "malloc \<Rightarrow> bytes \<Rightarrow> bytes option" where
  "snmp_realloc malloc buf = realloc malloc buf (new_buf_len (length buf))"

text \<open>\<open>memmove\<close> to the top of the new block, then \<open>memset\<close> with blanks below.\<close>

definition asn_realloc :: "malloc \<Rightarrow> bytes \<Rightarrow> bytes option" where
  "asn_realloc malloc pkt =
     (let old_pkt_len = length pkt in
      case snmp_realloc malloc pkt of
        None \<Rightarrow> None
      | Some new \<Rightarrow>
          let moved = store_at new (length new - old_pkt_len) (take old_pkt_len new) in
          Some (store_at moved 0 (replicate (length new - old_pkt_len) 0x20)))"

lemma new_buf_len_grows: "length pkt + 256 \<le> new_buf_len (length pkt)"
  by (simp add: new_buf_len_def)

lemma asn_realloc_eq:
  "asn_realloc malloc pkt =
     (let n = new_buf_len (length pkt) in
      if malloc n = None then None else Some (replicate (n - length pkt) 0x20 @ pkt))"
proof (cases "malloc (new_buf_len (length pkt))")
  case None
  then show ?thesis by (simp add: asn_realloc_def snmp_realloc_def realloc_def)
next
  case (Some block)
  define n where "n = new_buf_len (length pkt)"
  have n: "length pkt \<le> n" using new_buf_len_grows [of pkt] by (simp add: n_def)
  let ?new = "pkt @ map block [length pkt..<n]"
  have new: "snmp_realloc malloc pkt = Some ?new" "length ?new = n"
    using Some n by (simp_all add: snmp_realloc_def realloc_def n_def)
  have "store_at (store_at ?new (n - length pkt) pkt) 0 (replicate (n - length pkt) 0x20) =
      replicate (n - length pkt) 0x20 @ pkt"
    using n by (simp add: store_at_def)
  with new Some show ?thesis by (simp add: asn_realloc_def Let_def n_def)
qed

text \<open>\<open>if (((*pkt_len - *offset) < 1) && !(r && asn_realloc(pkt, pkt_len))) return 0;\<close>\<close>

definition room1 :: "malloc \<Rightarrow> bool \<Rightarrow> asn_err \<Rightarrow> rstate \<Rightarrow> rstate res" where
  "room1 malloc r err s =
     (case s of (pkt, offset) \<Rightarrow>
      if usub64 (length pkt) offset < 1 then
        (if r then (case asn_realloc malloc pkt of None \<Rightarrow> Inl err | Some pkt' \<Rightarrow> Inr (pkt', offset))
         else Inl err)
      else Inr s)"

text \<open>\<open>while ((*pkt_len - *offset) < n) if (!(r && asn_realloc(pkt, pkt_len))) return 0;\<close>\<close>

function room :: "malloc \<Rightarrow> bool \<Rightarrow> asn_err \<Rightarrow> nat \<Rightarrow> rstate \<Rightarrow> rstate res" where
  "room malloc r err n (pkt, offset) =
     (if usub64 (length pkt) offset < n then
        (if r then (case asn_realloc malloc pkt of None \<Rightarrow> Inl err | Some pkt' \<Rightarrow> room malloc r err n (pkt', offset))
         else Inl err)
      else Inr (pkt, offset))"
  by pat_completeness auto
termination
proof (relation "measure (\<lambda>(malloc, r, err, n, pkt, offset). n + offset - length pkt)")
  fix malloc :: malloc and r err n and pkt :: bytes and offset and pkt' :: bytes
  assume s: "usub64 (length pkt) offset < n" and p: "asn_realloc malloc pkt = Some pkt'"
  have "length pkt < length pkt'"
    using p new_buf_len_grows [of pkt] by (auto simp: asn_realloc_eq Let_def split: if_splits)
  moreover have "length pkt < n + offset"
    using s by (auto simp: usub64_def split: if_splits)
  ultimately show "((malloc, r, err, n, pkt', offset), malloc, r, err, n, pkt, offset)
      \<in> measure (\<lambda>(malloc, r, err, n, pkt, offset). n + offset - length pkt)"
    by simp
qed simp

declare room.simps [simp del]

text \<open>\<open>*(*pkt + *pkt_len - (++*offset)) = b\<close> and \<open>*offset += n; memcpy(*pkt + *pkt_len - *offset, bs, n)\<close>.\<close>

definition rput :: "rstate \<Rightarrow> bytes \<Rightarrow> rstate res" where
  "rput s bs =
     (case s of (pkt, offset) \<Rightarrow>
      if offset + length bs \<le> length pkt
      then ebind (wr_bytes pkt (length pkt - (offset + length bs)) bs) (\<lambda>pkt'. Inr (pkt', offset + length bs))
      else Inl OverWrite)"

definition rput1 :: "malloc \<Rightarrow> bool \<Rightarrow> asn_err \<Rightarrow> u8 \<Rightarrow> rstate \<Rightarrow> rstate res" where
  "rput1 malloc r err b s = ebind (room1 malloc r err s) (\<lambda>s'. rput s' [b])"

text \<open>The byte at \<open>*pkt + *pkt_len - *offset\<close>, the last one written.\<close>

definition rlast :: "rstate \<Rightarrow> u8 res" where
  "rlast s = (case s of (pkt, offset) \<Rightarrow> if offset \<le> length pkt then rd pkt (length pkt - offset) else Inl OverRead)"


subsection \<open>The contract of a reverse encoder\<close>

definition used :: "rstate \<Rightarrow> bytes" where
  "used s = (case s of (pkt, offset) \<Rightarrow> drop (length pkt - offset) pkt)"

definition rwf :: "rstate \<Rightarrow> bool" where
  "rwf s = (case s of (pkt, offset) \<Rightarrow> offset \<le> length pkt)"

definition prepended :: "rstate \<Rightarrow> bytes \<Rightarrow> rstate \<Rightarrow> bool" where
  "prepended s enc s' \<longleftrightarrow> rwf s' \<and> used s' = enc @ used s \<and> snd s' = snd s + length enc \<and>
     length (fst s) \<le> length (fst s') \<and>
     (length (fst s) < length (fst s') \<longrightarrow> length (fst s) < snd s + length enc)"

definition rgood :: "malloc \<Rightarrow> bool \<Rightarrow> rstate \<Rightarrow> bytes \<Rightarrow> rstate res \<Rightarrow> bool" where
  "rgood malloc r s enc res \<longleftrightarrow>
     (case res of
        Inr s' \<Rightarrow> prepended s enc s'
      | Inl e \<Rightarrow> (e = BadLength \<or> e = NoMemory) \<and> length (fst s) < snd s + length enc \<and>
                 (r \<longrightarrow> (\<exists>n. malloc n = None)))"

lemma rgood_Inr [simp]: "rgood malloc r s enc (Inr s') \<longleftrightarrow> prepended s enc s'"
  by (simp add: rgood_def)

lemma prepended_Nil: "rwf s \<Longrightarrow> prepended s [] s"
  by (simp add: prepended_def)

lemma prepended_rwf: "prepended s enc s' \<Longrightarrow> rwf s'"
  by (simp add: prepended_def)

lemma prepended_trans:
  "prepended s a s' \<Longrightarrow> prepended s' b s'' \<Longrightarrow> prepended s (b @ a) s''"
  by (auto simp: prepended_def rwf_def split: prod.splits)

lemma rgood_bind:
  assumes "rgood malloc r s a m" and "\<And>s'. prepended s a s' \<Longrightarrow> rgood malloc r s' b (f s')"
  shows "rgood malloc r s (b @ a) (ebind m f)"
proof (cases m)
  case (Inl e)
  with assms(1) show ?thesis by (auto simp: rgood_def)
next
  case (Inr s')
  with assms have p: "prepended s a s'" and g: "rgood malloc r s' b (f s')" by simp_all
  show ?thesis
  proof (cases "f s'")
    case (Inl e)
    with g Inr p show ?thesis by (auto simp: rgood_def prepended_def)
  next
    case (Inr s'')
    with g \<open>m = Inr s'\<close> p show ?thesis by (auto intro: prepended_trans)
  qed
qed

lemma rgood_put:
  assumes "rwf s" and "snd s + length bs \<le> length (fst s)"
  shows "rgood malloc r s bs (rput s bs)"
proof -
  obtain pkt offset where s: "s = (pkt, offset)" by (cases s)
  define k where "k = length pkt - (offset + length bs)"
  have k: "k + length bs + offset = length pkt" using assms(2) by (simp add: k_def s)
  have "drop k (store_at pkt k bs) = bs @ drop (k + length bs) pkt"
    using k by (simp add: store_at_def)
  moreover have "length pkt - offset = k + length bs" using k by linarith
  ultimately show ?thesis
    using k assms(2)
    by (simp add: s rput_def wr_bytes_inside prepended_def rwf_def used_def flip: k_def)
qed

lemma asn_realloc_prepended:
  assumes "rwf (pkt, offset)" "asn_realloc malloc pkt = Some pkt'"
  shows "rwf (pkt', offset)" "used (pkt', offset) = used (pkt, offset)" "length pkt + 256 \<le> length pkt'"
proof -
  have p: "pkt' = replicate (new_buf_len (length pkt) - length pkt) 0x20 @ pkt"
    using assms(2) by (simp add: asn_realloc_eq Let_def split: if_splits)
  show l: "length pkt + 256 \<le> length pkt'"
    using new_buf_len_grows [of pkt] by (simp add: p)
  with assms(1) show "rwf (pkt', offset)" by (simp add: rwf_def)
  have "length pkt' - offset - (new_buf_len (length pkt) - length pkt) = length pkt - offset"
    using new_buf_len_grows [of pkt] assms(1) by (simp add: p rwf_def)
  then show "used (pkt', offset) = used (pkt, offset)"
    using assms(1) new_buf_len_grows [of pkt] by (simp add: used_def p rwf_def)
qed

text \<open>Making room writes nothing, and fails only when there is no room.\<close>

definition made_room :: "malloc \<Rightarrow> bool \<Rightarrow> asn_err \<Rightarrow> nat \<Rightarrow> rstate \<Rightarrow> rstate res \<Rightarrow> bool" where
  "made_room malloc r err n s res \<longleftrightarrow>
     (case res of
        Inr s' \<Rightarrow> rwf s' \<and> used s' = used s \<and> snd s' = snd s \<and> snd s + n \<le> length (fst s') \<and>
                  length (fst s) \<le> length (fst s') \<and>
                  (length (fst s) < length (fst s') \<longrightarrow> length (fst s) < snd s + n)
      | Inl e \<Rightarrow> e = err \<and> length (fst s) < snd s + n \<and> (r \<longrightarrow> (\<exists>n. malloc n = None)))"

lemma asn_realloc_None: "asn_realloc malloc pkt = None \<Longrightarrow> \<exists>n. malloc n = None"
  by (auto simp: asn_realloc_eq Let_def split: if_splits)

lemma made_room1: "rwf s \<Longrightarrow> made_room malloc r err 1 s (room1 malloc r err s)"
  by (cases s; cases "asn_realloc malloc (fst s)")
     (auto simp: made_room_def room1_def rwf_def usub64_def dest: asn_realloc_None asn_realloc_prepended [unfolded rwf_def, simplified])

lemma made_room: "rwf s \<Longrightarrow> made_room malloc r err n s (room malloc r err n s)"
proof (induction malloc r err n s rule: room.induct)
  case (1 malloc r err n pkt offset)
  have w: "offset \<le> length pkt" using "1.prems" by (simp add: rwf_def)
  show ?case
  proof (cases "usub64 (length pkt) offset < n \<and> r")
    case False
    then show ?thesis
      using w by (subst room.simps) (auto simp: made_room_def rwf_def)
  next
    case True
    show ?thesis
    proof (cases "asn_realloc malloc pkt")
      case None
      then show ?thesis
        using True w by (subst room.simps) (auto simp: made_room_def dest: asn_realloc_None)
    next
      case (Some pkt')
      note p = asn_realloc_prepended [OF "1.prems" Some]
      have "made_room malloc r err n (pkt', offset) (room malloc r err n (pkt', offset))"
        using "1.IH" True Some p(1) by blast
      then show ?thesis
        using True Some p w by (subst room.simps) (auto simp: made_room_def split: sum.splits)
    qed
  qed
qed

lemma rgood_room_put:
  assumes "rwf s" and "made_room malloc r err (length bs) s m" and "err = BadLength \<or> err = NoMemory"
  shows "rgood malloc r s bs (ebind m (\<lambda>s'. rput s' bs))"
proof (cases m)
  case (Inl e)
  with assms show ?thesis by (auto simp: rgood_def made_room_def)
next
  case (Inr s')
  with assms(2) have p: "rwf s'" "used s' = used s" "snd s' = snd s" "snd s + length bs \<le> length (fst s')"
      "length (fst s) \<le> length (fst s')" "length (fst s) < length (fst s') \<longrightarrow> length (fst s) < snd s + length bs"
    by (simp_all add: made_room_def)
  obtain s'' where "rput s' bs = Inr s''" "prepended s' bs s''"
    using rgood_put [of s' bs malloc r] p
    by (cases "rput s' bs") (auto simp: rgood_def)
  with Inr p show ?thesis by (auto simp: prepended_def)
qed

lemma rgood_put1: "rwf s \<Longrightarrow> err = BadLength \<or> err = NoMemory \<Longrightarrow> rgood malloc r s [b] (rput1 malloc r err b s)"
  using rgood_room_put [of s malloc r err "[b]" "room1 malloc r err s"] made_room1 [of s malloc r err]
  by (simp add: rput1_def)


subsection \<open>Headers\<close>

function rlength_loop :: "malloc \<Rightarrow> bool \<Rightarrow> nat \<Rightarrow> rstate \<Rightarrow> (nat \<times> rstate) res" where
  "rlength_loop malloc r len s =
     (if len > 0xff then
        ebind (rput1 malloc r BadLength (word_of_nat len) s) (\<lambda>s'. rlength_loop malloc r (len div 256) s')
      else Inr (len, s))"
  by pat_completeness auto
termination
  by (relation "measure (\<lambda>(malloc, r, len, s). len)") simp_all

declare rlength_loop.simps [simp del]

definition asn_realloc_rbuild_length :: "malloc \<Rightarrow> bool \<Rightarrow> nat \<Rightarrow> rstate \<Rightarrow> rstate res" where
  "asn_realloc_rbuild_length malloc r len s =
     (let start_offset = snd s in
      if len \<le> 0x7f then rput1 malloc r BadLength (word_of_nat len) s
      else ebind (rlength_loop malloc r len s) (\<lambda>(len', s1).
           ebind (room malloc r BadLength 2 s1) (\<lambda>s2.
           ebind (rput s2 [word_of_nat len']) (\<lambda>s3.
           let tmp_int = snd s3 - start_offset in
           rput s3 [word_of_nat tmp_int OR 0x80]))))"

definition asn_realloc_rbuild_header :: "malloc \<Rightarrow> bool \<Rightarrow> u8 \<Rightarrow> nat \<Rightarrow> rstate \<Rightarrow> rstate res" where
  "asn_realloc_rbuild_header malloc r type len s =
     ebind (asn_realloc_rbuild_length malloc r len s) (\<lambda>s'. rput1 malloc r BadLength type s')"

text \<open>\<open>_asn_realloc_build_header_check\<close>; the buffer pointer is \<open>NULL\<close> only when the buffer is empty.\<close>

definition asn_realloc_build_header_check :: "rstate \<Rightarrow> nat \<Rightarrow> bool" where
  "asn_realloc_build_header_check s typedlen \<longleftrightarrow> fst s = [] \<or> length (fst s) < typedlen"

definition asn_realloc_rbuild_sequence :: "malloc \<Rightarrow> bool \<Rightarrow> u8 \<Rightarrow> nat \<Rightarrow> rstate \<Rightarrow> rstate res" where
  "asn_realloc_rbuild_sequence malloc r type len s = asn_realloc_rbuild_header malloc r type len s"

definition asn_realloc_rbuild_null :: "malloc \<Rightarrow> bool \<Rightarrow> u8 \<Rightarrow> rstate \<Rightarrow> rstate res" where
  "asn_realloc_rbuild_null malloc r type s = asn_realloc_rbuild_header malloc r type 0 s"


subsection \<open>Integers\<close>

text \<open>
  \<open>while (integer != testvalue)\<close> of the signed encoder.  An arithmetic shift by eight reaches the
  sign of a 64-bit number after at most seven more octets, so the fuel is never used up.
\<close>

primrec rint_loop :: "nat \<Rightarrow> malloc \<Rightarrow> bool \<Rightarrow> 'a::len word \<Rightarrow> 'a word \<Rightarrow> rstate \<Rightarrow> rstate res" where
  "rint_loop 0 malloc r testvalue integer s = (if integer \<noteq> testvalue then Inl OutOfFuel else Inr s)"
| "rint_loop (Suc n) malloc r testvalue integer s =
     (if integer \<noteq> testvalue then
        ebind (rput1 malloc r NoMemory (ucast integer) s) (\<lambda>s'.
        rint_loop n malloc r testvalue (signed_drop_bit 8 integer) s')
      else Inr s)"

definition asn_realloc_rbuild_int :: "malloc \<Rightarrow> bool \<Rightarrow> u8 \<Rightarrow> u64 \<Rightarrow> nat \<Rightarrow> rstate \<Rightarrow> rstate res" where
  "asn_realloc_rbuild_int malloc r type intp intsize s =
     (let start_offset = snd s in
      if intsize \<noteq> 8 then Inl (SizeErr intsize)
      else
        let integer = check_overflow_s intp;
            testvalue = (if sint integer < 0 then -1 else 0 :: u64) in
        ebind (rput1 malloc r NoMemory (ucast integer) s) (\<lambda>s1.
        ebind (rint_loop 7 malloc r testvalue (signed_drop_bit 8 integer) s1) (\<lambda>s2.
        ebind (rlast s2) (\<lambda>b.
        ebind (if b AND 0x80 \<noteq> ucast testvalue AND 0x80
               then rput1 malloc r NoMemory (ucast testvalue) s2 else Inr s2) (\<lambda>s3.
        ebind (asn_realloc_rbuild_header malloc r type (snd s3 - start_offset) s3) (\<lambda>s4.
        if asn_realloc_build_header_check s4 (snd s4 - start_offset) then Inl HeaderTooShort
        else Inr s4))))))"

text \<open>\<open>while (integer != 0)\<close> of the unsigned encoders.\<close>

function ruint_loop :: "malloc \<Rightarrow> bool \<Rightarrow> u64 \<Rightarrow> rstate \<Rightarrow> rstate res" where
  "ruint_loop malloc r integer s =
     (if integer \<noteq> 0 then
        ebind (rput1 malloc r NoMemory (ucast integer) s) (\<lambda>s'.
        ruint_loop malloc r (drop_bit 8 integer) s')
      else Inr s)"
  by pat_completeness auto
termination
  by (relation "measure (\<lambda>(malloc, r, integer, s). unat integer)")
     (auto simp: unat_drop_bit_less)

declare ruint_loop.simps [simp del]

definition asn_realloc_rbuild_unsigned_int :: "malloc \<Rightarrow> bool \<Rightarrow> u8 \<Rightarrow> u64 \<Rightarrow> nat \<Rightarrow> rstate \<Rightarrow> rstate res" where
  "asn_realloc_rbuild_unsigned_int malloc r type intp intsize s =
     (let start_offset = snd s in
      if intsize \<noteq> 8 then Inl (SizeErr intsize)
      else
        let integer = check_overflow_u intp in
        ebind (rput1 malloc r NoMemory (ucast integer) s) (\<lambda>s1.
        ebind (ruint_loop malloc r (drop_bit 8 integer) s1) (\<lambda>s2.
        ebind (rlast s2) (\<lambda>b.
        ebind (if b AND 0x80 \<noteq> 0 then rput1 malloc r NoMemory 0 s2 else Inr s2) (\<lambda>s3.
        ebind (asn_realloc_rbuild_header malloc r type (snd s3 - start_offset) s3) (\<lambda>s4.
        if asn_realloc_build_header_check s4 (snd s4 - start_offset) then Inl HeaderTooShort
        else Inr s4))))))"

fun rpad :: "nat \<Rightarrow> malloc \<Rightarrow> bool \<Rightarrow> u8 \<Rightarrow> rstate \<Rightarrow> rstate res" where
  "rpad 0 malloc r b s = Inr s"
| "rpad (Suc n) malloc r b s = ebind (rput1 malloc r NoMemory b s) (\<lambda>s'. rpad n malloc r b s')"

text \<open>The opaque wrapper of the 64-bit encoders.\<close>

definition ropaque :: "malloc \<Rightarrow> bool \<Rightarrow> u8 \<Rightarrow> nat \<Rightarrow> rstate \<Rightarrow> rstate res" where
  "ropaque malloc r tag intsize s =
     ebind (room malloc r NoMemory 5 s) (\<lambda>s1.
     ebind (rput s1 [word_of_nat intsize]) (\<lambda>s2.
     ebind (rput s2 [tag]) (\<lambda>s3.
     ebind (rput s3 [ASN_OPAQUE_TAG1]) (\<lambda>s4.
     ebind (asn_realloc_rbuild_header malloc r ASN_OPAQUE (intsize + 3) s4) (\<lambda>s5.
     if asn_realloc_build_header_check s5 (intsize + 3) then Inl HeaderTooShort else Inr s5)))))"

definition asn_realloc_rbuild_unsigned_int64 ::
  "malloc \<Rightarrow> bool \<Rightarrow> u8 \<Rightarrow> counter64 \<Rightarrow> nat \<Rightarrow> rstate \<Rightarrow> rstate res" where
  "asn_realloc_rbuild_unsigned_int64 malloc r type cp countersize s =
     (let start_offset = snd s in
      if countersize \<noteq> 16 then Inl (SizeErr countersize)
      else
        let high = check_overflow_u (ctr_high cp); low = check_overflow_u (ctr_low cp) in
        ebind (rput1 malloc r NoMemory (ucast low) s) (\<lambda>s1.
        ebind (ruint_loop malloc r (drop_bit 8 low) s1) (\<lambda>s2.
        let count = snd s2 - start_offset in
        ebind (if high \<noteq> 0 then
                 ebind (rpad (4 - count) malloc r 0 s2) (\<lambda>s3.
                 ebind (rput1 malloc r NoMemory (ucast high) s3) (\<lambda>s4.
                 ruint_loop malloc r (drop_bit 8 high) s4))
               else Inr s2) (\<lambda>s5.
        ebind (rlast s5) (\<lambda>b.
        ebind (if b AND 0x80 \<noteq> 0 then rput1 malloc r NoMemory 0 s5 else Inr s5) (\<lambda>s6.
        let intsize = snd s6 - start_offset in
        if type = ASN_OPAQUE_COUNTER64 \<or> type = ASN_OPAQUE_U64 then ropaque malloc r type intsize s6
        else ebind (asn_realloc_rbuild_header malloc r type intsize s6) (\<lambda>s7.
             if asn_realloc_build_header_check s7 intsize then Inl HeaderTooShort else Inr s7))))))) "

text \<open>\<open>while ((int) low != testvalue && count < 4)\<close>; \<open>n\<close> is \<open>4 - count\<close>.\<close>

fun rlow_loop :: "nat \<Rightarrow> malloc \<Rightarrow> bool \<Rightarrow> u32 \<Rightarrow> u32 \<Rightarrow> rstate \<Rightarrow> rstate res" where
  "rlow_loop 0 malloc r testvalue low s = Inr s"
| "rlow_loop (Suc n) malloc r testvalue low s =
     (if low \<noteq> testvalue then
        ebind (rput1 malloc r NoMemory (ucast low) s) (\<lambda>s'.
        rlow_loop n malloc r testvalue (signed_drop_bit 8 low) s')
      else Inr s)"

definition asn_realloc_rbuild_signed_int64 ::
  "malloc \<Rightarrow> bool \<Rightarrow> u8 \<Rightarrow> counter64 \<Rightarrow> nat \<Rightarrow> rstate \<Rightarrow> rstate res" where
  "asn_realloc_rbuild_signed_int64 malloc r type cp countersize s =
     (let start_offset = snd s;
          low = ucast (ctr_low cp) :: u32; high = ucast (ctr_high cp) :: u32;
          testvalue = (if high AND 0x80000000 \<noteq> 0 then -1 else 0 :: u32) in
      if countersize \<noteq> 16 then Inl (SizeErr countersize)
      else
        ebind (rput1 malloc r NoMemory (ucast low) s) (\<lambda>s1.
        ebind (rlow_loop 3 malloc r testvalue (signed_drop_bit 8 low) s1) (\<lambda>s2.
        let count = snd s2 - start_offset in
        ebind (if high \<noteq> testvalue then
                 ebind (rpad (4 - count) malloc r (if testvalue = 0 then 0 else 0xff) s2) (\<lambda>s3.
                 ebind (rput1 malloc r NoMemory (ucast high) s3) (\<lambda>s4.
                 rint_loop 3 malloc r testvalue (signed_drop_bit 8 high) s4))
               else Inr s2) (\<lambda>s5.
        ebind (rlast s5) (\<lambda>b.
        ebind (if b AND 0x80 \<noteq> ucast testvalue AND 0x80
               then rput1 malloc r NoMemory (if testvalue = 0 then 0 else 0xff) s5 else Inr s5) (\<lambda>s6.
        let intsize = snd s6 - start_offset in
        ropaque malloc r ASN_OPAQUE_I64 intsize s6))))))"


subsection \<open>Strings, bit strings, floating-point numbers\<close>

definition asn_realloc_rbuild_string :: "malloc \<Rightarrow> bool \<Rightarrow> u8 \<Rightarrow> bytes \<Rightarrow> nat \<Rightarrow> rstate \<Rightarrow> rstate res" where
  "asn_realloc_rbuild_string malloc r type str strlength s =
     ebind (room malloc r NoMemory strlength s) (\<lambda>s1.
     ebind (rd_bytes str 0 strlength) (\<lambda>bs.
     ebind (rput s1 bs) (\<lambda>s2.
     ebind (asn_realloc_rbuild_header malloc r type strlength s2) (\<lambda>s3.
     if asn_realloc_build_header_check s3 strlength then Inl HeaderTooShort else Inr s3))))"

definition asn_realloc_rbuild_bitstring :: "malloc \<Rightarrow> bool \<Rightarrow> u8 \<Rightarrow> bytes \<Rightarrow> nat \<Rightarrow> rstate \<Rightarrow> rstate res" where
  "asn_realloc_rbuild_bitstring malloc r type str strlength s =
     ebind (room malloc r NoMemory strlength s) (\<lambda>s1.
     ebind (rd_bytes str 0 strlength) (\<lambda>bs.
     ebind (rput s1 bs) (\<lambda>s2.
     ebind (asn_realloc_rbuild_header malloc r type strlength s2) (\<lambda>s3.
     if asn_realloc_build_header_check s3 strlength then Inl HeaderTooShort else Inr s3))))"

definition rfloat :: "malloc \<Rightarrow> bool \<Rightarrow> u8 \<Rightarrow> bytes \<Rightarrow> nat \<Rightarrow> rstate \<Rightarrow> rstate res" where
  "rfloat malloc r tag c n s =
     ebind (room malloc r NoMemory (n + 3) s) (\<lambda>s1.
     ebind (rput s1 c) (\<lambda>s2.
     ebind (rput s2 [word_of_nat n]) (\<lambda>s3.
     ebind (rput s3 [tag]) (\<lambda>s4.
     ebind (rput s4 [ASN_OPAQUE_TAG1]) (\<lambda>s5.
     ebind (asn_realloc_rbuild_header malloc r ASN_OPAQUE (n + 3) s5) (\<lambda>s6.
     if asn_realloc_build_header_check s6 (n + 3) then Inl HeaderTooShort else Inr s6))))))"

definition asn_realloc_rbuild_float :: "malloc \<Rightarrow> bool \<Rightarrow> u8 \<Rightarrow> u32 \<Rightarrow> nat \<Rightarrow> rstate \<Rightarrow> rstate res" where
  "asn_realloc_rbuild_float malloc r type floatp floatsize s =
     (if floatsize \<noteq> 4 \<or> floatsize > 122 then Inl (SizeErr floatsize)
      else rfloat malloc r ASN_OPAQUE_FLOAT (be_bytes 4 floatp) floatsize s)"

definition asn_realloc_rbuild_double :: "malloc \<Rightarrow> bool \<Rightarrow> u8 \<Rightarrow> u64 \<Rightarrow> nat \<Rightarrow> rstate \<Rightarrow> rstate res" where
  "asn_realloc_rbuild_double malloc r type doublep doublesize s =
     (if doublesize \<noteq> 8 \<or> doublesize > 122 then Inl (SizeErr doublesize)
      else let int1 = ucast (drop_bit 32 doublep) :: u32; int0 = ucast doublep :: u32 in
        rfloat malloc r ASN_OPAQUE_DOUBLE (be_bytes 4 int1 @ be_bytes 4 int0) doublesize s)"


subsection \<open>Object identifiers\<close>

function rsubid_loop :: "malloc \<Rightarrow> bool \<Rightarrow> u64 \<Rightarrow> rstate \<Rightarrow> rstate res" where
  "rsubid_loop malloc r tmpint s =
     (if tmpint > 0 then
        ebind (rput1 malloc r NoMemory (ucast ((tmpint AND 0x7f) OR 0x80)) s) (\<lambda>s'.
        rsubid_loop malloc r (drop_bit 7 tmpint) s')
      else Inr s)"
  by pat_completeness auto
termination
  by (relation "measure (\<lambda>(malloc, r, tmpint, s). unat tmpint)")
     (auto simp: unat_drop_bit_less word_gt_0)

declare rsubid_loop.simps [simp del]

definition rsubid :: "malloc \<Rightarrow> bool \<Rightarrow> u64 \<Rightarrow> rstate \<Rightarrow> rstate res" where
  "rsubid malloc r tmpint s =
     ebind (rput1 malloc r NoMemory (ucast tmpint AND 0x7f) s) (\<lambda>s'.
     rsubid_loop malloc r (drop_bit 7 tmpint) s')"

text \<open>\<open>for (i = objidlength; i > 2; i--)\<close>.\<close>

fun rsubids :: "malloc \<Rightarrow> bool \<Rightarrow> oid \<Rightarrow> nat \<Rightarrow> rstate \<Rightarrow> rstate res" where
  "rsubids malloc r objid i s =
     (if i > 2 then
        ebind (rd objid (i - 1)) (\<lambda>tmpint.
        ebind (rsubid malloc r (check_overflow_u tmpint) s) (\<lambda>s'.
        rsubids malloc r objid (i - 1) s'))
      else Inr s)"

declare rsubids.simps [simp del]

definition asn_realloc_rbuild_objid :: "malloc \<Rightarrow> bool \<Rightarrow> u8 \<Rightarrow> oid \<Rightarrow> nat \<Rightarrow> rstate \<Rightarrow> rstate res" where
  "asn_realloc_rbuild_objid malloc r type objid objidlength s =
     (let start_offset = snd s in
      ebind
        (if objidlength = 0 then
           ebind (room malloc r NoMemory 2 s) (\<lambda>s1. ebind (rput s1 [0]) (\<lambda>s2. rput s2 [0]))
         else ebind (rd objid 0) (\<lambda>x.
           if x > 2 then Inl BadFirstSubid
           else if objidlength = 1 then rput1 malloc r NoMemory (ucast x) s
           else ebind (rsubids malloc r objid objidlength s) (\<lambda>s1.
             ebind (rd objid 1) (\<lambda>y.
             if y > 40 \<and> x < 2 then Inl BadSecondSubid
             else rsubid malloc r (x * 40 + y) s1))))
        (\<lambda>s2.
        ebind (asn_realloc_rbuild_header malloc r type (snd s2 - start_offset) s2) (\<lambda>s3.
        if asn_realloc_build_header_check s3 (snd s3 - start_offset) then Inl HeaderTooShort
        else Inr s3)))"


subsection \<open>Headers keep the contract\<close>

lemma rput_append:
  assumes "snd s + length bs + length cs \<le> length (fst s)"
  shows "ebind (rput s bs) (\<lambda>s'. rput s' cs) = rput s (cs @ bs)"
proof -
  obtain pkt offset where s: "s = (pkt, offset)" by (cases s)
  define k where "k = length pkt - (offset + length bs + length cs)"
  have k: "length pkt = k + length cs + length bs + offset" using assms by (simp add: s k_def)
  have "store_at (store_at pkt (k + length cs) bs) k cs = store_at pkt k (cs @ bs)"
    using k by (simp add: store_at_def ac_simps)
  then show ?thesis
    using k by (simp add: s rput_def wr_bytes_inside ac_simps)
qed

lemma snd_rput: "rput s bs = Inr s' \<Longrightarrow> snd s' = snd s + length bs"
  by (auto simp: rput_def ebind_eq_Inr split: prod.splits if_splits)

lemma asn_build_header_check_ok:
  assumes "prepended s enc s'" "0 < length enc" "typedlen \<le> snd s'"
  shows "\<not> asn_realloc_build_header_check s' typedlen"
  using assms by (auto simp: asn_realloc_build_header_check_def prepended_def rwf_def split: prod.splits)

lemma room_two_puts:
  assumes "rwf s" and that: "b = f (snd s + 1)"
  shows "rgood malloc r s [b, a] (ebind (room malloc r BadLength 2 s) (\<lambda>s2.
      ebind (rput s2 [a]) (\<lambda>s3. rput s3 [f (snd s3)])))"
proof -
  have "ebind (room malloc r BadLength 2 s) (\<lambda>s2. ebind (rput s2 [a]) (\<lambda>s3. rput s3 [f (snd s3)])) =
      ebind (room malloc r BadLength 2 s) (\<lambda>s2. rput s2 [b, a])"
  proof (cases "room malloc r BadLength 2 s")
    case (Inr s2)
    with made_room [OF assms(1), of malloc r BadLength 2] have s2: "snd s2 = snd s" "snd s + 2 \<le> length (fst s2)"
      by (auto simp: made_room_def)
    have "ebind (rput s2 [a]) (\<lambda>s3. rput s3 [f (snd s3)]) = ebind (rput s2 [a]) (\<lambda>s3. rput s3 [b])"
      using s2 that by (cases "rput s2 [a]") (auto dest: snd_rput)
    with Inr s2 rput_append [of s2 "[a]" "[b]"] show ?thesis by simp
  qed simp
  then show ?thesis
    using rgood_room_put [OF assms(1), of malloc r BadLength "[b, a]"] made_room [OF assms(1), of malloc r BadLength 2]
    by (simp add: numeral_2_eq_2)
qed

lemma rgood_length:
  assumes "rwf s" and "n \<le> 0xffff"
  shows "rgood malloc r s (enc_length n) (asn_realloc_rbuild_length malloc r n s)"
proof -
  consider (short) "n \<le> 0x7f" | (one) "0x7f < n" "n \<le> 0xff" | (two) "0xff < n" by linarith
  then show ?thesis
  proof cases
    case short
    then have "enc_length n = [word_of_nat n]" by (simp add: enc_length_def)
    then show ?thesis
      using short assms(1) rgood_put1 [of s BadLength malloc r "word_of_nat n"]
      by (simp add: asn_realloc_rbuild_length_def)
  next
    case one
    then have "enc_length n = [word_of_nat 1 OR 0x80, word_of_nat n]" by (simp add: enc_length_def)
    then show ?thesis
      using one assms(1) room_two_puts [OF assms(1), of "word_of_nat 1 OR 0x80" "\<lambda>k. word_of_nat (k - snd s) OR 0x80"
          malloc r "word_of_nat n"]
      by (simp add: asn_realloc_rbuild_length_def rlength_loop.simps [of _ _ n] Let_def)
  next
    case two
    let ?q = "n div 256"
    have q: "?q \<le> 0xff" using assms(2) by simp
    have l: "rlength_loop malloc r n s = ebind (rput1 malloc r BadLength (word_of_nat n) s) (\<lambda>s'. Inr (?q, s'))"
    proof -
      have "rlength_loop malloc r ?q = (\<lambda>s'. Inr (?q, s'))"
        using q by (intro ext) (subst rlength_loop.simps; simp)
      then show ?thesis using two by (subst rlength_loop.simps) simp
    qed
    have e: "enc_length n = [word_of_nat 2 OR 0x80, word_of_nat ?q] @ [word_of_nat n]"
      using two by (simp add: enc_length_def)
    have eq: "asn_realloc_rbuild_length malloc r n s = ebind (rput1 malloc r BadLength (word_of_nat n) s) (\<lambda>s1.
         ebind (room malloc r BadLength 2 s1) (\<lambda>s2.
         ebind (rput s2 [word_of_nat ?q]) (\<lambda>s3. rput s3 [word_of_nat (snd s3 - snd s) OR 0x80])))"
      using two by (cases "rput1 malloc r BadLength (word_of_nat n) s")
        (simp_all add: asn_realloc_rbuild_length_def l Let_def)
    show ?thesis
      unfolding e eq
    proof (rule rgood_bind)
      show "rgood malloc r s [word_of_nat n] (rput1 malloc r BadLength (word_of_nat n) s)"
        using assms(1) by (intro rgood_put1) simp_all
      fix s1 assume p: "prepended s [word_of_nat n] s1"
      then have "rwf s1" "snd s1 + 1 - snd s = 2" by (simp_all add: prepended_def)
      then show "rgood malloc r s1 [word_of_nat 2 OR 0x80, word_of_nat ?q]
          (ebind (room malloc r BadLength 2 s1) (\<lambda>s2.
           ebind (rput s2 [word_of_nat ?q]) (\<lambda>s3. rput s3 [word_of_nat (snd s3 - snd s) OR 0x80])))"
        by (intro room_two_puts [where f = "\<lambda>k. word_of_nat (k - snd s) OR 0x80"]) simp_all
    qed
  qed
qed

lemma rgood_header:
  assumes "rwf s" and "n \<le> 0xffff"
  shows "rgood malloc r s (enc_header type n) (asn_realloc_rbuild_header malloc r type n s)"
proof -
  have "rgood malloc r s ([type] @ enc_length n) (asn_realloc_rbuild_header malloc r type n s)"
    unfolding asn_realloc_rbuild_header_def
    by (rule rgood_bind [OF rgood_length [OF assms]]) (auto intro: rgood_put1 dest: prepended_rwf)
  then show ?thesis by (simp add: enc_header_def)
qed

text \<open>The end of every encoder: the header in front of the contents, and the check.\<close>

lemma rgood_finish:
  assumes "rgood malloc r s c m" and "length c \<le> 0xffff"
    and "\<And>s3. prepended s c s3 \<Longrightarrow> g s3 = length c"
    and "\<And>s3 s4. prepended s c s3 \<Longrightarrow> prepended s3 (enc_header type (length c)) s4 \<Longrightarrow> t s3 s4 \<le> snd s4"
  shows "rgood malloc r s (enc_header type (length c) @ c)
    (ebind m (\<lambda>s3. ebind (asn_realloc_rbuild_header malloc r type (g s3) s3) (\<lambda>s4.
       if asn_realloc_build_header_check s4 (t s3 s4) then Inl HeaderTooShort else Inr s4)))"
proof (rule rgood_bind [OF assms(1)])
  fix s3 assume p: "prepended s c s3"
  let ?h = "enc_header type (length c)"
  have "rgood malloc r s3 ([] @ ?h) (ebind (asn_realloc_rbuild_header malloc r type (length c) s3) (\<lambda>s4.
       if asn_realloc_build_header_check s4 (t s3 s4) then Inl HeaderTooShort else Inr s4))"
  proof (rule rgood_bind [OF rgood_header])
    show "rwf s3" using p by (rule prepended_rwf)
    fix s4 assume q: "prepended s3 ?h s4"
    have "0 < length ?h" by (simp add: enc_header_def)
    then show "rgood malloc r s4 []
        (if asn_realloc_build_header_check s4 (t s3 s4) then Inl HeaderTooShort else Inr s4)"
      using asn_build_header_check_ok [OF q _ assms(4) [OF p q]] prepended_rwf [OF q]
      by (simp add: prepended_Nil)
  qed (use assms(2) in simp)
  then show "rgood malloc r s3 ?h (ebind (asn_realloc_rbuild_header malloc r type (g s3) s3) (\<lambda>s4.
       if asn_realloc_build_header_check s4 (t s3 s4) then Inl HeaderTooShort else Inr s4))"
    using assms(3) [OF p] by simp
qed

lemma prepended_snd: "prepended s c s' \<Longrightarrow> snd s' = snd s + length c"
  by (simp add: prepended_def)

lemma rgood_string:
  assumes "rwf s" and "length str \<le> 0xffff"
  shows "rgood malloc r s (enc_string type str) (asn_realloc_rbuild_string malloc r type str (length str) s)"
proof -
  have "rgood malloc r s str (ebind (room malloc r NoMemory (length str) s) (\<lambda>s1. rput s1 str))"
    by (rule rgood_room_put [OF assms(1) made_room [OF assms(1)]]) simp
  from rgood_finish [OF this assms(2), where g = "\<lambda>_. length str" and t = "\<lambda>_ _. length str" and type = type]
  have "rgood malloc r s (enc_string type str)
     (ebind (ebind (room malloc r NoMemory (length str) s) (\<lambda>s1. rput s1 str)) (\<lambda>s2.
      ebind (asn_realloc_rbuild_header malloc r type (length str) s2) (\<lambda>s3.
      if asn_realloc_build_header_check s3 (length str) then Inl HeaderTooShort else Inr s3)))"
    by (simp add: enc_string_def prepended_snd)
  then show ?thesis
    by (simp add: asn_realloc_rbuild_string_def rd_bytes_def ebind_assoc)
qed


subsection \<open>Integers keep the contract\<close>

lemma be_bytes_append [be_simps]: "be_bytes (a + b) x = be_bytes a (drop_bit (8 * b) x) @ be_bytes b x"
  by (induction a) (simp_all add: distrib_left ac_simps)

lemma be_bytes_signed:
  "8 * (a + b) \<le> LENGTH('a::len) \<Longrightarrow>
   be_bytes a (signed_drop_bit (8 * b) x) = be_bytes a (drop_bit (8 * b) (x :: 'a word))"
proof (induction a)
  case 0
  then show ?case by simp
next
  case (Suc a)
  have "(ucast (drop_bit (8 * a) (signed_drop_bit (8 * b) x)) :: u8) = ucast (drop_bit (8 * a) (drop_bit (8 * b) x))"
    by (rule bit_word_eqI) (use Suc.prems in \<open>auto simp: bit_simps ac_simps\<close>)
  with Suc show ?case by simp
qed

lemma be_bytes_snoc_signed:
  "8 * Suc k \<le> LENGTH('a::len) \<Longrightarrow>
   be_bytes k (signed_drop_bit 8 x) @ [ucast x] = be_bytes (Suc k) (x :: 'a word)"
  using be_bytes_append [of k 1 x] be_bytes_signed [of k 1 x] by simp

lemma rgood_int_loop:
  fixes y :: "'a::len word"
  shows "rwf s \<Longrightarrow> k \<le> n \<Longrightarrow> 8 * k \<le> LENGTH('a) \<Longrightarrow> signed_drop_bit (8 * k) y = testvalue \<Longrightarrow>
    (\<And>j. j < k \<Longrightarrow> signed_drop_bit (8 * j) y \<noteq> testvalue) \<Longrightarrow>
    rgood malloc r s (be_bytes k y) (rint_loop n malloc r testvalue y s)"
proof (induction n arbitrary: k y s)
  case 0
  then show ?case by (simp add: prepended_Nil)
next
  case (Suc n)
  show ?case
  proof (cases k)
    case 0
    with Suc.prems show ?thesis by (simp add: prepended_Nil)
  next
    case (Suc k')
    have y: "y \<noteq> testvalue" using Suc.prems(5) [of 0] Suc by simp
    have step: "signed_drop_bit (8 * j) (signed_drop_bit 8 y) = signed_drop_bit (8 * Suc j) y" for j
      by (simp add: add.commute)
    have "rgood malloc r s (be_bytes k' (signed_drop_bit 8 y) @ [ucast y])
        (ebind (rput1 malloc r NoMemory (ucast y) s) (\<lambda>s'.
         rint_loop n malloc r testvalue (signed_drop_bit 8 y) s'))"
    proof (rule rgood_bind)
      show "rgood malloc r s [ucast y] (rput1 malloc r NoMemory (ucast y) s)"
        using Suc.prems(1) by (intro rgood_put1) simp_all
      fix s' assume "prepended s [ucast y] s'"
      then have "rwf s'" by (rule prepended_rwf)
      then show "rgood malloc r s' (be_bytes k' (signed_drop_bit 8 y))
          (rint_loop n malloc r testvalue (signed_drop_bit 8 y) s')"
      proof (rule Suc.IH)
        show "k' \<le> n" "8 * k' \<le> LENGTH('a)" using Suc.prems(2,3) Suc by simp_all
        show "signed_drop_bit (8 * k') (signed_drop_bit 8 y) = testvalue"
          using Suc.prems(4) Suc by (simp only: step)
        show "signed_drop_bit (8 * j) (signed_drop_bit 8 y) \<noteq> testvalue" if "j < k'" for j
          using Suc.prems(5) [of "Suc j"] Suc that by (simp only: step) simp
      qed
    qed
    then show ?thesis
      using y Suc.prems(3) Suc by (simp only: rint_loop.simps be_bytes_snoc_signed if_True not_False_eq_True)
  qed
qed

lemma rlast_prepended: "prepended s (b # c) s' \<Longrightarrow> rlast s' = Inr b"
proof -
  assume p: "prepended s (b # c) s'"
  obtain pkt offset where s': "s' = (pkt, offset)" by (cases s')
  have o: "offset \<le> length pkt" "drop (length pkt - offset) pkt = b # c @ used s" "0 < offset"
    using p by (auto simp: s' prepended_def rwf_def used_def)
  then have "pkt ! (length pkt - offset) = b"
    by (metis Cons_nth_drop_Suc diff_less length_greater_0_conv list.inject list.size(3) not_less0 o(1) order.strict_trans2)
  with o show ?thesis by (simp add: s' rlast_def rd_def)
qed

text \<open>The number of octets from the sign: \<open>k\<close> octets hold all bits that differ from the sign.\<close>

lemma int_octets_unique:
  assumes "1 \<le> n" "n \<le> 8" "sext (8 * n - 1) x" "n = 1 \<or> \<not> sext (8 * (n - 1) - 1) x"
  shows "int_octets x = n"
proof (rule antisym)
  note i = int_octets [of x]
  show "int_octets x \<le> n"
  proof (rule ccontr)
    assume "\<not> int_octets x \<le> n"
    then have "sext (8 * (int_octets x - 1) - 1) x"
      using assms(1) i(3) by (intro sext_mono [OF assms(3)]) auto
    with i(5) \<open>\<not> int_octets x \<le> n\<close> assms(1) show False by auto
  qed
  show "n \<le> int_octets x"
  proof (rule ccontr)
    assume "\<not> n \<le> int_octets x"
    then have "sext (8 * (n - 1) - 1) x"
      using assms(2) i(2) by (intro sext_mono [OF i(4)]) auto
    with assms(4) \<open>\<not> n \<le> int_octets x\<close> i(2) show False by auto
  qed
qed

lemma signed_octets:
  assumes k: "1 \<le> k" "k \<le> 8" and above: "\<And>i. 8 * k \<le> i \<Longrightarrow> i < 64 \<Longrightarrow> bit x i = bit x 63"
    and least: "k = 1 \<or> (\<exists>i. 8 * (k - 1) \<le> i \<and> i < 64 \<and> bit x i \<noteq> bit x 63)"
  shows "be_bytes (int_octets x) x =
    (if bit x (8 * k - 1) = bit x 63 then be_bytes k x else (if bit x 63 then 0xff else 0) # be_bytes k x)"
proof (cases "bit x (8 * k - 1) = bit x 63")
  case True
  have "sext (8 * k - 1) x"
    unfolding sext_def
  proof (intro allI impI)
    fix j :: nat assume j: "j < 64" "8 * k - 1 \<le> j"
    show "bit x j = bit x (8 * k - 1)"
      using above [of j] True j k by (cases "j = 8 * k - 1") auto
  qed
  moreover have "k = 1 \<or> \<not> sext (8 * (k - 1) - 1) x"
  proof (cases "k = 1")
    case False
    then obtain i where i: "8 * (k - 1) \<le> i" "i < 64" "bit x i \<noteq> bit x 63" using least by blast
    have le: "8 * (k - 1) - 1 \<le> i" "8 * (k - 1) - 1 \<le> 63" "(63::nat) < 64" using i k by linarith+
    have "\<not> sext (8 * (k - 1) - 1) x"
    proof
      assume "sext (8 * (k - 1) - 1) x"
      then have "bit x i = bit x (8 * (k - 1) - 1)" "bit x 63 = bit x (8 * (k - 1) - 1)"
        using le i(2) unfolding sext_def by blast+
      with i(3) show False by simp
    qed
    then show ?thesis by simp
  qed simp
  ultimately have "int_octets x = k" using k by (intro int_octets_unique)
  with True show ?thesis by simp
next
  case False
  then have "8 * k - 1 \<noteq> 63" by auto
  then have k7: "k \<le> 7" using k by auto
  have "sext (8 * Suc k - 1) x"
    unfolding sext_def
  proof (intro allI impI)
    fix j :: nat assume j: "j < 64" "8 * Suc k - 1 \<le> j"
    have "8 * k \<le> 8 * Suc k - 1" "8 * Suc k - 1 < 64" "8 * k \<le> j" using k7 j by auto
    then show "bit x j = bit x (8 * Suc k - 1)"
      using above [of j] above [of "8 * Suc k - 1"] j by blast
  qed
  moreover have "\<not> sext (8 * k - 1) x"
  proof
    assume "sext (8 * k - 1) x"
    moreover have "8 * k - 1 \<le> 63" "(63::nat) < 64" using k by linarith+
    ultimately have "bit x 63 = bit x (8 * k - 1)" unfolding sext_def by blast
    with False show False by simp
  qed
  ultimately have "int_octets x = Suc k" using k k7 by (intro int_octets_unique) simp_all
  moreover have "(ucast (drop_bit (8 * k) x) :: u8) = (if bit x 63 then 0xff else 0)"
  proof -
    have "bit (ucast (drop_bit (8 * k) x) :: u8) i \<longleftrightarrow> bit x 63" if "i < 8" for i
      using that k7 above [of "8 * k + i"] by (simp add: bit_simps)
    then have "(ucast (drop_bit (8 * k) x) :: u8) = (if bit x 63 then mask 8 else 0)"
      by (intro bit_word_eqI) (auto simp: bit_simps)
    then show ?thesis by (simp add: mask_eq_exp_minus_1)
  qed
  ultimately show ?thesis using False by simp
qed


lemma and_msb_cases: "(b::u8) AND 0x80 = (if bit b 7 then 0x80 else 0)"
proof -
  have "b AND 2 ^ 7 = (if bit b 7 then 2 ^ 7 else 0)"
    by (rule bit_word_eqI) (cases "bit b 7"; simp only: if_True if_False bit_and_iff bit_exp_iff bit_0_eq; auto)
  then show ?thesis by simp
qed

lemma ucast_minus_1: "8 \<le> LENGTH('a::len) \<Longrightarrow> (ucast (- 1 :: 'a word) :: u8) = 0xff"
proof -
  assume "8 \<le> LENGTH('a)"
  then have "(ucast (- 1 :: 'a word) :: u8) = - 1"
    by (intro bit_word_eqI) (simp add: bit_simps)
  then show ?thesis by simp
qed

lemma rgood_sign:
  assumes "rgood malloc r s (b # c) m"
  shows "rgood malloc r s (if b AND 0x80 \<noteq> t AND 0x80 then t # b # c else b # c)
    (ebind m (\<lambda>s2. ebind (rlast s2) (\<lambda>b. if b AND 0x80 \<noteq> t AND 0x80 then rput1 malloc r NoMemory t s2 else Inr s2)))"
proof -
  have "rgood malloc r s ((if b AND 0x80 \<noteq> t AND 0x80 then [t] else []) @ b # c)
    (ebind m (\<lambda>s2. ebind (rlast s2) (\<lambda>b. if b AND 0x80 \<noteq> t AND 0x80 then rput1 malloc r NoMemory t s2 else Inr s2)))"
    by (rule rgood_bind [OF assms])
       (auto simp: rlast_prepended prepended_Nil dest: prepended_rwf intro: rgood_put1)
  then show ?thesis by (simp split: if_splits)
qed

lemma signed_drop_bit_sign:
  fixes x :: "'a::len word"
  assumes "m \<le> LENGTH('a)"
  shows "signed_drop_bit m x = (if bit x (LENGTH('a) - 1) then - 1 else 0) \<longleftrightarrow>
    (\<forall>i. m \<le> i \<longrightarrow> i < LENGTH('a) \<longrightarrow> bit x i = bit x (LENGTH('a) - 1))" (is "?l \<longleftrightarrow> ?r")
proof
  assume l: ?l
  show ?r
  proof (intro allI impI)
    fix i assume i: "m \<le> i" "i < LENGTH('a)"
    have "bit (signed_drop_bit m x) (i - m) \<longleftrightarrow> bit x (LENGTH('a) - 1)"
      unfolding l using i by (auto simp: bit_simps)
    moreover have "\<not> LENGTH('a) - m \<le> i - m" "m + (i - m) = i" using i by linarith+
    ultimately show "bit x i = bit x (LENGTH('a) - 1)"
      by (simp only: bit_signed_drop_bit_iff simp_thms if_False)
  qed
next
  assume r: ?r
  show ?l
  proof (rule bit_word_eqI)
    fix i assume i: "i < LENGTH('a)"
    have "bit (signed_drop_bit m x) i \<longleftrightarrow> bit x (LENGTH('a) - 1)"
    proof (cases "LENGTH('a) - m \<le> i")
      case False
      then have "m \<le> m + i" "m + i < LENGTH('a)" using assms by linarith+
      with r have "bit x (m + i) \<longleftrightarrow> bit x (LENGTH('a) - 1)" by blast
      with False show ?thesis by (simp only: bit_signed_drop_bit_iff simp_thms if_False)
    qed (use i in \<open>simp only: bit_signed_drop_bit_iff simp_thms if_True\<close>)
    then show "bit (signed_drop_bit m x) i \<longleftrightarrow> bit (if bit x (LENGTH('a) - 1) then - 1 else 0 :: 'a word) i"
      using i by simp
  qed
qed

lemma least_octets:
  assumes "P (8::nat)"
  obtains k where "1 \<le> k" "k \<le> 8" "P k" "\<And>j. 1 \<le> j \<Longrightarrow> j < k \<Longrightarrow> \<not> P j"
proof -
  define k where "k = (LEAST k. 1 \<le> k \<and> P k)"
  have "1 \<le> (8::nat) \<and> P 8" using assms by simp
  then have "1 \<le> k \<and> P k" "k \<le> 8" unfolding k_def by (rule LeastI, rule Least_le)
  moreover have "\<not> P j" if "1 \<le> j" "j < k" for j
    using not_less_Least [of j "\<lambda>k. 1 \<le> k \<and> P k"] that by (auto simp: k_def)
  ultimately show thesis using that by blast
qed

lemma rgood_first_int_loop:
  fixes x :: "'a::len word"
  assumes "rwf s" "1 \<le> k" "k \<le> n + 1" "8 * k \<le> LENGTH('a)" "signed_drop_bit (8 * k) x = testvalue"
    and least: "\<And>j. 1 \<le> j \<Longrightarrow> j < k \<Longrightarrow> signed_drop_bit (8 * j) x \<noteq> testvalue"
  shows "rgood malloc r s (be_bytes k x) (ebind (rput1 malloc r NoMemory (ucast x) s) (\<lambda>s1.
    rint_loop n malloc r testvalue (signed_drop_bit 8 x) s1))"
proof -
  obtain k' where k: "k = Suc k'" using assms(2) by (cases k) auto
  have step: "signed_drop_bit (8 * j) (signed_drop_bit 8 x) = signed_drop_bit (8 * Suc j) x" for j
    by (simp add: add.commute)
  have "rgood malloc r s (be_bytes k' (signed_drop_bit 8 x) @ [ucast x])
    (ebind (rput1 malloc r NoMemory (ucast x) s) (\<lambda>s1.
     rint_loop n malloc r testvalue (signed_drop_bit 8 x) s1))"
  proof (rule rgood_bind)
    show "rgood malloc r s [ucast x] (rput1 malloc r NoMemory (ucast x) s)"
      using assms(1) by (intro rgood_put1) simp_all
    fix s' assume "prepended s [ucast x] s'"
    then have "rwf s'" by (rule prepended_rwf)
    then show "rgood malloc r s' (be_bytes k' (signed_drop_bit 8 x))
        (rint_loop n malloc r testvalue (signed_drop_bit 8 x) s')"
    proof (rule rgood_int_loop)
      show "k' \<le> n" "8 * k' \<le> LENGTH('a)" using assms(3,4) k by simp_all
      show "signed_drop_bit (8 * k') (signed_drop_bit 8 x) = testvalue"
        using assms(5) k by (simp only: step)
      show "signed_drop_bit (8 * j) (signed_drop_bit 8 x) \<noteq> testvalue" if "j < k'" for j
        using least [of "Suc j"] k that by (simp only: step) simp
    qed
  qed
  then show ?thesis
    using assms(4) k by (simp only: be_bytes_snoc_signed)
qed

lemma rgood_int:
  assumes "rwf s"
  shows "rgood malloc r s (enc_int type (check_overflow_s x)) (asn_realloc_rbuild_int malloc r type x 8 s)"
proof -
  let ?x = "check_overflow_s x"
  define tv :: u64 where "tv = (if sint ?x < 0 then - 1 else 0)"
  have t: "tv = (if bit ?x 63 then - 1 else 0)"
    using bit_last_iff [of ?x] by (simp add: tv_def)
  have sd: "signed_drop_bit (8 * k) ?x = tv \<longleftrightarrow> (\<forall>i. 8 * k \<le> i \<longrightarrow> i < 64 \<longrightarrow> bit ?x i = bit ?x 63)"
    if "k \<le> 8" for k
    using signed_drop_bit_sign [of "8 * k" ?x] that by (simp add: t)
  have "signed_drop_bit (8 * 8) ?x = tv" unfolding sd [OF order_refl] by simp
  then obtain k where k: "1 \<le> k" "k \<le> 8" "signed_drop_bit (8 * k) ?x = tv"
      "\<And>j. 1 \<le> j \<Longrightarrow> j < k \<Longrightarrow> signed_drop_bit (8 * j) ?x \<noteq> tv"
    by (rule least_octets [of "\<lambda>k. signed_drop_bit (8 * k) ?x = tv"]) blast
  define m where "m = ebind (rput1 malloc r NoMemory (ucast ?x) s) (\<lambda>s1.
    rint_loop 7 malloc r tv (signed_drop_bit 8 ?x) s1)"
  have m: "rgood malloc r s (be_bytes k ?x) m"
    unfolding m_def using assms k by (intro rgood_first_int_loop) simp_all
  obtain b c where b: "be_bytes k ?x = b # c" using k(1) by (cases k) auto
  have hd: "b AND 0x80 = 0 \<longleftrightarrow> \<not> bit ?x (8 * k - 1)"
    using hd_be_bytes [OF k(1), of ?x] b by simp
  have "b AND 0x80 \<noteq> ucast tv AND 0x80 \<longleftrightarrow> bit ?x (8 * k - 1) \<noteq> bit ?x 63"
    using hd by (cases "bit ?x 63") (auto simp: t and_msb_cases ucast_minus_1 split: if_splits)
  moreover have "be_bytes (int_octets ?x) ?x =
      (if bit ?x (8 * k - 1) = bit ?x 63 then be_bytes k ?x else (if bit ?x 63 then 0xff else 0) # be_bytes k ?x)"
  proof (rule signed_octets [OF k(1,2)])
    show "bit ?x i = bit ?x 63" if "8 * k \<le> i" "i < 64" for i
      using k(3) that unfolding sd [OF k(2)] by blast
    show "k = 1 \<or> (\<exists>i. 8 * (k - 1) \<le> i \<and> i < 64 \<and> bit ?x i \<noteq> bit ?x 63)"
    proof (cases "k = 1")
      case False
      then have "1 \<le> k - 1" "k - 1 < k" "k - 1 \<le> 8" using k(1,2) by linarith+
      then show ?thesis using k(4) [of "k - 1"] unfolding sd [OF \<open>k - 1 \<le> 8\<close>] by blast
    qed simp
  qed
  ultimately have o: "(if b AND 0x80 \<noteq> ucast tv AND 0x80 then ucast tv # b # c else b # c) = be_bytes (int_octets ?x) ?x"
    using b by (auto simp: t ucast_minus_1)
  have g: "rgood malloc r s (be_bytes (int_octets ?x) ?x) (ebind m (\<lambda>s2. ebind (rlast s2) (\<lambda>b.
      if b AND 0x80 \<noteq> ucast tv AND 0x80 then rput1 malloc r NoMemory (ucast tv) s2 else Inr s2)))"
    using rgood_sign [of malloc r s b c m "ucast tv"] m b o by simp
  have l: "length (be_bytes (int_octets ?x) ?x) \<le> 0xffff" using int_octets(3) [of ?x] by simp
  have "asn_realloc_rbuild_int malloc r type x 8 s =
      ebind (ebind m (\<lambda>s2. ebind (rlast s2) (\<lambda>b.
        if b AND 0x80 \<noteq> ucast tv AND 0x80 then rput1 malloc r NoMemory (ucast tv) s2 else Inr s2)))
      (\<lambda>s3. ebind (asn_realloc_rbuild_header malloc r type (snd s3 - snd s) s3) (\<lambda>s4.
         if asn_realloc_build_header_check s4 (snd s4 - snd s) then Inl HeaderTooShort else Inr s4))"
    by (simp only: asn_realloc_rbuild_int_def Let_def tv_def m_def ebind_assoc simp_thms if_False)
  with rgood_finish [OF g l, where g = "\<lambda>s3. snd s3 - snd s" and t = "\<lambda>s3 s4. snd s4 - snd s" and type = type]
  show ?thesis
    by (simp add: prepended_snd enc_int_def)
qed


lemma rgood_uint_loop:
  "rwf s \<Longrightarrow> drop_bit (8 * k) y = 0 \<Longrightarrow> (\<And>j. j < k \<Longrightarrow> drop_bit (8 * j) y \<noteq> 0) \<Longrightarrow>
   rgood malloc r s (be_bytes k y) (ruint_loop malloc r y s)"
proof (induction k arbitrary: y s)
  case 0
  then show ?case by (subst ruint_loop.simps) (simp add: prepended_Nil)
next
  case (Suc k)
  have y: "y \<noteq> 0" using Suc.prems(3) [of 0] by simp
  have step: "drop_bit (8 * j) (drop_bit 8 y) = drop_bit (8 * Suc j) y" for j
    by (simp add: add.commute)
  have "rgood malloc r s (be_bytes k (drop_bit 8 y) @ [ucast y])
      (ebind (rput1 malloc r NoMemory (ucast y) s) (\<lambda>s'. ruint_loop malloc r (drop_bit 8 y) s'))"
  proof (rule rgood_bind)
    show "rgood malloc r s [ucast y] (rput1 malloc r NoMemory (ucast y) s)"
      using Suc.prems(1) by (intro rgood_put1) simp_all
    fix s' assume "prepended s [ucast y] s'"
    then have "rwf s'" by (rule prepended_rwf)
    then show "rgood malloc r s' (be_bytes k (drop_bit 8 y)) (ruint_loop malloc r (drop_bit 8 y) s')"
    proof (rule Suc.IH)
      show "drop_bit (8 * k) (drop_bit 8 y) = 0" using Suc.prems(2) by (simp only: step)
      show "drop_bit (8 * j) (drop_bit 8 y) \<noteq> 0" if "j < k" for j
        using Suc.prems(3) [of "Suc j"] that by (simp only: step) simp
    qed
  qed
  then show ?case
    using y be_bytes_append [of k 1 y] by (subst ruint_loop.simps) simp
qed

lemma rgood_first_uint_loop:
  assumes "rwf s" "1 \<le> k" "drop_bit (8 * k) x = 0"
    and least: "\<And>j. 1 \<le> j \<Longrightarrow> j < k \<Longrightarrow> drop_bit (8 * j) x \<noteq> 0"
  shows "rgood malloc r s (be_bytes k x) (ebind (rput1 malloc r NoMemory (ucast x) s) (\<lambda>s1.
    ruint_loop malloc r (drop_bit 8 x) s1))"
proof -
  obtain k' where k: "k = Suc k'" using assms(2) by (cases k) auto
  have step: "drop_bit (8 * j) (drop_bit 8 x) = drop_bit (8 * Suc j) x" for j
    by (simp add: add.commute)
  have "rgood malloc r s (be_bytes k' (drop_bit 8 x) @ [ucast x])
    (ebind (rput1 malloc r NoMemory (ucast x) s) (\<lambda>s1. ruint_loop malloc r (drop_bit 8 x) s1))"
  proof (rule rgood_bind)
    show "rgood malloc r s [ucast x] (rput1 malloc r NoMemory (ucast x) s)"
      using assms(1) by (intro rgood_put1) simp_all
    fix s' assume "prepended s [ucast x] s'"
    then have "rwf s'" by (rule prepended_rwf)
    then show "rgood malloc r s' (be_bytes k' (drop_bit 8 x)) (ruint_loop malloc r (drop_bit 8 x) s')"
    proof (rule rgood_uint_loop)
      show "drop_bit (8 * k') (drop_bit 8 x) = 0" using assms(3) k by (simp only: step)
      show "drop_bit (8 * j) (drop_bit 8 x) \<noteq> 0" if "j < k'" for j
        using least [of "Suc j"] k that by (simp only: step) simp
    qed
  qed
  then show ?thesis
    using be_bytes_append [of k' 1 x] k by simp
qed

lemma drop_bit_0_iff: "drop_bit m x = 0 \<longleftrightarrow> (\<forall>i. m \<le> i \<longrightarrow> i < 64 \<longrightarrow> \<not> bit (x::u64) i)"
proof
  assume z: "drop_bit m x = 0"
  show "\<forall>i. m \<le> i \<longrightarrow> i < 64 \<longrightarrow> \<not> bit x i"
  proof (intro allI impI)
    fix i assume "m \<le> i" "i < (64::nat)"
    then have "bit x i \<longleftrightarrow> bit (drop_bit m x) (i - m)" by (simp add: bit_drop_bit_eq)
    then show "\<not> bit x i" by (simp add: z)
  qed
next
  assume a: "\<forall>i. m \<le> i \<longrightarrow> i < 64 \<longrightarrow> \<not> bit x i"
  have "\<not> bit x (m + i)" for i
    using a bit_imp_le_length [of x "m + i"] by auto
  then show "drop_bit m x = 0"
    by (intro bit_word_eqI) (simp add: bit_drop_bit_eq)
qed

lemma octets_u64_least:
  assumes "1 \<le> k" "k \<le> 8" "drop_bit (8 * k) x = 0" "\<And>j. 1 \<le> j \<Longrightarrow> j < k \<Longrightarrow> drop_bit (8 * j) x \<noteq> 0"
  shows "octets_u64 x = (if bit x (8 * k - 1) then 0 # be_bytes k x else be_bytes k x)"
proof (cases "bit x 63")
  case True
  have "k = 8"
  proof (rule ccontr)
    assume "k \<noteq> 8"
    then have "8 * k \<le> 63" "(63::nat) < 64" using assms(2) by linarith+
    with assms(3) True show False unfolding drop_bit_0_iff by blast
  qed
  with True show ?thesis by (simp add: octets_u64_def)
next
  case False
  have "be_bytes (int_octets x) x =
    (if bit x (8 * k - 1) = bit x 63 then be_bytes k x else (if bit x 63 then 0xff else 0) # be_bytes k x)"
  proof (rule signed_octets [OF assms(1,2)])
    show "bit x i = bit x 63" if "8 * k \<le> i" "i < 64" for i
      using assms(3) False that unfolding drop_bit_0_iff by blast
    show "k = 1 \<or> (\<exists>i. 8 * (k - 1) \<le> i \<and> i < 64 \<and> bit x i \<noteq> bit x 63)"
    proof (cases "k = 1")
      case neq: False
      then have "1 \<le> k - 1" "k - 1 < k" using assms(1) by linarith+
      then have "drop_bit (8 * (k - 1)) x \<noteq> 0" by (rule assms(4))
      then show ?thesis using False unfolding drop_bit_0_iff by blast
    qed simp
  qed
  with False show ?thesis by (simp add: octets_u64_def)
qed

lemma rgood_uint_octets:
  assumes "rgood malloc r s (be_bytes k x) m"
    and "1 \<le> k" "k \<le> 8" "drop_bit (8 * k) x = 0" "\<And>j. 1 \<le> j \<Longrightarrow> j < k \<Longrightarrow> drop_bit (8 * j) x \<noteq> 0"
  shows "rgood malloc r s (octets_u64 x) (ebind m (\<lambda>s2. ebind (rlast s2) (\<lambda>b.
    if b AND 0x80 \<noteq> 0 then rput1 malloc r NoMemory 0 s2 else Inr s2)))"
proof -
  obtain b c where b: "be_bytes k x = b # c" using assms(2) by (cases k) auto
  have "b AND 0x80 = 0 \<longleftrightarrow> \<not> bit x (8 * k - 1)"
    using hd_be_bytes [OF assms(2), of x] b by simp
  then have "octets_u64 x = (if b AND 0x80 \<noteq> 0 AND 0x80 then 0 # b # c else b # c)"
    using octets_u64_least [OF assms(2-5)] b by simp
  then show ?thesis
    using rgood_sign [of malloc r s b c m 0] assms(1) b by simp
qed

lemma rgood_uint:
  assumes "rwf s"
  shows "rgood malloc r s (enc_int type (check_overflow_u x)) (asn_realloc_rbuild_unsigned_int malloc r type x 8 s)"
proof -
  let ?x = "check_overflow_u x"
  obtain k where k: "1 \<le> k" "k \<le> 8" "drop_bit (8 * k) ?x = 0" "\<And>j. 1 \<le> j \<Longrightarrow> j < k \<Longrightarrow> drop_bit (8 * j) ?x \<noteq> 0"
    by (rule least_octets [of "\<lambda>k. drop_bit (8 * k) ?x = 0"]) (simp add: drop_bit_0_iff, blast)
  have "\<not> bit ?x 63"
    using check_overflow_u_bound by (rule bit_above) simp
  then have o: "octets_u64 ?x = be_bytes (int_octets ?x) ?x" by (simp add: octets_u64_def)
  note g = rgood_uint_octets [OF rgood_first_uint_loop [OF assms k(1,3,4)] k, of malloc r, unfolded o]
  have l: "length (be_bytes (int_octets ?x) ?x) \<le> 0xffff" using int_octets(3) [of ?x] by simp
  from rgood_finish [OF g l, where g = "\<lambda>s3. snd s3 - snd s" and t = "\<lambda>s3 s4. snd s4 - snd s" and type = type]
  show ?thesis
    by (simp add: prepended_snd enc_int_def asn_realloc_rbuild_unsigned_int_def Let_def ebind_assoc)
qed


subsection \<open>Object identifiers keep the contract\<close>

primrec lead128 :: "nat \<Rightarrow> u64 \<Rightarrow> bytes" where
  "lead128 0 y = []"
| "lead128 (Suc k) y = ucast ((drop_bit (7 * k) y AND 0x7f) OR 0x80) # lead128 k y"

lemma lead128_snoc: "lead128 (Suc k) y = lead128 k (drop_bit 7 y) @ [ucast ((y AND 0x7f) OR 0x80)]"
  by (induction k) (simp_all add: add.commute)

lemma b128_lead128: "b128 k v = lead128 k (drop_bit 7 v) @ [ucast (v AND 0x7f)]"
  by (induction k) (simp_all add: add.commute)

lemma rgood_subid_loop:
  "rwf s \<Longrightarrow> drop_bit (7 * k) y = 0 \<Longrightarrow> (\<And>j. j < k \<Longrightarrow> drop_bit (7 * j) y \<noteq> 0) \<Longrightarrow>
   rgood malloc r s (lead128 k y) (rsubid_loop malloc r y s)"
proof (induction k arbitrary: y s)
  case 0
  then show ?case by (subst rsubid_loop.simps) (simp add: prepended_Nil)
next
  case (Suc k)
  have y: "y > 0" using Suc.prems(3) [of 0] by (simp add: word_gt_0)
  have step: "drop_bit (7 * j) (drop_bit 7 y) = drop_bit (7 * Suc j) y" for j
    by (simp add: add.commute)
  let ?b = "ucast ((y AND 0x7f) OR 0x80) :: u8"
  have "rgood malloc r s (lead128 k (drop_bit 7 y) @ [?b])
      (ebind (rput1 malloc r NoMemory ?b s) (\<lambda>s'. rsubid_loop malloc r (drop_bit 7 y) s'))"
  proof (rule rgood_bind)
    show "rgood malloc r s [?b] (rput1 malloc r NoMemory ?b s)"
      using Suc.prems(1) by (intro rgood_put1) simp_all
    fix s' assume "prepended s [?b] s'"
    then have "rwf s'" by (rule prepended_rwf)
    then show "rgood malloc r s' (lead128 k (drop_bit 7 y)) (rsubid_loop malloc r (drop_bit 7 y) s')"
    proof (rule Suc.IH)
      show "drop_bit (7 * k) (drop_bit 7 y) = 0" using Suc.prems(2) by (simp only: step)
      show "drop_bit (7 * j) (drop_bit 7 y) \<noteq> 0" if "j < k" for j
        using Suc.prems(3) [of "Suc j"] that by (simp only: step) simp
    qed
  qed
  then show ?case
    using y by (subst rsubid_loop.simps) (simp only: lead128_snoc if_True)
qed

lemma subid_size_least:
  assumes "unat v < 2 ^ 32"
  shows "drop_bit (7 * subid_size v) v = 0" "j < subid_size v - 1 \<Longrightarrow> drop_bit (7 * Suc j) v \<noteq> 0"
proof -
  have d: "drop_bit n v = 0 \<longleftrightarrow> unat v < 2 ^ n" for n
  proof -
    have "unat (drop_bit n v) = unat v div 2 ^ n" by (metis unat_drop_bit_eq drop_bit_eq_div)
    then show ?thesis by (simp add: div_eq_0_iff flip: unat_eq_0)
  qed
  show "drop_bit (7 * subid_size v) v = 0"
    using subid_size_fits [OF assms] by (simp add: d)
  assume j: "j < subid_size v - 1"
  have "2 ^ (7 * (subid_size v - 1)) \<le> unat v"
    using j by (auto simp: subid_size_def word_less_nat_alt split: if_splits)
  moreover have "(2::nat) ^ (7 * Suc j) \<le> 2 ^ (7 * (subid_size v - 1))"
    using j by (intro power_increasing) auto
  ultimately show "drop_bit (7 * Suc j) v \<noteq> 0" unfolding d by linarith
qed

lemma rgood_subid:
  assumes "rwf s" "unat v < 2 ^ 32"
  shows "rgood malloc r s (enc_subid v) (rsubid malloc r v s)"
proof -
  let ?k = "subid_size v - 1"
  have k: "Suc ?k = subid_size v" using subid_size_pos(1) [of v] by simp
  have b: "ucast v AND 0x7f = (ucast (v AND 0x7f) :: u8)"
    unfolding low7 low7_64 by (rule bit_word_eqI) (auto simp: bit_simps)
  have step: "drop_bit (7 * j) (drop_bit 7 v) = drop_bit (7 * Suc j) v" for j
    by (simp add: add.commute)
  have "rgood malloc r s (lead128 ?k (drop_bit 7 v) @ [ucast v AND 0x7f]) (rsubid malloc r v s)"
    unfolding rsubid_def
  proof (rule rgood_bind)
    show "rgood malloc r s [ucast v AND 0x7f] (rput1 malloc r NoMemory (ucast v AND 0x7f) s)"
      using assms(1) by (intro rgood_put1) simp_all
    fix s' assume "prepended s [ucast v AND 0x7f] s'"
    then have "rwf s'" by (rule prepended_rwf)
    then show "rgood malloc r s' (lead128 ?k (drop_bit 7 v)) (rsubid_loop malloc r (drop_bit 7 v) s')"
    proof (rule rgood_subid_loop)
      show "drop_bit (7 * ?k) (drop_bit 7 v) = 0"
        using subid_size_least(1) [OF assms(2)] by (simp only: step k)
      show "drop_bit (7 * j) (drop_bit 7 v) \<noteq> 0" if "j < ?k" for j
        using subid_size_least(2) [OF assms(2) that] by (simp only: step) simp
    qed
  qed
  then show ?thesis by (simp add: enc_subid_def b128_lead128 b)
qed

lemma enc_subids_append [simp]: "enc_subids (as @ bs) = enc_subids as @ enc_subids bs"
  by (simp add: enc_subids_def)

lemma rgood_subids:
  "rwf s \<Longrightarrow> i \<le> length objid \<Longrightarrow> subids32 (drop 2 objid) \<Longrightarrow>
   rgood malloc r s (enc_subids (drop 2 (take i objid))) (rsubids malloc r objid i s)"
proof (induction i arbitrary: s)
  case 0
  then show ?case by (subst rsubids.simps) (simp add: prepended_Nil)
next
  case (Suc i)
  show ?case
  proof (cases "Suc i > 2")
    case False
    then have "drop 2 (take (Suc i) objid) = []" by simp
    with False Suc.prems(1) show ?thesis by (subst rsubids.simps) (simp add: prepended_Nil)
  next
    case True
    have "drop 2 objid ! (i - 2) \<in> set (drop 2 objid)"
      using Suc.prems(2) True by (intro nth_mem) simp
    moreover have "drop 2 objid ! (i - 2) = objid ! i" 
    proof -
      have "2 + (i - 2) = i" using True by simp
      then show ?thesis using Suc.prems(2) True by (subst nth_drop) simp_all
    qed
    ultimately have v: "unat (objid ! i) < 2 ^ 32" using Suc.prems(3) by simp
    have d: "drop 2 (take (Suc i) objid) = drop 2 (take i objid) @ [objid ! i]"
      using Suc.prems(2) True by (simp add: take_Suc_conv_app_nth)
    have "rgood malloc r s (enc_subids (drop 2 (take i objid)) @ enc_subid (objid ! i))
        (ebind (rsubid malloc r (objid ! i) s) (\<lambda>s'. rsubids malloc r objid i s'))"
      by (rule rgood_bind [OF rgood_subid])
         (use Suc v in \<open>auto intro!: Suc.IH dest: prepended_rwf\<close>)
    then show ?thesis
      unfolding d using True Suc.prems(2) v
      by (subst rsubids.simps) (simp add: rd_def check_overflow_u_id)
  qed
qed

lemma rgood_objid:
  assumes "rwf s" "valid_oid o1"
  shows "rgood malloc r s (enc_oid type o1) (asn_realloc_rbuild_objid malloc r type o1 (length o1) s)"
proof -
  let ?v = "o1 ! 0 * 40 + o1 ! 1"
  have len: "2 \<le> length o1" using assms(2) by (simp add: valid_oid_def)
  have vs: "subids32 (oid_values o1)" "length (enc_subids (oid_values o1)) \<le> 0xffff"
    using valid_oid_values [OF assms(2)] by blast+
  have "subids32 (drop 2 o1)" and v: "unat ?v < 2 ^ 32" using vs(1) by (auto simp: oid_values_def)
  have d: "drop 2 (take (length o1) o1) = drop 2 o1" by simp
  have "rgood malloc r s (enc_subid ?v @ enc_subids (drop 2 o1))
     (ebind (rsubids malloc r o1 (length o1) s) (\<lambda>s1. rsubid malloc r ?v s1))"
    by (rule rgood_bind [OF rgood_subids [OF assms(1) order_refl \<open>subids32 (drop 2 o1)\<close>, unfolded d]])
       (rule rgood_subid [OF prepended_rwf v])
  then have g: "rgood malloc r s (enc_subids (oid_values o1))
     (ebind (rsubids malloc r o1 (length o1) s) (\<lambda>s1. rsubid malloc r ?v s1))"
    by (simp add: oid_values_def)
  have x: "\<not> o1 ! 0 > 2" "\<not> (o1 ! 1 > 40 \<and> o1 ! 0 < 2)"
    using assms(2) by (auto simp: valid_oid_def word_less_nat_alt)
  have eq: "asn_realloc_rbuild_objid malloc r type o1 (length o1) s =
    ebind (ebind (rsubids malloc r o1 (length o1) s) (\<lambda>s1. rsubid malloc r ?v s1))
      (\<lambda>s2. ebind (asn_realloc_rbuild_header malloc r type (snd s2 - snd s) s2) (\<lambda>s3.
        if asn_realloc_build_header_check s3 (snd s3 - snd s) then Inl HeaderTooShort else Inr s3))"
  proof -
    have "length o1 \<noteq> 0" "length o1 \<noteq> 1" "rd o1 0 = Inr (o1 ! 0)" "rd o1 1 = Inr (o1 ! 1)"
      using len by (auto simp: rd_def)
    then show ?thesis
      unfolding asn_realloc_rbuild_objid_def Let_def using x by (simp only: ebind_Inr if_False simp_thms)
  qed
  from rgood_finish [OF g vs(2), where g = "\<lambda>s3. snd s3 - snd s" and t = "\<lambda>s3 s4. snd s4 - snd s" and type = type]
  show ?thesis
    unfolding eq by (simp add: prepended_snd enc_oid_def)
qed


subsection \<open>The opaque wrapper and the 64-bit encoders keep the contract\<close>

lemma rgood_room:
  assumes "made_room malloc r err n s m" and "err = BadLength \<or> err = NoMemory" and "n \<le> length enc"
    and "\<And>s'. rwf s' \<Longrightarrow> snd s' + n \<le> length (fst s') \<Longrightarrow> snd s' = snd s \<Longrightarrow> rgood malloc r s' enc (f s')"
  shows "rgood malloc r s enc (ebind m f)"
proof (cases m)
  case (Inl e)
  with assms(1-3) show ?thesis by (auto simp: rgood_def made_room_def)
next
  case (Inr s')
  with assms(1) have p: "rwf s'" "used s' = used s" "snd s' = snd s" "snd s + n \<le> length (fst s')"
      "length (fst s) \<le> length (fst s')" "length (fst s) < length (fst s') \<longrightarrow> length (fst s) < snd s + n"
    by (simp_all add: made_room_def)
  with assms(4) [of s'] have "rgood malloc r s' enc (f s')" by simp
  with p Inr assms(3) show ?thesis
    by (cases "f s'") (auto simp: rgood_def prepended_def)
qed

lemma rgood_puts:
  assumes "rwf s" and "snd s + length bs + n \<le> length (fst s)"
    and "\<And>s'. rwf s' \<Longrightarrow> snd s' + n \<le> length (fst s') \<Longrightarrow> snd s' = snd s + length bs \<Longrightarrow>
      rgood malloc r s' enc (f s')"
  shows "rgood malloc r s (enc @ bs) (ebind (rput s bs) f)"
proof (rule rgood_bind)
  show "rgood malloc r s bs (rput s bs)" using assms by (intro rgood_put) simp_all
  fix s' assume p: "prepended s bs s'"
  then have "rwf s'" "snd s' + n \<le> length (fst s')" "snd s' = snd s + length bs"
    using assms(2) by (auto simp: prepended_def)
  then show "rgood malloc r s' enc (f s')" by (rule assms(3))
qed

lemma rgood_checked_header:
  assumes "rwf s" and "n \<le> snd s" and "n \<le> 0xffff"
  shows "rgood malloc r s (enc_header type n) (ebind (asn_realloc_rbuild_header malloc r type n s) (\<lambda>s'.
    if asn_realloc_build_header_check s' n then Inl HeaderTooShort else Inr s'))"
proof -
  let ?h = "enc_header type n"
  have "rgood malloc r s ([] @ ?h) (ebind (asn_realloc_rbuild_header malloc r type n s) (\<lambda>s'.
    if asn_realloc_build_header_check s' n then Inl HeaderTooShort else Inr s'))"
  proof (rule rgood_bind [OF rgood_header [OF assms(1,3)]])
    fix s' assume p: "prepended s ?h s'"
    have "0 < length ?h" "n \<le> snd s'" using p assms(2) by (simp_all add: enc_header_def prepended_def)
    then show "rgood malloc r s' [] (if asn_realloc_build_header_check s' n then Inl HeaderTooShort else Inr s')"
      using asn_build_header_check_ok [OF p] prepended_rwf [OF p] by (simp add: prepended_Nil)
  qed
  then show ?thesis by simp
qed

lemma rgood_opaque:
  assumes "rgood malloc r s c m" and "length c < 100"
    and "\<And>s6. prepended s c s6 \<Longrightarrow> g s6 = length c"
  shows "rgood malloc r s (enc_opaque tag c) (ebind m (\<lambda>s6. ropaque malloc r tag (g s6) s6))"
proof -
  let ?n = "length c" and ?h = "enc_header ASN_OPAQUE (length c + 3)"
  have h: "length ?h = 2" using assms(2) by (simp add: enc_header_def enc_length_def)
  have "rgood malloc r s ((?h @ [ASN_OPAQUE_TAG1, tag, word_of_nat ?n]) @ c)
      (ebind m (\<lambda>s6. ropaque malloc r tag (g s6) s6))"
  proof (rule rgood_bind [OF assms(1)])
    fix s6 assume p: "prepended s c s6"
    have "rgood malloc r s6 (((?h @ [ASN_OPAQUE_TAG1]) @ [tag]) @ [word_of_nat ?n]) (ropaque malloc r tag ?n s6)"
      unfolding ropaque_def
    proof (rule rgood_room [OF made_room [OF prepended_rwf [OF p]]])
      fix s1 :: rstate assume r1: "rwf s1" "snd s1 + 5 \<le> length (fst s1)" "snd s1 = snd s6"
      have l: "?n \<le> snd s1" using r1(3) p by (simp add: prepended_def)
      show "rgood malloc r s1 (((?h @ [ASN_OPAQUE_TAG1]) @ [tag]) @ [word_of_nat ?n])
         (ebind (rput s1 [word_of_nat ?n]) (\<lambda>s2. ebind (rput s2 [tag]) (\<lambda>s3. ebind (rput s3 [ASN_OPAQUE_TAG1]) (\<lambda>s4.
          ebind (asn_realloc_rbuild_header malloc r ASN_OPAQUE (?n + 3) s4) (\<lambda>s5.
          if asn_realloc_build_header_check s5 (?n + 3) then Inl HeaderTooShort else Inr s5)))))"
        by (intro rgood_puts [where n = 4] rgood_puts [where n = 3] rgood_puts [where n = 2] rgood_checked_header)
           (use r1 l assms(2) in simp_all)
    qed (use h in simp_all)
    then show "rgood malloc r s6 (?h @ [ASN_OPAQUE_TAG1, tag, word_of_nat ?n]) (ropaque malloc r tag (g s6) s6)"
      using assms(3) [OF p] by simp
  qed
  then show ?thesis by (simp add: enc_opaque_def)
qed


lemma rgood_float:
  assumes "rwf s" and "length c = n" and "n < 100"
  shows "rgood malloc r s (enc_opaque tag c) (rfloat malloc r tag c n s)"
proof -
  let ?h = "enc_header ASN_OPAQUE (n + 3)"
  have "rgood malloc r s ((((?h @ [ASN_OPAQUE_TAG1]) @ [tag]) @ [word_of_nat n]) @ c) (rfloat malloc r tag c n s)"
    unfolding rfloat_def
  proof (rule rgood_room [OF made_room [OF assms(1)]])
    fix s1 :: rstate assume r1: "rwf s1" "snd s1 + (n + 3) \<le> length (fst s1)" "snd s1 = snd s"
    show "rgood malloc r s1 ((((?h @ [ASN_OPAQUE_TAG1]) @ [tag]) @ [word_of_nat n]) @ c)
       (ebind (rput s1 c) (\<lambda>s2. ebind (rput s2 [word_of_nat n]) (\<lambda>s3. ebind (rput s3 [tag]) (\<lambda>s4.
        ebind (rput s4 [ASN_OPAQUE_TAG1]) (\<lambda>s5.
        ebind (asn_realloc_rbuild_header malloc r ASN_OPAQUE (n + 3) s5) (\<lambda>s6.
        if asn_realloc_build_header_check s6 (n + 3) then Inl HeaderTooShort else Inr s6))))))"
      by (intro rgood_puts [where n = 3] rgood_puts [where n = 2] rgood_puts [where n = 1] rgood_puts [where n = 0]
            rgood_checked_header)
         (use r1 assms(2,3) in simp_all)
  qed (use assms(2) in simp_all)
  then show ?thesis using assms(2) by (simp add: enc_opaque_def)
qed

lemma rgood_pad: "rwf s \<Longrightarrow> rgood malloc r s (replicate n b) (rpad n malloc r b s)"
proof (induction n arbitrary: s)
  case 0
  then show ?case by (simp add: prepended_Nil)
next
  case (Suc n)
  have "rgood malloc r s (replicate n b @ [b]) (ebind (rput1 malloc r NoMemory b s) (\<lambda>s'. rpad n malloc r b s'))"
    by (rule rgood_bind [OF rgood_put1 [OF Suc.prems]]) (auto intro: Suc.IH dest: prepended_rwf)
  then show ?case by (simp add: replicate_append_same)
qed

lemma be_bytes_bits:
  assumes "\<And>i. i < 8 * k \<Longrightarrow> bit x i = bit (y :: 'b::len word) i"
  shows "be_bytes k (x :: 'a::len word) = be_bytes k y"
  using assms
proof (induction k)
  case 0
  then show ?case by simp
next
  case (Suc k)
  have "(ucast (drop_bit (8 * k) x) :: u8) = ucast (drop_bit (8 * k) y)"
    by (rule bit_word_eqI) (use Suc.prems [of "8 * k + i" for i] in \<open>simp add: bit_simps\<close>)
  with Suc show ?case by simp
qed

lemma be_bytes_const:
  assumes "\<And>i. i < 8 * k \<Longrightarrow> bit x i = c"
  shows "be_bytes k (x :: 'a::len word) = replicate k (if c then 0xff else 0)"
  using assms
proof (induction k)
  case 0
  then show ?case by simp
next
  case (Suc k)
  have "(ucast (drop_bit (8 * k) x) :: u8) = (if c then mask 8 else 0)"
    by (rule bit_word_eqI) (use Suc.prems [of "8 * k + i" for i] in \<open>auto simp: bit_simps\<close>)
  with Suc show ?case by (simp add: mask_eq_exp_minus_1)
qed

text \<open>The octets of a pair: those of the high half in front of the four of the low half.\<close>

lemma be_bytes_pair64:
  assumes "32 \<le> LENGTH('a::len)" and "kl \<le> 4" and "kh \<le> 4"
    and "\<And>i. 8 * kl \<le> i \<Longrightarrow> i < 32 \<Longrightarrow> bit (low :: 'a word) i = c"
  shows "be_bytes (kh + 4) (pair64 high low) =
      be_bytes kh high @ replicate (4 - kl) (if c then 0xff else 0) @ be_bytes kl low"
    and "be_bytes kl (pair64 high low) = be_bytes kl low"
proof -
  show l: "be_bytes kl (pair64 high low) = be_bytes kl low"
    by (rule be_bytes_bits) (use assms(1,2) in \<open>simp add: bit_pair64\<close>)
  have h: "be_bytes kh (drop_bit (8 * 4) (pair64 high low)) = be_bytes kh high"
    by (rule be_bytes_bits) (use assms(1,3) in \<open>simp add: bit_pair64 bit_drop_bit_eq\<close>)
  have p: "be_bytes (4 - kl) (drop_bit (8 * kl) (pair64 high low)) = replicate (4 - kl) (if c then 0xff else 0)"
  proof (rule be_bytes_const)
    fix i assume "i < 8 * (4 - kl)"
    then have "8 * kl + i < 32" "8 * kl \<le> 8 * kl + i" using assms(2) by auto
    then show "bit (drop_bit (8 * kl) (pair64 high low)) i = c"
      using assms(1) assms(4) [of "8 * kl + i"] by (simp add: bit_pair64 bit_drop_bit_eq)
  qed
  have "be_bytes 4 (pair64 high low) = replicate (4 - kl) (if c then 0xff else 0) @ be_bytes kl low"
    using be_bytes_append [of "4 - kl" kl "pair64 high low"] p l assms(2) by simp
  then show "be_bytes (kh + 4) (pair64 high low) =
      be_bytes kh high @ replicate (4 - kl) (if c then 0xff else 0) @ be_bytes kl low"
    using be_bytes_append [of kh 4 "pair64 high low"] h by simp
qed


lemma half32_least:
  assumes "half32 (x::u64)"
  obtains k where "1 \<le> k" "k \<le> 4" "drop_bit (8 * k) x = 0" "\<And>j. 1 \<le> j \<Longrightarrow> j < k \<Longrightarrow> drop_bit (8 * j) x \<noteq> 0"
proof -
  have z: "drop_bit (8 * 4) x = 0" unfolding drop_bit_0_iff using half32_bit [OF assms] by fastforce
  obtain k where k: "1 \<le> k" "drop_bit (8 * k) x = 0" "\<And>j. 1 \<le> j \<Longrightarrow> j < k \<Longrightarrow> drop_bit (8 * j) x \<noteq> 0"
    by (rule least_octets [of "\<lambda>k. drop_bit (8 * k) x = 0"]) (simp add: drop_bit_0_iff, blast)
  moreover have "k \<le> 4" using k(3) [of 4] z by (cases "4 < k") auto
  ultimately show thesis using that by blast
qed

lemma half32_check_overflow_u: "half32 (check_overflow_u x)"
  unfolding half32_def using check_overflow_u_bound [of x]
  by (simp add: word_unat_eq_iff unsigned_take_bit_eq take_bit_nat_eq_self)

text \<open>The contents \<open>asn_realloc_rbuild_unsigned_int64\<close> writes before it looks at the sign.\<close>

lemma rgood_uint64_octets:
  fixes high low :: u64
  assumes s: "rwf s" and h: "half32 high" "half32 low"
  defines "v \<equiv> pair64 high low"
  shows "\<exists>k. 1 \<le> k \<and> k \<le> 8 \<and> drop_bit (8 * k) v = 0 \<and> (\<forall>j. 1 \<le> j \<longrightarrow> j < k \<longrightarrow> drop_bit (8 * j) v \<noteq> 0) \<and>
    rgood malloc r s (be_bytes k v)
     (ebind (ebind (rput1 malloc r NoMemory (ucast low) s) (\<lambda>s1. ruint_loop malloc r (drop_bit 8 low) s1)) (\<lambda>s2.
      if high \<noteq> 0 then
        ebind (rpad (4 - (snd s2 - snd s)) malloc r 0 s2) (\<lambda>s3.
        ebind (rput1 malloc r NoMemory (ucast high) s3) (\<lambda>s4. ruint_loop malloc r (drop_bit 8 high) s4))
      else Inr s2))"
proof -
  obtain kl where kl: "1 \<le> kl" "kl \<le> 4" "drop_bit (8 * kl) low = 0"
      "\<And>j. 1 \<le> j \<Longrightarrow> j < kl \<Longrightarrow> drop_bit (8 * j) low \<noteq> 0"
    using half32_least [OF h(2)] by blast
  obtain kh where kh: "1 \<le> kh" "kh \<le> 4" "drop_bit (8 * kh) high = 0"
      "\<And>j. 1 \<le> j \<Longrightarrow> j < kh \<Longrightarrow> drop_bit (8 * j) high \<noteq> 0"
    using half32_least [OF h(1)] by blast
  have low: "\<not> bit low i" if "8 * kl \<le> i" "i < 32" for i
    using kl(3) that unfolding drop_bit_0_iff by auto
  note pair = be_bytes_pair64 [of kl kh low False high, simplified, OF kl(2) kh(2) low, folded v_def]
  define m1 where "m1 = ebind (rput1 malloc r NoMemory (ucast low) s) (\<lambda>s1. ruint_loop malloc r (drop_bit 8 low) s1)"
  have m1: "rgood malloc r s (be_bytes kl low) m1"
    unfolding m1_def using s kl by (intro rgood_first_uint_loop)
  define f where "f s2 = (if high \<noteq> 0 then
        ebind (rpad (4 - (snd s2 - snd s)) malloc r 0 s2) (\<lambda>s3.
        ebind (rput1 malloc r NoMemory (ucast high) s3) (\<lambda>s4. ruint_loop malloc r (drop_bit 8 high) s4))
      else Inr s2)" for s2
  have "\<exists>k. 1 \<le> k \<and> k \<le> 8 \<and> drop_bit (8 * k) v = 0 \<and> (\<forall>j. 1 \<le> j \<longrightarrow> j < k \<longrightarrow> drop_bit (8 * j) v \<noteq> 0) \<and>
    rgood malloc r s (be_bytes k v) (ebind m1 f)"
  proof (cases "high = 0")
    case True
    have "v = low" unfolding v_def using True h(2) by (simp add: pair64_def half32_def)
    moreover have "rgood malloc r s ([] @ be_bytes kl low) (ebind m1 f)"
      by (rule rgood_bind [OF m1]) (auto simp: f_def True prepended_Nil dest: prepended_rwf)
    ultimately show ?thesis using kl by (intro exI [of _ kl]) auto
  next
    case False
    have "rgood malloc r s ((be_bytes kh high @ replicate (4 - kl) 0) @ be_bytes kl low) (ebind m1 f)"
    proof (rule rgood_bind [OF m1])
      fix s2 assume p: "prepended s (be_bytes kl low) s2"
      then have c: "snd s2 - snd s = kl" by (simp add: prepended_def)
      show "rgood malloc r s2 (be_bytes kh high @ replicate (4 - kl) 0) (f s2)"
        unfolding f_def c using False
        by (simp, intro rgood_bind [OF rgood_pad [OF prepended_rwf [OF p]]] rgood_first_uint_loop)
           (use kh in \<open>auto dest: prepended_rwf\<close>)
    qed
    moreover have high: "drop_bit (8 * (k + 4)) v = drop_bit (8 * k) high" for k
    proof -
      have "drop_bit 32 v = high" using pair64_halves(1) [of high low] h by (simp add: v_def)
      moreover have "drop_bit (8 * (k + 4)) v = drop_bit (8 * k) (drop_bit 32 v)" by (simp add: distrib_left)
      ultimately show ?thesis by simp
    qed
    moreover have "drop_bit (8 * j) v \<noteq> 0" if "1 \<le> j" "j < kh + 4" for j
    proof (cases "4 \<le> j")
      case True
      then obtain i where i: "j = i + 4" using le_Suc_ex [of 4 j] by (auto simp: add.commute)
      show ?thesis
        unfolding i high using kh(4) [of i] that False i by (cases "i = 0") auto
    next
      case nle: False
      obtain i where "32 \<le> i" "i < 64" "bit v i"
        using False high [of 0] unfolding drop_bit_0_iff [of 32] by (auto simp: drop_bit_0_iff)
      then have "8 * j \<le> i" using nle by linarith
      then show ?thesis
        unfolding drop_bit_0_iff using \<open>i < 64\<close> \<open>bit v i\<close> by blast
    qed
    ultimately show ?thesis
      using kh pair(1) by (intro exI [of _ "kh + 4"]) auto
  qed
  then show ?thesis unfolding m1_def f_def .
qed

lemma rgood_uint64:
  assumes "rwf s"
  shows "rgood malloc r s (enc_uint64 type (value64 cp))
    (asn_realloc_rbuild_unsigned_int64 malloc r type cp 16 s)"
proof -
  let ?high = "check_overflow_u (ctr_high cp)" and ?low = "check_overflow_u (ctr_low cp)"
  have v: "pair64 ?high ?low = value64 cp" by (simp add: value64_def)
  define m where "m = ebind (ebind (rput1 malloc r NoMemory (ucast ?low) s) (\<lambda>s1. ruint_loop malloc r (drop_bit 8 ?low) s1))
     (\<lambda>s2. if ?high \<noteq> 0 then
        ebind (rpad (4 - (snd s2 - snd s)) malloc r 0 s2) (\<lambda>s3.
        ebind (rput1 malloc r NoMemory (ucast ?high) s3) (\<lambda>s4. ruint_loop malloc r (drop_bit 8 ?high) s4))
      else Inr s2)"
  define m' where "m' = ebind m (\<lambda>s2. ebind (rlast s2) (\<lambda>b.
    if b AND 0x80 \<noteq> 0 then rput1 malloc r NoMemory 0 s2 else Inr s2))"
  have g: "rgood malloc r s (octets_u64 (value64 cp)) m'"
    using rgood_uint64_octets [OF assms half32_check_overflow_u half32_check_overflow_u,
        of "ctr_high cp" "ctr_low cp" malloc r] rgood_uint_octets [of malloc r s _ "value64 cp" m]
    unfolding v m'_def m_def by blast
  have l: "length (octets_u64 (value64 cp)) < 100" "length (octets_u64 (value64 cp)) \<le> 0xffff"
    using length_octets_u64(2) [of "value64 cp"] by simp_all
  have eq: "asn_realloc_rbuild_unsigned_int64 malloc r type cp 16 s = ebind m' (\<lambda>s6.
      if type = ASN_OPAQUE_COUNTER64 \<or> type = ASN_OPAQUE_U64 then ropaque malloc r type (snd s6 - snd s) s6
      else ebind (asn_realloc_rbuild_header malloc r type (snd s6 - snd s) s6) (\<lambda>s7.
        if asn_realloc_build_header_check s7 (snd s6 - snd s) then Inl HeaderTooShort else Inr s7))"
    unfolding asn_realloc_rbuild_unsigned_int64_def Let_def m'_def m_def
    by (simp only: ebind_assoc simp_thms if_False)
  show ?thesis
  proof (cases "type = ASN_OPAQUE_COUNTER64 \<or> type = ASN_OPAQUE_U64")
    case True
    then have "enc_uint64 type (value64 cp) = enc_opaque type (octets_u64 (value64 cp))"
      by (simp only: enc_uint64_def if_True)
    then show ?thesis
      unfolding eq using True rgood_opaque [OF g l(1), where g = "\<lambda>s6. snd s6 - snd s" and tag = type]
      by (simp only: if_True) (simp add: prepended_snd)
  next
    case False
    then have "enc_uint64 type (value64 cp) = enc_header type (length (octets_u64 (value64 cp))) @ octets_u64 (value64 cp)"
      by (simp only: enc_uint64_def if_False)
    then show ?thesis
      unfolding eq using False rgood_finish [OF g l(2), where g = "\<lambda>s3. snd s3 - snd s"
          and t = "\<lambda>s3 s4. snd s3 - snd s" and type = type]
      by (simp only: if_False) (simp add: prepended_snd)
  qed
qed


lemma signed_drop_bit_const:
  fixes x :: "'a::len word"
  assumes "m < LENGTH('a)"
  shows "signed_drop_bit m x = (if c then - 1 else 0) \<longleftrightarrow> (\<forall>i. m \<le> i \<longrightarrow> i < LENGTH('a) \<longrightarrow> bit x i = c)"
    (is "?l \<longleftrightarrow> ?r")
proof -
  have top: "bit (signed_drop_bit m x) (LENGTH('a) - 1) \<longleftrightarrow> bit x (LENGTH('a) - 1)"
    using assms by (cases "m = 0") (auto simp: bit_signed_drop_bit_iff)
  have "m \<le> LENGTH('a) - 1" "LENGTH('a) - 1 < LENGTH('a)" using assms by auto
  have l: "bit x (LENGTH('a) - 1) = c" if ?l
  proof -
    have "bit (signed_drop_bit m x) (LENGTH('a) - 1) \<longleftrightarrow> c" unfolding that by auto
    with top show ?thesis by simp
  qed
  have r: "bit x (LENGTH('a) - 1) = c" if ?r
    using that \<open>m \<le> LENGTH('a) - 1\<close> \<open>LENGTH('a) - 1 < LENGTH('a)\<close> by blast
  show ?thesis
    using l r signed_drop_bit_sign [of m x] assms by (metis less_imp_le)
qed

lemma rgood_low_loop:
  fixes y :: u32
  shows "rwf s \<Longrightarrow> k \<le> n \<Longrightarrow> 8 * k \<le> 32 \<Longrightarrow> k = n \<or> signed_drop_bit (8 * k) y = testvalue \<Longrightarrow>
    (\<And>j. j < k \<Longrightarrow> signed_drop_bit (8 * j) y \<noteq> testvalue) \<Longrightarrow>
    rgood malloc r s (be_bytes k y) (rlow_loop n malloc r testvalue y s)"
proof (induction n arbitrary: k y s)
  case 0
  then show ?case by (simp add: prepended_Nil)
next
  case (Suc n)
  show ?case
  proof (cases k)
    case 0
    with Suc.prems show ?thesis by (simp add: prepended_Nil)
  next
    case (Suc k')
    have y: "y \<noteq> testvalue" using Suc.prems(5) [of 0] Suc by simp
    have step: "signed_drop_bit (8 * j) (signed_drop_bit 8 y) = signed_drop_bit (8 * Suc j) y" for j
      by (simp add: add.commute)
    have "rgood malloc r s (be_bytes k' (signed_drop_bit 8 y) @ [ucast y])
        (ebind (rput1 malloc r NoMemory (ucast y) s) (\<lambda>s'.
         rlow_loop n malloc r testvalue (signed_drop_bit 8 y) s'))"
    proof (rule rgood_bind)
      show "rgood malloc r s [ucast y] (rput1 malloc r NoMemory (ucast y) s)"
        using Suc.prems(1) by (intro rgood_put1) simp_all
      fix s' assume "prepended s [ucast y] s'"
      then have "rwf s'" by (rule prepended_rwf)
      then show "rgood malloc r s' (be_bytes k' (signed_drop_bit 8 y))
          (rlow_loop n malloc r testvalue (signed_drop_bit 8 y) s')"
      proof (rule Suc.IH)
        show "k' \<le> n" "8 * k' \<le> 32" using Suc.prems(2,3) Suc by simp_all
        show "k' = n \<or> signed_drop_bit (8 * k') (signed_drop_bit 8 y) = testvalue"
          using Suc.prems(4) Suc by (simp only: step) simp
        show "signed_drop_bit (8 * j) (signed_drop_bit 8 y) \<noteq> testvalue" if "j < k'" for j
          using Suc.prems(5) [of "Suc j"] Suc that by (simp only: step) simp
      qed
    qed
    then show ?thesis
      using y Suc.prems(3) Suc be_bytes_snoc_signed [of k' y] by simp
  qed
qed

lemma rgood_first_low_loop:
  fixes low :: u32
  assumes "rwf s" "1 \<le> k" "k \<le> 4" "k = 4 \<or> signed_drop_bit (8 * k) low = testvalue"
    and least: "\<And>j. 1 \<le> j \<Longrightarrow> j < k \<Longrightarrow> signed_drop_bit (8 * j) low \<noteq> testvalue"
  shows "rgood malloc r s (be_bytes k low) (ebind (rput1 malloc r NoMemory (ucast low) s) (\<lambda>s1.
    rlow_loop 3 malloc r testvalue (signed_drop_bit 8 low) s1))"
proof -
  obtain k' where k: "k = Suc k'" using assms(2) by (cases k) auto
  have step: "signed_drop_bit (8 * j) (signed_drop_bit 8 low) = signed_drop_bit (8 * Suc j) low" for j
    by (simp add: add.commute)
  have "rgood malloc r s (be_bytes k' (signed_drop_bit 8 low) @ [ucast low])
    (ebind (rput1 malloc r NoMemory (ucast low) s) (\<lambda>s1.
     rlow_loop 3 malloc r testvalue (signed_drop_bit 8 low) s1))"
  proof (rule rgood_bind)
    show "rgood malloc r s [ucast low] (rput1 malloc r NoMemory (ucast low) s)"
      using assms(1) by (intro rgood_put1) simp_all
    fix s' assume "prepended s [ucast low] s'"
    then have "rwf s'" by (rule prepended_rwf)
    then show "rgood malloc r s' (be_bytes k' (signed_drop_bit 8 low))
        (rlow_loop 3 malloc r testvalue (signed_drop_bit 8 low) s')"
    proof (rule rgood_low_loop)
      show "k' \<le> 3" "8 * k' \<le> 32" using assms(3) k by simp_all
      show "k' = 3 \<or> signed_drop_bit (8 * k') (signed_drop_bit 8 low) = testvalue"
        using assms(4) k by (simp only: step) simp
      show "signed_drop_bit (8 * j) (signed_drop_bit 8 low) \<noteq> testvalue" if "j < k'" for j
        using least [of "Suc j"] k that by (simp only: step) simp
    qed
  qed
  then show ?thesis
    using k assms(3) be_bytes_snoc_signed [of k' low] by simp
qed

lemma least_octets4:
  assumes "P (4::nat)"
  obtains k where "1 \<le> k" "k \<le> 4" "P k" "\<And>j. 1 \<le> j \<Longrightarrow> j < k \<Longrightarrow> \<not> P j"
proof -
  obtain k where k: "1 \<le> k" "P k \<or> k = 8" "\<And>j. 1 \<le> j \<Longrightarrow> j < k \<Longrightarrow> \<not> (P j \<or> j = 8)"
    by (rule least_octets [of "\<lambda>k. P k \<or> k = 8"]) (simp, blast)
  have "k \<le> 4" using k(3) [of 4] assms by (cases "4 < k") auto
  with k that show thesis by auto
qed

text \<open>The contents \<open>asn_realloc_rbuild_signed_int64\<close> writes before it looks at the sign.\<close>

lemma rgood_int64_octets:
  fixes high low :: u32
  assumes s: "rwf s"
  defines "v \<equiv> pair64 high low"
  defines "testvalue \<equiv> if bit high 31 then - 1 else 0"
  shows "\<exists>k. 1 \<le> k \<and> k \<le> 8 \<and> (\<forall>i. 8 * k \<le> i \<longrightarrow> i < 64 \<longrightarrow> bit v i = bit v 63) \<and>
    (k = 1 \<or> (\<exists>i. 8 * (k - 1) \<le> i \<and> i < 64 \<and> bit v i \<noteq> bit v 63)) \<and>
    rgood malloc r s (be_bytes k v)
     (ebind (ebind (rput1 malloc r NoMemory (ucast low) s) (\<lambda>s1.
        rlow_loop 3 malloc r testvalue (signed_drop_bit 8 low) s1)) (\<lambda>s2.
      if high \<noteq> testvalue then
        ebind (rpad (4 - (snd s2 - snd s)) malloc r (if testvalue = 0 then 0 else 0xff) s2) (\<lambda>s3.
        ebind (rput1 malloc r NoMemory (ucast high) s3) (\<lambda>s4.
        rint_loop 3 malloc r testvalue (signed_drop_bit 8 high) s4))
      else Inr s2))"
proof -
  let ?c = "bit high 31"
  have v63: "bit v 63 = ?c" by (simp add: v_def bit_pair64)
  have sd: "signed_drop_bit (8 * k) x = testvalue \<longleftrightarrow> (\<forall>i. 8 * k \<le> i \<longrightarrow> i < 32 \<longrightarrow> bit x i = ?c)"
    if "k < 4" for k and x :: u32
    using signed_drop_bit_const [of "8 * k" x ?c] that by (simp add: testvalue_def)
  have t0: "(if testvalue = 0 then 0 else 0xff :: u8) = (if ?c then 0xff else 0)"
    by (simp add: testvalue_def)
  obtain kl where kl: "1 \<le> kl" "kl \<le> 4" "kl = 4 \<or> signed_drop_bit (8 * kl) low = testvalue"
      "\<And>j. 1 \<le> j \<Longrightarrow> j < kl \<Longrightarrow> signed_drop_bit (8 * j) low \<noteq> testvalue"
    by (rule least_octets4 [of "\<lambda>k. k = 4 \<or> signed_drop_bit (8 * k) low = testvalue"]) (simp, blast)
  have "signed_drop_bit (8 * 4) high = testvalue"
    using signed_drop_bit_sign [of "8 * 4" high] by (simp add: testvalue_def)
  then obtain kh where kh: "1 \<le> kh" "kh \<le> 4" "signed_drop_bit (8 * kh) high = testvalue"
      "\<And>j. 1 \<le> j \<Longrightarrow> j < kh \<Longrightarrow> signed_drop_bit (8 * j) high \<noteq> testvalue"
    by (rule least_octets4 [of "\<lambda>k. signed_drop_bit (8 * k) high = testvalue"]) blast
  have low: "bit low i = ?c" if "8 * kl \<le> i" "i < 32" for i
  proof -
    have "kl < 4" using that by linarith
    then show ?thesis using kl(3) that sd [of kl low] by auto
  qed
  note pair = be_bytes_pair64 [of kl kh low ?c high, OF _ kl(2) kh(2) low, folded v_def, simplified]
  have high0: "high = testvalue \<longleftrightarrow> (\<forall>i. i < 32 \<longrightarrow> bit high i = ?c)"
    using sd [of 0 high] by simp
  define m1 where "m1 = ebind (rput1 malloc r NoMemory (ucast low) s) (\<lambda>s1.
    rlow_loop 3 malloc r testvalue (signed_drop_bit 8 low) s1)"
  have m1: "rgood malloc r s (be_bytes kl low) m1"
    unfolding m1_def using s kl by (intro rgood_first_low_loop)
  define f where "f s2 = (if high \<noteq> testvalue then
        ebind (rpad (4 - (snd s2 - snd s)) malloc r (if testvalue = 0 then 0 else 0xff) s2) (\<lambda>s3.
        ebind (rput1 malloc r NoMemory (ucast high) s3) (\<lambda>s4.
        rint_loop 3 malloc r testvalue (signed_drop_bit 8 high) s4))
      else Inr s2)" for s2
  have vl: "bit v i = bit low i" if "i < 32" for i using that by (simp add: v_def bit_pair64)
  have vh: "bit v i = bit high (i - 32)" if "32 \<le> i" "i < 64" for i using that by (simp add: v_def bit_pair64)
  have "\<exists>k. 1 \<le> k \<and> k \<le> 8 \<and> (\<forall>i. 8 * k \<le> i \<longrightarrow> i < 64 \<longrightarrow> bit v i = bit v 63) \<and>
    (k = 1 \<or> (\<exists>i. 8 * (k - 1) \<le> i \<and> i < 64 \<and> bit v i \<noteq> bit v 63)) \<and>
    rgood malloc r s (be_bytes k v) (ebind m1 f)"
  proof (cases "high = testvalue")
    case True
    have "rgood malloc r s ([] @ be_bytes kl low) (ebind m1 f)"
      by (rule rgood_bind [OF m1]) (auto simp: f_def True prepended_Nil dest: prepended_rwf)
    moreover have "bit v i = bit v 63" if "8 * kl \<le> i" "i < 64" for i
    proof (cases "i < 32")
      case True
      with that show ?thesis by (simp add: vl low v63)
    next
      case False
      then have "i - 32 < 32" "32 \<le> i" using that by linarith+
      with \<open>high = testvalue\<close> have "bit high (i - 32) = ?c" unfolding high0 by blast
      with vh [of i] that(2) \<open>32 \<le> i\<close> v63 show ?thesis by simp
    qed
    moreover have "kl = 1 \<or> (\<exists>i. 8 * (kl - 1) \<le> i \<and> i < 64 \<and> bit v i \<noteq> bit v 63)"
    proof (cases "kl = 1")
      case False
      then have j: "1 \<le> kl - 1" "kl - 1 < kl" "kl - 1 < 4" using kl(1,2) by linarith+
      with kl(4) [of "kl - 1"] obtain i where i: "8 * (kl - 1) \<le> i" "i < 32" "bit low i \<noteq> ?c"
        unfolding sd [OF j(3)] by blast
      then have "i < 64" "bit v i \<noteq> bit v 63" by (simp_all add: vl v63)
      with i(1) show ?thesis by blast
    qed simp
    moreover have "1 \<le> kl" "kl \<le> 8" "[] @ be_bytes kl low = be_bytes kl v"
      using kl(1,2) pair(2) by simp_all
    ultimately show ?thesis by metis
  next
    case False
    have "rgood malloc r s ((be_bytes kh high @ replicate (4 - kl) (if ?c then 0xff else 0)) @ be_bytes kl low) (ebind m1 f)"
    proof (rule rgood_bind [OF m1])
      fix s2 assume p: "prepended s (be_bytes kl low) s2"
      then have c: "snd s2 - snd s = kl" by (simp add: prepended_def)
      show "rgood malloc r s2 (be_bytes kh high @ replicate (4 - kl) (if ?c then 0xff else 0)) (f s2)"
        unfolding f_def c t0 using False
        by (simp only: if_True simp_thms, intro rgood_bind [OF rgood_pad [OF prepended_rwf [OF p]]] rgood_first_int_loop)
           (use kh in \<open>auto dest: prepended_rwf\<close>)
    qed
    moreover have "bit v i = bit v 63" if "8 * (kh + 4) \<le> i" "i < 64" for i
    proof -
      have k: "kh < 4" "8 * kh \<le> i - 32" "i - 32 < 32" "32 \<le> i" using that by auto
      then have "bit high (i - 32) = ?c" using kh(3) unfolding sd [OF k(1)] by blast
      with vh [of i] that(2) k(4) v63 show ?thesis by simp
    qed
    moreover have "\<exists>i. 8 * (kh + 4 - 1) \<le> i \<and> i < 64 \<and> bit v i \<noteq> bit v 63"
    proof -
      obtain i where i: "8 * (kh - 1) \<le> i" "i < 32" "bit high i \<noteq> ?c"
      proof (cases "kh = 1")
        case True
        with False that show thesis unfolding high0 by auto
      next
        case neq: False
        then have j: "1 \<le> kh - 1" "kh - 1 < kh" "kh - 1 < 4" using kh(1,2) by linarith+
        with kh(4) [of "kh - 1"] that show thesis unfolding sd [OF j(3)] by blast
      qed
      have b: "8 * (kh + 4 - 1) \<le> i + 32" "i + 32 < 64" "32 \<le> i + 32" using i kh(1) by linarith+
      with vh [of "i + 32"] i(3) v63 have "bit v (i + 32) \<noteq> bit v 63" by simp
      with b show ?thesis by blast
    qed
    moreover have "1 \<le> kh + 4" "kh + 4 \<le> 8"
        "(be_bytes kh high @ replicate (4 - kl) (if ?c then 0xff else 0)) @ be_bytes kl low = be_bytes (kh + 4) v"
      using kh(2) pair(1) by simp_all
    ultimately show ?thesis by metis
  qed
  then show ?thesis unfolding m1_def f_def .
qed

lemma pair64_ucast32: "pair64 (ucast h :: u32) (ucast l) = pair64 h (l :: u64)"
  by (rule bit_word_eqI) (auto simp: bit_pair64 bit_simps)

lemma rgood_int64:
  assumes "rwf s"
  shows "rgood malloc r s (enc_int64 (value64 cp)) (asn_realloc_rbuild_signed_int64 malloc r type cp 16 s)"
proof -
  let ?high = "ucast (ctr_high cp) :: u32" and ?low = "ucast (ctr_low cp) :: u32" and ?v = "value64 cp"
  define tv :: u32 where "tv = (if ?high AND 0x80000000 \<noteq> 0 then - 1 else 0)"
  have tv: "tv = (if bit ?high 31 then - 1 else 0)"
  proof -
    have "?high AND 2 ^ 31 = 0 \<longleftrightarrow> \<not> bit ?high 31" by (simp only: and_exp_eq_0_iff_not_bit)
    then show ?thesis by (simp add: tv_def)
  qed
  have v: "pair64 ?high ?low = ?v" by (simp add: value64_def pair64_ucast32)
  define t8 :: u8 where "t8 = (if tv = 0 then 0 else 0xff)"
  have t8: "ucast tv AND 0x80 = t8 AND (0x80::u8)" "t8 = (if bit ?v 63 then 0xff else 0)"
    using bit_pair64 [of ?high ?low 63] by (simp_all add: t8_def tv ucast_minus_1 v)
  define m where "m = ebind (ebind (rput1 malloc r NoMemory (ucast ?low) s) (\<lambda>s1.
        rlow_loop 3 malloc r tv (signed_drop_bit 8 ?low) s1)) (\<lambda>s2.
      if ?high \<noteq> tv then
        ebind (rpad (4 - (snd s2 - snd s)) malloc r t8 s2) (\<lambda>s3.
        ebind (rput1 malloc r NoMemory (ucast ?high) s3) (\<lambda>s4.
        rint_loop 3 malloc r tv (signed_drop_bit 8 ?high) s4))
      else Inr s2)"
  obtain k where k: "1 \<le> k" "k \<le> 8" "\<And>i. 8 * k \<le> i \<Longrightarrow> i < 64 \<Longrightarrow> bit ?v i = bit ?v 63"
      "k = 1 \<or> (\<exists>i. 8 * (k - 1) \<le> i \<and> i < 64 \<and> bit ?v i \<noteq> bit ?v 63)" "rgood malloc r s (be_bytes k ?v) m"
    using rgood_int64_octets [OF assms, of ?high ?low malloc r] unfolding v m_def t8_def tv by blast
  obtain b c where b: "be_bytes k ?v = b # c" using k(1) by (cases k) auto
  have "b AND 0x80 = 0 \<longleftrightarrow> \<not> bit ?v (8 * k - 1)"
    using hd_be_bytes [OF k(1), of ?v] b by simp
  then have "b AND 0x80 \<noteq> t8 AND 0x80 \<longleftrightarrow> bit ?v (8 * k - 1) \<noteq> bit ?v 63"
    by (cases "bit ?v 63") (auto simp: t8(2) and_msb_cases split: if_splits)
  then have o: "(if b AND 0x80 \<noteq> t8 AND 0x80 then t8 # b # c else b # c) = be_bytes (int_octets ?v) ?v"
    using signed_octets [OF k(1-4)] b t8(2) by auto
  have g: "rgood malloc r s (be_bytes (int_octets ?v) ?v) (ebind m (\<lambda>s2. ebind (rlast s2) (\<lambda>b.
      if b AND 0x80 \<noteq> t8 AND 0x80 then rput1 malloc r NoMemory t8 s2 else Inr s2)))"
    using rgood_sign [of malloc r s b c m t8] k(5) b o by simp
  have l: "length (be_bytes (int_octets ?v) ?v) < 100" using int_octets(3) [of ?v] by simp
  have "asn_realloc_rbuild_signed_int64 malloc r type cp 16 s =
    ebind (ebind m (\<lambda>s2. ebind (rlast s2) (\<lambda>b.
      if b AND 0x80 \<noteq> t8 AND 0x80 then rput1 malloc r NoMemory t8 s2 else Inr s2)))
      (\<lambda>s6. ropaque malloc r ASN_OPAQUE_I64 (snd s6 - snd s) s6)"
    unfolding asn_realloc_rbuild_signed_int64_def Let_def tv_def [symmetric] t8_def [symmetric] t8(1) m_def
    by (simp only: ebind_assoc simp_thms if_False)
  then show ?thesis
    using rgood_opaque [OF g l, where g = "\<lambda>s6. snd s6 - snd s" and tag = ASN_OPAQUE_I64]
    by (simp add: prepended_snd enc_int64_def)
qed


subsection \<open>The contract of a pair of encoders\<close>

text \<open>
  What the PDU builders rely on when they are compiled for reverse encoding: a reverse encoder
  prepends the same bytes that its forward counterpart stores.
\<close>

locale reverse_encoder =
  fixes ok :: "'v \<Rightarrow> bool"
    and enc :: "'v \<Rightarrow> bytes"
    and fwd :: "'v \<Rightarrow> bytes \<Rightarrow> nat \<Rightarrow> nat \<Rightarrow> bstate res"
    and rev :: "'v \<Rightarrow> malloc \<Rightarrow> bool \<Rightarrow> rstate \<Rightarrow> rstate res"
  assumes fwd_enc: "ok v \<Longrightarrow> builds (fwd v) (enc v)"
    and rev_enc: "ok v \<Longrightarrow> rwf s \<Longrightarrow> rgood malloc r s (enc v) (rev v malloc r s)"
begin

lemma rev_prepends: "ok v \<Longrightarrow> rwf s \<Longrightarrow> rev v malloc r s = Inr s' \<Longrightarrow> prepended s (enc v) s'"
  using rev_enc [of v s malloc r] by simp

lemma same_bytes:
  assumes "ok v" "rwf s" "rev v malloc r s = Inr s'" "data + dl \<le> length mem" "length (enc v) \<le> dl"
  shows "\<exists>mem' data' dl'. fwd v mem data dl = Inr (mem', data', dl') \<and>
    used s' = take (data' - data) (drop data mem') @ used s \<and> snd s' - snd s = data' - data"
proof -
  have "fwd v mem data dl = Inr (store_at mem data (enc v), data + length (enc v), dl - length (enc v))"
    using assms by (intro builds_ok fwd_enc)
  moreover have "take (length (enc v)) (drop data (store_at mem data (enc v))) = enc v"
    using stored_store_at [of data "enc v" mem] assms(4,5) by (simp add: stored_def)
  ultimately show ?thesis
    using rev_prepends [OF assms(1-3)] by (simp add: prepended_def)
qed

lemma rev_total:
  assumes "ok v" "rwf s" "\<And>n. malloc n \<noteq> None"
  shows "\<exists>s'. rev v malloc True s = Inr s' \<and> prepended s (enc v) s'"
  using rev_enc [OF assms(1,2), of malloc True] assms(3)
  by (cases "rev v malloc True s") (auto simp: rgood_def)

lemma rev_in_place:
  assumes "ok v" "rwf s" "snd s + length (enc v) \<le> length (fst s)"
  shows "\<exists>s'. rev v malloc r s = Inr s' \<and> length (fst s') = length (fst s)"
  using rev_enc [OF assms(1,2), of malloc r] assms(3)
  by (cases "rev v malloc r s") (auto simp: rgood_def prepended_def)

lemma rev_fails_only_without_room:
  assumes "ok v" "rwf s" "rev v malloc r s = Inl e"
  shows "length (fst s) < snd s + length (enc v) \<and> (r \<longrightarrow> (\<exists>n. malloc n = None))"
  using rev_enc [OF assms(1,2), of malloc r] assms(3) by (simp add: rgood_def)

end

interpretation int_rev: reverse_encoder "\<lambda>_. True" "\<lambda>(type, x). enc_int type (check_overflow_s x)"
  "\<lambda>(type, x) m d l. asn_build_int m d l type x 8"
  "\<lambda>(type, x) malloc r s. asn_realloc_rbuild_int malloc r type x 8 s"
  by unfold_locales (auto simp: builds_int rgood_int)

interpretation uint_rev: reverse_encoder "\<lambda>_. True" "\<lambda>(type, x). enc_int type (check_overflow_u x)"
  "\<lambda>(type, x) m d l. asn_build_unsigned_int m d l type x 8"
  "\<lambda>(type, x) malloc r s. asn_realloc_rbuild_unsigned_int malloc r type x 8 s"
  by unfold_locales (auto simp: builds_unsigned_int rgood_uint)

interpretation string_rev: reverse_encoder "\<lambda>(type, str). length str \<le> 0xffff" "\<lambda>(type, str). enc_string type str"
  "\<lambda>(type, str) m d l. asn_build_string m d l type (Some str) (length str)"
  "\<lambda>(type, str) malloc r s. asn_realloc_rbuild_string malloc r type str (length str) s"
  by unfold_locales (auto simp: builds_string rgood_string)

interpretation bitstring_rev: reverse_encoder "\<lambda>(type, str). str \<noteq> [] \<and> length str \<le> 0xffff"
  "\<lambda>(type, str). enc_string type str"
  "\<lambda>(type, str) m d l. asn_build_bitstring m d l type (Some str) (length str)"
  "\<lambda>(type, str) malloc r s. asn_realloc_rbuild_bitstring malloc r type str (length str) s"
  by unfold_locales
     (auto simp: builds_bitstring rgood_string [unfolded asn_realloc_rbuild_string_def] asn_realloc_rbuild_bitstring_def)

interpretation null_rev: reverse_encoder "\<lambda>_. True" "\<lambda>type. enc_header type 0"
  "\<lambda>type m d l. asn_build_null m d l type" "\<lambda>type malloc r s. asn_realloc_rbuild_null malloc r type s"
  by unfold_locales (auto simp: asn_build_null_def builds_header asn_realloc_rbuild_null_def rgood_header)

interpretation oid_rev: reverse_encoder "\<lambda>(type, o1). valid_oid o1" "\<lambda>(type, o1). enc_oid type o1"
  "\<lambda>(type, o1) m d l. asn_build_objid m d l type o1 (length o1)"
  "\<lambda>(type, o1) malloc r s. asn_realloc_rbuild_objid malloc r type o1 (length o1) s"
  by unfold_locales (auto simp: builds_objid rgood_objid)

interpretation uint64_rev: reverse_encoder "\<lambda>_. True" "\<lambda>(type, cp). enc_uint64 type (value64 cp)"
  "\<lambda>(type, cp) m d l. asn_build_unsigned_int64 m d l type cp 16"
  "\<lambda>(type, cp) malloc r s. asn_realloc_rbuild_unsigned_int64 malloc r type cp 16 s"
  by unfold_locales (auto simp: builds_uint64 rgood_uint64)

interpretation int64_rev: reverse_encoder "\<lambda>(type, cp). half32 (ctr_high cp)" "\<lambda>(type, cp). enc_int64 (value64 cp)"
  "\<lambda>(type, cp) m d l. asn_build_signed_int64 m d l type cp 16"
  "\<lambda>(type, cp) malloc r s. asn_realloc_rbuild_signed_int64 malloc r type cp 16 s"
proof unfold_locales
  fix v :: "u8 \<times> counter64"
  obtain type cp where v: "v = (type, cp)" by (cases v)
  assume "case v of (type, cp) \<Rightarrow> half32 (ctr_high cp)"
  then show "builds (case v of (type, cp) \<Rightarrow> \<lambda>m d l. asn_build_signed_int64 m d l type cp 16)
      (case v of (type, cp) \<Rightarrow> enc_int64 (value64 cp))"
    using builds_int64 [of type cp] by (simp add: v half32_check_s value64_def)
qed (auto simp: rgood_int64)

lemma rgood_float32: "rwf s \<Longrightarrow> rgood malloc r s (enc_float x) (asn_realloc_rbuild_float malloc r type x 4 s)"
  by (simp add: asn_realloc_rbuild_float_def enc_float_def rgood_float)

lemma rgood_double: "rwf s \<Longrightarrow> rgood malloc r s (enc_double x) (asn_realloc_rbuild_double malloc r type x 8 s)"
  by (simp add: asn_realloc_rbuild_double_def enc_double_def Let_def rgood_float)

interpretation float_rev: reverse_encoder "\<lambda>_. True" "\<lambda>(type, x). enc_float x"
  "\<lambda>(type, x) m d l. asn_build_float m d l type x 4"
  "\<lambda>(type, x) malloc r s. asn_realloc_rbuild_float malloc r type x 4 s"
  by unfold_locales (auto simp: builds_float rgood_float32)

interpretation double_rev: reverse_encoder "\<lambda>_. True" "\<lambda>(type, x). enc_double x"
  "\<lambda>(type, x) m d l. asn_build_double m d l type x 8"
  "\<lambda>(type, x) malloc r s. asn_realloc_rbuild_double malloc r type x 8 s"
  by unfold_locales (auto simp: builds_double rgood_double)


subsection \<open>Properties\<close>

text \<open>
  Growing the buffer.  When the allocator gives the memory, \<open>asn_realloc\<close> returns a buffer
  at least 256 bytes larger in which the old contents are at the top and the new part is blank.
\<close>

lemma asn_realloc_keeps_top:
  "asn_realloc malloc pkt = (if malloc (new_buf_len (length pkt)) = None then None
     else Some (replicate (new_buf_len (length pkt) - length pkt) 0x20 @ pkt)) \<and>
   length pkt + 256 \<le> new_buf_len (length pkt)"
  using new_buf_len_grows [of pkt] by (simp add: asn_realloc_eq Let_def)

text \<open>
  Reverse integers.  Whatever the buffer and whether or not it had to grow on the way,
  when \<open>asn_realloc_rbuild_int\<close> succeeds, the bytes it put in front of the message are the bytes
  \<open>asn_build_int\<close> stores for the same value; the part of the message already written is kept.
\<close>

lemma asn_rbuild_int_forward:
  assumes "rwf s" and "asn_realloc_rbuild_int malloc r type x 8 s = Inr s'"
    and "data + dl \<le> length mem" and "10 \<le> dl"
  shows "\<exists>mem' data' dl'. asn_build_int mem data dl type x 8 = Inr (mem', data', dl') \<and>
    used s' = take (data' - data) (drop data mem') @ used s \<and> snd s' - snd s = data' - data"
  using int_rev.same_bytes [of s "(type, x)" malloc r s' data dl mem]
    length_enc_int [of type "check_overflow_s x"] assms le_trans by fastforce

theorem asn_rbuild_int_forward_witness:
  "\<exists>s'. asn_realloc_rbuild_int (\<lambda>_. Some (\<lambda>_. 0)) True ASN_INTEGER 300 8 ([7], 1) = Inr s' \<and>
    (\<exists>mem' data' dl'. asn_build_int (replicate 12 0) 1 11 ASN_INTEGER 300 8 = Inr (mem', data', dl') \<and>
       used s' = take (data' - 1) (drop 1 mem') @ [7])"
proof -
  have w: "rwf ([7], 1)" "used ([7 :: u8], 1) = [7]" by (simp_all add: rwf_def used_def)
  obtain s' where "asn_realloc_rbuild_int (\<lambda>_. Some (\<lambda>_. 0)) True ASN_INTEGER 300 8 ([7], 1) = Inr s'"
    using int_rev.rev_total [of "([7], 1)" "\<lambda>_. Some (\<lambda>_. 0)" "(ASN_INTEGER, 300)"] w by auto
  then show ?thesis
    using asn_rbuild_int_forward [OF w(1), of "\<lambda>_. Some (\<lambda>_. 0)" True ASN_INTEGER 300 s' 1 11 "replicate 12 0"] w(2)
    by auto
qed



text \<open>
  Reverse 64-bit integers.  The same for the unsigned 64-bit encoder, on every counter,
  and for the signed one, on every counter whose high half fits 32 bits.
\<close>

lemma asn_rbuild_int64_forward:
  assumes "rwf s" and "data + dl \<le> length mem" and "14 \<le> dl"
  shows "(\<forall>s'. asn_realloc_rbuild_unsigned_int64 malloc r type cp 16 s = Inr s' \<longrightarrow>
      (\<exists>mem' data' dl'. asn_build_unsigned_int64 mem data dl type cp 16 = Inr (mem', data', dl') \<and>
         used s' = take (data' - data) (drop data mem') @ used s)) \<and>
    (\<forall>s'. half32 (ctr_high cp) \<and> asn_realloc_rbuild_signed_int64 malloc r type cp 16 s = Inr s' \<longrightarrow>
      (\<exists>mem' data' dl'. asn_build_signed_int64 mem data dl type cp 16 = Inr (mem', data', dl') \<and>
         used s' = take (data' - data) (drop data mem') @ used s))"
proof (intro conjI allI impI)
  fix s' assume a: "asn_realloc_rbuild_unsigned_int64 malloc r type cp 16 s = Inr s'"
  have "length (enc_uint64 type (value64 cp)) \<le> dl"
    using length_enc_uint64 assms(3) le_trans by blast
  then show "\<exists>mem' data' dl'. asn_build_unsigned_int64 mem data dl type cp 16 = Inr (mem', data', dl') \<and>
         used s' = take (data' - data) (drop data mem') @ used s"
    using uint64_rev.same_bytes [of s "(type, cp)" malloc r s' data dl mem] assms(1,2) a by auto
next
  fix s' assume a: "half32 (ctr_high cp) \<and> asn_realloc_rbuild_signed_int64 malloc r type cp 16 s = Inr s'"
  have "length (enc_int64 (value64 cp)) \<le> 14"
    using length_enc_int64 [of "value64 cp"] by linarith
  then show "\<exists>mem' data' dl'. asn_build_signed_int64 mem data dl type cp 16 = Inr (mem', data', dl') \<and>
         used s' = take (data' - data) (drop data mem') @ used s"
    using int64_rev.same_bytes [of "(type, cp)" s malloc r s' data dl mem] assms a by auto
qed

lemma asn_rbuild_int64_forward_witness:
  "\<exists>s' mem' data' dl'. asn_realloc_rbuild_signed_int64 (\<lambda>_. Some (\<lambda>_. 0)) True 0x7a \<lparr>ctr_high = 0, ctr_low = 5\<rparr> 16 ([], 0) = Inr s' \<and>
     asn_build_signed_int64 (replicate 20 0) 0 20 0x7a \<lparr>ctr_high = 0, ctr_low = 5\<rparr> 16 = Inr (mem', data', dl') \<and>
     used s' = take data' mem'"
proof -
  have w: "rwf ([], 0)" "used ([], 0) = []" "half32 (ctr_high \<lparr>ctr_high = 0, ctr_low = 5\<rparr>)"
    by (simp_all add: rwf_def used_def)
  obtain s' where "asn_realloc_rbuild_signed_int64 (\<lambda>_. Some (\<lambda>_. 0)) True 0x7a \<lparr>ctr_high = 0, ctr_low = 5\<rparr> 16 ([], 0) = Inr s'"
    using int64_rev.rev_total [of "(0x7a, \<lparr>ctr_high = 0, ctr_low = 5\<rparr>)" "([], 0)" "\<lambda>_. Some (\<lambda>_. 0)"] w by auto
  with asn_rbuild_int64_forward [OF w(1), of 0 20 "replicate 20 0" "\<lambda>_. Some (\<lambda>_. 0)" True "0x7a" "\<lparr>ctr_high = 0, ctr_low = 5\<rparr>"] w
  show ?thesis by auto
qed

text \<open>
  C34 (a reverse encoder never fails for want of room when memory is available).  With
  reallocation allowed and an allocator that never fails, the reverse string encoder succeeds
  from every state, growing the buffer as often as needed, and prepends the encoding.
\<close>

theorem asn_rbuild_string_total:
  assumes "rwf s" and "length str \<le> 0xffff" and "\<And>n. malloc n \<noteq> None"
  shows "\<exists>s'. asn_realloc_rbuild_string malloc True type str (length str) s = Inr s' \<and>
    used s' = enc_string type str @ used s \<and> rwf s'"
  using string_rev.rev_total [of "(type, str)" s malloc] assms by (auto simp: prepended_def)

theorem asn_rbuild_string_total_witness:
  "\<exists>s'. asn_realloc_rbuild_string (\<lambda>_. Some (\<lambda>_. 0)) True ASN_OCTET_STR (replicate 3 1) 3 ([], 0) = Inr s' \<and>
    used s' = enc_string ASN_OCTET_STR (replicate 3 1) @ used ([], 0) \<and> rwf s'"
  using asn_rbuild_string_total [of "([], 0)" "replicate 3 1" "\<lambda>_. Some (\<lambda>_. 0)" ASN_OCTET_STR]
  by (simp add: rwf_def)

text \<open>
  One-component object identifiers differ.  For an object identifier of one component the
  forward encoder stores forty times the component, the reverse encoder the component itself.
\<close>

lemma asn_rbuild_objid_one_component:
  "asn_build_objid [0, 0, 0] 0 3 ASN_OBJECT_ID [2] 1 = Inr ([0x06, 0x01, 0x50], 3, 0) \<and>
   asn_realloc_rbuild_objid malloc r ASN_OBJECT_ID [2] 1 ([0, 0, 0], 0) = Inr ([0x06, 0x01, 0x02], 3)"
  by (simp add: oid_eval asn_realloc_rbuild_objid_def asn_realloc_rbuild_header_def asn_realloc_rbuild_length_def
      asn_realloc_build_header_check_def rput1_def room1_def rput_def cong: ebind_eval_cong)

end
