(* ===== verification/Snmp_Var.thy ===== *)
theory Snmp_Var
  imports Asn1_Safe Asn1_Rbuild
begin

unbundle bit_operations_syntax

section \<open>Variable bindings (\<open>snmplib/snmp.c\<close>, \<open>snmplib/snmp_api.c\<close>)\<close>

text \<open>
  \<open>snmp_build_var_op\<close>, \<open>snmp_realloc_rbuild_var_op\<close>, \<open>snmp_parse_var_op\<close> and the value switch of
  \<open>snmp_pdu_parse\<close>, over the encoders and decoders of \<open>asn1.c\<close>.  A value is the memory its pointer
  refers to, in the native representation of a little-endian LP64 host (\<open>long\<close>s and \<open>oid\<close>s of eight
  bytes, \<open>struct counter64\<close> as two \<open>u_long\<close>s, high first); \<open>None\<close> is the \<open>NULL\<close> pointer, and following it
  is an \<open>OverRead\<close>.
\<close>

abbreviation (input) SNMP_NOSUCHOBJECT :: u8 where "SNMP_NOSUCHOBJECT \<equiv> 0x80"
abbreviation (input) SNMP_NOSUCHINSTANCE :: u8 where "SNMP_NOSUCHINSTANCE \<equiv> 0x81"
abbreviation (input) SNMP_ENDOFMIBVIEW :: u8 where "SNMP_ENDOFMIBVIEW \<equiv> 0x82"
abbreviation (input) MAX_PACKET_LENGTH :: nat where "MAX_PACKET_LENGTH \<equiv> 0x7fffffff"

record netsnmp_variable =
  v_name :: oid
  v_type :: u8
  v_val :: "bytes option"
  v_val_len :: nat


subsection \<open>Native values\<close>

definition le_bytes :: "nat \<Rightarrow> 'a::len word \<Rightarrow> bytes" where
  "le_bytes k x = rev (be_bytes k x)"

definition le_word :: "bytes \<Rightarrow> 'a::len word" where
  "le_word bs = be_acc 0 (rev bs)"

definition rd_native :: "bytes option \<Rightarrow> nat \<Rightarrow> nat \<Rightarrow> 'a::len word res" where
  "rd_native val i k =
     (case val of None \<Rightarrow> Inl OverRead | Some bs \<Rightarrow> ebind (rd_bytes bs i k) (\<lambda>b. Inr (le_word b)))"

definition rd_counter64 :: "bytes option \<Rightarrow> counter64 res" where
  "rd_counter64 val =
     ebind (rd_native val 0 8) (\<lambda>h. ebind (rd_native val 8 8) (\<lambda>l. Inr \<lparr>ctr_high = h, ctr_low = l\<rparr>))"

fun native_oid :: "bytes \<Rightarrow> oid" where
  "native_oid bs = (if length bs < 8 then [] else le_word (take 8 bs) # native_oid (drop 8 bs))"

declare native_oid.simps [simp del]

definition pointee :: "bytes option \<Rightarrow> bytes" where
  "pointee val = (case val of None \<Rightarrow> [] | Some bs \<Rightarrow> bs)"


subsection \<open>Building a variable binding\<close>

text \<open>The switch of \<open>snmp_build_var_op\<close>.  The encoders look at the size before they follow the pointer.\<close>

definition build_value :: "u8 \<Rightarrow> nat \<Rightarrow> bytes option \<Rightarrow> bytes \<Rightarrow> nat \<Rightarrow> nat \<Rightarrow> bstate res" where
  "build_value type val_len val mem data listlength =
     (if type = ASN_INTEGER then
        ebind (if val_len = 8 then rd_native val 0 8 else Inr 0) (\<lambda>x.
        asn_build_int mem data listlength type x val_len)
      else if type = ASN_GAUGE \<or> type = ASN_COUNTER \<or> type = ASN_TIMETICKS \<or> type = ASN_UINTEGER then
        ebind (if val_len = 8 then rd_native val 0 8 else Inr 0) (\<lambda>x.
        asn_build_unsigned_int mem data listlength type x val_len)
      else if type = ASN_OPAQUE_COUNTER64 \<or> type = ASN_OPAQUE_U64 \<or> type = ASN_COUNTER64 then
        ebind (if val_len = 16 then rd_counter64 val else Inr \<lparr>ctr_high = 0, ctr_low = 0\<rparr>) (\<lambda>cp.
        asn_build_unsigned_int64 mem data listlength type cp val_len)
      else if type = ASN_OCTET_STR \<or> type = ASN_IPADDRESS \<or> type = ASN_OPAQUE \<or> type = ASN_NSAP then
        asn_build_string mem data listlength type val val_len
      else if type = ASN_OBJECT_ID then
        asn_build_objid mem data listlength type (native_oid (pointee val)) (val_len div 8)
      else if type = ASN_NULL then asn_build_null mem data listlength type
      else if type = ASN_BIT_STR then asn_build_bitstring mem data listlength type val val_len
      else if type = SNMP_NOSUCHOBJECT \<or> type = SNMP_NOSUCHINSTANCE \<or> type = SNMP_ENDOFMIBVIEW then
        asn_build_null mem data listlength type
      else if type = ASN_OPAQUE_FLOAT then
        ebind (if val_len = 4 then rd_native val 0 4 else Inr 0) (\<lambda>x.
        asn_build_float mem data listlength type x val_len)
      else if type = ASN_OPAQUE_DOUBLE then
        ebind (if val_len = 8 then rd_native val 0 8 else Inr 0) (\<lambda>x.
        asn_build_double mem data listlength type x val_len)
      else if type = ASN_OPAQUE_I64 then
        ebind (if val_len = 16 then rd_counter64 val else Inr \<lparr>ctr_high = 0, ctr_low = 0\<rparr>) (\<lambda>cp.
        asn_build_signed_int64 mem data listlength type cp val_len)
      else Inl (BadVarType type))"

text \<open>
  The result of the final \<open>asn_build_sequence\<close> is not looked at: the room it is given is the length
  of the contents, and when that is less than four no header is written.
\<close>

definition insert_header :: "bytes \<Rightarrow> nat \<Rightarrow> nat \<Rightarrow> u8 \<Rightarrow> nat \<Rightarrow> bytes res" where
  "insert_header mem dataPtr datalength type len =
     (case asn_build_sequence mem dataPtr datalength type len of
        Inr (mem', _) \<Rightarrow> Inr mem'
      | Inl e \<Rightarrow> if e = OverWrite then Inl OverWrite else Inr mem)"

definition snmp_build_var_op :: "netsnmp_variable \<Rightarrow> bytes \<Rightarrow> nat \<Rightarrow> nat \<Rightarrow> bstate res" where
  "snmp_build_var_op vp mem dataPtr listlength =
     (if listlength < 4 then Inl BadLength
      else ebind (asn_build_objid mem (dataPtr + 4) (listlength - 4) ASN_OBJECT_ID (v_name vp) (length (v_name vp)))
        (\<lambda>(mem1, data1, listlength1).
      ebind (build_value (v_type vp) (v_val_len vp) (v_val vp) mem1 data1 listlength1) (\<lambda>(mem2, data2, listlength2).
      let dummyLen = usub64 (data2 - dataPtr) 4 in
      ebind (insert_header mem2 dataPtr dummyLen ASN_SEQUENCE_CONSTRUCTOR dummyLen) (\<lambda>mem3.
      Inr (mem3, data2, listlength2)))))"

definition rbuild_value :: "malloc \<Rightarrow> bool \<Rightarrow> u8 \<Rightarrow> bytes option \<Rightarrow> nat \<Rightarrow> rstate \<Rightarrow> rstate res" where
  "rbuild_value malloc r type val val_len s =
     (if type = ASN_INTEGER then
        ebind (if val_len = 8 then rd_native val 0 8 else Inr 0) (\<lambda>x.
        asn_realloc_rbuild_int malloc r type x val_len s)
      else if type = ASN_GAUGE \<or> type = ASN_COUNTER \<or> type = ASN_TIMETICKS \<or> type = ASN_UINTEGER then
        ebind (if val_len = 8 then rd_native val 0 8 else Inr 0) (\<lambda>x.
        asn_realloc_rbuild_unsigned_int malloc r type x val_len s)
      else if type = ASN_OPAQUE_COUNTER64 \<or> type = ASN_OPAQUE_U64 \<or> type = ASN_COUNTER64 then
        ebind (if val_len = 16 then rd_counter64 val else Inr \<lparr>ctr_high = 0, ctr_low = 0\<rparr>) (\<lambda>cp.
        asn_realloc_rbuild_unsigned_int64 malloc r type cp val_len s)
      else if type = ASN_OCTET_STR \<or> type = ASN_IPADDRESS \<or> type = ASN_OPAQUE \<or> type = ASN_NSAP then
        asn_realloc_rbuild_string malloc r type (pointee val) val_len s
      else if type = ASN_OBJECT_ID then
        asn_realloc_rbuild_objid malloc r type (native_oid (pointee val)) (val_len div 8) s
      else if type = ASN_NULL then asn_realloc_rbuild_null malloc r type s
      else if type = ASN_BIT_STR then asn_realloc_rbuild_bitstring malloc r type (pointee val) val_len s
      else if type = SNMP_NOSUCHOBJECT \<or> type = SNMP_NOSUCHINSTANCE \<or> type = SNMP_ENDOFMIBVIEW then
        asn_realloc_rbuild_null malloc r type s
      else if type = ASN_OPAQUE_FLOAT then
        ebind (if val_len = 4 then rd_native val 0 4 else Inr 0) (\<lambda>x.
        asn_realloc_rbuild_float malloc r type x val_len s)
      else if type = ASN_OPAQUE_DOUBLE then
        ebind (if val_len = 8 then rd_native val 0 8 else Inr 0) (\<lambda>x.
        asn_realloc_rbuild_double malloc r type x val_len s)
      else if type = ASN_OPAQUE_I64 then
        ebind (if val_len = 16 then rd_counter64 val else Inr \<lparr>ctr_high = 0, ctr_low = 0\<rparr>) (\<lambda>cp.
        asn_realloc_rbuild_signed_int64 malloc r type cp val_len s)
      else Inl (BadVarType type))"

definition snmp_realloc_rbuild_var_op :: "malloc \<Rightarrow> bool \<Rightarrow> netsnmp_variable \<Rightarrow> rstate \<Rightarrow> rstate res" where
  "snmp_realloc_rbuild_var_op malloc r vp s =
     (let start_offset = snd s in
      ebind (rbuild_value malloc r (v_type vp) (v_val vp) (v_val_len vp) s) (\<lambda>s1.
      ebind (asn_realloc_rbuild_objid malloc r ASN_OBJECT_ID (v_name vp) (length (v_name vp)) s1) (\<lambda>s2.
      asn_realloc_rbuild_sequence malloc r ASN_SEQUENCE_CONSTRUCTOR (snd s2 - start_offset) s2)))"


subsection \<open>Parsing a variable binding\<close>

text \<open>\<open>*listlength -= (int) (data - var_op_start)\<close>\<close>

definition sub_int :: "nat \<Rightarrow> nat \<Rightarrow> nat" where
  "sub_int listlength diff = unat (word_of_nat listlength - scast (word_of_nat diff :: u32) :: u64)"

text \<open>
  The result: the end of the binding, the name buffer and the length of the name, the type and the
  length of the value, where the value starts, and the bytes left.
\<close>

definition snmp_parse_var_op ::
  "bytes \<Rightarrow> nat \<Rightarrow> oid \<Rightarrow> nat \<Rightarrow> nat \<Rightarrow> (nat \<times> oid \<times> nat \<times> u8 \<times> nat \<times> nat \<times> nat) res" where
  "snmp_parse_var_op mem data var_name var_name_len listlength =
     ebind (asn_parse_sequence mem data listlength ASN_SEQUENCE_CONSTRUCTOR) (\<lambda>(data1, len1, _).
     ebind (asn_parse_objid mem data1 len1 var_name var_name_len) (\<lambda>(data2, len2, type, var_name', var_name_len').
     if type \<noteq> ASN_OBJECT_ID then Inl (TypeErr type)
     else ebind (asn_parse_header mem data2 len2) (\<lambda>(data3, val_len, val_type).
       Inr (data3 + val_len, var_name', var_name_len', val_type, val_len, data2,
            sub_int listlength (data3 + val_len - data)))))"

text \<open>
  The switch on the value type in \<open>snmp_pdu_parse\<close>: the type, value and length stored in the
  variable, the local array \<open>objid\<close>, and whether the type was bad.  Whether \<open>malloc\<close> of a size
  succeeds is the argument \<open>alloc\<close>.
\<close>

definition parse_value ::
  "(nat \<Rightarrow> bool) \<Rightarrow> bytes \<Rightarrow> nat \<Rightarrow> u8 \<Rightarrow> nat \<Rightarrow> oid \<Rightarrow> (u8 \<times> bytes option \<times> nat \<times> oid \<times> bool) res" where
  "parse_value alloc mem var_val type val_len objid =
     (if type = ASN_INTEGER then
        ebind (asn_parse_int mem var_val MAX_PACKET_LENGTH 8) (\<lambda>(_, _, ty, x).
        Inr (ty, Some (le_bytes 8 x), 8, objid, False))
      else if type = ASN_COUNTER \<or> type = ASN_GAUGE \<or> type = ASN_TIMETICKS \<or> type = ASN_UINTEGER then
        ebind (asn_parse_unsigned_int mem var_val MAX_PACKET_LENGTH 8) (\<lambda>(_, _, ty, x).
        Inr (ty, Some (le_bytes 8 x), 8, objid, False))
      else if type = ASN_OPAQUE_COUNTER64 \<or> type = ASN_OPAQUE_U64 \<or> type = ASN_COUNTER64 then
        ebind (asn_parse_unsigned_int64 mem var_val MAX_PACKET_LENGTH 16) (\<lambda>(_, _, ty, cp).
        Inr (ty, Some (le_bytes 8 (ctr_high cp) @ le_bytes 8 (ctr_low cp)), 16, objid, False))
      else if type = ASN_OPAQUE_FLOAT then
        ebind (asn_parse_float mem var_val MAX_PACKET_LENGTH 4) (\<lambda>(_, _, ty, x).
        Inr (ty, Some (le_bytes 4 x), 4, objid, False))
      else if type = ASN_OPAQUE_DOUBLE then
        ebind (asn_parse_double mem var_val MAX_PACKET_LENGTH 8) (\<lambda>(_, _, ty, x).
        Inr (ty, Some (le_bytes 8 x), 8, objid, False))
      else if type = ASN_OPAQUE_I64 then
        ebind (asn_parse_signed_int64 mem var_val MAX_PACKET_LENGTH 16) (\<lambda>(_, _, ty, cp).
        Inr (ty, Some (le_bytes 8 (ctr_high cp) @ le_bytes 8 (ctr_low cp)), 16, objid, False))
      else if type = ASN_IPADDRESS \<and> val_len \<noteq> 4 then Inl (LengthErr val_len)
      else if type = ASN_IPADDRESS \<or> type = ASN_OCTET_STR \<or> type = ASN_OPAQUE \<or> type = ASN_NSAP then
        (if \<not> val_len < 40 \<and> \<not> alloc val_len then Inl NoMemory
         else ebind (asn_parse_string mem var_val MAX_PACKET_LENGTH
                       (replicate (if val_len < 40 then 40 else val_len) 0) val_len) (\<lambda>(_, _, ty, str, n).
              Inr (ty, Some (take n str), n, objid, False)))
      else if type = ASN_OBJECT_ID then
        ebind (asn_parse_objid mem var_val MAX_PACKET_LENGTH objid 128) (\<lambda>(_, _, ty, objid', n).
        if \<not> alloc (n * 8) then Inl NoMemory
        else Inr (ty, Some (concat (map (le_bytes 8) (take n objid'))), n * 8, objid', False))
      else if type = SNMP_NOSUCHOBJECT \<or> type = SNMP_NOSUCHINSTANCE \<or> type = SNMP_ENDOFMIBVIEW \<or>
              type = ASN_NULL then
        Inr (type, None, val_len, objid, False)
      else if type = ASN_BIT_STR then
        (if \<not> alloc val_len then Inl NoMemory
         else ebind (asn_parse_bitstring mem var_val MAX_PACKET_LENGTH (replicate val_len 0) val_len)
                (\<lambda>(_, _, ty, str, n). Inr (ty, Some (take n str), n, objid, False)))
      else Inr (type, None, val_len, objid, True))"


subsection \<open>The values a binding can carry\<close>

datatype vval =
    VInt u64
  | VUInt u8 u64
  | VU64 u8 counter64
  | VI64 counter64
  | VStr u8 bytes
  | VOid oid
  | VNull u8
  | VBits bytes
  | VFloat u32
  | VDouble u64

primrec vtype :: "vval \<Rightarrow> u8" where
  "vtype (VInt x) = ASN_INTEGER"
| "vtype (VUInt t x) = t"
| "vtype (VU64 t cp) = t"
| "vtype (VI64 cp) = ASN_OPAQUE_I64"
| "vtype (VStr t s) = t"
| "vtype (VOid q) = ASN_OBJECT_ID"
| "vtype (VNull t) = t"
| "vtype (VBits s) = ASN_BIT_STR"
| "vtype (VFloat x) = ASN_OPAQUE_FLOAT"
| "vtype (VDouble x) = ASN_OPAQUE_DOUBLE"

primrec native :: "vval \<Rightarrow> bytes option" where
  "native (VInt x) = Some (le_bytes 8 x)"
| "native (VUInt t x) = Some (le_bytes 8 x)"
| "native (VU64 t cp) = Some (le_bytes 8 (ctr_high cp) @ le_bytes 8 (ctr_low cp))"
| "native (VI64 cp) = Some (le_bytes 8 (ctr_high cp) @ le_bytes 8 (ctr_low cp))"
| "native (VStr t s) = Some s"
| "native (VOid q) = Some (concat (map (le_bytes 8) q))"
| "native (VNull t) = None"
| "native (VBits s) = Some s"
| "native (VFloat x) = Some (le_bytes 4 x)"
| "native (VDouble x) = Some (le_bytes 8 x)"

definition vlen :: "vval \<Rightarrow> nat" where
  "vlen v = length (pointee (native v))"

definition null_type :: "u8 \<Rightarrow> bool" where
  "null_type t \<longleftrightarrow> t = ASN_NULL \<or> t = SNMP_NOSUCHOBJECT \<or> t = SNMP_NOSUCHINSTANCE \<or> t = SNMP_ENDOFMIBVIEW"

primrec venc :: "vval \<Rightarrow> bytes" where
  "venc (VInt x) = enc_int ASN_INTEGER x"
| "venc (VUInt t x) = enc_int t x"
| "venc (VU64 t cp) = enc_uint64 t (value64 cp)"
| "venc (VI64 cp) = enc_int64 (value64 cp)"
| "venc (VStr t s) = enc_string t s"
| "venc (VOid q) = enc_oid ASN_OBJECT_ID q"
| "venc (VNull t) = enc_header t 0"
| "venc (VBits s) = enc_string ASN_BIT_STR s"
| "venc (VFloat x) = enc_float x"
| "venc (VDouble x) = enc_double x"

text \<open>
  The values that survive a round trip: integers of 32 bits, opaque strings that do not look like
  one of the special opaque types, addresses of four octets.
\<close>

primrec vok :: "vval \<Rightarrow> bool" where
  "vok (VInt x) \<longleftrightarrow> - (2 ^ 31) \<le> sint x \<and> sint x < 2 ^ 32"
| "vok (VUInt t x) \<longleftrightarrow> unsigned_type t \<and> unat x < 2 ^ 32"
| "vok (VU64 t cp) \<longleftrightarrow> uint64_type t \<and> half32 (ctr_high cp) \<and> half32 (ctr_low cp)"
| "vok (VI64 cp) \<longleftrightarrow> half32 (ctr_high cp) \<and> half32 (ctr_low cp)"
| "vok (VStr t s) \<longleftrightarrow> string_type t \<and> length s \<le> 0xffff \<and> (t = ASN_IPADDRESS \<longrightarrow> length s = 4) \<and>
     (t = ASN_OPAQUE \<longrightarrow> s \<noteq> [] \<and> hd s \<noteq> ASN_OPAQUE_TAG1)"
| "vok (VOid q) \<longleftrightarrow> valid_oid q"
| "vok (VNull t) \<longleftrightarrow> null_type t"
| "vok (VBits s) \<longleftrightarrow> s \<noteq> [] \<and> length s \<le> 0xffff"
| "vok (VFloat x) \<longleftrightarrow> True"
| "vok (VDouble x) \<longleftrightarrow> True"

lemma length_le_bytes [simp]: "length (le_bytes k x) = k"
  by (simp add: le_bytes_def)

lemma le_word_le_bytes [simp]: "8 * k = LENGTH('a::len) \<Longrightarrow> le_word (le_bytes k x) = (x :: 'a word)"
  by (simp add: le_word_def le_bytes_def be_acc_word)

lemma rd_native_at [simp]:
  "8 * k = LENGTH('a::len) \<Longrightarrow> i = length pre \<Longrightarrow> rd_native (Some (pre @ le_bytes k x @ post)) i k = Inr (x :: 'a word)"
  by (simp add: rd_native_def rd_bytes_def)

lemma rd_native_le [simp]: "8 * k = LENGTH('a::len) \<Longrightarrow> rd_native (Some (le_bytes k x)) 0 k = Inr (x :: 'a word)"
  using rd_native_at [of k 0 "[]" x "[]"] by simp

lemma rd_counter64_le [simp]:
  "rd_counter64 (Some (le_bytes 8 (ctr_high cp) @ le_bytes 8 (ctr_low cp))) = Inr cp"
  using rd_native_at [of 8 0 "[]" "ctr_high cp" "le_bytes 8 (ctr_low cp)"]
    rd_native_at [of 8 8 "le_bytes 8 (ctr_high cp)" "ctr_low cp" "[]"]
  by (simp add: rd_counter64_def)

lemma native_oid_concat [simp]: "native_oid (concat (map (le_bytes 8) q)) = q"
  by (induction q) (simp_all add: native_oid.simps [of "_ @ _"] native_oid.simps [of "[]"])

lemma length_native_oid [simp]: "length (concat (map (le_bytes 8) q)) = 8 * length q"
  by (induction q) simp_all

lemma check_overflow_s_range: "- (2 ^ 31) \<le> sint x \<Longrightarrow> sint x < 2 ^ 32 \<Longrightarrow> check_overflow_s x = x"
  using check_overflow_s_id [of x] check_overflow_s_upper [of x] by linarith

lemmas type_defs = unsigned_type_def uint64_type_def string_type_def null_type_def vlen_def pointee_def

lemma builds_value:
  assumes "vok v"
  shows "builds (build_value (vtype v) (vlen v) (native v)) (venc v)"
proof (cases v)
  case (VInt x)
  then show ?thesis using assms builds_int [of ASN_INTEGER x]
    by (simp add: build_value_def [abs_def] type_defs check_overflow_s_range)
next
  case (VUInt t x)
  then have "check_overflow_u x = x" using assms by (simp add: check_overflow_u_id)
  with VUInt show ?thesis using assms builds_unsigned_int [of t x]
    by (auto simp: build_value_def [abs_def] type_defs)
next
  case (VU64 t cp)
  then show ?thesis using assms builds_uint64 [of t cp]
    by (auto simp: build_value_def [abs_def] type_defs)
next
  case (VI64 cp)
  then show ?thesis using assms builds_int64 [of ASN_OPAQUE_I64 cp]
    by (simp add: build_value_def [abs_def] type_defs half32_check_s value64_def)
next
  case (VStr t s)
  then show ?thesis using assms builds_string [of t s]
    by (auto simp: build_value_def [abs_def] type_defs)
next
  case (VOid q)
  then show ?thesis using assms builds_objid [of q ASN_OBJECT_ID]
    by (simp add: build_value_def [abs_def] type_defs)
next
  case (VNull t)
  then show ?thesis using assms builds_header [of t 0]
    by (auto simp: build_value_def [abs_def] asn_build_null_def type_defs)
next
  case (VBits s)
  then show ?thesis using assms builds_bitstring [of s ASN_BIT_STR]
    by (simp add: build_value_def [abs_def] type_defs)
next
  case (VFloat x)
  then show ?thesis using builds_float [of ASN_OPAQUE_FLOAT x]
    by (simp add: build_value_def [abs_def] type_defs)
next
  case (VDouble x)
  then show ?thesis using builds_double [of ASN_OPAQUE_DOUBLE x]
    by (simp add: build_value_def [abs_def] type_defs)
qed

lemma rgood_value:
  assumes "vok v" and w: "rwf s"
  shows "rgood malloc r s (venc v) (rbuild_value malloc r (vtype v) (native v) (vlen v) s)"
proof (cases v)
  case (VInt x)
  then show ?thesis using assms(1) rgood_int [OF w, of malloc r ASN_INTEGER x]
    by (simp add: rbuild_value_def type_defs check_overflow_s_range)
next
  case (VUInt t x)
  then have "check_overflow_u x = x" using assms(1) by (simp add: check_overflow_u_id)
  with VUInt show ?thesis using assms(1) rgood_uint [OF w, of malloc r t x]
    by (auto simp: rbuild_value_def type_defs)
next
  case (VU64 t cp)
  then show ?thesis using assms(1) rgood_uint64 [OF w, of malloc r t cp]
    by (auto simp: rbuild_value_def type_defs)
next
  case (VI64 cp)
  then show ?thesis using assms(1) rgood_int64 [OF w, of malloc r cp ASN_OPAQUE_I64]
    by (simp add: rbuild_value_def type_defs)
next
  case (VStr t s')
  then show ?thesis using assms(1) rgood_string [OF w, of s' malloc r t]
    by (auto simp: rbuild_value_def type_defs)
next
  case (VOid q)
  then show ?thesis using assms(1) rgood_objid [OF w, of q malloc r ASN_OBJECT_ID]
    by (simp add: rbuild_value_def type_defs)
next
  case (VNull t)
  then show ?thesis using assms(1) rgood_header [OF w, of 0 malloc r t]
    by (auto simp: rbuild_value_def asn_realloc_rbuild_null_def type_defs)
next
  case (VBits s')
  then show ?thesis using assms(1) bitstring_rev.rev_enc [of "(ASN_BIT_STR, s')" s malloc r] w
    by (simp add: rbuild_value_def type_defs)
next
  case (VFloat x)
  then show ?thesis using rgood_float32 [OF w, of malloc r x ASN_OPAQUE_FLOAT]
    by (simp add: rbuild_value_def type_defs)
next
  case (VDouble x)
  then show ?thesis using rgood_double [OF w, of malloc r x ASN_OPAQUE_DOUBLE]
    by (simp add: rbuild_value_def type_defs)
qed


subsection \<open>Reading the values back\<close>

lemma opaque_header_enc:
  assumes "stored mem data (enc_opaque tag c)" and "length c < 100" and "opaque_special tag"
    and "length (enc_opaque tag c) \<le> dl"
  shows "asn_parse_header mem data dl = Inr (data + 5, length c, tag)"
  using enc_opaque_stored [OF assms(1,2)] enc_opaque_checks [OF assms(4,2), of data] assms(3)
  by (simp add: asn_parse_header_def add.assoc del: One_nat_def add_2_eq_Suc')

lemma opaque_string_header:
  assumes "stored mem data (enc_string ASN_OPAQUE s)" and "length s \<le> 0xffff" and "s \<noteq> []" and "hd s \<noteq> ASN_OPAQUE_TAG1"
    and "length (enc_string ASN_OPAQUE s) \<le> dl"
  shows "asn_parse_header mem data dl = Inr (data + length (enc_header ASN_OPAQUE (length s)), length s, ASN_OPAQUE)"
proof -
  obtain b t where s: "s = b # t" using assms(3) by (cases s) auto
  have st: "rd mem data = Inr ASN_OPAQUE" "stored mem (data + 1) (enc_length (length s))"
      "rd mem (data + 1 + length (enc_length (length s))) = Inr b"
    using assms(1) by (auto simp: enc_string_def enc_header_def rd_def s)
  have "\<not> asn_parse_length_check (data + 1 + length (enc_length (length s))) data (length s) dl"
    using assms(2,5) le_trans [OF length_enc_length(2) [of "length s"], of 100]
    by (intro asn_parse_length_check_fits) (auto simp: enc_string_def enc_header_def)
  then show ?thesis
    using st asn_parse_length_enc [OF st(2) assms(2)] assms(4) by (simp add: asn_parse_header_def enc_header_def s)
qed

lemma plain_header:
  assumes "stored mem data (enc_header t n @ c)" and "length c = n" and "n \<le> 0xffff"
    and "length (enc_header t n @ c) \<le> dl" and "t AND 0x1f \<noteq> 0x1f" and "t \<noteq> ASN_OPAQUE"
  shows "asn_parse_header mem data dl = Inr (data + length (enc_header t n), n, t)"
  using assms by (intro asn_parse_header_enc) simp_all

text \<open>The length the header of a value announces, where the decoder uses it.\<close>

definition announces :: "vval \<Rightarrow> nat \<Rightarrow> bool" where
  "announces v n \<longleftrightarrow> (case v of VStr t s \<Rightarrow> n = length s | VBits s \<Rightarrow> n = length s | VNull t \<Rightarrow> n = 0 | _ \<Rightarrow> True)"

lemma valid_oid_max: "valid_oid q \<Longrightarrow> length q \<le> 128"
  by (simp add: valid_oid_def)

lemma length_oid_contents: "valid_oid q \<Longrightarrow> length (enc_subids (oid_values q)) \<le> 0xffff"
  using length_enc_oid [of q ASN_OBJECT_ID] valid_oid_max [of q] unfolding enc_oid_def length_append by linarith

lemma value_header:
  assumes "vok v" and "stored mem data (venc v)" and "length (venc v) \<le> dl"
  shows "\<exists>data' n. asn_parse_header mem data dl = Inr (data', n, vtype v) \<and>
    data' + n = data + length (venc v) \<and> announces v n"
proof (cases v)
  case (VInt x)
  then show ?thesis using assms plain_header [of mem data ASN_INTEGER "int_octets x" "be_bytes (int_octets x) x" dl]
      int_octets(3) [of x] by (auto simp: enc_int_def announces_def)
next
  case (VUInt t x)
  then have "t AND 0x1f \<noteq> 0x1f" "t \<noteq> ASN_OPAQUE" using assms(1) by (auto simp: type_defs)
  with VUInt show ?thesis using assms plain_header [of mem data t "int_octets x" "be_bytes (int_octets x) x" dl]
      int_octets(3) [of x] by (auto simp: enc_int_def announces_def)
next
  case (VU64 t cp)
  let ?c = "octets_u64 (value64 cp)"
  have l: "length ?c \<le> 9" by (rule length_octets_u64)
  show ?thesis
  proof (cases "t = ASN_COUNTER64")
    case True
    with VU64 assms l show ?thesis using plain_header [of mem data t "length ?c" ?c dl]
      by (auto simp: enc_uint64_def announces_def)
  next
    case False
    with VU64 assms l show ?thesis using opaque_header_enc [of mem data t ?c dl]
      by (auto simp: enc_uint64_def announces_def type_defs opaque_special_def)
  qed
next
  case (VI64 cp)
  then show ?thesis using assms opaque_header_enc [of mem data ASN_OPAQUE_I64 "be_bytes (int_octets (value64 cp)) (value64 cp)" dl]
      int_octets(3) [of "value64 cp"] by (auto simp: enc_int64_def announces_def opaque_special_def)
next
  case (VStr t s)
  show ?thesis
  proof (cases "t = ASN_OPAQUE")
    case True
    with VStr assms show ?thesis using opaque_string_header [of mem data s dl]
      by (auto simp: enc_string_def announces_def)
  next
    case False
    then have "t AND 0x1f \<noteq> 0x1f" using VStr assms(1) by (auto simp: type_defs)
    with False VStr assms show ?thesis using plain_header [of mem data t "length s" s dl]
      by (auto simp: enc_string_def announces_def)
  qed
next
  case (VOid q)
  then show ?thesis using assms length_oid_contents [of q]
      plain_header [of mem data ASN_OBJECT_ID "length (enc_subids (oid_values q))" "enc_subids (oid_values q)" dl]
    by (auto simp: enc_oid_def announces_def)
next
  case (VNull t)
  then have "t AND 0x1f \<noteq> 0x1f" "t \<noteq> ASN_OPAQUE" using assms(1) by (auto simp: type_defs)
  with VNull show ?thesis using assms plain_header [of mem data t 0 "[]" dl] by (auto simp: announces_def)
next
  case (VBits s)
  then show ?thesis using assms plain_header [of mem data ASN_BIT_STR "length s" s dl]
    by (auto simp: enc_string_def announces_def)
next
  case (VFloat x)
  then show ?thesis using assms opaque_header_enc [of mem data ASN_OPAQUE_FLOAT "be_bytes 4 x" dl]
    by (auto simp: enc_float_def announces_def opaque_special_def)
next
  case (VDouble x)
  let ?c = "be_bytes 4 (ucast (drop_bit 32 x) :: u32) @ be_bytes 4 (ucast x :: u32)"
  show ?thesis using VDouble assms opaque_header_enc [of mem data ASN_OPAQUE_DOUBLE ?c dl]
    by (auto simp: enc_double_def announces_def opaque_special_def)
qed


lemma copied_take: "length s \<le> n \<Longrightarrow> n \<le> length str \<Longrightarrow> take (length s) (copied str n s) = s"
  by (simp add: copied_def store_at_def)

lemma length_venc: "vok v \<Longrightarrow> length (venc v) \<le> 0x1ffff"
proof (cases v)
  case (VInt x)
  then show ?thesis using length_enc_int [of ASN_INTEGER x] by simp
next
  case (VUInt t x)
  then show ?thesis using length_enc_int [of t x] by simp
next
  case (VU64 t cp)
  then show ?thesis using length_enc_uint64 [of t "value64 cp"] by simp
next
  case (VI64 cp)
  then show ?thesis using length_enc_int64 [of "value64 cp"] by simp
next
  case (VOid q)
  moreover assume "vok v"
  ultimately show ?thesis using length_enc_oid [of q ASN_OBJECT_ID] valid_oid_max [of q] by simp
qed (auto simp: enc_string_def enc_header_def enc_length_def enc_float_def enc_double_def)

lemma value_parse:
  assumes v: "vok v" and st: "stored mem data (venc v)" and n: "announces v n" and obj: "length objid = 128"
    and alloc: "\<And>n. alloc n"
  shows "\<exists>objid'. parse_value alloc mem data (vtype v) n objid = Inr (vtype v, native v, vlen v, objid', False) \<and>
    length objid' = 128"
proof -
  have l: "length (venc v) \<le> MAX_PACKET_LENGTH" using length_venc [OF v] by linarith
  show ?thesis
  proof (cases v)
    case (VInt x)
    then show ?thesis using v st l asn_parse_int_enc [of mem data x MAX_PACKET_LENGTH] obj
      by (simp add: parse_value_def type_defs check_overflow_s_range)
  next
    case (VUInt t x)
    then have "check_overflow_u x = x" using v by (simp add: check_overflow_u_id)
    with VUInt show ?thesis using v st l asn_parse_unsigned_int_enc [of mem data t x MAX_PACKET_LENGTH] obj
      by (auto simp: parse_value_def type_defs)
  next
    case (VU64 t cp)
    moreover have "halves64 (value64 cp) = cp" if "half32 (ctr_high cp)" "half32 (ctr_low cp)"
      using that by (simp add: value64_def halves64_pair64)
    ultimately show ?thesis using v st l uint64_codec.parse_enc [of "(t, cp)" mem data MAX_PACKET_LENGTH] obj
      by (auto simp: parse_value_def type_defs)
  next
    case (VI64 cp)
    moreover have "halves64 (value64 cp) = cp" if "half32 (ctr_high cp)" "half32 (ctr_low cp)"
      using that by (simp add: value64_def halves64_pair64)
    ultimately show ?thesis
      using v st l int64_codec.parse_enc [of mem data cp MAX_PACKET_LENGTH] obj
      by (simp add: parse_value_def type_defs half32_check_s value64_def)
  next
    case (VStr t s)
    then have "asn_parse_string mem data MAX_PACKET_LENGTH (replicate (if n < 40 then 40 else n) 0) n =
        Inr (data + length (enc_string t s), MAX_PACKET_LENGTH - length (enc_string t s), t,
          copied (replicate (if n < 40 then 40 else n) 0) n s, length s)"
      using v st l n string_codec.parse_enc [of n "replicate (if n < 40 then 40 else n) 0" "(t, s)" mem data MAX_PACKET_LENGTH]
      by (simp add: announces_def)
    with VStr show ?thesis using v n obj alloc copied_take [of s n "replicate (if n < 40 then 40 else n) 0"]
      by (auto simp: parse_value_def type_defs announces_def)
  next
    case (VOid q)
    then show ?thesis
      using v st l obj alloc oid_codec.parse_enc [where v = q and objidlength = 128 and objid = objid and mem = mem and data = data and dl = MAX_PACKET_LENGTH] valid_oid_max [of q]
      by (simp add: parse_value_def type_defs store_at_def mult.commute)
  next
    case (VNull t)
    then show ?thesis using v n obj by (auto simp: parse_value_def type_defs announces_def)
  next
    case (VBits s)
    then show ?thesis
      using v st l n obj alloc bitstring_codec.parse_enc [of s "length s" "replicate (length s) 0" mem data MAX_PACKET_LENGTH]
      by (simp add: parse_value_def type_defs announces_def store_at_def)
  next
    case (VFloat x)
    then show ?thesis using st l obj asn_parse_float_enc [of mem data x MAX_PACKET_LENGTH]
      by (simp add: parse_value_def type_defs)
  next
    case (VDouble x)
    then show ?thesis using st l obj asn_parse_double_enc [of mem data x MAX_PACKET_LENGTH]
      by (simp add: parse_value_def type_defs)
  qed
qed


subsection \<open>Sequences around encoders\<close>

lemma builds_bind:
  assumes "builds f a" and "builds g b"
  shows "builds (\<lambda>m d l. ebind (f m d l) (\<lambda>(m', d', l'). g m' d' l')) (a @ b)"
proof (rule buildsI)
  fix mem :: bytes and d l :: nat
  assume b: "d + l \<le> length mem" and l: "length (a @ b) \<le> l"
  have "f mem d l = Inr (store_at mem d a, d + length a, l - length a)"
    using b l by (intro builds_ok [OF assms(1)]) simp_all
  moreover have "g (store_at mem d a) (d + length a) (l - length a) =
      Inr (store_at (store_at mem d a) (d + length a) b, d + length a + length b, l - length a - length b)"
    using b l by (intro builds_ok [OF assms(2)]) simp_all
  moreover have "store_at (store_at mem d a) (d + length a) b = store_at mem d (a @ b)"
    using b l by (intro store_at_store_at) simp
  ultimately show "ebind (f mem d l) (\<lambda>(m', d', l'). g m' d' l') =
      Inr (store_at mem d (a @ b), d + length (a @ b), l - length (a @ b))"
    by (simp add: add.assoc)
next
  fix mem :: bytes and d l :: nat
  assume b: "d + l \<le> length mem" and l: "l < length (a @ b)"
  show "\<exists>e. ebind (f mem d l) (\<lambda>(m', d', l'). g m' d' l') = Inl e \<and> e \<noteq> OverRead \<and> e \<noteq> OverWrite"
  proof (cases "length a \<le> l")
    case True
    then have "f mem d l = Inr (store_at mem d a, d + length a, l - length a)"
      using b by (intro builds_ok [OF assms(1)])
    moreover have "\<exists>e. g (store_at mem d a) (d + length a) (l - length a) = Inl e \<and> e \<noteq> OverRead \<and> e \<noteq> OverWrite"
      using b l True by (intro builds_short [OF assms(2)]) simp_all
    ultimately show ?thesis by simp
  next
    case False
    then show ?thesis using builds_short [OF assms(1) b] by fastforce
  qed
qed

lemma builds_Nil: "builds (\<lambda>m d l. Inr (m, d, l)) []"
  by (rule buildsI) simp_all

definition enc_seq :: "u8 \<Rightarrow> nat \<Rightarrow> bytes" where
  "enc_seq type len = [type, 0x82, word_of_nat (len div 256), word_of_nat len]"

lemma length_enc_seq [simp]: "length (enc_seq type len) = 4"
  by (simp add: enc_seq_def)

lemma store_at_before:
  assumes "d + length h + length c \<le> length m"
  shows "store_at (store_at m (d + length h) c) d h = store_at m d (h @ c)"
  using assms by (simp add: store_at_def min_def ac_simps)

lemma insert_header_enc:
  assumes "4 \<le> dl" and "d + 4 \<le> length m"
  shows "insert_header m d dl type len = Inr (store_at m d (enc_seq type len))"
  using assms by (simp add: insert_header_def asn_build_sequence_def enc_seq_def mem_simps)

text \<open>A hole of four bytes, the contents, and then the header in the hole.\<close>

definition in_sequence ::
  "u8 \<Rightarrow> (bytes \<Rightarrow> nat \<Rightarrow> nat \<Rightarrow> bstate res) \<Rightarrow> bytes \<Rightarrow> nat \<Rightarrow> nat \<Rightarrow> bstate res" where
  "in_sequence type f mem dataPtr listlength =
     (if listlength < 4 then Inl BadLength
      else ebind (f mem (dataPtr + 4) (listlength - 4)) (\<lambda>(mem2, data2, listlength2).
      let dummyLen = usub64 (data2 - dataPtr) 4 in
      ebind (insert_header mem2 dataPtr dummyLen type dummyLen) (\<lambda>mem3.
      Inr (mem3, data2, listlength2))))"

lemma builds_in_sequence:
  assumes "builds f c" and "4 \<le> length c"
  shows "builds (in_sequence type f) (enc_seq type (length c) @ c)"
proof (rule buildsI)
  fix mem :: bytes and d l :: nat
  let ?h = "enc_seq type (length c)"
  assume b: "d + l \<le> length mem" and l: "length (?h @ c) \<le> l"
  then have f: "f mem (d + 4) (l - 4) = Inr (store_at mem (d + 4) c, d + 4 + length c, l - 4 - length c)"
    by (intro builds_ok [OF assms(1)]) simp_all
  have h: "insert_header (store_at mem (d + 4) c) d (length c) type (length c) =
      Inr (store_at (store_at mem (d + 4) c) d ?h)"
    using assms(2) b l by (intro insert_header_enc) simp_all
  have "store_at (store_at mem (d + 4) c) d ?h = store_at mem d (?h @ c)"
    using store_at_before [of d ?h c mem] b l by simp
  with f h l show "in_sequence type f mem d l = Inr (store_at mem d (?h @ c), d + length (?h @ c), l - length (?h @ c))"
    by (simp add: in_sequence_def Let_def add.assoc)
next
  fix mem :: bytes and d l :: nat
  assume b: "d + l \<le> length mem" and l: "l < length (enc_seq type (length c) @ c)"
  show "\<exists>e. in_sequence type f mem d l = Inl e \<and> e \<noteq> OverRead \<and> e \<noteq> OverWrite"
  proof (cases "l < 4")
    case True
    then show ?thesis by (simp add: in_sequence_def)
  next
    case False
    then have "\<exists>e. f mem (d + 4) (l - 4) = Inl e \<and> e \<noteq> OverRead \<and> e \<noteq> OverWrite"
      using b l by (intro builds_short [OF assms(1)]) simp_all
    then show ?thesis using False by (auto simp: in_sequence_def)
  qed
qed


subsection \<open>Whole bindings\<close>

type_synonym binding = "oid \<times> vval"

definition var_of :: "binding \<Rightarrow> netsnmp_variable" where
  "var_of b = \<lparr>v_name = fst b, v_type = vtype (snd b), v_val = native (snd b), v_val_len = vlen (snd b)\<rparr>"

definition bok :: "binding \<Rightarrow> bool" where
  "bok b \<longleftrightarrow> valid_oid (fst b) \<and> vok (snd b)"

definition enc_contents :: "binding \<Rightarrow> bytes" where
  "enc_contents b = enc_oid ASN_OBJECT_ID (fst b) @ venc (snd b)"

definition enc_var :: "binding \<Rightarrow> bytes" where
  "enc_var b = enc_seq ASN_SEQUENCE_CONSTRUCTOR (length (enc_contents b)) @ enc_contents b"

definition enc_rvar :: "binding \<Rightarrow> bytes" where
  "enc_rvar b = enc_header ASN_SEQUENCE_CONSTRUCTOR (length (enc_contents b)) @ enc_contents b"

lemma length_venc_pos: "2 \<le> length (venc v)"
  using int_octets(2) length_octets_u64(1)
  by (cases v) (auto simp: enc_int_def enc_header_def enc_length_def enc_uint64_def enc_int64_def enc_string_def enc_oid_def
      enc_opaque_def enc_float_def enc_double_def Suc_le_eq)

lemma length_enc_contents: "4 \<le> length (enc_contents b)"
  using length_venc_pos [of "snd b"] length_enc_length(1) [of "length (enc_subids (oid_values (fst b)))"]
  unfolding enc_contents_def enc_oid_def enc_header_def length_append list.size by linarith

lemma build_var_op_in_sequence:
  "snmp_build_var_op vp = in_sequence ASN_SEQUENCE_CONSTRUCTOR (\<lambda>m d l.
     ebind (asn_build_objid m d l ASN_OBJECT_ID (v_name vp) (length (v_name vp))) (\<lambda>(m', d', l').
     build_value (v_type vp) (v_val_len vp) (v_val vp) m' d' l'))"
  by (intro ext) (auto simp: snmp_build_var_op_def in_sequence_def ebind_assoc intro!: ebind_cong)

lemma builds_var: "bok b \<Longrightarrow> builds (snmp_build_var_op (var_of b)) (enc_var b)"
  unfolding build_var_op_in_sequence enc_var_def
  by (intro builds_in_sequence length_enc_contents)
     (auto simp: enc_contents_def var_of_def bok_def intro!: builds_bind builds_objid builds_value)

lemma rgood_var:
  assumes "bok b" and "rwf s" and "length (enc_contents b) \<le> 0xffff"
  shows "rgood malloc r s (enc_rvar b) (snmp_realloc_rbuild_var_op malloc r (var_of b) s)"
proof -
  let ?m = "ebind (rbuild_value malloc r (vtype (snd b)) (native (snd b)) (vlen (snd b)) s)
      (asn_realloc_rbuild_objid malloc r ASN_OBJECT_ID (fst b) (length (fst b)))"
  have v: "vok (snd b)" "valid_oid (fst b)" using assms(1) by (simp_all add: bok_def)
  have "rgood malloc r s (enc_contents b) ?m"
    unfolding enc_contents_def using v
    by (intro rgood_bind rgood_value assms(2) rgood_objid) (auto dest: prepended_rwf)
  then have "rgood malloc r s (enc_header ASN_SEQUENCE_CONSTRUCTOR (length (enc_contents b)) @ enc_contents b)
      (ebind ?m (\<lambda>s2. asn_realloc_rbuild_sequence malloc r ASN_SEQUENCE_CONSTRUCTOR (snd s2 - snd s) s2))"
  proof (rule rgood_bind)
    fix s' assume p: "prepended s (enc_contents b) s'"
    then have "snd s' - snd s = length (enc_contents b)" by (simp add: prepended_def)
    then show "rgood malloc r s' (enc_header ASN_SEQUENCE_CONSTRUCTOR (length (enc_contents b)))
        (asn_realloc_rbuild_sequence malloc r ASN_SEQUENCE_CONSTRUCTOR (snd s' - snd s) s')"
      using rgood_header [OF prepended_rwf [OF p] assms(3)] by (simp add: asn_realloc_rbuild_sequence_def)
  qed
  then show ?thesis
    by (simp add: snmp_realloc_rbuild_var_op_def var_of_def enc_rvar_def ebind_assoc)
qed


lemma sub_int_le:
  assumes "diff < 2 ^ 31" and "diff \<le> listlength" and "listlength < 2 ^ 64"
  shows "sub_int listlength diff = listlength - diff"
proof -
  have "signed_take_bit 31 (int diff) = int diff"
    using assms(1) by (intro signed_take_bit_int_eq_self) simp_all
  then have "sint (word_of_nat diff :: u32) = int diff" by (simp add: signed_of_nat)
  then have "(scast (word_of_nat diff :: u32) :: u64) = word_of_nat diff"
    by (simp add: scast_eq)
  moreover have "word_of_nat listlength - word_of_nat diff = (word_of_nat (listlength - diff) :: u64)"
    using assms(2) by (simp add: of_nat_diff)
  ultimately show ?thesis
    using assms(3) by (simp add: sub_int_def unat_of_nat take_bit_nat_eq_self)
qed

text \<open>A binding after its sequence header, whichever of the two headers that was.\<close>

lemma parse_var_op_contents:
  assumes b: "bok b" and st: "stored mem (data + h) (enc_contents b)"
    and seq: "asn_parse_sequence mem data dl ASN_SEQUENCE_CONSTRUCTOR =
      Inr (data + h, length (enc_contents b), ASN_SEQUENCE_CONSTRUCTOR)"
    and fit: "h + length (enc_contents b) \<le> dl" and dl: "dl < 2 ^ 31" and obj: "length objid = 128"
  shows "\<exists>n. snmp_parse_var_op mem data objid 128 dl =
      Inr (data + h + length (enc_contents b), store_at objid 0 (fst b), length (fst b), vtype (snd b), n,
        data + h + length (enc_oid ASN_OBJECT_ID (fst b)), dl - (h + length (enc_contents b))) \<and> announces (snd b) n"
proof -
  let ?o = "enc_oid ASN_OBJECT_ID (fst b)" and ?c = "enc_contents b"
  have v: "valid_oid (fst b)" "vok (snd b)" using b by (simp_all add: bok_def)
  have s: "stored mem (data + h) ?o" "stored mem (data + h + length ?o) (venc (snd b))"
    using st by (simp_all add: enc_contents_def)
  have "asn_parse_objid mem (data + h) (length ?c) objid 128 =
      Inr (data + h + length ?o, length ?c - length ?o, ASN_OBJECT_ID, store_at objid 0 (fst b), length (fst b))"
    using oid_codec.parse_enc [where v = "fst b" and objid = objid and objidlength = 128, OF _ s(1), of "length ?c"]
      v(1) valid_oid_max [of "fst b"] obj by (simp add: enc_contents_def)
  moreover obtain data' n where "asn_parse_header mem (data + h + length ?o) (length ?c - length ?o) = Inr (data', n, vtype (snd b))"
      "data' + n = data + h + length ?o + length (venc (snd b))" "announces (snd b) n"
    using value_header [OF v(2) s(2), of "length ?c - length ?o"] by (auto simp: enc_contents_def)
  moreover have "sub_int dl (h + length ?c) = dl - (h + length ?c)"
    using fit dl by (intro sub_int_le) simp_all
  ultimately show ?thesis
    using seq by (auto simp: snmp_parse_var_op_def enc_contents_def add.assoc)
qed

lemma parse_seq_enc:
  assumes "stored mem data (enc_seq ASN_SEQUENCE_CONSTRUCTOR n)" and "n \<le> 0xffff" and "4 + n \<le> dl"
  shows "asn_parse_sequence mem data dl ASN_SEQUENCE_CONSTRUCTOR = Inr (data + 4, n, ASN_SEQUENCE_CONSTRUCTOR)"
  using assms by (intro asn_parse_sequence_enc) (simp_all add: enc_seq_def)

lemma parse_rseq_enc:
  assumes "stored mem data (enc_header ASN_SEQUENCE_CONSTRUCTOR n)" and "n \<le> 0xffff"
    and "length (enc_header ASN_SEQUENCE_CONSTRUCTOR n) + n \<le> dl"
  shows "asn_parse_sequence mem data dl ASN_SEQUENCE_CONSTRUCTOR =
    Inr (data + length (enc_header ASN_SEQUENCE_CONSTRUCTOR n), n, ASN_SEQUENCE_CONSTRUCTOR)"
  using asn_parse_header_enc [OF assms] by (simp add: asn_parse_sequence_def)

text \<open>A binding as an encoder wrote it, with either header.\<close>

definition var_encoding :: "binding \<Rightarrow> bytes \<Rightarrow> bool" where
  "var_encoding b e \<longleftrightarrow> length (enc_contents b) \<le> 0xffff \<and> (e = enc_var b \<or> e = enc_rvar b)"

lemma parse_var_op_enc:
  assumes "bok b" and "var_encoding b e" and "stored mem data e" and "length e \<le> dl" and "dl < 2 ^ 31" and "length objid = 128"
  shows "\<exists>n var_val. snmp_parse_var_op mem data objid 128 dl =
      Inr (data + length e, store_at objid 0 (fst b), length (fst b), vtype (snd b), n, var_val, dl - length e) \<and>
    announces (snd b) n \<and> stored mem var_val (venc (snd b))"
proof -
  let ?n = "length (enc_contents b)"
  obtain hd where e: "e = hd @ enc_contents b" and
    seq: "asn_parse_sequence mem data dl ASN_SEQUENCE_CONSTRUCTOR = Inr (data + length hd, ?n, ASN_SEQUENCE_CONSTRUCTOR)"
  proof (cases "e = enc_var b")
    case True
    then show ?thesis
      using that [of "enc_seq ASN_SEQUENCE_CONSTRUCTOR ?n"] parse_seq_enc [of mem data ?n dl] assms
      by (simp add: enc_var_def var_encoding_def)
  next
    case False
    then have "e = enc_rvar b" using assms(2) by (simp add: var_encoding_def)
    then show ?thesis
      using that [of "enc_header ASN_SEQUENCE_CONSTRUCTOR ?n"] parse_rseq_enc [of mem data ?n dl] assms
      by (simp add: enc_rvar_def var_encoding_def)
  qed
  have st: "stored mem (data + length hd) (enc_contents b)" using assms(3) by (simp add: e)
  have "stored mem (data + length hd + length (enc_oid ASN_OBJECT_ID (fst b))) (venc (snd b))"
    using st by (simp add: enc_contents_def)
  with parse_var_op_contents [OF assms(1) st seq _ assms(5,6)] assms(4) show ?thesis
    by (auto simp: e add.assoc)
qed

end
