(* ===== verification/Snmp_Pdu.thy ===== *)
theory Snmp_Pdu
  imports Snmp_Var
begin

unbundle bit_operations_syntax

section \<open>Protocol data units (\<open>snmplib/snmp_api.c\<close>)\<close>

text \<open>
  \<open>snmp_pdu_build\<close>, \<open>snmp_pdu_realloc_rbuild\<close> and \<open>snmp_pdu_parse\<close>.  The record has the fields of
  \<open>struct snmp_pdu\<close> these functions read and write; of \<open>flags\<close> it keeps the bit
  \<open>UCD_MSG_FLAG_RESPONSE_PDU\<close>.  The linked list of variables is a list.  A \<open>return -1\<close> or \<open>return NULL\<close> is
  an \<open>Inl\<close>; \<open>BadPduType\<close> is the branch that also counts \<open>STAT_SNMPINASNPARSEERRS\<close>.
\<close>

abbreviation (input) SNMP_MSG_GET :: u8 where "SNMP_MSG_GET \<equiv> 0xa0"
abbreviation (input) SNMP_MSG_GETNEXT :: u8 where "SNMP_MSG_GETNEXT \<equiv> 0xa1"
abbreviation (input) SNMP_MSG_RESPONSE :: u8 where "SNMP_MSG_RESPONSE \<equiv> 0xa2"
abbreviation (input) SNMP_MSG_SET :: u8 where "SNMP_MSG_SET \<equiv> 0xa3"
abbreviation (input) SNMP_MSG_TRAP :: u8 where "SNMP_MSG_TRAP \<equiv> 0xa4"
abbreviation (input) SNMP_MSG_GETBULK :: u8 where "SNMP_MSG_GETBULK \<equiv> 0xa5"
abbreviation (input) SNMP_MSG_INFORM :: u8 where "SNMP_MSG_INFORM \<equiv> 0xa6"
abbreviation (input) SNMP_MSG_TRAP2 :: u8 where "SNMP_MSG_TRAP2 \<equiv> 0xa7"
abbreviation (input) SNMP_MSG_REPORT :: u8 where "SNMP_MSG_REPORT \<equiv> 0xa8"

record netsnmp_pdu =
  command :: u8
  reqid :: u64
  errstat :: u64
  errindex :: u64
  uptime :: u64
  response_pdu :: bool
  enterprise :: oid
  agent_addr :: bytes
  trap_type :: u64
  specific_type :: u64
  variables :: "netsnmp_variable list"


subsection \<open>Parsing\<close>

definition snmp_set_var_objid :: "(nat \<Rightarrow> bool) \<Rightarrow> oid \<Rightarrow> nat \<Rightarrow> oid res" where
  "snmp_set_var_objid alloc objid name_length =
     (if 8 * name_length \<le> 8 * 128 \<or> alloc (8 * name_length) then Inr (take name_length objid) else Inl NoMemory)"

text \<open>
  The loop over the bindings.  A \<open>netsnmp_variable_list\<close> takes 1136 bytes.  The pointer moves
  forward in every round and a round that starts behind the buffer fails, so the loop ends.
\<close>

lemma parse_var_op_moves:
  assumes "snmp_parse_var_op mem data objid n len = Inr (data', r)"
  shows "data < length mem \<and> data < data'"
proof -
  obtain d1 l1 t1 d2 l2 t2 o' n' d3 vl t3 where
    p: "asn_parse_sequence mem data len ASN_SEQUENCE_CONSTRUCTOR = Inr (d1, l1, t1)"
      "asn_parse_objid mem d1 l1 objid n = Inr (d2, l2, t2, o', n')"
      "asn_parse_header mem d2 l2 = Inr (d3, vl, t3)" "data' = d3 + vl"
    using assms by (auto simp: snmp_parse_var_op_def ebind_eq_Inr split: if_splits)
  have h: "asn_parse_header mem data len = Inr (d1, l1, t1)"
    using p(1) by (auto simp: asn_parse_sequence_def ebind_eq_Inr split: if_splits)
  have "data < length mem" using h by (auto simp: asn_parse_header_def ebind_eq_Inr rd_def split: if_splits)
  moreover have "data < d1" "d2 < d3" using asn_parse_header_bounds h p(3) by blast+
  moreover have "d1 < d2" using asn_parse_objid_moves [OF p(2)] by simp
  ultimately show ?thesis using p(4) by linarith
qed

function parse_vars ::
  "(nat \<Rightarrow> bool) \<Rightarrow> bytes \<Rightarrow> nat \<Rightarrow> nat \<Rightarrow> oid \<Rightarrow> bool \<Rightarrow> (netsnmp_variable list \<times> bool) res" where
  "parse_vars alloc mem data len objid badtype =
     (if sint (word_of_nat len :: u32) > 0 then
        if \<not> alloc 1136 then Inl NoMemory
        else ebind (snmp_parse_var_op mem data objid 128 len)
          (\<lambda>(data', objid1, name_length, val_type, val_len, var_val, len').
        ebind (snmp_set_var_objid alloc objid1 name_length) (\<lambda>name.
        ebind (parse_value alloc mem var_val val_type val_len objid1) (\<lambda>(ty, val, val_len', objid2, bad).
        ebind (parse_vars alloc mem data' len' objid2 (badtype \<or> bad)) (\<lambda>(vars, badtype').
        Inr (\<lparr>v_name = name, v_type = ty, v_val = val, v_val_len = val_len'\<rparr> # vars, badtype')))))
      else Inr ([], badtype))"
  by pat_completeness auto
termination
proof (relation "measure (\<lambda>(alloc, mem, data, len, objid, badtype). length mem - data)", goal_cases)
  case (2 alloc mem data len objid badtype r data' r1 objid1 r2 nl r3 vt r4 vl r5 vv len' name x ty x1 val x2 vl' x3 objid2 bad)
  then show ?case using parse_var_op_moves [of mem data objid 128 len data'] by auto
qed simp

declare parse_vars.simps [simp del]

definition parse_trap_fields ::
  "(nat \<Rightarrow> bool) \<Rightarrow> bytes \<Rightarrow> nat \<Rightarrow> nat \<Rightarrow> oid \<Rightarrow> netsnmp_pdu \<Rightarrow> (nat \<times> nat \<times> oid \<times> netsnmp_pdu) res" where
  "parse_trap_fields alloc mem data len objid pdu =
     ebind (asn_parse_objid mem data len objid 128) (\<lambda>(data1, len1, _, objid', n).
     if \<not> alloc (n * 8) then Inl NoMemory
     else ebind (asn_parse_string mem data1 len1 (agent_addr pdu) 4) (\<lambda>(data2, len2, _, addr, _).
     ebind (asn_parse_int mem data2 len2 8) (\<lambda>(data3, len3, _, tt).
     ebind (asn_parse_int mem data3 len3 8) (\<lambda>(data4, len4, _, st).
     ebind (asn_parse_unsigned_int mem data4 len4 8) (\<lambda>(data5, len5, _, t).
     Inr (data5, len5, objid',
          pdu\<lparr>enterprise := take n objid', agent_addr := addr, trap_type := tt, specific_type := st, uptime := t\<rparr>))))))"

definition parse_request_fields ::
  "bytes \<Rightarrow> nat \<Rightarrow> nat \<Rightarrow> netsnmp_pdu \<Rightarrow> (nat \<times> nat \<times> netsnmp_pdu) res" where
  "parse_request_fields mem data len pdu =
     ebind (asn_parse_int mem data len 8) (\<lambda>(data1, len1, _, id).
     ebind (asn_parse_int mem data1 len1 8) (\<lambda>(data2, len2, _, es).
     ebind (asn_parse_int mem data2 len2 8) (\<lambda>(data3, len3, _, ei).
     Inr (data3, len3, pdu\<lparr>reqid := id, errstat := es, errindex := ei\<rparr>))))"

definition request_command :: "u8 \<Rightarrow> bool" where
  "request_command c \<longleftrightarrow> c = SNMP_MSG_RESPONSE \<or> c = SNMP_MSG_REPORT \<or> c = SNMP_MSG_GET \<or> c = SNMP_MSG_GETNEXT \<or>
     c = SNMP_MSG_GETBULK \<or> c = SNMP_MSG_SET \<or> c = SNMP_MSG_TRAP2 \<or> c = SNMP_MSG_INFORM"

text \<open>\<open>objid\<close> is the local array of 128 elements with whatever it held before.\<close>

definition snmp_pdu_parse ::
  "(nat \<Rightarrow> bool) \<Rightarrow> oid \<Rightarrow> bytes \<Rightarrow> nat \<Rightarrow> nat \<Rightarrow> netsnmp_pdu \<Rightarrow> (int \<times> netsnmp_pdu) res" where
  "snmp_pdu_parse alloc objid mem data len pdu =
     ebind (asn_parse_header mem data len) (\<lambda>(data1, len1, msg_type).
     let pdu1 = pdu\<lparr>command := msg_type, response_pdu := False\<rparr> in
     ebind (if msg_type = SNMP_MSG_TRAP then parse_trap_fields alloc mem data1 len1 objid pdu1
            else if request_command msg_type then
              ebind (parse_request_fields mem data1 len1
                       (pdu1\<lparr>response_pdu := (msg_type = SNMP_MSG_RESPONSE \<or> msg_type = SNMP_MSG_REPORT)\<rparr>))
                (\<lambda>(data2, len2, pdu2). Inr (data2, len2, objid, pdu2))
            else Inl (BadPduType msg_type)) (\<lambda>(data2, len2, objid2, pdu2).
     ebind (asn_parse_sequence mem data2 len2 ASN_SEQUENCE_CONSTRUCTOR) (\<lambda>(data3, len3, _).
     ebind (parse_vars alloc mem data3 len3 objid2 False) (\<lambda>(vars, badtype).
     Inr (if badtype then -1 else 0, if vars = [] then pdu2 else pdu2\<lparr>variables := vars\<rparr>)))))"


subsection \<open>Building\<close>

definition build_fields :: "netsnmp_pdu \<Rightarrow> bytes \<Rightarrow> nat \<Rightarrow> nat \<Rightarrow> bstate res" where
  "build_fields pdu m d l =
     (if command pdu \<noteq> SNMP_MSG_TRAP then
        ebind (asn_build_int m d l ASN_INTEGER (reqid pdu) 8) (\<lambda>(m, d, l).
        ebind (asn_build_int m d l ASN_INTEGER (errstat pdu) 8) (\<lambda>(m, d, l).
        asn_build_int m d l ASN_INTEGER (errindex pdu) 8))
      else
        ebind (asn_build_objid m d l ASN_OBJECT_ID (enterprise pdu) (length (enterprise pdu))) (\<lambda>(m, d, l).
        ebind (asn_build_string m d l ASN_IPADDRESS (Some (agent_addr pdu)) 4) (\<lambda>(m, d, l).
        ebind (asn_build_int m d l ASN_INTEGER (trap_type pdu) 8) (\<lambda>(m, d, l).
        ebind (asn_build_int m d l ASN_INTEGER (specific_type pdu) 8) (\<lambda>(m, d, l).
        asn_build_unsigned_int m d l ASN_TIMETICKS (uptime pdu) 8)))))"

fun build_vars :: "netsnmp_variable list \<Rightarrow> bytes \<Rightarrow> nat \<Rightarrow> nat \<Rightarrow> bstate res" where
  "build_vars [] m d l = Inr (m, d, l)"
| "build_vars (vp # vps) m d l = ebind (snmp_build_var_op vp m d l) (\<lambda>(m, d, l). build_vars vps m d l)"

text \<open>
  The two lengths are inserted at the end; the second call finds the local copy of \<open>*out_length\<close>
  already reduced by the first.
\<close>

definition snmp_pdu_build :: "netsnmp_pdu \<Rightarrow> bytes \<Rightarrow> nat \<Rightarrow> nat \<Rightarrow> bstate res" where
  "snmp_pdu_build pdu mem cp out_length =
     ebind (asn_build_sequence mem cp out_length (command pdu) 0) (\<lambda>(m1, h1e, l1).
     ebind (build_fields pdu m1 h1e l1) (\<lambda>(m2, h2, l2).
     ebind (asn_build_sequence m2 h2 l2 ASN_SEQUENCE_CONSTRUCTOR 0) (\<lambda>(m3, h2e, l3).
     ebind (build_vars (variables pdu) m3 h2e l3) (\<lambda>(m4, cp', l4).
     ebind (insert_header m4 h2 out_length ASN_SEQUENCE_CONSTRUCTOR (cp' - h2e)) (\<lambda>m5.
     ebind (insert_header m5 cp (if out_length < 4 then out_length else out_length - 4) (command pdu) (cp' - h1e)) (\<lambda>m6.
     Inr (m6, cp', l4)))))))"


subsection \<open>Encodings of PDUs\<close>

definition int_field :: "u64 \<Rightarrow> bool" where
  "int_field x \<longleftrightarrow> - (2 ^ 31) \<le> sint x \<and> sint x < 2 ^ 32"

definition pdu_ok :: "netsnmp_pdu \<Rightarrow> binding list \<Rightarrow> bool" where
  "pdu_ok pdu bs \<longleftrightarrow> variables pdu = map var_of bs \<and> (\<forall>b\<in>set bs. bok b) \<and>
     (if command pdu = SNMP_MSG_TRAP
      then valid_oid (enterprise pdu) \<and> length (agent_addr pdu) = 4 \<and> int_field (trap_type pdu) \<and>
        int_field (specific_type pdu) \<and> unat (uptime pdu) < 2 ^ 32
      else request_command (command pdu) \<and> int_field (reqid pdu) \<and> int_field (errstat pdu) \<and> int_field (errindex pdu))"

definition enc_fields :: "netsnmp_pdu \<Rightarrow> bytes" where
  "enc_fields pdu =
     (if command pdu = SNMP_MSG_TRAP
      then enc_oid ASN_OBJECT_ID (enterprise pdu) @ enc_string ASN_IPADDRESS (agent_addr pdu) @
        enc_int ASN_INTEGER (trap_type pdu) @ enc_int ASN_INTEGER (specific_type pdu) @ enc_int ASN_TIMETICKS (uptime pdu)
      else enc_int ASN_INTEGER (reqid pdu) @ enc_int ASN_INTEGER (errstat pdu) @ enc_int ASN_INTEGER (errindex pdu))"

text \<open>With the four-byte headers of the forward encoder.\<close>

definition enc_body :: "netsnmp_pdu \<Rightarrow> binding list \<Rightarrow> bytes" where
  "enc_body pdu bs = (let vb = concat (map enc_var bs) in
     enc_fields pdu @ enc_seq ASN_SEQUENCE_CONSTRUCTOR (length vb) @ vb)"

definition enc_pdu :: "netsnmp_pdu \<Rightarrow> binding list \<Rightarrow> bytes" where
  "enc_pdu pdu bs = enc_seq (command pdu) (length (enc_body pdu bs)) @ enc_body pdu bs"

lemma builds_int_field: "int_field x \<Longrightarrow> builds (\<lambda>m d l. asn_build_int m d l ASN_INTEGER x 8) (enc_int ASN_INTEGER x)"
  using builds_int [of ASN_INTEGER x] by (simp add: int_field_def check_overflow_s_range)

lemma builds_fields:
  assumes "pdu_ok pdu bs"
  shows "builds (build_fields pdu) (enc_fields pdu)"
proof (cases "command pdu = SNMP_MSG_TRAP")
  case True
  have "builds (\<lambda>m d l. asn_build_unsigned_int m d l ASN_TIMETICKS (uptime pdu) 8) (enc_int ASN_TIMETICKS (uptime pdu))"
    using builds_unsigned_int [of ASN_TIMETICKS "uptime pdu"] assms True check_overflow_u_id by (simp add: pdu_ok_def)
  moreover have "builds (\<lambda>m d l. asn_build_string m d l ASN_IPADDRESS (Some (agent_addr pdu)) 4)
      (enc_string ASN_IPADDRESS (agent_addr pdu))"
    using builds_string [of ASN_IPADDRESS "agent_addr pdu"] assms True by (simp add: pdu_ok_def)
  ultimately show ?thesis
    using assms True unfolding build_fields_def [abs_def] enc_fields_def
    by (auto simp: pdu_ok_def intro!: builds_bind builds_objid builds_int_field)
next
  case False
  then show ?thesis
    using assms unfolding build_fields_def [abs_def] enc_fields_def
    by (auto simp: pdu_ok_def intro!: builds_bind builds_int_field)
qed

lemma builds_vars: "\<forall>b\<in>set bs. bok b \<Longrightarrow> builds (build_vars (map var_of bs)) (concat (map enc_var bs))"
proof (induction bs)
  case Nil
  have "build_vars [] = (\<lambda>m d l. Inr (m, d, l))" by (intro ext) simp
  then show ?case by (simp add: builds_Nil)
next
  case (Cons b bs)
  have "build_vars (map var_of (b # bs)) =
      (\<lambda>m d l. ebind (snmp_build_var_op (var_of b) m d l) (\<lambda>(m, d, l). build_vars (map var_of bs) m d l))"
    by (intro ext) simp
  with Cons show ?case by (simp add: builds_bind builds_var)
qed

lemma build_sequence_ok:
  "4 \<le> l \<Longrightarrow> d + 4 \<le> length m \<Longrightarrow>
   asn_build_sequence m d l type n = Inr (store_at m d (enc_seq type n), d + 4, l - 4)"
  by (simp add: asn_build_sequence_def enc_seq_def mem_simps)

text \<open>A placeholder that is overwritten later leaves no trace.\<close>

lemma store_at_overlay:
  assumes "length h' = length h" and "d + length h + length c \<le> length m"
  shows "store_at (store_at m d (h @ c)) d h' = store_at m d (h' @ c)"
  using assms by (simp add: store_at_def)

lemma pdu_build_stores:
  assumes f: "builds (build_fields pdu) F" and v: "builds (build_vars (variables pdu)) V"
    and mem: "cp + l \<le> length mem" and room: "8 + length F + length V \<le> l"
  shows "snmp_pdu_build pdu mem cp l =
    Inr (store_at mem cp (enc_seq (command pdu) (length F + 4 + length V) @ F @
          enc_seq ASN_SEQUENCE_CONSTRUCTOR (length V) @ V),
        cp + (8 + length F + length V), l - (8 + length F + length V))"
proof -
  let ?c = "command pdu" and ?s = ASN_SEQUENCE_CONSTRUCTOR
  let ?hz = "enc_seq ?c 0" and ?gz = "enc_seq ?s 0" and ?g = "enc_seq ?s (length V)" and ?h = "enc_seq ?c (length F + 4 + length V)"
  have 1: "asn_build_sequence mem cp l ?c 0 = Inr (store_at mem cp ?hz, cp + 4, l - 4)"
    using mem room by (intro build_sequence_ok) linarith+
  have 2: "build_fields pdu (store_at mem cp ?hz) (cp + 4) (l - 4) =
      Inr (store_at mem cp (?hz @ F), cp + 4 + length F, l - 4 - length F)"
    using builds_ok [OF f, of "cp + 4" "l - 4" "store_at mem cp ?hz"] mem room
      store_at_store_at [of cp ?hz F mem] by simp
  have 3: "asn_build_sequence (store_at mem cp (?hz @ F)) (cp + 4 + length F) (l - 4 - length F) ?s 0 =
      Inr (store_at mem cp ((?hz @ F) @ ?gz), cp + 8 + length F, l - 8 - length F)"
    using build_sequence_ok [of "l - 4 - length F" "cp + 4 + length F" "store_at mem cp (?hz @ F)" ?s 0] mem room
      store_at_store_at [of cp "?hz @ F" ?gz mem] by (simp add: add.assoc)
  have 4: "build_vars (variables pdu) (store_at mem cp ((?hz @ F) @ ?gz)) (cp + 8 + length F) (l - 8 - length F) =
      Inr (store_at mem cp ((?hz @ F @ ?gz) @ V), cp + 8 + length F + length V, l - 8 - length F - length V)"
    using builds_ok [OF v, of "cp + 8 + length F" "l - 8 - length F" "store_at mem cp ((?hz @ F) @ ?gz)"] mem room
      store_at_store_at [of cp "?hz @ F @ ?gz" V mem] by (simp add: ac_simps)
  have 5: "insert_header (store_at mem cp ((?hz @ F @ ?gz) @ V)) (cp + 4 + length F) l ?s (length V) =
      Inr (store_at mem cp (?hz @ F @ ?g @ V))"
  proof -
    have "store_at mem cp ((?hz @ F @ ?gz) @ V) =
        store_at (store_at mem cp (?hz @ F)) (cp + 4 + length F) (?gz @ V)"
      using store_at_store_at [of cp "?hz @ F" "?gz @ V" mem] mem room by (simp add: add.assoc)
    then have "store_at (store_at mem cp ((?hz @ F @ ?gz) @ V)) (cp + 4 + length F) ?g =
        store_at (store_at mem cp (?hz @ F)) (cp + 4 + length F) (?g @ V)"
      using store_at_overlay [of ?g ?gz "cp + 4 + length F" V "store_at mem cp (?hz @ F)"] mem room by simp
    also have "\<dots> = store_at mem cp (?hz @ F @ ?g @ V)"
      using store_at_store_at [of cp "?hz @ F" "?g @ V" mem] mem room by (simp add: add.assoc)
    finally show ?thesis using mem room by (subst insert_header_enc) (simp_all add: add.assoc)
  qed
  have 6: "insert_header (store_at mem cp (?hz @ F @ ?g @ V)) cp (l - 4) ?c (length F + 4 + length V) =
      Inr (store_at mem cp (?h @ F @ ?g @ V))"
    using mem room store_at_overlay [of ?h ?hz cp "F @ ?g @ V" mem] by (subst insert_header_enc) simp_all
  have "cp + 8 + length F + length V - (cp + 4) = length F + 4 + length V"
    "cp + 8 + length F + length V - (cp + 8 + length F) = length V" by simp_all
  then show ?thesis
    using 1 2 3 4 5 6 room by (simp add: snmp_pdu_build_def ac_simps)
qed


subsection \<open>Parsing what was built\<close>

lemma sint_small: "n < 2 ^ 31 \<Longrightarrow> sint (word_of_nat n :: u32) = int n"
proof -
  assume "n < 2 ^ 31"
  then have "signed_take_bit 31 (int n) = int n" by (intro signed_take_bit_int_eq_self) simp_all
  then show ?thesis by (simp add: signed_of_nat)
qed

lemma parse_vars_enc:
  "list_all2 var_encoding bs es \<Longrightarrow> \<forall>b\<in>set bs. bok b \<Longrightarrow> stored mem data (concat es) \<Longrightarrow>
   length (concat es) < 2 ^ 31 \<Longrightarrow> length objid = 128 \<Longrightarrow> (\<And>n. alloc n) \<Longrightarrow>
   parse_vars alloc mem data (length (concat es)) objid badtype = Inr (map var_of bs, badtype)"
proof (induction bs es arbitrary: data objid rule: list_all2_induct)
  case Nil
  then show ?case by (simp add: parse_vars.simps)
next
  case (Cons b bs e es)
  have b: "bok b" and e: "stored mem data e" "length e \<le> length (concat (e # es))"
    using Cons.prems by simp_all
  obtain n var_val where p: "snmp_parse_var_op mem data objid 128 (length (concat (e # es))) =
      Inr (data + length e, store_at objid 0 (fst b), length (fst b), vtype (snd b), n, var_val, length (concat es))"
      "announces (snd b) n" "stored mem var_val (venc (snd b))"
    using parse_var_op_enc [OF b Cons.hyps(1) e Cons.prems(3,4)] by auto
  have nm: "length (fst b) \<le> 128" "vok (snd b)" using b valid_oid_max by (auto simp: bok_def)
  have o1: "length (store_at objid 0 (fst b)) = 128" using nm(1) Cons.prems(4) by simp
  obtain objid' where v: "parse_value alloc mem var_val (vtype (snd b)) n (store_at objid 0 (fst b)) =
      Inr (vtype (snd b), native (snd b), vlen (snd b), objid', False)" "length objid' = 128"
    using value_parse [where alloc = alloc, OF nm(2) p(3,2) o1 Cons.prems(5)] by blast
  have "0 < length e" using Cons.hyps(1) by (auto simp: var_encoding_def enc_var_def enc_rvar_def enc_seq_def enc_header_def)
  then have "0 < length (concat (e # es))" by simp
  then have pos: "sint (word_of_nat (length (concat (e # es))) :: u32) > 0"
    unfolding sint_small [OF Cons.prems(3)] by (simp only: of_nat_0_less_iff)
  have name: "snmp_set_var_objid alloc (store_at objid 0 (fst b)) (length (fst b)) = Inr (fst b)"
    using nm(1) by (simp add: snmp_set_var_objid_def store_at_def)
  have IH: "parse_vars alloc mem (data + length e) (length (concat es)) objid' badtype = Inr (map var_of bs, badtype)"
    using Cons.prems v(2) by (intro Cons.IH) simp_all
  show ?case
    using pos p(1) v(1) name IH Cons.prems(5)
    by (subst parse_vars.simps) (simp add: var_of_def)
qed

definition received :: "netsnmp_pdu \<Rightarrow> netsnmp_pdu \<Rightarrow> netsnmp_pdu" where
  "received pdu0 pdu =
     (let p1 = pdu0\<lparr>command := command pdu,
            response_pdu := (command pdu = SNMP_MSG_RESPONSE \<or> command pdu = SNMP_MSG_REPORT)\<rparr>;
          p2 = (if command pdu = SNMP_MSG_TRAP
                then p1\<lparr>enterprise := enterprise pdu, agent_addr := agent_addr pdu, trap_type := trap_type pdu,
                        specific_type := specific_type pdu, uptime := uptime pdu\<rparr>
                else p1\<lparr>reqid := reqid pdu, errstat := errstat pdu, errindex := errindex pdu\<rparr>) in
      if variables pdu = [] then p2 else p2\<lparr>variables := variables pdu\<rparr>)"

lemma parse_int_field:
  "int_field x \<Longrightarrow> stored mem d (enc_int ASN_INTEGER x) \<Longrightarrow> length (enc_int ASN_INTEGER x) \<le> l \<Longrightarrow>
   asn_parse_int mem d l 8 = Inr (d + length (enc_int ASN_INTEGER x), l - length (enc_int ASN_INTEGER x), ASN_INTEGER, x)"
  using asn_parse_int_enc [of mem d x l] by (simp add: int_field_def check_overflow_s_range)

lemma parse_request_enc:
  assumes "pdu_ok pdu bs" and "command pdu \<noteq> SNMP_MSG_TRAP" and "stored mem d (enc_fields pdu)" and "length (enc_fields pdu) \<le> l"
  shows "parse_request_fields mem d l p = Inr (d + length (enc_fields pdu), l - length (enc_fields pdu),
    p\<lparr>reqid := reqid pdu, errstat := errstat pdu, errindex := errindex pdu\<rparr>)"
proof -
  let ?e = "\<lambda>x. length (enc_int ASN_INTEGER x)"
  show ?thesis
    using assms parse_int_field [of "reqid pdu" mem d l] parse_int_field [of "errstat pdu" mem "d + ?e (reqid pdu)" "l - ?e (reqid pdu)"]
      parse_int_field [of "errindex pdu" mem "d + ?e (reqid pdu) + ?e (errstat pdu)" "l - ?e (reqid pdu) - ?e (errstat pdu)"]
    by (simp add: parse_request_fields_def pdu_ok_def enc_fields_def add.assoc)
qed

lemma parse_trap_enc:
  assumes ok: "pdu_ok pdu bs" and trap: "command pdu = SNMP_MSG_TRAP" and st: "stored mem d (enc_fields pdu)"
    and l: "length (enc_fields pdu) \<le> l" and obj: "length objid = 128" and addr: "length (agent_addr p) = 4"
    and alloc: "\<And>n. alloc n"
  shows "\<exists>objid'. parse_trap_fields alloc mem d l objid p = Inr (d + length (enc_fields pdu), l - length (enc_fields pdu), objid',
    p\<lparr>enterprise := enterprise pdu, agent_addr := agent_addr pdu, trap_type := trap_type pdu,
      specific_type := specific_type pdu, uptime := uptime pdu\<rparr>) \<and> length objid' = 128"
proof -
  let ?o = "enc_oid ASN_OBJECT_ID (enterprise pdu)" and ?s = "enc_string ASN_IPADDRESS (agent_addr pdu)"
  have o: "asn_parse_objid mem d l objid 128 = Inr (d + length ?o, l - length ?o, ASN_OBJECT_ID,
      store_at objid 0 (enterprise pdu), length (enterprise pdu))"
    using oid_codec.parse_enc [where v = "enterprise pdu" and objid = objid and objidlength = 128 and dl = l and mem = mem and data = d]
      ok trap st l obj valid_oid_max by (simp add: pdu_ok_def enc_fields_def)
  have s: "asn_parse_string mem (d + length ?o) (l - length ?o) (agent_addr p) 4 =
      Inr (d + length ?o + length ?s, l - length ?o - length ?s, ASN_IPADDRESS, agent_addr pdu, 4)"
    using string_codec.parse_enc [of 4 "agent_addr p" "(ASN_IPADDRESS, agent_addr pdu)" mem "d + length ?o" "l - length ?o"]
      ok trap st l addr by (simp add: pdu_ok_def enc_fields_def string_type_def copied_def store_at_def)
  let ?t = "d + length ?o + length ?s + length (enc_int ASN_INTEGER (trap_type pdu)) + length (enc_int ASN_INTEGER (specific_type pdu))"
  have t: "asn_parse_unsigned_int mem ?t k 8 = Inr (?t + length (enc_int ASN_TIMETICKS (uptime pdu)),
      k - length (enc_int ASN_TIMETICKS (uptime pdu)), ASN_TIMETICKS, uptime pdu)"
    if "length (enc_int ASN_TIMETICKS (uptime pdu)) \<le> k" for k
    using asn_parse_unsigned_int_enc [of mem ?t ASN_TIMETICKS "uptime pdu" k] ok trap st that
    by (simp add: pdu_ok_def enc_fields_def unsigned_type_def check_overflow_u_id add.assoc)
  let ?i = "d + length ?o + length ?s" and ?k = "l - length ?o - length ?s"
  have i: "asn_parse_int mem ?i ?k 8 = Inr (?i + length (enc_int ASN_INTEGER (trap_type pdu)),
      ?k - length (enc_int ASN_INTEGER (trap_type pdu)), ASN_INTEGER, trap_type pdu)"
    using parse_int_field [of "trap_type pdu" mem ?i ?k] ok trap st l by (simp add: pdu_ok_def enc_fields_def add.assoc)
  let ?j = "?i + length (enc_int ASN_INTEGER (trap_type pdu))" and ?m = "?k - length (enc_int ASN_INTEGER (trap_type pdu))"
  have j: "asn_parse_int mem ?j ?m 8 = Inr (?j + length (enc_int ASN_INTEGER (specific_type pdu)),
      ?m - length (enc_int ASN_INTEGER (specific_type pdu)), ASN_INTEGER, specific_type pdu)"
    using parse_int_field [of "specific_type pdu" mem ?j ?m] ok trap st l by (simp add: pdu_ok_def enc_fields_def add.assoc)
  have "length (enc_int ASN_TIMETICKS (uptime pdu)) \<le> ?m - length (enc_int ASN_INTEGER (specific_type pdu))"
    using l trap by (simp add: enc_fields_def)
  from t [OF this] o s i j show ?thesis
    using trap alloc obj ok valid_oid_max [of "enterprise pdu"]
    by (simp add: parse_trap_fields_def pdu_ok_def enc_fields_def add.assoc store_at_def)
qed

lemma pdu_parse_stored:
  assumes ok: "pdu_ok pdu bs" and obj: "length objid = 128" and addr: "length (agent_addr pdu0) = 4" and alloc: "\<And>n. alloc n"
    and hd: "asn_parse_header mem data dl = Inr (d1, n1, command pdu)"
    and st: "stored mem d1 (enc_fields pdu)" and n1: "length (enc_fields pdu) \<le> n1"
    and seq: "asn_parse_sequence mem (d1 + length (enc_fields pdu)) (n1 - length (enc_fields pdu)) ASN_SEQUENCE_CONSTRUCTOR =
      Inr (d3, length (concat es), ASN_SEQUENCE_CONSTRUCTOR)"
    and vs: "stored mem d3 (concat es)" "list_all2 var_encoding bs es" "length (concat es) < 2 ^ 31"
  shows "snmp_pdu_parse alloc objid mem data dl pdu0 = Inr (0, received pdu0 pdu)"
proof -
  let ?p = "pdu0\<lparr>command := command pdu, response_pdu := False\<rparr>"
  have vars: "parse_vars alloc mem d3 (length (concat es)) objid' False = Inr (variables pdu, False)"
    if "length objid' = 128" for objid'
    using parse_vars_enc [OF vs(2) _ vs(1,3) that alloc] ok by (simp add: pdu_ok_def)
  show ?thesis
  proof (cases "command pdu = SNMP_MSG_TRAP")
    case True
    then show ?thesis
      using hd seq parse_trap_enc [OF ok True st n1 obj, of ?p alloc] addr alloc vars
      by (auto simp: snmp_pdu_parse_def Let_def received_def)
  next
    case False
    moreover have "request_command (command pdu)" using ok False by (simp add: pdu_ok_def)
    ultimately show ?thesis
      using hd seq parse_request_enc [OF ok False st n1] vars [OF obj]
      by (auto simp: snmp_pdu_parse_def Let_def received_def)
  qed
qed


subsection \<open>Memory safety of the PDU decoder\<close>

lemma parse_value_safe:
  assumes hd: "asn_parse_header mem var_val len = Inr (d, val_len, type)" and mem: "var_val + len + 32 \<le> length mem"
    and obj: "length objid = 128"
  shows "safe (parse_value alloc mem var_val type val_len objid) \<and>
    (\<forall>ty val n objid' bad. parse_value alloc mem var_val type val_len objid = Inr (ty, val, n, objid', bad) \<longrightarrow> length objid' = 128)"
proof -
  have near: "var_val + 30 \<le> length mem" using mem by simp
  note fixed = int_decoders_near [OF near] uint64_decoder_near [OF near] int64_decoder_near [OF near] float_decoders_near [OF near]
  have p: "rd mem var_val = Inr type" "asn_parse_length mem (var_val + 1) = Inr (d, val_len)"
      "d + val_len \<le> length mem" "d < length mem" if "\<not> opaque_special type"
    using asn_parse_header_plain [OF hd that] mem by auto
  show ?thesis
  proof (cases "type \<in> {ASN_IPADDRESS, ASN_OCTET_STR, ASN_OPAQUE, ASN_NSAP, ASN_OBJECT_ID, ASN_BIT_STR}")
    case True
    then have "\<not> opaque_special type" by (auto simp: opaque_special_def)
    note q = p [OF this]
    have "safe (asn_parse_string mem var_val MAX_PACKET_LENGTH (replicate (if val_len < 40 then 40 else val_len) 0) val_len)"
      "safe (asn_parse_bitstring mem var_val MAX_PACKET_LENGTH (replicate val_len 0) val_len)"
      using string_decoder_inside [OF q(1-3)] bitstring_decoder_inside [OF q] by simp_all
    moreover have "safe (asn_parse_objid mem var_val MAX_PACKET_LENGTH objid 128) \<and>
        (\<forall>data' dl' ty objid' m. asn_parse_objid mem var_val MAX_PACKET_LENGTH objid 128 = Inr (data', dl', ty, objid', m) \<longrightarrow>
           length objid' = length objid \<and> m \<le> 128)"
      using objid_decoder_inside [OF q(1-3), of 128 objid] obj by simp
    ultimately show ?thesis
      using True obj by (auto simp: parse_value_def ebind_eq_Inr intro!: safe_ebind split: if_splits)
  next
    case False
    then show ?thesis
      using fixed obj by (auto simp: parse_value_def ebind_eq_Inr intro!: safe_ebind split: if_splits)
  qed
qed

lemma parse_sequence_bounds:
  assumes "asn_parse_sequence mem data dl t = Inr (d, n, ty)"
  shows "data < d \<and> d + n \<le> data + dl"
  using assms asn_parse_header_bounds [of mem data dl d n ty]
  by (auto simp: asn_parse_sequence_def ebind_eq_Inr split: if_splits)

lemma parse_sequence_safe: "data + dl + 11 \<le> length mem \<Longrightarrow> safe (asn_parse_sequence mem data dl t)"
  using asn_parse_header_safe [of data dl mem] by (auto simp: asn_parse_sequence_def intro!: safe_ebind)

lemma objid_decoder_slack:
  assumes "data + dl + 10 \<le> length mem" and "length objid = 128"
  shows "safe (asn_parse_objid mem data dl objid 128)"
    and "asn_parse_objid mem data dl objid 128 = Inr (d, l, t, objid', n) \<Longrightarrow> length objid' = 128 \<and> n \<le> 128 \<and> d + l = data + dl"
  using parse_objid_safe [OF assms(1), of 128 objid] asn_parse_objid_moves [of mem data dl objid 128 d l] assms(2) by auto

lemma parse_var_op_safe:
  assumes mem: "data + len + 32 \<le> length mem" and obj: "length objid = 128" and len: "len < 2 ^ 31"
  shows "safe (snmp_parse_var_op mem data objid 128 len)"
    and "snmp_parse_var_op mem data objid 128 len = Inr (data', objid', nl, vt, vl, vv, len') \<Longrightarrow>
      data' + len' = data + len \<and> length objid' = 128 \<and> (\<exists>k d. asn_parse_header mem vv k = Inr (d, vl, vt) \<and> vv + k \<le> data + len)"
proof -
  have s: "safe (asn_parse_sequence mem data len ASN_SEQUENCE_CONSTRUCTOR)" using mem by (intro parse_sequence_safe) simp
  have o: "safe (asn_parse_objid mem d1 l1 objid 128)" if "d1 + l1 \<le> data + len" for d1 l1
    using that mem obj by (intro objid_decoder_slack) simp_all
  have h: "safe (asn_parse_header mem d2 l2)" if "d2 + l2 \<le> data + len" for d2 l2
    using that mem by (intro asn_parse_header_safe) simp
  show "safe (snmp_parse_var_op mem data objid 128 len)"
    unfolding snmp_parse_var_op_def
    using s by (auto intro!: safe_ebind o h dest!: parse_sequence_bounds asn_parse_objid_moves)
  assume "snmp_parse_var_op mem data objid 128 len = Inr (data', objid', nl, vt, vl, vv, len')"
  then obtain d1 l1 t1 l2 t2 d3 where p: "asn_parse_sequence mem data len ASN_SEQUENCE_CONSTRUCTOR = Inr (d1, l1, t1)"
      "asn_parse_objid mem d1 l1 objid 128 = Inr (vv, l2, t2, objid', nl)"
      "asn_parse_header mem vv l2 = Inr (d3, vl, vt)" "data' = d3 + vl" "len' = sub_int len (d3 + vl - data)"
    by (auto simp: snmp_parse_var_op_def ebind_eq_Inr split: if_splits)
  have b: "data < d1" "d1 + l1 \<le> data + len" using parse_sequence_bounds [OF p(1)] by simp_all
  have o': "length objid' = 128" "vv + l2 = d1 + l1" "d1 < vv"
    using objid_decoder_slack(2) [OF _ obj p(2)] asn_parse_objid_moves [OF p(2)] b mem by auto
  have h': "vv < d3" "d3 + vl \<le> vv + l2" using asn_parse_header_bounds [OF p(3)] by simp_all
  have "len' = len - (d3 + vl - data)" using b o'(2) h' len unfolding p(5) by (intro sub_int_le) simp_all
  then show "data' + len' = data + len \<and> length objid' = 128 \<and>
      (\<exists>k d. asn_parse_header mem vv k = Inr (d, vl, vt) \<and> vv + k \<le> data + len)"
    using b o' h' p(3,4) by auto
qed

lemma parse_vars_safe:
  "data + len + 32 \<le> length mem \<Longrightarrow> length objid = 128 \<Longrightarrow> len < 2 ^ 31 \<Longrightarrow> safe (parse_vars alloc mem data len objid badtype)"
proof (induction alloc mem data len objid badtype rule: parse_vars.induct)
  case (1 alloc mem data len objid badtype)
  show ?case
  proof (cases "sint (word_of_nat len :: u32) > 0 \<and> alloc 1136")
    case False
    then show ?thesis by (subst parse_vars.simps) auto
  next
    case True
    have rest: "safe (ebind (snmp_set_var_objid alloc objid1 nl) (\<lambda>name.
          ebind (parse_value alloc mem vv vt vl objid1) (\<lambda>(ty, val, n, objid2, bad).
          ebind (parse_vars alloc mem data' len' objid2 (badtype \<or> bad)) (\<lambda>(vars, badtype').
          Inr (\<lparr>v_name = name, v_type = ty, v_val = val, v_val_len = n\<rparr> # vars, badtype')))))"
      if p: "snmp_parse_var_op mem data objid 128 len = Inr (data', objid1, nl, vt, vl, vv, len')" for data' objid1 nl vt vl vv len'
    proof -
      obtain k d where q: "data' + len' = data + len" "length objid1 = 128" "asn_parse_header mem vv k = Inr (d, vl, vt)" "vv + k \<le> data + len"
        using parse_var_op_safe(2) [OF "1.prems" p] by blast
      have v: "safe (parse_value alloc mem vv vt vl objid1) \<and> (\<forall>ty val n objid2 bad.
          parse_value alloc mem vv vt vl objid1 = Inr (ty, val, n, objid2, bad) \<longrightarrow> length objid2 = 128)"
        using "1.prems"(1) q by (intro parse_value_safe [OF q(3)]) simp_all
      have len': "len' < 2 ^ 31" using parse_var_op_moves [OF p] q(1) "1.prems"(3) by linarith
      have IH: "safe (parse_vars alloc mem data' len' objid2 (badtype \<or> bad))"
        if "snmp_set_var_objid alloc objid1 nl = Inr name" "parse_value alloc mem vv vt vl objid1 = Inr (ty, val, n, objid2, bad)" for name ty val n objid2 bad
        using "1.IH" True p that v q(1) "1.prems"(1) len' by auto
      have "safe (snmp_set_var_objid alloc objid1 nl)" by (simp add: snmp_set_var_objid_def)
      then show ?thesis using v IH by (auto intro!: safe_ebind split: prod.splits)
    qed
    have "parse_vars alloc mem data len objid badtype = ebind (snmp_parse_var_op mem data objid 128 len)
        (\<lambda>(data', objid1, nl, vt, vl, vv, len').
          ebind (snmp_set_var_objid alloc objid1 nl) (\<lambda>name.
          ebind (parse_value alloc mem vv vt vl objid1) (\<lambda>(ty, val, n, objid2, bad).
          ebind (parse_vars alloc mem data' len' objid2 (badtype \<or> bad)) (\<lambda>(vars, badtype').
          Inr (\<lparr>v_name = name, v_type = ty, v_val = val, v_val_len = n\<rparr> # vars, badtype')))))"
      using True by (subst parse_vars.simps) simp
    then show ?thesis
      using rest by (auto intro: safe_ebind [OF parse_var_op_safe(1) [OF "1.prems"]])
  qed
qed


lemma int_decoders_slack:
  assumes "d + l + 32 \<le> length mem"
  shows "safe (asn_parse_int mem d l 8)" and "safe (asn_parse_unsigned_int mem d l 8)"
  using assms by (auto intro: int_decoders_near)

lemma string_decoder_slack:
  assumes "d + l + 32 \<le> length mem" and "4 \<le> length str"
  shows "safe (asn_parse_string mem d l str 4)"
  using parse_string_safe [of d l mem 4 str] assms by simp

lemma request_fields_safe:
  assumes "d + l + 32 \<le> length mem"
  shows "safe (parse_request_fields mem d l p)"
    and "parse_request_fields mem d l p = Inr (d', l', p') \<Longrightarrow> d < d' \<and> d' + l' = d + l"
proof -
  have i: "safe (asn_parse_int mem d1 l1 8)" if "d1 + l1 = d + l" for d1 l1
    using assms that by (intro int_decoders_slack) simp
  show "safe (parse_request_fields mem d l p)"
    unfolding parse_request_fields_def by (auto intro!: safe_ebind i dest!: asn_parse_int_moves)
  show "parse_request_fields mem d l p = Inr (d', l', p') \<Longrightarrow> d < d' \<and> d' + l' = d + l"
    by (auto simp: parse_request_fields_def ebind_eq_Inr dest!: asn_parse_int_moves)
qed

lemma trap_fields_safe:
  assumes mem: "d + l + 32 \<le> length mem" and obj: "length objid = 128" and addr: "4 \<le> length (agent_addr p)"
  shows "safe (parse_trap_fields alloc mem d l objid p)"
    and "parse_trap_fields alloc mem d l objid p = Inr (d', l', objid', p') \<Longrightarrow> d < d' \<and> d' + l' = d + l \<and> length objid' = 128"
proof -
  have i: "safe (asn_parse_int mem d1 l1 8)" "safe (asn_parse_unsigned_int mem d1 l1 8)"
      "safe (asn_parse_string mem d1 l1 (agent_addr p) 4)" if "d1 + l1 = d + l" for d1 l1
    using mem that addr by (auto intro: int_decoders_slack string_decoder_slack)
  have o: "safe (asn_parse_objid mem d l objid 128)" using mem obj by (intro objid_decoder_slack) simp_all
  show "safe (parse_trap_fields alloc mem d l objid p)"
    unfolding parse_trap_fields_def using o
    by (auto intro!: safe_ebind i dest!: asn_parse_int_moves asn_parse_string_moves asn_parse_objid_moves)
  have "length o' = 128" if "asn_parse_objid mem d l objid 128 = Inr (d1, l1, t, o', n)" for d1 l1 t o' n
    using objid_decoder_slack(2) [OF _ obj that] mem by simp
  then show "parse_trap_fields alloc mem d l objid p = Inr (d', l', objid', p') \<Longrightarrow> d < d' \<and> d' + l' = d + l \<and> length objid' = 128"
    by (auto simp: parse_trap_fields_def ebind_eq_Inr split: if_splits
        dest!: asn_parse_int_moves asn_parse_string_moves asn_parse_objid_moves)
qed

lemma pdu_parse_safe:
  assumes mem: "data + len + 32 \<le> length mem" and len: "len < 2 ^ 31" and obj: "length objid = 128"
    and addr: "4 \<le> length (agent_addr pdu)"
  shows "safe (snmp_pdu_parse alloc objid mem data len pdu)"
proof -
  have vars: "safe (parse_vars alloc mem d3 l3 objid2 False)" if "d3 + l3 \<le> data + len" "data < d3" "length objid2 = 128" for d3 l3 objid2
    using that mem len by (intro parse_vars_safe) simp_all
  have body: "safe (ebind (asn_parse_sequence mem d2 l2 ASN_SEQUENCE_CONSTRUCTOR) (\<lambda>(data3, len3, _).
     ebind (parse_vars alloc mem data3 len3 objid2 False) (\<lambda>(vars, badtype). Inr (f vars badtype))))"
    if "d2 + l2 \<le> data + len" "data < d2" "length objid2 = 128" for d2 l2 objid2 and f :: "_ \<Rightarrow> _ \<Rightarrow> int \<times> netsnmp_pdu"
  proof (rule safe_ebind)
    show "safe (asn_parse_sequence mem d2 l2 ASN_SEQUENCE_CONSTRUCTOR)" using that mem by (intro parse_sequence_safe) simp
    show "safe (case x of (data3, len3, _) \<Rightarrow> ebind (parse_vars alloc mem data3 len3 objid2 False) (\<lambda>(vars, badtype). Inr (f vars badtype)))"
      if "asn_parse_sequence mem d2 l2 ASN_SEQUENCE_CONSTRUCTOR = Inr x" for x
      using that parse_sequence_bounds [of mem d2 l2 ASN_SEQUENCE_CONSTRUCTOR] \<open>d2 + l2 \<le> data + len\<close> \<open>data < d2\<close> \<open>length objid2 = 128\<close>
      by (cases x) (fastforce intro!: safe_ebind vars)
  qed
  show ?thesis
    unfolding snmp_pdu_parse_def Let_def
  proof (rule safe_ebind, goal_cases)
    case 1
    show ?case using mem by (intro asn_parse_header_safe) simp
  next
    case (2 x)
    obtain d1 l1 ty where x: "x = (d1, l1, ty)" by (cases x)
    have b: "data < d1" "d1 + l1 \<le> data + len" using asn_parse_header_bounds 2 x by blast+
    have m1: "d1 + l1 + 32 \<le> length mem" using b mem by simp
    let ?F = "if ty = SNMP_MSG_TRAP then parse_trap_fields alloc mem d1 l1 objid (pdu\<lparr>command := ty, response_pdu := False\<rparr>)
        else if request_command ty then
          ebind (parse_request_fields mem d1 l1 (pdu\<lparr>command := ty, response_pdu := False,
            response_pdu := ty = SNMP_MSG_RESPONSE \<or> ty = SNMP_MSG_REPORT\<rparr>)) (\<lambda>(data2, len2, pdu2). Inr (data2, len2, objid, pdu2))
        else Inl (BadPduType ty)"
    have f: "safe ?F" using request_fields_safe(1) [OF m1] trap_fields_safe(1) [OF m1 obj] addr by (auto intro!: safe_ebind)
    have g: "d1 < d2 \<and> d2 + l2 = d1 + l1 \<and> length objid2 = 128" if res: "?F = Inr (d2, l2, objid2, p2)" for d2 l2 objid2 p2
    proof (cases "ty = SNMP_MSG_TRAP")
      case True
      then show ?thesis using trap_fields_safe(2) [OF m1 obj, of "pdu\<lparr>command := ty, response_pdu := False\<rparr>" alloc d2 l2 objid2 p2] res addr by simp
    next
      case False
      then obtain q where "parse_request_fields mem d1 l1 q = Inr (d2, l2, p2)" "objid2 = objid"
        using res by (auto simp: ebind_eq_Inr split: if_splits)
      then show ?thesis using request_fields_safe(2) [OF m1, of q d2 l2 p2] obj by simp
    qed
    show ?case
      unfolding x prod.case
    proof (rule safe_ebind [OF f], goal_cases)
      case (1 y)
      obtain d2 l2 objid2 p2 where y: "y = (d2, l2, objid2, p2)" by (cases y)
      have "d1 < d2 \<and> d2 + l2 = d1 + l1 \<and> length objid2 = 128" using g 1 unfolding y by blast
      then show ?case unfolding y prod.case using b by (intro body) simp_all
    qed
  qed
qed

end
