(* ===== verification/Snmp_Rpdu.thy ===== *)
theory Snmp_Rpdu
  imports Snmp_Pdu
begin

unbundle bit_operations_syntax

section \<open>Reverse building of PDUs (\<open>snmplib/snmp_api.c\<close>)\<close>

text \<open>
  \<open>snmp_pdu_realloc_rbuild\<close> writes a PDU from its end, so it needs the variables in reverse order
  although the list has only forward pointers.  It keeps the last 50 pointers in a ring (\<open>vpcache\<close>),
  writes them backwards, and starts again from the head for the variables in front of those.  A pointer
  to a variable is its position in the list; an entry of the ring that was never assigned is \<open>None\<close>
  and using it is the error \<open>Uninitialised\<close>.
\<close>

abbreviation VPCACHE_SIZE :: nat where "VPCACHE_SIZE \<equiv> 50"

type_synonym vpcache = "nat option list"

text \<open>The two \<open>for\<close> loops that fill the ring: \<open>i\<close> runs down and wraps, \<open>wrapped\<close> records it.\<close>

fun vp_fill :: "nat list \<Rightarrow> int \<Rightarrow> bool \<Rightarrow> vpcache \<Rightarrow> vpcache \<times> int \<times> bool" where
  "vp_fill [] i wrapped cache = (cache, i, wrapped)"
| "vp_fill (vp # vps) i wrapped cache =
     (let (i', wrapped') = (if i < 0 then (int VPCACHE_SIZE - 1, True) else (i, wrapped)) in
      vp_fill vps (i' - 1) wrapped' (cache[nat i' := Some vp]))"

text \<open>\<open>for (i = from; i < to; i++)\<close> over the ring.\<close>

fun vp_emit :: "(nat \<Rightarrow> rstate \<Rightarrow> rstate res) \<Rightarrow> nat option list \<Rightarrow> rstate \<Rightarrow> rstate res" where
  "vp_emit f [] s = Inr s"
| "vp_emit f (None # ps) s = Inl Uninitialised"
| "vp_emit f (Some p # ps) s = ebind (f p s) (vp_emit f ps)"

text \<open>
  The \<open>do\<close> loop.  Every round but the last writes 50 variables, so the number of variables is enough
  fuel.
\<close>

fun vp_rounds ::
  "nat \<Rightarrow> (nat \<Rightarrow> rstate \<Rightarrow> rstate res) \<Rightarrow> vpcache \<Rightarrow> nat \<Rightarrow> bool \<Rightarrow> rstate \<Rightarrow> rstate res" where
  "vp_rounds 0 f cache final wrapped s = Inl OutOfFuel"
| "vp_rounds (Suc fuel) f cache final wrapped s =
     ebind (vp_emit f (drop final cache) s) (\<lambda>s1.
     if wrapped then
       ebind (vp_emit f (take final cache) s1) (\<lambda>s2.
       case cache ! (if final = 0 then VPCACHE_SIZE - 1 else final - 1) of
         None \<Rightarrow> Inl Uninitialised
       | Some tmpvp \<Rightarrow>
           (case vp_fill [0..<tmpvp] (int VPCACHE_SIZE - 1) False cache of
              (cache', i, wrapped') \<Rightarrow> vp_rounds fuel f cache' (nat (i + 1)) wrapped' s2))
     else Inr s1)"

definition rbuild_vars :: "(nat \<Rightarrow> rstate \<Rightarrow> rstate res) \<Rightarrow> nat \<Rightarrow> rstate \<Rightarrow> rstate res" where
  "rbuild_vars f n s =
     (case vp_fill [0..<n] (int VPCACHE_SIZE - 1) False (replicate VPCACHE_SIZE None) of
        (cache, i, wrapped) \<Rightarrow> vp_rounds (Suc n) f cache (nat (i + 1)) wrapped s)"

definition rbuild_fields :: "malloc \<Rightarrow> netsnmp_pdu \<Rightarrow> rstate \<Rightarrow> rstate res" where
  "rbuild_fields malloc pdu s =
     (if command pdu \<noteq> SNMP_MSG_TRAP then
        ebind (asn_realloc_rbuild_int malloc True ASN_INTEGER (errindex pdu) 8 s) (\<lambda>s.
        ebind (asn_realloc_rbuild_int malloc True ASN_INTEGER (errstat pdu) 8 s) (\<lambda>s.
        asn_realloc_rbuild_int malloc True ASN_INTEGER (reqid pdu) 8 s))
      else
        ebind (asn_realloc_rbuild_unsigned_int malloc True ASN_TIMETICKS (uptime pdu) 8 s) (\<lambda>s.
        ebind (asn_realloc_rbuild_int malloc True ASN_INTEGER (specific_type pdu) 8 s) (\<lambda>s.
        ebind (asn_realloc_rbuild_int malloc True ASN_INTEGER (trap_type pdu) 8 s) (\<lambda>s.
        ebind (asn_realloc_rbuild_string malloc True ASN_IPADDRESS (agent_addr pdu) 4 s) (\<lambda>s.
        asn_realloc_rbuild_objid malloc True ASN_OBJECT_ID (enterprise pdu) (length (enterprise pdu)) s)))))"

text \<open>
  The code does not test whether the header of the variable list could be written; the model stops
  there.  The outcome is the same: the header, of at most four bytes, does not fit only when fewer than four bytes are
  left and the allocator refused to enlarge the buffer.  The fields that follow need at least three bytes each, so that at the
  latest the second one asks for the same larger size again and fails, and this failure is tested.  This reading
  assumes an allocator that refuses a size every time it is asked for it.
\<close>

definition snmp_pdu_realloc_rbuild :: "malloc \<Rightarrow> netsnmp_pdu \<Rightarrow> rstate \<Rightarrow> rstate res" where
  "snmp_pdu_realloc_rbuild malloc pdu s =
     (let start_offset = snd s in
      ebind (rbuild_vars (\<lambda>p. snmp_realloc_rbuild_var_op malloc True (variables pdu ! p)) (length (variables pdu)) s) (\<lambda>s1.
      ebind (asn_realloc_rbuild_sequence malloc True ASN_SEQUENCE_CONSTRUCTOR (snd s1 - start_offset) s1) (\<lambda>s2.
      ebind (rbuild_fields malloc pdu s2) (\<lambda>s3.
      asn_realloc_rbuild_sequence malloc True (command pdu) (snd s3 - start_offset) s3))))"


subsection \<open>The ring gives the variables in reverse order\<close>

text \<open>
  After the first \<open>k\<close> pointers were put into the ring, pointer \<open>p\<close> is at place \<open>49 - p mod 50\<close>, and the
  last 50 of them are there.
\<close>

definition ring :: "nat \<Rightarrow> vpcache \<Rightarrow> int \<Rightarrow> bool \<Rightarrow> bool" where
  "ring k cache i wrapped \<longleftrightarrow> length cache = VPCACHE_SIZE \<and> wrapped = (k > VPCACHE_SIZE) \<and>
     i = (if k = 0 then 49 else 48 - int ((k - 1) mod VPCACHE_SIZE)) \<and>
     (\<forall>p<k. k \<le> p + VPCACHE_SIZE \<longrightarrow> cache ! (49 - p mod VPCACHE_SIZE) = Some p)"

lemma ring_step:
  assumes "ring k cache i wrapped"
  defines "i' \<equiv> if i < 0 then 49 else i" and "w' \<equiv> if i < 0 then True else wrapped"
  shows "ring (Suc k) (cache[nat i' := Some k]) (i' - 1) w'"
proof -
  have len: "length cache = 50" and w: "wrapped = (k > 50)"
    and i: "i = (if k = 0 then 49 else 48 - int ((k - 1) mod 50))"
    and old: "\<And>p. p < k \<Longrightarrow> k \<le> p + 50 \<Longrightarrow> cache ! (49 - p mod 50) = Some p"
    using assms(1) by (auto simp: ring_def)
  define q where "q = (k - 1) mod 50"
  define r where "r = k mod 50"
  have r: "r < 50" and m: "k > 0 \<Longrightarrow> r = (if q = 49 then 0 else q + 1)"
    using mod_Suc [of "k - 1" 50] by (simp_all add: q_def r_def)
  have c: "i < 0 \<and> k > 0 \<and> r = 0 \<or> i = 49 - int r \<and> \<not> (k > 0 \<and> r = 0)"
    using i m unfolding q_def [symmetric] by (cases "k = 0") (auto simp: r_def split: if_splits)
  then have i': "i' = 49 - int r" and neg: "i < 0 \<longleftrightarrow> k > 0 \<and> r = 0"
    using r by (auto simp: i'_def)
  have w': "w' = (Suc k > 50)"
  proof (cases "i < 0")
    case True
    then have "k > 0" "r = 0" using neg by simp_all
    then have "k \<ge> 50" unfolding r_def by (cases "k < 50") simp_all
    then show ?thesis using True by (simp add: w'_def)
  next
    case False
    then have "k \<noteq> 50" using neg by (auto simp: r_def)
    then show ?thesis using False w by (auto simp: w'_def)
  qed
  have ni: "nat i' = 49 - r" using i' r by simp
  have new: "cache[49 - r := Some k] ! (49 - p mod 50) = Some p" if p: "p < Suc k" "Suc k \<le> p + 50" for p
  proof (cases "p = k")
    case True
    then show ?thesis using len r by (simp flip: r_def)
  next
    case False
    then have "p mod 50 \<noteq> r" using p mod_eq_dvd_iff_nat [of p k 50] unfolding r_def by (auto dest: dvd_imp_le)
    moreover have "p mod 50 < 50" by simp
    ultimately have "49 - p mod 50 \<noteq> 49 - r" using r by linarith
    then show ?thesis using old [of p] p False by simp
  qed
  show ?thesis
    unfolding ring_def ni using len w' i' new by (simp flip: r_def)
qed

lemma vp_fill_ring:
  "ring k cache i w \<Longrightarrow> vp_fill [k..<n] i w cache = (cache', i', w') \<Longrightarrow> k \<le> n \<Longrightarrow> ring n cache' i' w'"
proof (induction "n - k" arbitrary: k cache i w)
  case 0
  then show ?case by simp
next
  case (Suc d)
  then have k: "k < n" by simp
  let ?i = "if i < 0 then 49 else i" and ?w = "if i < 0 then True else w"
  have "vp_fill [k..<n] i w cache = vp_fill [Suc k..<n] (?i - 1) ?w (cache[nat ?i := Some k])"
    using k by (simp add: upt_rec [of k n] Let_def)
  then show ?case using Suc.hyps Suc.prems(2) ring_step [OF Suc.prems(1)] k by (metis Suc_leI diff_Suc_eq_diff_pred diff_Suc_1 diff_commute)
qed

lemma ring_at:
  assumes "ring k cache i w" and "p < k" and "k \<le> p + 50" and "p = 50 * m + q" and "q < 50"
  shows "cache ! (49 - q) = Some p"
proof -
  have "p mod 50 = q" using assms(4,5) by simp
  then show ?thesis using assms(1-3) by (auto simp: ring_def)
qed

lemma ring_short:
  assumes "ring k cache i w" and "k \<le> 50"
  shows "drop (nat (i + 1)) cache = map Some (rev [0..<k])"
proof (rule nth_equalityI)
  have len: "length cache = 50" and i: "nat (i + 1) = 50 - k"
    using assms by (auto simp: ring_def)
  show "length (drop (nat (i + 1)) cache) = length (map Some (rev [0..<k]))" using assms(2) by (simp add: i len)
  fix j assume "j < length (drop (nat (i + 1)) cache)"
  then have j: "j < k" using assms(2) by (simp add: i len)
  then have "cache ! (49 - (k - 1 - j)) = Some (k - 1 - j)"
    using assms(2) by (intro ring_at [OF assms(1), of _ 0]) simp_all
  moreover have "49 - (k - 1 - j) = 50 - k + j" using j assms(2) by linarith
  ultimately show "drop (nat (i + 1)) cache ! j = map Some (rev [0..<k]) ! j"
    using j assms(2) by (simp add: i len rev_nth)
qed

lemma ring_long:
  assumes "ring k cache i w" and "50 < k"
  defines "final \<equiv> nat (i + 1)"
  shows "drop final cache @ take final cache = map Some (rev [k - 50..<k])"
    and "cache ! (if final = 0 then 49 else final - 1) = Some (k - 50)"
proof -
  define m where "m = (k - 1) div 50"
  define r where "r = (k - 1) mod 50"
  have k: "k = 50 * m + r + 1" and r: "r < 50" using assms(2) by (simp_all add: m_def r_def)
  then have m: "m \<ge> 1" using assms(2) by (cases m) simp_all
  have len: "length cache = 50" and f: "final = 49 - r"
    using assms(1,2) r by (auto simp: ring_def final_def r_def)
  have low: "cache ! (49 - (r - t)) = Some (k - 1 - t)" if "t \<le> r" for t
    using that k r m by (intro ring_at [OF assms(1), of _ m]) auto
  have high: "cache ! (49 - (50 + r - t)) = Some (k - 1 - t)" if "r < t" "t < 50" for t
    using that k r m by (intro ring_at [OF assms(1), of _ "m - 1"]) (auto simp: algebra_simps)
  show "drop final cache @ take final cache = map Some (rev [k - 50..<k])"
  proof (rule nth_equalityI)
    show "length (drop final cache @ take final cache) = length (map Some (rev [k - 50..<k]))"
      using assms(2) by (simp add: len f)
    fix t assume "t < length (drop final cache @ take final cache)"
    then have t: "t < 50" by (simp add: len f)
    then have "map Some (rev [k - 50..<k]) ! t = Some (k - 1 - t)"
      using assms(2) by (simp add: rev_nth)
    moreover have "(drop final cache @ take final cache) ! t = Some (k - 1 - t)"
    proof (cases "t \<le> r")
      case True
      then have "49 - (r - t) = final + t" using r f by linarith
      with True low [of t] show ?thesis using r by (simp add: nth_append len f)
    next
      case False
      then have "49 - (50 + r - t) = t - (r + 1)" using t by linarith
      with False high [of t] t r show ?thesis by (simp add: nth_append len f)
    qed
    ultimately show "(drop final cache @ take final cache) ! t = map Some (rev [k - 50..<k]) ! t" by simp
  qed
  show "cache ! (if final = 0 then 49 else final - 1) = Some (k - 50)"
  proof (cases "r = 49")
    case True
    then show ?thesis using low [of 49] by (simp add: f)
  next
    case False
    then have "49 - (50 + r - 49) = final - 1" using f by linarith
    then show ?thesis using high [of 49] False r f by simp
  qed
qed

lemma vp_emit_append: "vp_emit f (ps @ qs) s = ebind (vp_emit f ps s) (vp_emit f qs)"
  by (induction f ps s rule: vp_emit.induct) (auto simp: ebind_assoc intro: ebind_cong)

lemma vp_rounds_reverse:
  "ring k cache i w \<Longrightarrow> k \<le> n \<Longrightarrow>
   vp_rounds (Suc n) f cache (nat (i + 1)) w s = vp_emit f (map Some (rev [0..<k])) s"
proof (induction n arbitrary: k cache i w s rule: less_induct)
  case (less n)
  have w: "w = (k > 50)" and len: "length cache = 50" using less.prems(1) by (simp_all add: ring_def)
  show ?case
  proof (cases "k \<le> 50")
    case True
    then have "\<not> w" using w by simp
    then show ?thesis using ring_short [OF less.prems(1) True] by (cases "vp_emit f (map Some (rev [0..<k])) s") simp_all
  next
    case False
    let ?final = "nat (i + 1)"
    note l = ring_long [OF less.prems(1)]
    obtain cache' i' w' where c: "vp_fill [0..<k - 50] 49 False cache = (cache', i', w')" by (metis prod_cases3)
    have "ring 0 cache 49 False" by (simp add: ring_def len)
    then have r: "ring (k - 50) cache' i' w'" using vp_fill_ring [of 0 cache 49 False "k - 50"] c by simp
    obtain n' where n: "n = Suc n'" "n' < n" using less.prems(2) False by (cases n) auto
    have IH: "vp_rounds n f cache' (nat (i' + 1)) w' s2 = vp_emit f (map Some (rev [0..<k - 50])) s2" for s2
      using less.IH [OF n(2) r] less.prems(2) False n by simp
    have "rev [0..<k] = rev [k - 50..<k] @ rev [0..<k - 50]"
      using False upt_add_eq_append [of 0 "k - 50" 50] by (simp flip: rev_append)
    then have "vp_emit f (map Some (rev [0..<k])) s =
        ebind (vp_emit f (drop ?final cache) s) (\<lambda>s1. ebind (vp_emit f (take ?final cache) s1)
          (vp_emit f (map Some (rev [0..<k - 50]))))"
      using False by (simp add: vp_emit_append ebind_assoc flip: l(1)) (intro ebind_cong refl vp_emit_append)
    also have "\<dots> = vp_rounds (Suc n) f cache ?final w s"
    proof -
      have "w" using w False by simp
      moreover have "cache ! (if ?final = 0 then 50 - 1 else ?final - 1) = Some (k - 50)" using l(2) False by (simp split: if_splits)
      ultimately show ?thesis by (simp add: c IH)
    qed
    finally show ?thesis by simp
  qed
qed

lemma rbuild_vars_reverse: "rbuild_vars f n s = vp_emit f (map Some (rev [0..<n])) s"
proof -
  obtain cache i w where c: "vp_fill [0..<n] 49 False (replicate 50 None) = (cache, i, w)" by (metis prod_cases3)
  have "ring 0 (replicate 50 None) 49 False" by (simp add: ring_def)
  then have "ring n cache i w" using vp_fill_ring [of 0 "replicate 50 None" 49 False n] c by simp
  then show ?thesis using vp_rounds_reverse [of n cache i w n] c by (simp add: rbuild_vars_def)
qed


subsection \<open>What the reverse builder writes\<close>

definition enc_rbody :: "netsnmp_pdu \<Rightarrow> binding list \<Rightarrow> bytes" where
  "enc_rbody pdu bs = (let vb = concat (map enc_rvar bs) in
     enc_fields pdu @ enc_header ASN_SEQUENCE_CONSTRUCTOR (length vb) @ vb)"

definition enc_rpdu :: "netsnmp_pdu \<Rightarrow> binding list \<Rightarrow> bytes" where
  "enc_rpdu pdu bs = enc_header (command pdu) (length (enc_rbody pdu bs)) @ enc_rbody pdu bs"

lemma length_concat_ge: "x \<in> set xs \<Longrightarrow> length (f x) \<le> length (concat (map f xs))"
  by (induction xs) auto

lemma rgood_vars:
  assumes "\<forall>b\<in>set bs. bok b \<and> length (enc_contents b) \<le> 0xffff" and "rwf s"
  shows "rgood malloc r s (concat (map enc_rvar bs))
    (vp_emit (\<lambda>p. snmp_realloc_rbuild_var_op malloc r ((map var_of bs @ vps) ! p)) (map Some (rev [0..<length bs])) s)"
  using assms
proof (induction bs arbitrary: s vps rule: rev_induct)
  case Nil
  then show ?case by (simp add: prepended_Nil)
next
  case (snoc b bs)
  let ?f = "\<lambda>p. snmp_realloc_rbuild_var_op malloc r ((map var_of (bs @ [b]) @ vps) ! p)"
  have "?f (length bs) = snmp_realloc_rbuild_var_op malloc r (var_of b)" by (simp add: nth_append)
  then have "rgood malloc r s (enc_rvar b) (?f (length bs) s)"
    using snoc.prems by (simp add: rgood_var)
  moreover have "rgood malloc r s' (concat (map enc_rvar bs)) (vp_emit ?f (map Some (rev [0..<length bs])) s')"
    if "prepended s (enc_rvar b) s'" for s'
    using snoc.IH [of s' "var_of b # vps"] snoc.prems(1) prepended_rwf [OF that] by simp
  ultimately have "rgood malloc r s (concat (map enc_rvar bs) @ enc_rvar b)
      (ebind (?f (length bs) s) (vp_emit ?f (map Some (rev [0..<length bs]))))"
    by (rule rgood_bind)
  then show ?case by simp
qed

lemma rgood_int_field: "int_field x \<Longrightarrow> rwf s \<Longrightarrow> rgood malloc r s (enc_int ASN_INTEGER x) (asn_realloc_rbuild_int malloc r ASN_INTEGER x 8 s)"
  using rgood_int [of s malloc r ASN_INTEGER x] by (simp add: int_field_def check_overflow_s_range)

lemma rgood_fields:
  assumes ok: "pdu_ok pdu bs" and w: "rwf s"
  shows "rgood malloc True s (enc_fields pdu) (rbuild_fields malloc pdu s)"
proof (cases "command pdu = SNMP_MSG_TRAP")
  case False
  then have f: "int_field (reqid pdu)" "int_field (errstat pdu)" "int_field (errindex pdu)" using ok by (simp_all add: pdu_ok_def)
  have "rgood malloc True s ((enc_int ASN_INTEGER (reqid pdu) @ enc_int ASN_INTEGER (errstat pdu)) @ enc_int ASN_INTEGER (errindex pdu))
      (rbuild_fields malloc pdu s)"
    unfolding rbuild_fields_def if_P [OF False]
    by (intro rgood_bind rgood_int_field f w) (erule prepended_rwf)+
  then show ?thesis using False by (simp add: enc_fields_def)
next
  case True
  let ?t = "enc_int ASN_TIMETICKS (uptime pdu)" and ?a = "enc_string ASN_IPADDRESS (agent_addr pdu)"
    and ?o = "enc_oid ASN_OBJECT_ID (enterprise pdu)" and ?i = "enc_int ASN_INTEGER"
  have f: "int_field (trap_type pdu)" "int_field (specific_type pdu)" "valid_oid (enterprise pdu)" "length (agent_addr pdu) = 4"
    "check_overflow_u (uptime pdu) = uptime pdu"
    using ok True by (simp_all add: pdu_ok_def check_overflow_u_id)
  have t: "rgood malloc True s ?t (asn_realloc_rbuild_unsigned_int malloc True ASN_TIMETICKS (uptime pdu) 8 s)" if "rwf s" for s
    using rgood_uint [OF that, of malloc True ASN_TIMETICKS "uptime pdu"] f(5) by simp
  have a: "rgood malloc True s ?a (asn_realloc_rbuild_string malloc True ASN_IPADDRESS (agent_addr pdu) 4 s)" if "rwf s" for s
    using rgood_string [OF that, of "agent_addr pdu" malloc True ASN_IPADDRESS] f(4) by simp
  have nt: "\<not> command pdu \<noteq> SNMP_MSG_TRAP" using True by simp
  have "rgood malloc True s ((((?o @ ?a) @ ?i (trap_type pdu)) @ ?i (specific_type pdu)) @ ?t) (rbuild_fields malloc pdu s)"
    unfolding rbuild_fields_def if_not_P [OF nt]
    by (intro rgood_bind rgood_int_field rgood_objid t a f w) (erule prepended_rwf)+
  then show ?thesis using True by (simp add: enc_fields_def)
qed

lemma rgood_rpdu:
  assumes ok: "pdu_ok pdu bs" and w: "rwf s" and len: "length (enc_rbody pdu bs) \<le> 0xffff"
  shows "rgood malloc True s (enc_rpdu pdu bs) (snmp_pdu_realloc_rbuild malloc pdu s)"
proof -
  let ?vb = "concat (map enc_rvar bs)" and ?F = "enc_fields pdu" and ?S = "ASN_SEQUENCE_CONSTRUCTOR"
  let ?h = "enc_header ?S (length ?vb)"
  have vb: "length ?vb \<le> 0xffff" using len by (simp add: enc_rbody_def Let_def)
  have "bok b \<and> length (enc_contents b) \<le> 0xffff" if "b \<in> set bs" for b
    using length_concat_ge [OF that, of enc_rvar] vb ok that by (simp add: enc_rvar_def pdu_ok_def)
  then have 1: "rgood malloc True s ?vb
      (rbuild_vars (\<lambda>p. snmp_realloc_rbuild_var_op malloc True (variables pdu ! p)) (length (variables pdu)) s)"
    using rgood_vars [of bs s malloc True "[]"] w ok by (simp add: rbuild_vars_reverse pdu_ok_def)
  have seq: "rgood malloc True s' (enc_header t n) (asn_realloc_rbuild_sequence malloc True t (snd s' - snd s) s')"
    if "prepended s c s'" "n = length c" "n \<le> 0xffff" for s' t n c
  proof -
    have "snd s' - snd s = n" using that(1,2) by (simp add: prepended_def)
    then show ?thesis using rgood_header [OF prepended_rwf [OF that(1)] that(3)] by (simp add: asn_realloc_rbuild_sequence_def)
  qed
  note 2 = rgood_bind [OF 1 seq [where t = ?S, OF _ refl vb]]
  have fields: "rgood malloc True s' ?F (rbuild_fields malloc pdu s')" if "prepended s (?h @ ?vb) s'" for s'
    by (rule rgood_fields [OF ok prepended_rwf [OF that]])
  note 3 = rgood_bind [OF 2 fields]
  have e: "enc_fields pdu @ ?h @ ?vb = enc_rbody pdu bs" by (simp add: enc_rbody_def Let_def)
  note 4 = rgood_bind [OF 3 [unfolded e] seq [where t = "command pdu", OF _ refl len]]
  then show ?thesis by (simp add: snmp_pdu_realloc_rbuild_def enc_rpdu_def ebind_assoc Let_def)
qed


subsection \<open>Reading back a built PDU\<close>

lemma pdu_command_plain: "pdu_ok pdu bs \<Longrightarrow> command pdu AND 0x1f \<noteq> 0x1f \<and> command pdu \<noteq> ASN_OPAQUE"
  by (auto simp: pdu_ok_def request_command_def split: if_splits)

lemma parse_header_seq:
  assumes "stored mem data (enc_seq type n)" and "n \<le> 0xffff" and "4 + n \<le> dl" and "type AND 0x1f \<noteq> 0x1f" and "type \<noteq> ASN_OPAQUE"
  shows "asn_parse_header mem data dl = Inr (data + 4, n, type)"
  using asn_parse_sequence_enc [of mem data type n dl] assms
  by (auto simp: asn_parse_sequence_def enc_seq_def ebind_eq_Inr split: if_splits)

lemma var_encodings:
  assumes "length (concat (map f bs)) \<le> 0xffff" and "f = enc_var \<or> f = enc_rvar"
  shows "list_all2 var_encoding bs (map f bs)"
proof -
  have "var_encoding b (f b)" if "b \<in> set bs" for b
    using length_concat_ge [OF that, of f] assms by (auto simp: var_encoding_def enc_var_def enc_rvar_def)
  then show ?thesis by (simp add: list_all2_conv_all_nth)
qed

lemma pdu_parse_enc:
  assumes ok: "pdu_ok pdu bs" and obj: "length objid = 128" and addr: "length (agent_addr pdu0) = 4" and alloc: "\<And>n. alloc n"
    and st: "stored mem data (enc_pdu pdu bs)" and n: "length (enc_body pdu bs) \<le> 0xffff" and dl: "length (enc_pdu pdu bs) \<le> dl"
  shows "snmp_pdu_parse alloc objid mem data dl pdu0 = Inr (0, received pdu0 pdu)"
proof -
  let ?F = "enc_fields pdu" and ?V = "concat (map enc_var bs)"
  have s: "stored mem (data + 4) ?F" "stored mem (data + 4 + length ?F) (enc_seq ASN_SEQUENCE_CONSTRUCTOR (length ?V))"
    "stored mem (data + 4 + length ?F + 4) ?V"
    using st by (simp_all add: enc_pdu_def enc_body_def Let_def)
  have len: "length (enc_body pdu bs) = length ?F + 4 + length ?V" by (simp add: enc_body_def Let_def)
  have hd: "asn_parse_header mem data dl = Inr (data + 4, length (enc_body pdu bs), command pdu)"
    using st n dl pdu_command_plain [OF ok] by (intro parse_header_seq) (simp_all add: enc_pdu_def)
  have seq: "asn_parse_sequence mem (data + 4 + length ?F) (length (enc_body pdu bs) - length ?F) ASN_SEQUENCE_CONSTRUCTOR =
      Inr (data + 4 + length ?F + 4, length ?V, ASN_SEQUENCE_CONSTRUCTOR)"
    using s(2) n len by (intro parse_seq_enc) simp_all
  show ?thesis
    using n len by (intro pdu_parse_stored [OF ok obj addr alloc hd s(1) _ seq s(3)] var_encodings) simp_all
qed

lemma pdu_parse_renc:
  assumes ok: "pdu_ok pdu bs" and obj: "length objid = 128" and addr: "length (agent_addr pdu0) = 4" and alloc: "\<And>n. alloc n"
    and st: "stored mem data (enc_rpdu pdu bs)" and n: "length (enc_rbody pdu bs) \<le> 0xffff" and dl: "length (enc_rpdu pdu bs) \<le> dl"
  shows "snmp_pdu_parse alloc objid mem data dl pdu0 = Inr (0, received pdu0 pdu)"
proof -
  let ?F = "enc_fields pdu" and ?V = "concat (map enc_rvar bs)"
  let ?h = "enc_header (command pdu) (length (enc_rbody pdu bs))" and ?g = "enc_header ASN_SEQUENCE_CONSTRUCTOR (length ?V)"
  let ?d = "data + length ?h"
  have s: "stored mem ?d ?F" "stored mem (?d + length ?F) ?g" "stored mem (?d + length ?F + length ?g) ?V"
    using st by (simp_all add: enc_rpdu_def enc_rbody_def Let_def)
  have len: "length (enc_rbody pdu bs) = length ?F + length ?g + length ?V" by (simp add: enc_rbody_def Let_def)
  have hd: "asn_parse_header mem data dl = Inr (?d, length (enc_rbody pdu bs), command pdu)"
    using st n dl pdu_command_plain [OF ok] by (intro asn_parse_header_enc) (simp_all add: enc_rpdu_def)
  have seq: "asn_parse_sequence mem (?d + length ?F) (length (enc_rbody pdu bs) - length ?F) ASN_SEQUENCE_CONSTRUCTOR =
      Inr (?d + length ?F + length ?g, length ?V, ASN_SEQUENCE_CONSTRUCTOR)"
    using s(2) n len by (intro parse_rseq_enc) simp_all
  show ?thesis
    using n len by (intro pdu_parse_stored [OF ok obj addr alloc hd s(1) _ seq s(3)] var_encodings) simp_all
qed

lemma pdu_builds:
  assumes ok: "pdu_ok pdu bs" and mem: "cp + l \<le> length mem" and room: "length (enc_pdu pdu bs) \<le> l"
  shows "snmp_pdu_build pdu mem cp l =
    Inr (store_at mem cp (enc_pdu pdu bs), cp + length (enc_pdu pdu bs), l - length (enc_pdu pdu bs))"
proof -
  let ?F = "enc_fields pdu" and ?V = "concat (map enc_var bs)"
  have v: "builds (build_vars (variables pdu)) ?V" using ok builds_vars [of bs] by (simp add: pdu_ok_def)
  have len: "length (enc_pdu pdu bs) = 8 + length ?F + length ?V" by (simp add: enc_pdu_def enc_body_def Let_def)
  show ?thesis
    using pdu_build_stores [OF builds_fields [OF ok] v mem] room len
    by (simp add: enc_pdu_def enc_body_def Let_def add.assoc)
qed

lemma rpdu_builds:
  assumes ok: "pdu_ok pdu bs" and w: "rwf s" and n: "length (enc_rbody pdu bs) \<le> 0xffff" and malloc: "\<And>n. malloc n \<noteq> None"
  shows "\<exists>s'. snmp_pdu_realloc_rbuild malloc pdu s = Inr s' \<and> prepended s (enc_rpdu pdu bs) s'"
  using rgood_rpdu [OF ok w n, of malloc] malloc
  by (cases "snmp_pdu_realloc_rbuild malloc pdu s") (auto simp: rgood_def)

lemma prepended_stored:
  assumes "prepended s e s'"
  shows "stored (fst s') (length (fst s') - snd s') e"
proof -
  obtain pkt offset where s': "s' = (pkt, offset)" by (cases s')
  then have o: "offset \<le> length pkt" "drop (length pkt - offset) pkt = e @ used s" "offset = snd s + length e"
    using assms by (auto simp: prepended_def rwf_def used_def)
  then show ?thesis by (simp add: s' stored_def)
qed


subsection \<open>Properties\<close>

lemma vp_emit_fold: "vp_emit f (map Some ps) s = fold (\<lambda>p r. ebind r (f p)) ps (Inr s)"
proof (induction ps arbitrary: s)
  case (Cons p ps)
  have "fold (\<lambda>p r. ebind r (f p)) ps (Inl e) = Inl e" for e by (induction ps) simp_all
  with Cons show ?case by (cases "f p s") simp_all
qed simp

text \<open>
  C16 (the ring buffer reverses the variable list).  For a list of any length, \<open>snmp_pdu_realloc_rbuild\<close>
  calls the encoder once for every variable, from the last to the first, and stops at the first
  failure.  In particular it never uses an entry of its ring of 50 pointers that was not
  assigned, and the loop ends.
\<close>

theorem rbuild_vars_order:
  "rbuild_vars f n s = fold (\<lambda>p r. ebind r (f p)) (rev [0..<n]) (Inr s)"
  by (simp add: rbuild_vars_reverse vp_emit_fold)


definition sample_bindings :: "binding list" where
  "sample_bindings = [([1, 3, 6, 1, 2, 1, 1, 5, 0], VStr ASN_OCTET_STR [0x72, 0x31]), ([1, 3, 6, 1, 2, 1, 1, 3, 0], VUInt ASN_TIMETICKS 4711)]"

definition sample_pdu :: netsnmp_pdu where
  "sample_pdu = \<lparr>command = SNMP_MSG_RESPONSE, reqid = 77, errstat = 0, errindex = 0, uptime = 0, response_pdu = True, enterprise = [],
     agent_addr = [0, 0, 0, 0], trap_type = 0, specific_type = 0, variables = map var_of sample_bindings\<rparr>"

lemma sample_pdu_ok: "pdu_ok sample_pdu sample_bindings"
  by (simp add: pdu_ok_def sample_pdu_def sample_bindings_def bok_def valid_oid_def request_command_def int_field_def
      string_type_def unsigned_type_def)

lemma sample_enc: "length (enc_pdu sample_pdu sample_bindings) \<le> 200" "length (enc_rbody sample_pdu sample_bindings) \<le> 200"
proof -
  have h: "length (enc_header t n) \<le> 4" for t n using length_enc_length(2) [of n] by (simp add: enc_header_def)
  have i: "length (enc_int t x) \<le> 10" for t x by (rule length_enc_int)
  have c: "length (enc_contents b) \<le> 60" if "b \<in> set sample_bindings" for b
  proof -
    have "length (enc_oid ASN_OBJECT_ID (fst b)) \<le> 44"
      using sample_pdu_ok that length_enc_oid [of "fst b" ASN_OBJECT_ID] by (auto simp: pdu_ok_def bok_def sample_bindings_def)
    moreover have "length (venc (snd b)) \<le> 10"
      using that length_enc_string [of ASN_OCTET_STR "[0x72, 0x31]"] i [of ASN_TIMETICKS 4711] by (auto simp: sample_bindings_def)
    ultimately show ?thesis by (simp add: enc_contents_def)
  qed
  have f: "length (enc_fields sample_pdu) \<le> 30"
    using i [of ASN_INTEGER 77] i [of ASN_INTEGER 0] by (simp add: enc_fields_def sample_pdu_def)
  obtain a b where ab: "sample_bindings = [a, b]" by (simp add: sample_bindings_def)
  have l: "length (enc_contents a) \<le> 60" "length (enc_contents b) \<le> 60" using c [of a] c [of b] by (simp_all add: ab)
  show "length (enc_pdu sample_pdu sample_bindings) \<le> 200"
    using l f by (simp add: enc_pdu_def enc_body_def ab Let_def enc_var_def)
  show "length (enc_rbody sample_pdu sample_bindings) \<le> 200"
    using l f h [of ASN_SEQUENCE_CONSTRUCTOR "length (enc_contents a)"] h [of ASN_SEQUENCE_CONSTRUCTOR "length (enc_contents b)"]
      h [of ASN_SEQUENCE_CONSTRUCTOR "length (enc_rvar a) + length (enc_rvar b)"]
    by (simp add: enc_rbody_def ab Let_def enc_rvar_def add.assoc)
qed


text \<open>
  Reverse PDU round trip.  With memory available, \<open>snmp_pdu_realloc_rbuild\<close>
  succeeds from every state of the buffer, keeps the bytes already in it, and the PDU it puts in front of
  them is read back by \<open>snmp_pdu_parse\<close> as the same PDU that the forward encoder gives.
\<close>

lemma snmp_rpdu_roundtrip:
  assumes "pdu_ok pdu bs" and "rwf s" and "length (enc_rbody pdu bs) \<le> 0xffff" and "\<And>n. malloc n \<noteq> None"
    and "length objid = 128" and "length (agent_addr pdu0) = 4" and "\<And>n. alloc n"
  shows "\<exists>s'. snmp_pdu_realloc_rbuild malloc pdu s = Inr s' \<and> drop (snd s' - snd s) (used s') = used s \<and>
    snmp_pdu_parse alloc objid (fst s') (length (fst s') - snd s') (snd s' - snd s) pdu0 = Inr (0, received pdu0 pdu)"
proof -
  obtain s' where s': "snmp_pdu_realloc_rbuild malloc pdu s = Inr s'" "prepended s (enc_rpdu pdu bs) s'"
    using rpdu_builds [OF assms(1,2,3), of malloc] assms(4) by blast
  have "snmp_pdu_parse alloc objid (fst s') (length (fst s') - snd s') (snd s' - snd s) pdu0 = Inr (0, received pdu0 pdu)"
    using pdu_parse_renc [where alloc = alloc, OF assms(1,5,6,7) prepended_stored [OF s'(2)] assms(3)] prepended_snd [OF s'(2)] by simp
  with s' show ?thesis by (auto simp: prepended_def)
qed

lemma snmp_rpdu_roundtrip_witness:
  "\<exists>s'. snmp_pdu_realloc_rbuild (\<lambda>_. Some (\<lambda>_. 0)) sample_pdu ([], 0) = Inr s' \<and> drop (snd s') (used s') = [] \<and>
    snmp_pdu_parse (\<lambda>_. True) (replicate 128 0) (fst s') (length (fst s') - snd s') (snd s') sample_pdu =
      Inr (0, received sample_pdu sample_pdu)"
  using snmp_rpdu_roundtrip [OF sample_pdu_ok, of "([], 0)" "\<lambda>_. Some (\<lambda>_. 0)" "replicate 128 0" sample_pdu "\<lambda>_. True"] sample_enc(2)
  by (simp add: sample_pdu_def rwf_def used_def)

text \<open>
  No packet makes the PDU decoder leave its buffers.  For every content of the packet buffer, if 32 bytes of the
  buffer follow the data that was received, \<open>snmp_pdu_parse\<close> reads only inside the buffer and
  writes only inside the arrays it was given, whether it succeeds or not.
\<close>

lemma snmp_pdu_parse_safe:
  assumes "data + len + 32 \<le> length mem" and "len < 2 ^ 31" and "length objid = 128" and "4 \<le> length (agent_addr pdu)"
  shows "safe (snmp_pdu_parse alloc objid mem data len pdu)"
  by (rule pdu_parse_safe [OF assms])

lemma snmp_pdu_parse_safe_witness:
  "safe (snmp_pdu_parse (\<lambda>_. True) (replicate 128 0) (0xa0 # 0x84 # 0x7f # replicate 40 0xff) 0 11 sample_pdu)"
  using snmp_pdu_parse_safe [of 0 11 "0xa0 # 0x84 # 0x7f # replicate 40 0xff" "replicate 128 0" sample_pdu "\<lambda>_. True"]
  by (simp add: sample_pdu_def)

end
