(* ===== verification/Snmp_Ids.thy ===== *)
theory Snmp_Ids
  imports Prelude
begin

unbundle bit_operations_syntax

section \<open>Identifiers of requests, messages, sessions and transactions (\<open>snmplib/snmp_api.c\<close>)\<close>

text \<open>
  The four counters behind \<open>snmp_get_next_reqid\<close>, \<open>snmp_get_next_msgid\<close>, \<open>snmp_get_next_sessid\<close> and
  \<open>snmp_get_next_transid\<close>.  \<open>next_id\<close> is the body these functions share; \<open>ids16\<close> is the setting
  \<open>NETSNMP_DS_LIB_16BIT_IDS\<close>.  The locks are not modelled: a call is one step.
\<close>

record snmp_ids =
  Reqid :: u64
  Msgid :: u64
  Sessid :: u64
  Transid :: u64

definition id_mask :: "bool \<Rightarrow> u64" where
  "id_mask ids16 = (if ids16 then 0x7fff else 0x7fffffff)"

definition next_id :: "bool \<Rightarrow> u64 \<Rightarrow> u64 \<times> u64" where
  "next_id ids16 c =
     (let retVal = 1 + c;
          retVal = (if retVal = 0 then 2 else retVal);
          c = retVal;
          retVal = retVal AND id_mask ids16 in
      if retVal = 0 then (2, 2) else (retVal, c))"

definition snmp_get_next_reqid :: "bool \<Rightarrow> snmp_ids \<Rightarrow> u64 \<times> snmp_ids" where
  "snmp_get_next_reqid ids16 g = (case next_id ids16 (Reqid g) of (r, c) \<Rightarrow> (r, g\<lparr>Reqid := c\<rparr>))"

definition snmp_get_next_msgid :: "bool \<Rightarrow> snmp_ids \<Rightarrow> u64 \<times> snmp_ids" where
  "snmp_get_next_msgid ids16 g = (case next_id ids16 (Msgid g) of (r, c) \<Rightarrow> (r, g\<lparr>Msgid := c\<rparr>))"

definition snmp_get_next_sessid :: "bool \<Rightarrow> snmp_ids \<Rightarrow> u64 \<times> snmp_ids" where
  "snmp_get_next_sessid ids16 g = (case next_id ids16 (Sessid g) of (r, c) \<Rightarrow> (r, g\<lparr>Sessid := c\<rparr>))"

definition snmp_get_next_transid :: "bool \<Rightarrow> snmp_ids \<Rightarrow> u64 \<times> snmp_ids" where
  "snmp_get_next_transid ids16 g = (case next_id ids16 (Transid g) of (r, c) \<Rightarrow> (r, g\<lparr>Transid := c\<rparr>))"

text \<open>The identifiers of \<open>n\<close> calls in a row.\<close>

fun next_reqids :: "bool \<Rightarrow> nat \<Rightarrow> snmp_ids \<Rightarrow> u64 list" where
  "next_reqids ids16 0 g = []"
| "next_reqids ids16 (Suc n) g =
     (case snmp_get_next_reqid ids16 g of (r, g') \<Rightarrow> r # next_reqids ids16 n g')"


subsection \<open>The low bits decide\<close>

definition modulus :: "bool \<Rightarrow> nat" where
  "modulus ids16 = (if ids16 then 2 ^ 15 else 2 ^ 31)"

definition low :: "bool \<Rightarrow> u64 \<Rightarrow> nat" where
  "low ids16 c = unat c mod modulus ids16"

lemma unat_mask: "unat (c AND id_mask ids16) = low ids16 c"
proof -
  have "id_mask ids16 = mask (if ids16 then 15 else 31)" by (simp add: id_mask_def mask_eq_exp_minus_1)
  then have "c AND id_mask ids16 = take_bit (if ids16 then 15 else 31) c" by (simp add: take_bit_eq_mask)
  then show ?thesis by (simp add: low_def modulus_def take_bit_eq_mod unat_mod_distrib)
qed

lemma low_Suc: "low ids16 (1 + c) = (if low ids16 c = modulus ids16 - 1 then 0 else Suc (low ids16 c))"
proof -
  have "unat (1 + c) mod modulus ids16 = Suc (unat c) mod modulus ids16"
  proof (cases "unat c = 2 ^ 64 - 1")
    case True
    then have "unat (1 + c) = 0" by (simp add: unat_word_ariths)
    then show ?thesis using True by (simp add: modulus_def)
  next
    case False
    moreover have "unat c < 2 ^ LENGTH(64)" by (rule unsigned_less)
    ultimately have "unat c < 2 ^ 64 - 1" by simp
    then show ?thesis by (simp add: unat_word_ariths)
  qed
  moreover have "modulus ids16 > 0" by (simp add: modulus_def)
  ultimately show ?thesis by (auto simp: low_def mod_Suc)
qed

definition succ_id :: "bool \<Rightarrow> nat \<Rightarrow> nat" where
  "succ_id ids16 x = (if x = modulus ids16 - 1 then 2 else Suc x)"

lemma next_id_low:
  assumes "next_id ids16 c = (r, c')"
  shows "unat r = succ_id ids16 (low ids16 c) \<and> low ids16 c' = unat r"
proof -
  let ?s = "1 + c"
  have m: "2 < modulus ids16" by (simp add: modulus_def)
  have two: "low ids16 2 = 2" using m by (simp add: low_def)
  have wrap: "low ids16 c = modulus ids16 - 1" if "?s = 0"
    using low_Suc [of ids16 c] that by (simp add: low_def split: if_splits)
  have "unat (?s AND id_mask ids16) = 0 \<longleftrightarrow> low ids16 c = modulus ids16 - 1"
    using low_Suc [of ids16 c] by (simp add: unat_mask)
  then have z: "?s AND id_mask ids16 = 0 \<longleftrightarrow> low ids16 c = modulus ids16 - 1" by (simp add: unat_eq_zero)
  have z2: "2 AND id_mask ids16 = (2 :: u64)" by (simp add: id_mask_def)
  show ?thesis
    using assms z wrap two z2 low_Suc [of ids16 c] unat_mask [of ?s ids16] unat_mask [of 2 ids16]
    by (auto simp: next_id_def Let_def succ_id_def split: if_splits)
qed

lemma low_less: "low ids16 c < modulus ids16"
  by (simp add: low_def modulus_def)

lemma succ_id_range: "x < modulus ids16 \<Longrightarrow> 1 \<le> succ_id ids16 x \<and> succ_id ids16 x < modulus ids16"
  by (auto simp: succ_id_def modulus_def)

text \<open>Iterating: the value climbs to the top and starts again at 2.\<close>

lemma iterate_succ_id:
  assumes "x < modulus ids16" and "i \<le> modulus ids16 - 2"
  shows "(succ_id ids16 ^^ i) x = (if x + i < modulus ids16 then x + i else x + i + 2 - modulus ids16)"
  using assms(2)
proof (induction i)
  case 0
  then show ?case using assms(1) by simp
next
  case (Suc i)
  then have "(succ_id ids16 ^^ Suc i) x = succ_id ids16 (if x + i < modulus ids16 then x + i else x + i + 2 - modulus ids16)" by simp
  also have "\<dots> = (if x + Suc i < modulus ids16 then x + Suc i else x + Suc i + 2 - modulus ids16)"
    using Suc.prems assms(1) by (auto simp: succ_id_def)
  finally show ?case .
qed

lemma next_reqids_iterate:
  "map unat (next_reqids ids16 n g) = map (\<lambda>i. (succ_id ids16 ^^ Suc i) (low ids16 (Reqid g))) [0..<n]"
proof (induction n arbitrary: g)
  case (Suc n)
  obtain r c' where n: "next_id ids16 (Reqid g) = (r, c')" by (cases "next_id ids16 (Reqid g)")
  have l: "unat r = succ_id ids16 (low ids16 (Reqid g))" "low ids16 c' = succ_id ids16 (low ids16 (Reqid g))"
    using next_id_low [OF n] by simp_all
  have "map unat (next_reqids ids16 (Suc n) g) =
      unat r # map (\<lambda>i. (succ_id ids16 ^^ Suc i) (succ_id ids16 (low ids16 (Reqid g)))) [0..<n]"
    using Suc [of "g\<lparr>Reqid := c'\<rparr>"] n l by (simp add: snmp_get_next_reqid_def)
  also have "\<dots> = map (\<lambda>i. (succ_id ids16 ^^ Suc i) (low ids16 (Reqid g))) [0..<Suc n]"
    using l by (simp add: upt_conv_Cons map_Suc_upt [symmetric] funpow_swap1 del: upt_Suc)
  finally show ?case .
qed simp

text \<open>
  C19 (request identifiers).  Whatever the state of the counter, every identifier that
  \<open>snmp_get_next_reqid\<close> returns is positive and fits in 31 bits (15 bits with 16-bit identifiers), so that zero, which
  reports a failure to the caller, never identifies a request; and no identifier
  is repeated within the next \<open>2 ^ 31 - 2\<close> (\<open>2 ^ 15 - 2\<close>) calls.
\<close>

theorem reqids_distinct:
  assumes "n \<le> modulus ids16 - 2"
  shows "distinct (next_reqids ids16 n g) \<and> (\<forall>r\<in>set (next_reqids ids16 n g). 1 \<le> unat r \<and> unat r < modulus ids16)"
proof
  let ?x = "low ids16 (Reqid g)" and ?f = "\<lambda>i. (succ_id ids16 ^^ Suc i) (low ids16 (Reqid g))"
  have "inj_on ?f {0..<n}"
  proof (rule inj_onI)
    fix i j assume "i \<in> {0..<n}" "j \<in> {0..<n}" "?f i = ?f j"
    then show "i = j"
      using assms low_less [of ids16 "Reqid g"] iterate_succ_id [OF low_less, of "Suc i" ids16 "Reqid g"]
        iterate_succ_id [OF low_less, of "Suc j" ids16 "Reqid g"] by (auto split: if_splits)
  qed
  then have "distinct (map unat (next_reqids ids16 n g))" by (simp add: next_reqids_iterate distinct_map)
  then show "distinct (next_reqids ids16 n g)" by (simp add: distinct_map)
  have iter: "(succ_id ids16 ^^ i) ?x < modulus ids16" for i
    by (induction i) (simp_all add: low_less succ_id_range)
  have "unat ` set (next_reqids ids16 n g) = ?f ` {0..<n}"
    by (metis next_reqids_iterate atLeastLessThan_upt list.set_map)
  moreover have "1 \<le> ?f i \<and> ?f i < modulus ids16" for i
    using succ_id_range [OF iter] by simp
  ultimately show "\<forall>r\<in>set (next_reqids ids16 n g). 1 \<le> unat r \<and> unat r < modulus ids16"
    by (metis (no_types, lifting) image_iff imageI)
qed

theorem reqids_distinct_witness:
  "distinct (next_reqids True 3 \<lparr>Reqid = 0x7ffe, Msgid = 0, Sessid = 0, Transid = 0\<rparr>) \<and>
   next_reqids True 3 \<lparr>Reqid = 0x7ffe, Msgid = 0, Sessid = 0, Transid = 0\<rparr> = [0x7fff, 2, 3]"
  using reqids_distinct [of 3 True "\<lparr>Reqid = 0x7ffe, Msgid = 0, Sessid = 0, Transid = 0\<rparr>"]
  by (simp add: modulus_def numeral_3_eq_3 snmp_get_next_reqid_def next_id_def id_mask_def Let_def)

end
