(* ===== verification/Snmp_Message.thy ===== *)
theory Snmp_Message
  imports Snmp_Rpdu Snmp_Ids
begin

unbundle bit_operations_syntax

section \<open>Community-based messages (\<open>snmplib/snmp_auth.c\<close>, \<open>snmplib/snmp_api.c\<close>)\<close>

text \<open>
  \<open>snmp_comstr_parse\<close> and \<open>snmp_comstr_build\<close> of \<open>snmp_auth.c\<close>; \<open>snmp_parse_version\<close>, \<open>_snmp_build\<close>, \<open>snmp_build\<close>,
  \<open>_snmp_parse\<close> and \<open>snmp_parse\<close> of \<open>snmp_api.c\<close>.  The branches for SNMPv3 call the functions \<open>v3\<close>, an argument of the
  definitions, and the callback \<open>session->authenticator\<close> is another.  The record \<open>snmp_message\<close> has the
  fields of \<open>struct snmp_pdu\<close> that belong to the message and, in \<open>m_pdu\<close>, those that belong to the PDU; a
  pointer with its length is a byte list, \<open>NULL\<close> and the empty string are the same.  \<open>snmp_lib\<close> has the global
  counters these functions change.  \<open>return -1\<close> with a code in \<open>session->s_snmp_errno\<close> is
  \<open>Inl (SnmpErr code)\<close>.
\<close>

abbreviation (input) SNMP_VERSION_1 :: u64 where "SNMP_VERSION_1 \<equiv> 0"
abbreviation (input) SNMP_VERSION_2c :: u64 where "SNMP_VERSION_2c \<equiv> 1"
abbreviation (input) SNMP_VERSION_3 :: u64 where "SNMP_VERSION_3 \<equiv> 3"
abbreviation (input) SNMP_DEFAULT_VERSION :: u64 where "SNMP_DEFAULT_VERSION \<equiv> - 1"
abbreviation (input) COMMUNITY_MAX_LEN :: nat where "COMMUNITY_MAX_LEN \<equiv> 256"
abbreviation (input) SNMPERR_V2_IN_V1 :: int where "SNMPERR_V2_IN_V1 \<equiv> - 7"
abbreviation (input) SNMPERR_V1_IN_V2 :: int where "SNMPERR_V1_IN_V2 \<equiv> - 8"
abbreviation (input) SNMPERR_BAD_REPEATERS :: int where "SNMPERR_BAD_REPEATERS \<equiv> - 9"
abbreviation (input) SNMPERR_BAD_REPETITIONS :: int where "SNMPERR_BAD_REPETITIONS \<equiv> - 10"
abbreviation (input) SNMPERR_BAD_ASN1_BUILD :: int where "SNMPERR_BAD_ASN1_BUILD \<equiv> - 11"
abbreviation (input) SNMPERR_BAD_PARSE :: int where "SNMPERR_BAD_PARSE \<equiv> - 13"
abbreviation (input) SNMPERR_BAD_VERSION :: int where "SNMPERR_BAD_VERSION \<equiv> - 14"
abbreviation (input) SNMPERR_UNKNOWN_PDU :: int where "SNMPERR_UNKNOWN_PDU \<equiv> - 23"
abbreviation (input) SNMPERR_AUTHENTICATION_FAILURE :: int where "SNMPERR_AUTHENTICATION_FAILURE \<equiv> - 35"
abbreviation (input) SNMPERR_MALLOC :: int where "SNMPERR_MALLOC \<equiv> - 62"

record snmp_session =
  s_version :: u64
  s_community :: bytes

record snmp_message =
  m_version :: u64
  m_community :: bytes
  m_securityModel :: nat
  m_securityLevel :: nat
  m_transid :: u64
  m_pdu :: netsnmp_pdu

record snmp_lib =
  ids :: snmp_ids
  snmpInASNParseErrs :: u32
  snmpInBadVersions :: u32


subsection \<open>The community header\<close>

definition snmp_comstr_parse :: "bytes \<Rightarrow> nat \<Rightarrow> nat \<Rightarrow> bytes \<Rightarrow> nat \<Rightarrow> (nat \<times> nat \<times> bytes \<times> nat \<times> u64) res" where
  "snmp_comstr_parse mem data len psid slen =
     ebind (asn_parse_sequence mem data len ASN_SEQUENCE_CONSTRUCTOR) (\<lambda>(data1, len1, _).
     ebind (asn_parse_int mem data1 len1 8) (\<lambda>(data2, len2, _, ver).
     ebind (asn_parse_string mem data2 len2 psid slen) (\<lambda>(data3, len3, _, psid1, slen1).
     ebind (wr psid1 (min slen1 (usub64 slen 1)) 0) (\<lambda>psid2.
     Inr (data3, len3, psid2, slen1, ver)))))"

text \<open>\<open>*(u_char *) slen\<close> is the low byte of the length.\<close>

definition snmp_comstr_build :: "bytes \<Rightarrow> nat \<Rightarrow> nat \<Rightarrow> bytes \<Rightarrow> nat \<Rightarrow> u64 \<Rightarrow> nat \<Rightarrow> bstate res" where
  "snmp_comstr_build mem data len psid slen version messagelen =
     ebind (asn_build_sequence mem data len ASN_SEQUENCE_CONSTRUCTOR 0) (\<lambda>(m1, h1e, l1).
     ebind (asn_build_int m1 h1e l1 ASN_INTEGER version 8) (\<lambda>(m2, d2, l2).
     ebind (asn_build_string m2 d2 l2 ASN_OCTET_STR (Some psid) (slen mod 256)) (\<lambda>(m3, d3, l3).
     ebind (insert_header m3 data len ASN_SEQUENCE_CONSTRUCTOR (d3 - h1e + messagelen)) (\<lambda>m4.
     Inr (m4, d3, l3)))))"


subsection \<open>Building a message\<close>

definition default_enterprise :: oid where
  "default_enterprise = [1, 3, 6, 1, 4, 1, 3, 1, 1]"

definition zero_defaults :: "netsnmp_pdu \<Rightarrow> netsnmp_pdu" where
  "zero_defaults pdu = pdu\<lparr>errstat := (if errstat pdu = - 1 then 0 else errstat pdu),
     errindex := (if errindex pdu = - 1 then 0 else errindex pdu)\<rparr>"

text \<open>
  The first \<open>switch\<close>: which command may be sent in which version, and its defaulted fields.  The default
  of \<open>time\<close> is the value that stands for it, 0.  The flag \<open>UCD_MSG_FLAG_EXPECT_RESPONSE\<close>, cleared for traps, is not a
  field of the record.
\<close>

definition build_defaults :: "(nat \<Rightarrow> bool) \<Rightarrow> u64 \<Rightarrow> netsnmp_pdu \<Rightarrow> netsnmp_pdu res" where
  "build_defaults alloc version pdu =
     (let c = command pdu in
      if c = SNMP_MSG_RESPONSE \<or> c = SNMP_MSG_GET \<or> c = SNMP_MSG_GETNEXT \<or> c = SNMP_MSG_SET then Inr (zero_defaults pdu)
      else if c = SNMP_MSG_TRAP2 \<or> c = SNMP_MSG_INFORM then
        if version = SNMP_VERSION_1 then Inl (SnmpErr SNMPERR_V2_IN_V1) else Inr (zero_defaults pdu)
      else if c = SNMP_MSG_GETBULK then
        if version = SNMP_VERSION_1 then Inl (SnmpErr SNMPERR_V2_IN_V1)
        else if sint (errindex pdu) < 0 then Inl (SnmpErr SNMPERR_BAD_REPETITIONS)
        else if sint (errstat pdu) < 0 then Inl (SnmpErr SNMPERR_BAD_REPEATERS)
        else Inr pdu
      else if c = SNMP_MSG_TRAP then
        if version \<noteq> SNMP_VERSION_1 then Inl (SnmpErr SNMPERR_V1_IN_V2)
        else if enterprise pdu = [] \<and> \<not> alloc (8 * length default_enterprise) then Inl (SnmpErr SNMPERR_MALLOC)
        else Inr (pdu\<lparr>reqid := 1, enterprise := (if enterprise pdu = [] then default_enterprise else enterprise pdu)\<rparr>)
      else Inl (SnmpErr SNMPERR_UNKNOWN_PDU))"

definition build_community :: "(nat \<Rightarrow> bool) \<Rightarrow> snmp_session \<Rightarrow> u8 \<Rightarrow> bytes \<Rightarrow> bytes res" where
  "build_community alloc sess cmd community =
     (if community = [] \<and> cmd \<noteq> SNMP_MSG_RESPONSE then
        if s_community sess = [] then Inr []
        else if \<not> alloc (length (s_community sess)) then Inl (SnmpErr SNMPERR_MALLOC)
        else Inr (s_community sess)
      else Inr community)"

text \<open>Forward, from the start of the packet; the result is the packet and its length.\<close>

definition build_message :: "snmp_message \<Rightarrow> bytes \<Rightarrow> nat \<Rightarrow> (bytes \<times> nat) res" where
  "build_message msg pkt pkt_len =
     ebind (asn_build_sequence pkt 0 pkt_len ASN_SEQUENCE_CONSTRUCTOR 0) (\<lambda>(m1, h0e, l1).
     ebind (asn_build_int m1 h0e l1 ASN_INTEGER (m_version msg) 8) (\<lambda>(m2, cp2, l2).
     ebind (asn_build_string m2 cp2 l2 ASN_OCTET_STR (Some (m_community msg)) (length (m_community msg))) (\<lambda>(m3, cp3, l3).
     ebind (snmp_pdu_build (m_pdu msg) m3 cp3 l3) (\<lambda>(m4, cp4, l4).
     ebind (insert_header m4 0 pkt_len ASN_SEQUENCE_CONSTRUCTOR (cp4 - h0e)) (\<lambda>m5.
     Inr (m5, cp4))))))"

text \<open>Backward, in front of what the packet holds already.\<close>

definition rbuild_message :: "malloc \<Rightarrow> snmp_message \<Rightarrow> rstate \<Rightarrow> rstate res" where
  "rbuild_message malloc msg s =
     (let start_offset = snd s in
      ebind (snmp_pdu_realloc_rbuild malloc (m_pdu msg) s) (\<lambda>s1.
      ebind (asn_realloc_rbuild_string malloc True ASN_OCTET_STR (m_community msg) (length (m_community msg)) s1) (\<lambda>s2.
      ebind (asn_realloc_rbuild_int malloc True ASN_INTEGER (m_version msg) 8 s2) (\<lambda>s3.
      asn_realloc_rbuild_sequence malloc True ASN_SEQUENCE_CONSTRUCTOR (snd s3 - start_offset) s3))))"

text \<open>
  \<open>_snmp_build\<close>: the packet, \<open>*pkt_len\<close>, \<open>*offset\<close> and the message with the fields that were filled in.
  \<open>reverse\<close> is the setting \<open>NETSNMP_DS_LIB_REVERSE_ENCODE\<close>.
\<close>

type_synonym packet = "bytes \<times> nat \<times> nat"

definition snmp_build_inner ::
  "(snmp_message \<Rightarrow> packet \<Rightarrow> (packet \<times> snmp_message) res) \<Rightarrow> bool \<Rightarrow> malloc \<Rightarrow> (nat \<Rightarrow> bool) \<Rightarrow>
   snmp_session \<Rightarrow> snmp_message \<Rightarrow> packet \<Rightarrow> (packet \<times> snmp_message) res" where
  "snmp_build_inner v3 reverse malloc alloc sess msg p =
     (case p of (pkt, pkt_len, offset) \<Rightarrow>
      if m_version msg = SNMP_VERSION_3 then v3 msg p
      else ebind (build_defaults alloc (m_version msg) (m_pdu msg)) (\<lambda>pdu.
      if m_version msg \<noteq> SNMP_VERSION_1 \<and> m_version msg \<noteq> SNMP_VERSION_2c then Inl (SnmpErr SNMPERR_BAD_VERSION)
      else ebind (build_community alloc sess (command pdu) (m_community msg)) (\<lambda>community.
      let msg' = msg\<lparr>m_community := community, m_pdu := pdu\<rparr> in
      if reverse then ebind (rbuild_message malloc msg' (pkt, offset)) (\<lambda>(pkt', offset'). Inr ((pkt', length pkt', offset'), msg'))
      else ebind (build_message msg' pkt pkt_len) (\<lambda>(pkt', pkt_len'). Inr ((pkt', pkt_len', offset), msg')))))"

text \<open>The wrappers give a failure that has no code the code \<open>dflt\<close>; undefined behaviour stays what it is.\<close>

definition undefined_behaviour :: "asn_err \<Rightarrow> bool" where
  "undefined_behaviour e \<longleftrightarrow> e = OverRead \<or> e = OverWrite \<or> e = Uninitialised \<or> e = OutOfFuel"

definition with_errno :: "int \<Rightarrow> asn_err \<Rightarrow> asn_err" where
  "with_errno dflt e = (if undefined_behaviour e then e else case e of SnmpErr c \<Rightarrow> SnmpErr (if c = 0 then dflt else c) | _ \<Rightarrow> SnmpErr dflt)"

definition snmp_build ::
  "(snmp_message \<Rightarrow> packet \<Rightarrow> (packet \<times> snmp_message) res) \<Rightarrow> bool \<Rightarrow> malloc \<Rightarrow> (nat \<Rightarrow> bool) \<Rightarrow>
   snmp_session \<Rightarrow> snmp_message \<Rightarrow> packet \<Rightarrow> (packet \<times> snmp_message) res" where
  "snmp_build v3 reverse malloc alloc sess msg p =
     (case snmp_build_inner v3 reverse malloc alloc sess msg p of
        Inl e \<Rightarrow> Inl (with_errno SNMPERR_BAD_ASN1_BUILD e)
      | Inr r \<Rightarrow> Inr r)"


subsection \<open>Parsing a message\<close>

text \<open>A call whose \<open>NULL\<close> result the caller handles.\<close>

definition attempt :: "'a res \<Rightarrow> 'a option res" where
  "attempt r = (case r of Inr x \<Rightarrow> Inr (Some x) | Inl e \<Rightarrow> if undefined_behaviour e then Inl e else Inr None)"

text \<open>The result is an \<open>int\<close>, which the caller stores in a \<open>long\<close>.\<close>

definition snmp_parse_version :: "bytes \<Rightarrow> nat \<Rightarrow> nat \<Rightarrow> u64 res" where
  "snmp_parse_version mem data len =
     ebind (attempt (asn_parse_sequence mem data len ASN_SEQUENCE_CONSTRUCTOR)) (\<lambda>r.
     case r of
       None \<Rightarrow> Inr (word_of_int SNMPERR_BAD_VERSION)
     | Some (data1, len1, _) \<Rightarrow>
         ebind (attempt (asn_parse_int mem data1 len1 8)) (\<lambda>r.
         case r of
           None \<Rightarrow> Inr (word_of_int SNMPERR_BAD_VERSION)
         | Some (_, _, type, version) \<Rightarrow>
             if type \<noteq> ASN_INTEGER then Inr (word_of_int SNMPERR_BAD_VERSION)
             else Inr (scast (ucast version :: u32))))"

text \<open>\<open>session->authenticator\<close>, if there is one, may move on in the data or refuse.\<close>

type_synonym authenticator = "bytes \<Rightarrow> nat \<Rightarrow> nat \<Rightarrow> bytes \<Rightarrow> (nat \<times> nat) option"

definition authenticate :: "authenticator option \<Rightarrow> bytes \<Rightarrow> nat \<Rightarrow> nat \<Rightarrow> bytes \<Rightarrow> (nat \<times> nat) res" where
  "authenticate auth mem data len community =
     (case auth of
        None \<Rightarrow> Inr (data, len)
      | Some f \<Rightarrow> (case f mem data len community of
                    None \<Rightarrow> Inl (SnmpErr SNMPERR_AUTHENTICATION_FAILURE)
                  | Some r \<Rightarrow> Inr r))"

text \<open>The part of \<open>_snmp_parse\<close> before the PDU; \<open>community\<close> is the local array of 256 bytes.\<close>

definition parse_community ::
  "authenticator option \<Rightarrow> (nat \<Rightarrow> bool) \<Rightarrow> bytes \<Rightarrow> snmp_session \<Rightarrow> snmp_message \<Rightarrow> bytes \<Rightarrow> nat \<Rightarrow> nat \<Rightarrow>
   (snmp_message \<times> nat \<times> nat) res" where
  "parse_community auth alloc community sess msg mem data len =
     ebind (snmp_comstr_parse mem data len community COMMUNITY_MAX_LEN) (\<lambda>(data1, len1, community1, n, version).
     if version \<noteq> s_version sess \<and> s_version sess \<noteq> SNMP_DEFAULT_VERSION then Inl (SnmpErr SNMPERR_BAD_VERSION)
     else if n \<noteq> 0 \<and> \<not> alloc n then Inl (SnmpErr SNMPERR_MALLOC)
     else ebind (authenticate auth mem data1 len1 (take n community1)) (\<lambda>(data2, len2).
     Inr (msg\<lparr>m_version := version, m_securityLevel := 1, m_securityModel := (if version = SNMP_VERSION_1 then 1 else 2),
              m_community := take n community1\<rparr>, data2, len2)))"

definition asn_parse_error :: "snmp_lib \<Rightarrow> snmp_lib" where
  "asn_parse_error g = g\<lparr>snmpInASNParseErrs := snmpInASNParseErrs g + 1\<rparr>"

definition bad_version :: "snmp_lib \<Rightarrow> snmp_lib" where
  "bad_version g = g\<lparr>snmpInBadVersions := snmpInBadVersions g + 1\<rparr>"

text \<open>\<open>snmp_pdu_parse\<close> counts an unknown PDU itself; its caller counts every failure.\<close>

definition pdu_errors :: "(int \<times> netsnmp_pdu) res \<Rightarrow> snmp_lib \<Rightarrow> snmp_lib" where
  "pdu_errors r g =
     (case r of
        Inl (BadPduType t) \<Rightarrow> asn_parse_error (asn_parse_error g)
      | Inl e \<Rightarrow> asn_parse_error g
      | Inr (result, _) \<Rightarrow> if result < 0 then asn_parse_error g else g)"

definition snmp_parse_inner ::
  "(snmp_lib \<Rightarrow> snmp_message \<Rightarrow> bytes \<Rightarrow> nat \<Rightarrow> nat \<Rightarrow> snmp_lib \<times> (int \<times> snmp_message) res) \<Rightarrow> bool \<Rightarrow>
   authenticator option \<Rightarrow> (nat \<Rightarrow> bool) \<Rightarrow> bytes \<Rightarrow> oid \<Rightarrow> snmp_session \<Rightarrow> snmp_lib \<Rightarrow> snmp_message \<Rightarrow>
   bytes \<Rightarrow> nat \<Rightarrow> nat \<Rightarrow> snmp_lib \<times> (int \<times> snmp_message) res" where
  "snmp_parse_inner v3 ids16 auth alloc community objid sess g msg mem data len =
     (let (transid, ids') = snmp_get_next_transid ids16 (ids g);
          g1 = g\<lparr>ids := ids'\<rparr>;
          msg1 = msg\<lparr>m_transid := transid\<rparr> in
      case (if s_version sess \<noteq> SNMP_DEFAULT_VERSION then Inr (s_version sess) else snmp_parse_version mem data len) of
        Inl e \<Rightarrow> (g1, Inl e)
      | Inr version \<Rightarrow>
          if version = SNMP_VERSION_1 \<or> version = SNMP_VERSION_2c then
            (case parse_community auth alloc community sess msg1 mem data len of
               Inl e \<Rightarrow> (g1, Inl e)
             | Inr (msg2, data1, len1) \<Rightarrow>
                 (let r = snmp_pdu_parse alloc objid mem data1 len1 (m_pdu msg2) in
                  (pdu_errors r g1, ebind r (\<lambda>(result, pdu). Inr (result, msg2\<lparr>m_pdu := pdu\<rparr>)))))
          else if version = SNMP_VERSION_3 then v3 g1 (msg1\<lparr>m_version := version\<rparr>) mem data len
          else if version = word_of_int SNMPERR_BAD_VERSION then (asn_parse_error g1, Inl (SnmpErr SNMPERR_BAD_VERSION))
          else (if sint version < 0 \<or> sint version > 2147483647 then asn_parse_error (bad_version g1) else bad_version g1,
                Inl (SnmpErr SNMPERR_BAD_VERSION)))"

definition snmp_parse ::
  "(snmp_lib \<Rightarrow> snmp_message \<Rightarrow> bytes \<Rightarrow> nat \<Rightarrow> nat \<Rightarrow> snmp_lib \<times> (int \<times> snmp_message) res) \<Rightarrow> bool \<Rightarrow>
   authenticator option \<Rightarrow> (nat \<Rightarrow> bool) \<Rightarrow> bytes \<Rightarrow> oid \<Rightarrow> snmp_session \<Rightarrow> snmp_lib \<Rightarrow> snmp_message \<Rightarrow>
   bytes \<Rightarrow> nat \<Rightarrow> nat \<Rightarrow> snmp_lib \<times> snmp_message res" where
  "snmp_parse v3 ids16 auth alloc community objid sess g msg mem data len =
     (case snmp_parse_inner v3 ids16 auth alloc community objid sess g msg mem data len of
        (g', Inl e) \<Rightarrow> (g', Inl (with_errno SNMPERR_BAD_PARSE e))
      | (g', Inr (result, msg')) \<Rightarrow> (g', if result = 0 then Inr msg' else Inl (SnmpErr SNMPERR_BAD_PARSE)))"


subsection \<open>Encodings of messages\<close>

definition enc_head :: "u64 \<Rightarrow> bytes \<Rightarrow> bytes" where
  "enc_head version community = enc_int ASN_INTEGER version @ enc_string ASN_OCTET_STR community"

lemma version_field: "v = SNMP_VERSION_1 \<or> v = SNMP_VERSION_2c \<Longrightarrow> int_field v"
  by (auto simp: int_field_def)

lemma build_message_stores:
  assumes v: "int_field (m_version msg)" and ok: "pdu_ok (m_pdu msg) bs"
  defines "B \<equiv> enc_head (m_version msg) (m_community msg) @ enc_pdu (m_pdu msg) bs"
  assumes mem: "pkt_len \<le> length pkt" and room: "4 + length B \<le> pkt_len"
  shows "build_message msg pkt pkt_len =
    Inr (store_at pkt 0 (enc_seq ASN_SEQUENCE_CONSTRUCTOR (length B) @ B), 4 + length B)"
proof -
  let ?s = ASN_SEQUENCE_CONSTRUCTOR and ?i = "enc_int ASN_INTEGER (m_version msg)" and ?c = "enc_string ASN_OCTET_STR (m_community msg)"
  let ?P = "enc_pdu (m_pdu msg) bs" and ?hz = "enc_seq ASN_SEQUENCE_CONSTRUCTOR 0"
  have B: "B = ?i @ ?c @ ?P" by (simp add: B_def enc_head_def)
  have 1: "asn_build_sequence pkt 0 pkt_len ?s 0 = Inr (store_at pkt 0 ?hz, 4, pkt_len - 4)"
    using mem room build_sequence_ok [of pkt_len 0 pkt ?s 0] by simp
  have 2: "asn_build_int (store_at pkt 0 ?hz) 4 (pkt_len - 4) ASN_INTEGER (m_version msg) 8 =
      Inr (store_at pkt 0 (?hz @ ?i), 4 + length ?i, pkt_len - 4 - length ?i)"
    using builds_ok [OF builds_int_field [OF v], of 4 "pkt_len - 4" "store_at pkt 0 ?hz"] mem room
      store_at_store_at [of 0 ?hz ?i pkt] by (simp add: B)
  have 3: "asn_build_string (store_at pkt 0 (?hz @ ?i)) (4 + length ?i) (pkt_len - 4 - length ?i) ASN_OCTET_STR
        (Some (m_community msg)) (length (m_community msg)) =
      Inr (store_at pkt 0 ((?hz @ ?i) @ ?c), 4 + length ?i + length ?c, pkt_len - 4 - length ?i - length ?c)"
    using builds_ok [OF builds_string, of "4 + length ?i" "pkt_len - 4 - length ?i" "store_at pkt 0 (?hz @ ?i)" ASN_OCTET_STR "m_community msg"]
      mem room store_at_store_at [of 0 "?hz @ ?i" ?c pkt] by (simp add: B)
  have 4: "snmp_pdu_build (m_pdu msg) (store_at pkt 0 ((?hz @ ?i) @ ?c)) (4 + length ?i + length ?c) (pkt_len - 4 - length ?i - length ?c) =
      Inr (store_at pkt 0 (?hz @ B), 4 + length B, pkt_len - 4 - length B)"
    using pdu_builds [OF ok, of "4 + length ?i + length ?c" "pkt_len - 4 - length ?i - length ?c" "store_at pkt 0 ((?hz @ ?i) @ ?c)"]
      mem room store_at_store_at [of 0 "?hz @ ?i @ ?c" ?P pkt] by (simp add: B add.assoc)
  have 5: "insert_header (store_at pkt 0 (?hz @ B)) 0 pkt_len ?s (length B) = Inr (store_at pkt 0 (enc_seq ?s (length B) @ B))"
    using mem room store_at_overlay [of "enc_seq ?s (length B)" ?hz 0 B pkt] by (subst insert_header_enc) simp_all
  show ?thesis using 1 2 3 4 5 by (simp add: build_message_def)
qed

lemma rbuild_message_prepends:
  assumes v: "int_field (m_version msg)" and ok: "pdu_ok (m_pdu msg) bs" and w: "rwf s"
  defines "B \<equiv> enc_head (m_version msg) (m_community msg) @ enc_rpdu (m_pdu msg) bs"
  assumes len: "length B \<le> 0xffff" and malloc: "\<And>n. malloc n \<noteq> None"
  shows "\<exists>s'. rbuild_message malloc msg s = Inr s' \<and> prepended s (enc_header ASN_SEQUENCE_CONSTRUCTOR (length B) @ B) s'"
proof -
  let ?i = "enc_int ASN_INTEGER (m_version msg)" and ?c = "enc_string ASN_OCTET_STR (m_community msg)" and ?P = "enc_rpdu (m_pdu msg) bs"
  have B: "B = ?i @ ?c @ ?P" by (simp add: B_def enc_head_def)
  have n: "length (enc_rbody (m_pdu msg) bs) \<le> 0xffff" "length (m_community msg) \<le> 0xffff"
    using len by (simp_all add: B enc_rpdu_def enc_string_def)
  note 1 = rgood_rpdu [OF ok w n(1), of malloc]
  have 2: "rgood malloc True s' ?c (asn_realloc_rbuild_string malloc True ASN_OCTET_STR (m_community msg) (length (m_community msg)) s')"
    if "prepended s ?P s'" for s' by (rule rgood_string [OF prepended_rwf [OF that] n(2)])
  have 3: "rgood malloc True s' ?i (asn_realloc_rbuild_int malloc True ASN_INTEGER (m_version msg) 8 s')"
    if "prepended s (?c @ ?P) s'" for s' by (rule rgood_int_field [OF v prepended_rwf [OF that]])
  have 4: "rgood malloc True s' (enc_header ASN_SEQUENCE_CONSTRUCTOR (length B))
      (asn_realloc_rbuild_sequence malloc True ASN_SEQUENCE_CONSTRUCTOR (snd s' - snd s) s')" if "prepended s (?i @ ?c @ ?P) s'" for s'
    using rgood_header [OF prepended_rwf [OF that] len, of malloc True ASN_SEQUENCE_CONSTRUCTOR] prepended_snd [OF that]
    by (simp add: asn_realloc_rbuild_sequence_def B)
  have "rgood malloc True s (enc_header ASN_SEQUENCE_CONSTRUCTOR (length B) @ B) (rbuild_message malloc msg s)"
    using rgood_bind [OF rgood_bind [OF rgood_bind [OF 1 2] 3] 4] by (simp add: rbuild_message_def B ebind_assoc Let_def)
  then show ?thesis using malloc by (cases "rbuild_message malloc msg s") (auto simp: rgood_def)
qed


subsection \<open>Reading a message\<close>

lemma comstr_parse_copied:
  assumes seq: "asn_parse_sequence mem data len ASN_SEQUENCE_CONSTRUCTOR = Inr (d, n, ASN_SEQUENCE_CONSTRUCTOR)"
    and st: "stored mem d (enc_head v c)" and fit: "length (enc_head v c) \<le> n"
    and v: "int_field v" and c: "length c \<le> 256" and buf: "length psid = 256"
  shows "snmp_comstr_parse mem data len psid 256 =
    Inr (d + length (enc_head v c), n - length (enc_head v c), (copied psid 256 c)[min (length c) 255 := 0], length c, v)"
proof -
  let ?i = "enc_int ASN_INTEGER v" and ?s = "enc_string ASN_OCTET_STR c"
  have 1: "asn_parse_int mem d n 8 = Inr (d + length ?i, n - length ?i, ASN_INTEGER, v)"
    using st fit by (intro parse_int_field v) (simp_all add: enc_head_def)
  have 2: "asn_parse_string mem (d + length ?i) (n - length ?i) psid 256 =
      Inr (d + length ?i + length ?s, n - length ?i - length ?s, ASN_OCTET_STR, copied psid 256 c, length c)"
    using string_codec.parse_enc [of 256 psid "(ASN_OCTET_STR, c)" mem "d + length ?i" "n - length ?i"] st fit c buf
    by (simp add: enc_head_def string_type_def)
  have l: "length (copied psid 256 c) = 256" using c buf by (simp add: copied_def)
  then show ?thesis using seq 1 2 by (simp add: snmp_comstr_parse_def wr_def enc_head_def)
qed

lemma comstr_parse_enc:
  assumes "asn_parse_sequence mem data len ASN_SEQUENCE_CONSTRUCTOR = Inr (d, n, ASN_SEQUENCE_CONSTRUCTOR)"
    and "stored mem d (enc_head v c)" and "length (enc_head v c) \<le> n"
    and "int_field v" and c: "length c < 256" and buf: "length psid = 256"
  shows "\<exists>psid'. snmp_comstr_parse mem data len psid 256 =
    Inr (d + length (enc_head v c), n - length (enc_head v c), psid', length c, v) \<and> take (length c) psid' = c"
proof -
  have "take (length c) (copied psid 256 c) = c" using c buf by (intro copied_take) simp_all
  then have "take (length c) ((copied psid 256 c)[length c := 0]) = c" by simp
  then show ?thesis using comstr_parse_copied [OF assms(1-4) less_imp_le [OF c] buf] c by simp
qed

lemma parse_version_enc:
  assumes seq: "asn_parse_sequence mem data len ASN_SEQUENCE_CONSTRUCTOR = Inr (d, n, ASN_SEQUENCE_CONSTRUCTOR)"
    and st: "stored mem d (enc_int ASN_INTEGER v)" and fit: "length (enc_int ASN_INTEGER v) \<le> n"
    and v: "v = SNMP_VERSION_1 \<or> v = SNMP_VERSION_2c"
  shows "snmp_parse_version mem data len = Inr v"
  using seq parse_int_field [OF version_field [OF v] st fit] v
  by (auto simp: snmp_parse_version_def attempt_def)


definition received_message :: "u64 \<Rightarrow> snmp_message \<Rightarrow> snmp_message \<Rightarrow> snmp_message" where
  "received_message transid msg0 msg =
     \<lparr>m_version = m_version msg, m_community = m_community msg,
      m_securityModel = (if m_version msg = SNMP_VERSION_1 then 1 else 2), m_securityLevel = 1,
      m_transid = transid, m_pdu = received (m_pdu msg0) (m_pdu msg)\<rparr>"

lemma parse_message_enc:
  assumes seq: "asn_parse_sequence mem data len ASN_SEQUENCE_CONSTRUCTOR = Inr (d, n, ASN_SEQUENCE_CONSTRUCTOR)"
    and st: "stored mem d (enc_head (m_version msg) (m_community msg))"
    and fit: "length (enc_head (m_version msg) (m_community msg)) \<le> n"
    and v: "m_version msg = SNMP_VERSION_1 \<or> m_version msg = SNMP_VERSION_2c"
    and c: "length (m_community msg) < 256" and buf: "length community = 256" and alloc: "\<And>n. alloc n"
    and sess: "s_version sess = SNMP_DEFAULT_VERSION \<or> s_version sess = m_version msg"
    and pdu: "snmp_pdu_parse alloc objid mem (d + length (enc_head (m_version msg) (m_community msg)))
        (n - length (enc_head (m_version msg) (m_community msg))) (m_pdu msg0) = Inr (0, received (m_pdu msg0) (m_pdu msg))"
  shows "snmp_parse v3 ids16 None alloc community objid sess g msg0 mem data len =
    (g\<lparr>ids := snd (snmp_get_next_transid ids16 (ids g))\<rparr>,
     Inr (received_message (fst (snmp_get_next_transid ids16 (ids g))) msg0 msg))"
proof -
  obtain t i where ti: "snmp_get_next_transid ids16 (ids g) = (t, i)" by (cases "snmp_get_next_transid ids16 (ids g)")
  obtain psid' where comstr: "snmp_comstr_parse mem data len community 256 =
      Inr (d + length (enc_head (m_version msg) (m_community msg)), n - length (enc_head (m_version msg) (m_community msg)),
        psid', length (m_community msg), m_version msg)" "take (length (m_community msg)) psid' = m_community msg"
    using comstr_parse_enc [OF seq st fit version_field [OF v] c buf] by blast
  have ver: "snmp_parse_version mem data len = Inr (m_version msg)"
    using st fit by (intro parse_version_enc [OF seq _ _ v]) (simp_all add: enc_head_def)
  have "(if s_version sess \<noteq> SNMP_DEFAULT_VERSION then Inr (s_version sess) else snmp_parse_version mem data len) = Inr (m_version msg)"
    using sess ver by auto
  moreover have "parse_community None alloc community sess (msg0\<lparr>m_transid := t\<rparr>) mem data len =
      Inr (msg0\<lparr>m_transid := t, m_version := m_version msg, m_securityLevel := 1,
          m_securityModel := (if m_version msg = SNMP_VERSION_1 then 1 else 2), m_community := m_community msg\<rparr>,
        d + length (enc_head (m_version msg) (m_community msg)), n - length (enc_head (m_version msg) (m_community msg)))"
    using comstr sess alloc by (auto simp: parse_community_def authenticate_def)
  ultimately show ?thesis
    using ti v pdu by (auto simp: snmp_parse_def snmp_parse_inner_def received_message_def pdu_errors_def)
qed

lemma build_defaults_command: "build_defaults alloc v pdu = Inr pdu' \<Longrightarrow> command pdu' = command pdu"
  by (auto simp: build_defaults_def zero_defaults_def Let_def split: if_splits)


subsection \<open>Properties\<close>


definition sample_message :: snmp_message where
  "sample_message = \<lparr>m_version = SNMP_VERSION_2c, m_community = [0x70, 0x75, 0x62], m_securityModel = 0, m_securityLevel = 0,
     m_transid = 0, m_pdu = sample_pdu\<rparr>"

abbreviation sample_lib :: snmp_lib where
  "sample_lib \<equiv> \<lparr>ids = \<lparr>Reqid = 0, Msgid = 0, Sessid = 0, Transid = 0\<rparr>, snmpInASNParseErrs = 0, snmpInBadVersions = 0\<rparr>"

abbreviation sample_session :: snmp_session where
  "sample_session \<equiv> \<lparr>s_version = SNMP_DEFAULT_VERSION, s_community = []\<rparr>"

lemma sample_message_built:
  "build_defaults (\<lambda>_. True) 1 sample_pdu = Inr sample_pdu"
  "build_community (\<lambda>_. True) sess (command sample_pdu) (m_community sample_message) = Inr [0x70, 0x75, 0x62]"
  "m_version sample_message = SNMP_VERSION_2c" "m_pdu sample_message = sample_pdu"
  "length (agent_addr sample_pdu) = 4"
  "sample_message\<lparr>m_community := [0x70, 0x75, 0x62], m_pdu := sample_pdu\<rparr> = sample_message"
  by (simp_all add: build_defaults_def zero_defaults_def build_community_def sample_pdu_def sample_message_def)

lemma sample_head: "length (enc_head v [0x70, 0x75, 0x62]) \<le> 20"
  using length_enc_int [of ASN_INTEGER v] length_enc_string [of ASN_OCTET_STR "[0x70, 0x75, 0x62]"] by (simp add: enc_head_def)


text \<open>
  C7 (message round trip with the reverse encoder).  With \<open>NETSNMP_DS_LIB_REVERSE_ENCODE\<close> set and memory available, \<open>snmp_build\<close>
  succeeds whatever room the buffer has, and the bytes it put in front of those already
  there are read back by \<open>snmp_parse\<close> as the message that was sent.
\<close>

theorem snmp_message_reverse_roundtrip:
  fixes msg :: snmp_message
  assumes v: "m_version msg = SNMP_VERSION_1 \<or> m_version msg = SNMP_VERSION_2c"
    and pdu: "build_defaults alloc (m_version msg) (m_pdu msg) = Inr pdu" "pdu_ok pdu bs"
    and c: "build_community alloc sess (command pdu) (m_community msg) = Inr c" "length c < 256"
    and w: "offset \<le> length pkt" and malloc: "\<And>n. malloc n \<noteq> None"
    and len: "length (enc_head (m_version msg) c) + length (enc_rpdu pdu bs) \<le> 0xffff"
    and buf: "length community = 256" "length objid = 128" "length (agent_addr (m_pdu msg0)) = 4" and alloc: "\<And>n. alloc n"
    and sess': "s_version sess' = SNMP_DEFAULT_VERSION \<or> s_version sess' = m_version msg"
  shows "\<exists>pkt' offset'. snmp_build v3 True malloc alloc sess msg (pkt, pkt_len, offset) =
      Inr ((pkt', length pkt', offset'), msg\<lparr>m_community := c, m_pdu := pdu\<rparr>) \<and>
    snmp_parse v3' ids16 None alloc community objid sess' g msg0 pkt' (length pkt' - offset') (offset' - offset) =
      (g\<lparr>ids := snd (snmp_get_next_transid ids16 (ids g))\<rparr>,
       Inr (received_message (fst (snmp_get_next_transid ids16 (ids g))) msg0 (msg\<lparr>m_community := c, m_pdu := pdu\<rparr>)))"
proof -
  let ?m = "msg\<lparr>m_community := c, m_pdu := pdu\<rparr>" and ?H = "enc_head (m_version msg) c" and ?P = "enc_rpdu pdu bs"
  let ?h = "enc_header ASN_SEQUENCE_CONSTRUCTOR (length (?H @ ?P))"
  obtain pkt' offset' where b: "rbuild_message malloc ?m (pkt, offset) = Inr (pkt', offset')"
    and pre: "prepended (pkt, offset) (?h @ ?H @ ?P) (pkt', offset')"
    using rbuild_message_prepends [of ?m bs "(pkt, offset)" malloc] version_field [OF v] pdu(2) w len malloc by (auto simp: rwf_def)
  have "m_version msg \<noteq> 3" using v by auto
  then have "snmp_build v3 True malloc alloc sess msg (pkt, pkt_len, offset) = Inr ((pkt', length pkt', offset'), ?m)"
    using v pdu c b by (auto simp: snmp_build_def snmp_build_inner_def)
  moreover define d where "d = length pkt' - offset'"
  have n: "offset' - offset = length (?h @ ?H @ ?P)" using prepended_snd [OF pre] by simp
  have st: "stored pkt' d (?h @ ?H @ ?P)" using prepended_stored [OF pre] by (simp add: d_def)
  then have s: "stored pkt' (d + length ?h) ?H" "stored pkt' (d + length ?h + length ?H) ?P" by simp_all
  have seq: "asn_parse_sequence pkt' d (offset' - offset) ASN_SEQUENCE_CONSTRUCTOR =
      Inr (d + length ?h, length (?H @ ?P), ASN_SEQUENCE_CONSTRUCTOR)"
    using parse_rseq_enc [of pkt' d "length (?H @ ?P)" "offset' - offset"] st len n by simp
  have "length (enc_rbody pdu bs) \<le> 0xffff" using len by (simp add: enc_rpdu_def)
  from pdu_parse_renc [where alloc = alloc, OF pdu(2) buf(2,3) alloc s(2) this order_refl]
  have "snmp_parse v3' ids16 None alloc community objid sess' g msg0 pkt' d (offset' - offset) =
      (g\<lparr>ids := snd (snmp_get_next_transid ids16 (ids g))\<rparr>,
       Inr (received_message (fst (snmp_get_next_transid ids16 (ids g))) msg0 ?m))"
    using s(1) by (intro parse_message_enc [OF seq _ _ _ _ buf(1) alloc]) (simp_all add: v c sess')
  ultimately show ?thesis unfolding d_def by blast
qed

theorem snmp_message_reverse_roundtrip_witness:
  "\<exists>pkt' offset'. snmp_build (\<lambda>_ _. Inl NoMemory) True (\<lambda>_. Some (\<lambda>_. 0)) (\<lambda>_. True) sample_session sample_message ([], 0, 0) =
      Inr ((pkt', length pkt', offset'), sample_message) \<and>
    snmp_parse (\<lambda>g _ _ _ _. (g, Inl NoMemory)) True None (\<lambda>_. True) (replicate 256 0) (replicate 128 0) sample_session sample_lib sample_message
        pkt' (length pkt' - offset') offset' =
      (sample_lib\<lparr>ids := snd (snmp_get_next_transid True (ids sample_lib))\<rparr>,
       Inr (received_message (fst (snmp_get_next_transid True (ids sample_lib))) sample_message sample_message))"
proof -
  have "length (enc_rpdu sample_pdu sample_bindings) \<le> 300"
    using sample_enc(2) length_enc_length(2) [of "length (enc_rbody sample_pdu sample_bindings)"]
    by (simp add: enc_rpdu_def enc_header_def del: length_enc_length)
  then show ?thesis
    using snmp_message_reverse_roundtrip [of sample_message "\<lambda>_. True" sample_pdu sample_bindings sample_session "[0x70, 0x75, 0x62]" 0 "[]"
        "\<lambda>_. Some (\<lambda>_. 0)" "replicate 256 0" "replicate 128 0" sample_message sample_session "\<lambda>_ _. Inl NoMemory" 0 "\<lambda>g _ _ _ _. (g, Inl NoMemory)" True sample_lib]
      sample_message_built sample_pdu_ok sample_head [of 1]
    by simp
qed

text \<open>
  C18 (only legal combinations of version and command are sent).  Whenever \<open>snmp_build\<close> produces a community-based
  message, its version is 1 or 2c; the PDU is not a report and not of an unknown type; a
  version 1 trap goes only into version 1, and the commands of version 2 only into version 2c; and
  a bulk request has no negative parameter.
\<close>

theorem snmp_build_legal:
  assumes "snmp_build v3 reverse malloc alloc sess msg p = Inr (p', sent)" and "m_version msg \<noteq> SNMP_VERSION_3"
  shows "(m_version sent = SNMP_VERSION_1 \<or> m_version sent = SNMP_VERSION_2c) \<and>
    (command (m_pdu sent) = SNMP_MSG_TRAP \<longrightarrow> m_version sent = SNMP_VERSION_1) \<and>
    (command (m_pdu sent) \<in> {SNMP_MSG_TRAP2, SNMP_MSG_INFORM, SNMP_MSG_GETBULK} \<longrightarrow> m_version sent = SNMP_VERSION_2c) \<and>
    command (m_pdu sent) \<in> {SNMP_MSG_GET, SNMP_MSG_GETNEXT, SNMP_MSG_RESPONSE, SNMP_MSG_SET, SNMP_MSG_TRAP, SNMP_MSG_GETBULK,
      SNMP_MSG_INFORM, SNMP_MSG_TRAP2} \<and>
    (command (m_pdu sent) = SNMP_MSG_GETBULK \<longrightarrow> 0 \<le> sint (errindex (m_pdu sent)) \<and> 0 \<le> sint (errstat (m_pdu sent)))"
proof -
  obtain pdu c where d: "build_defaults alloc (m_version msg) (m_pdu msg) = Inr pdu"
    and v: "m_version msg = SNMP_VERSION_1 \<or> m_version msg = SNMP_VERSION_2c" and s: "sent = msg\<lparr>m_community := c, m_pdu := pdu\<rparr>"
    using assms by (auto simp: snmp_build_def snmp_build_inner_def ebind_eq_Inr Let_def split: sum.splits prod.splits if_splits)
  from d have "command pdu = command (m_pdu msg)" by (rule build_defaults_command)
  with d v show ?thesis
    by (auto simp: s build_defaults_def zero_defaults_def Let_def split: if_splits)
qed

theorem snmp_build_legal_witness:
  "\<exists>p' sent. snmp_build (\<lambda>_ _. Inl NoMemory) False (\<lambda>_. None) (\<lambda>_. True) sample_session sample_message (replicate 400 0, 400, 0) = Inr (p', sent) \<and>
    m_version sent = SNMP_VERSION_2c \<and> command (m_pdu sent) \<in> {SNMP_MSG_GET, SNMP_MSG_GETNEXT, SNMP_MSG_RESPONSE, SNMP_MSG_SET,
      SNMP_MSG_TRAP, SNMP_MSG_GETBULK, SNMP_MSG_INFORM, SNMP_MSG_TRAP2}"
proof -
  have "4 + length (enc_head 1 [0x70, 0x75, 0x62]) + length (enc_pdu sample_pdu sample_bindings) \<le> 400"
    using sample_head [of 1] sample_enc(1) by simp
  then obtain r where "build_message sample_message (replicate 400 0) 400 = Inr r"
    using build_message_stores [of sample_message sample_bindings 400 "replicate 400 0"] sample_message_built sample_pdu_ok version_field [of 1]
    by (simp add: sample_message_def)
  then have "snmp_build (\<lambda>_ _. Inl NoMemory) False (\<lambda>_. None) (\<lambda>_. True) sample_session sample_message (replicate 400 0, 400, 0) =
      Inr ((fst r, snd r, 0), sample_message)"
    using sample_message_built by (cases r) (simp add: snmp_build_def snmp_build_inner_def)
  moreover from snmp_build_legal [OF this] sample_message_built
  have "command (m_pdu sample_message) \<in> {SNMP_MSG_GET, SNMP_MSG_GETNEXT, SNMP_MSG_RESPONSE, SNMP_MSG_SET,
      SNMP_MSG_TRAP, SNMP_MSG_GETBULK, SNMP_MSG_INFORM, SNMP_MSG_TRAP2}" by auto
  ultimately show ?thesis using sample_message_built(3) by blast
qed


subsection \<open>Memory safety of the message decoder\<close>

lemma attempt_safe: "safe r \<Longrightarrow> safe (attempt r)"
  by (cases r) (auto simp: attempt_def)

lemma with_errno_safe: "with_errno c e = OverRead \<longleftrightarrow> e = OverRead" "with_errno c e = OverWrite \<longleftrightarrow> e = OverWrite"
  by (cases e; simp add: with_errno_def undefined_behaviour_def)+

lemma parse_string_buffer:
  assumes "asn_parse_string mem data dl str k = Inr (d, l, t, str', n)" and "k \<le> length str"
  shows "length str' = length str \<and> n \<le> k"
proof -
  have wr_len: "length y = length x" if "wr x i b = Inr y" for x y :: bytes and i b
    using that by (auto simp: wr_def split: if_splits)
  have wrs: "length y = length x" if "wr_bytes x i bs = Inr y" for x y :: bytes and i bs
    using that by (induction x i bs rule: wr_bytes.induct) (auto simp: wr_bytes.simps ebind_eq_Inr dest: wr_len)
  show ?thesis
    using assms(1) by (auto simp: asn_parse_string_def ebind_eq_Inr split: if_splits prod.splits dest!: wr_len wrs)
qed

lemma parse_version_safe:
  assumes "data + len + 32 \<le> length mem"
  shows "safe (snmp_parse_version mem data len)"
  unfolding snmp_parse_version_def
proof (rule safe_ebind)
  show "safe (attempt (asn_parse_sequence mem data len ASN_SEQUENCE_CONSTRUCTOR))"
    using assms by (intro attempt_safe parse_sequence_safe) simp
next
  fix r assume r: "attempt (asn_parse_sequence mem data len ASN_SEQUENCE_CONSTRUCTOR) = Inr r"
  have int: "safe (asn_parse_int mem d l 8)" if "asn_parse_sequence mem data len ASN_SEQUENCE_CONSTRUCTOR = Inr (d, l, t)" for d l t
    using parse_sequence_bounds [OF that] assms by (intro int_decoders_slack) simp
  then show "safe (case r of None \<Rightarrow> Inr (word_of_int SNMPERR_BAD_VERSION)
     | Some (data1, len1, _) \<Rightarrow> ebind (attempt (asn_parse_int mem data1 len1 8)) (\<lambda>r.
         case r of None \<Rightarrow> Inr (word_of_int SNMPERR_BAD_VERSION)
         | Some (_, _, type, version) \<Rightarrow>
             if type \<noteq> ASN_INTEGER then Inr (word_of_int SNMPERR_BAD_VERSION) else Inr (scast (ucast version :: u32))))"
    using r by (auto simp: attempt_def intro!: safe_ebind split: option.splits sum.splits if_splits prod.splits)
qed

lemma comstr_parse_safe:
  assumes mem: "data + len + 32 \<le> length mem" and buf: "length psid = 256"
  shows "safe (snmp_comstr_parse mem data len psid 256)"
    and "snmp_comstr_parse mem data len psid 256 = Inr (d, l, psid', n, v) \<Longrightarrow> data \<le> d \<and> d + l \<le> data + len"
proof -
  have i: "safe (asn_parse_int mem d1 l1 8)" if "d1 + l1 \<le> data + len" for d1 l1
    using mem that by (intro int_decoders_slack) simp
  have s: "safe (asn_parse_string mem d1 l1 psid 256)" if "d1 + l1 \<le> data + len" for d1 l1
    using parse_string_safe [of d1 l1 mem 256 psid] that mem buf by simp
  have w: "safe (wr psid1 (min n1 255) 0)" if "length psid1 = 256" for psid1 :: bytes and n1
    using that by (simp add: wr_def)
  have "safe (asn_parse_sequence mem data len ASN_SEQUENCE_CONSTRUCTOR)" using mem by (intro parse_sequence_safe) simp
  then show "safe (snmp_comstr_parse mem data len psid 256)"
    unfolding snmp_comstr_parse_def
    by (auto intro!: safe_ebind i s w dest!: asn_parse_int_moves parse_sequence_bounds parse_string_buffer simp: buf)
  show "snmp_comstr_parse mem data len psid 256 = Inr (d, l, psid', n, v) \<Longrightarrow> data \<le> d \<and> d + l \<le> data + len"
    by (auto simp: snmp_comstr_parse_def ebind_eq_Inr dest!: asn_parse_int_moves asn_parse_string_moves parse_sequence_bounds)
qed

text \<open>What the message decoder needs from \<open>session->authenticator\<close>: it stays within the data it was given.\<close>

definition auth_within :: "authenticator option \<Rightarrow> bool" where
  "auth_within auth \<longleftrightarrow> (\<forall>f mem d l c d' l'. auth = Some f \<longrightarrow> f mem d l c = Some (d', l') \<longrightarrow> d \<le> d' \<and> d' + l' \<le> d + l)"

lemma parse_community_safe:
  assumes mem: "data + len + 32 \<le> length mem" and buf: "length community = 256" and auth: "auth_within auth"
  shows "safe (parse_community auth alloc community sess msg mem data len)"
    and "parse_community auth alloc community sess msg mem data len = Inr (msg', d, l) \<Longrightarrow> data \<le> d \<and> d + l \<le> data + len \<and> m_pdu msg' = m_pdu msg"
proof -
  have a: "safe (authenticate auth mem d1 l1 c)" for d1 l1 c
    by (auto simp: authenticate_def split: option.splits)
  show "safe (parse_community auth alloc community sess msg mem data len)"
    unfolding parse_community_def using comstr_parse_safe(1) [OF mem buf] by (auto intro!: safe_ebind a)
  have w: "d1 \<le> d' \<and> d' + l' \<le> d1 + l1" if "authenticate auth mem d1 l1 c = Inr (d', l')" for d1 l1 c d' l'
    using that auth by (auto simp: authenticate_def auth_within_def split: option.splits)
  show "parse_community auth alloc community sess msg mem data len = Inr (msg', d, l) \<Longrightarrow> data \<le> d \<and> d + l \<le> data + len \<and> m_pdu msg' = m_pdu msg"
    by (auto simp: parse_community_def ebind_eq_Inr split: if_splits dest!: w comstr_parse_safe(2) [OF mem buf])
qed



lemma snmp_parse_overread:
  "snd (snmp_parse v3 ids16 auth alloc community objid sample_session g msg [0x30, 0x84] 0 2) = Inl OverRead"
proof -
  have "asn_parse_sequence [0x30, 0x84] 0 2 ASN_SEQUENCE_CONSTRUCTOR = Inl OverRead"
    by (simp add: asn_parse_sequence_def asn_parse_header_def asn_parse_length_def rd_def be_loop_outside)
  then have "snmp_parse_version [0x30, 0x84] 0 2 = Inl OverRead"
    by (simp add: snmp_parse_version_def attempt_def undefined_behaviour_def)
  then show ?thesis
    by (simp add: snmp_parse_def snmp_parse_inner_def with_errno_def undefined_behaviour_def split: prod.splits)
qed


text \<open>
  A community string of 256 octets is damaged.  The longest community string that \<open>snmp_comstr_parse\<close> accepts fills its buffer, and the
  terminating zero byte that is written afterwards replaces the last octet, although the reported length is still 256.
\<close>

lemma comstr_parse_full:
  assumes seq: "asn_parse_sequence mem data len ASN_SEQUENCE_CONSTRUCTOR = Inr (d, n, ASN_SEQUENCE_CONSTRUCTOR)"
    and "stored mem d (enc_head v c)" and "length (enc_head v c) \<le> n"
    and "int_field v" and c: "length c = 256" and buf: "length psid = 256"
  shows "snmp_comstr_parse mem data len psid 256 =
    Inr (d + length (enc_head v c), n - length (enc_head v c), butlast c @ [0], 256, v)"
proof -
  have "copied psid 256 c = c" using c buf by (simp add: copied_def store_at_def)
  moreover have "c[255 := 0] = butlast c @ [0]"
    using c by (cases c rule: rev_cases) (simp_all add: list_update_append)
  ultimately show ?thesis using comstr_parse_copied [OF assms(1-4) _ buf] c by simp
qed

lemma comstr_parse_full_witness:
  "\<exists>d n. snmp_comstr_parse (enc_seq ASN_SEQUENCE_CONSTRUCTOR (length (enc_head 0 (replicate 256 0x61))) @ enc_head 0 (replicate 256 0x61)) 0
      (4 + length (enc_head 0 (replicate 256 0x61))) (replicate 256 0) 256 =
    Inr (d, n, butlast (replicate 256 0x61) @ [0], 256, 0)"
proof -
  let ?e = "enc_head 0 (replicate 256 0x61)"
  let ?m = "enc_seq ASN_SEQUENCE_CONSTRUCTOR (length ?e) @ ?e"
  have "length ?e \<le> 300"
    using length_enc_int [of ASN_INTEGER 0] length_enc_string [of ASN_OCTET_STR "replicate 256 0x61"] by (simp add: enc_head_def)
  then have "asn_parse_sequence ?m 0 (4 + length ?e) ASN_SEQUENCE_CONSTRUCTOR = Inr (4, length ?e, ASN_SEQUENCE_CONSTRUCTOR)"
    using parse_seq_enc [of ?m 0 "length ?e" "4 + length ?e"] by (simp add: stored_def)
  from comstr_parse_full [OF this, of 0 "replicate 256 0x61" "replicate 256 0"] version_field [of 0]
  show ?thesis by (simp add: stored_def)
qed

text \<open>A PDU of an unknown type is counted twice as a parse error, by \<open>snmp_pdu_parse\<close> and by its caller.\<close>

lemma unknown_pdu_counted_twice:
  assumes "s_version sess = SNMP_VERSION_1 \<or> s_version sess = SNMP_VERSION_2c"
    and "parse_community auth alloc community sess (msg\<lparr>m_transid := fst (snmp_get_next_transid ids16 (ids g))\<rparr>) mem data len =
      Inr (msg', d, l)"
    and "snmp_pdu_parse alloc objid mem d l (m_pdu msg') = Inl (BadPduType t)"
  shows "snmpInASNParseErrs (fst (snmp_parse v3 ids16 auth alloc community objid sess g msg mem data len)) =
    snmpInASNParseErrs g + 2"
  using assms by (cases "snmp_get_next_transid ids16 (ids g)")
    (auto simp: snmp_parse_def snmp_parse_inner_def pdu_errors_def asn_parse_error_def)


lemma build_string_prefix:
  "n \<le> length s \<Longrightarrow> asn_build_string m d l t (Some s) n = asn_build_string m d l t (Some (take n s)) n"
  by (cases "asn_build_header m d l t n") (auto simp: asn_build_string_def rd_bytes_def)

text \<open>
  The community header drops the high bytes of the length.  \<open>snmp_comstr_build\<close> stores the header of a message of
  \<open>messagelen\<close> more bytes, but it passes on only the low byte of the length of the community
  string: a string of 256 or more octets is cut to its length modulo 256, without an error.
\<close>

lemma comstr_build_low_byte:
  assumes v: "int_field v" and mem: "data + len \<le> length mem"
    and room: "4 + length (enc_head v (take (length psid mod 256) psid)) \<le> len"
  defines "H \<equiv> enc_head v (take (length psid mod 256) psid)"
  shows "snmp_comstr_build mem data len psid (length psid) v messagelen =
    Inr (store_at mem data (enc_seq ASN_SEQUENCE_CONSTRUCTOR (length H + messagelen) @ H), data + 4 + length H, len - 4 - length H)"
proof -
  let ?n = "length psid mod 256" and ?s = ASN_SEQUENCE_CONSTRUCTOR
  let ?i = "enc_int ASN_INTEGER v" and ?c = "enc_string ASN_OCTET_STR (take ?n psid)" and ?hz = "enc_seq ASN_SEQUENCE_CONSTRUCTOR 0"
  have H: "H = ?i @ ?c" by (simp add: H_def enc_head_def)
  have n: "?n \<le> length psid" by simp
  have r: "4 + length ?i + length ?c \<le> len" using room by (simp add: enc_head_def)
  have 1: "asn_build_sequence mem data len ?s 0 = Inr (store_at mem data ?hz, data + 4, len - 4)"
    using mem r by (intro build_sequence_ok) simp_all
  have 2: "asn_build_int (store_at mem data ?hz) (data + 4) (len - 4) ASN_INTEGER v 8 =
      Inr (store_at mem data (?hz @ ?i), data + 4 + length ?i, len - 4 - length ?i)"
    using builds_ok [OF builds_int_field [OF v], of "data + 4" "len - 4" "store_at mem data ?hz"] mem r
      store_at_store_at [of data ?hz ?i mem] by simp
  have 3: "asn_build_string (store_at mem data (?hz @ ?i)) (data + 4 + length ?i) (len - 4 - length ?i) ASN_OCTET_STR (Some psid) ?n =
      Inr (store_at mem data (?hz @ H), data + 4 + length H, len - 4 - length H)"
    using builds_ok [OF builds_string, of "data + 4 + length ?i" "len - 4 - length ?i" "store_at mem data (?hz @ ?i)" ASN_OCTET_STR "take ?n psid"]
      mem r store_at_store_at [of data "?hz @ ?i" ?c mem] build_string_prefix [OF n] n by (simp add: H add.assoc)
  have 4: "insert_header (store_at mem data (?hz @ H)) data len ?s (length H + messagelen) =
      Inr (store_at mem data (enc_seq ?s (length H + messagelen) @ H))"
    using mem r store_at_overlay [of "enc_seq ?s (length H + messagelen)" ?hz data H mem] by (subst insert_header_enc) (simp_all add: H)
  show ?thesis using 1 2 3 4 by (simp add: snmp_comstr_build_def)
qed

lemma comstr_build_low_byte_witness:
  "\<exists>mem'. snmp_comstr_build (replicate 20 0) 0 20 (replicate 257 0x61) 257 0 0 =
     Inr (mem', 4 + length (enc_head 0 [0x61]), 16 - length (enc_head 0 [0x61]))"
proof -
  have "length (enc_head 0 [0x61]) \<le> 15"
    using length_enc_int [of ASN_INTEGER 0] length_enc_string [of ASN_OCTET_STR "[0x61]"] by (simp add: enc_head_def)
  then show ?thesis
    using comstr_build_low_byte [of 0 0 20 "replicate 20 0" "replicate 257 0x61" 0] version_field [of 0] by simp
qed

end
