(* ===== verification/Usm_In.thy ===== *)
theory Usm_In
  imports Usm_Time Usm_User Snmp_Message
begin

unbundle bit_operations_syntax

section \<open>Incoming messages of the user-based security model (\<open>snmplib/snmpusm.c\<close>)\<close>

text \<open>
  \<open>usm_parse_security_parameters\<close> and \<open>usm_process_in_msg\<close> with the setters of \<open>struct usmStateReference\<close>.  The message is the memory
  \<open>i_wholeMsg\<close>, \<open>wholeMsg\<close> is its index 0.  The cryptographic functions are the record \<open>crypto\<close>, \<open>now\<close> the seconds since the start of the engine and \<open>alloc\<close> tells whether
  \<open>malloc\<close> and \<open>calloc\<close> succeed.  The local arrays of 16 bytes are arguments, since they are not initialised.
  The outputs of a call are the record \<open>usm_result\<close>; \<open>secStateRef\<close>, which the one caller always passes, is not \<open>NULL\<close>.  The buffers
  that a failed \<open>usm_parse_security_parameters\<close> has filled in part are not part of the result.
  \<open>Inl\<close> is undefined behaviour only.
\<close>

abbreviation (input) SNMPERR_USM_UNKNOWNSECURITYNAME :: int where "SNMPERR_USM_UNKNOWNSECURITYNAME \<equiv> - 43"
abbreviation (input) SNMPERR_USM_UNSUPPORTEDSECURITYLEVEL :: int where "SNMPERR_USM_UNSUPPORTEDSECURITYLEVEL \<equiv> - 44"
abbreviation (input) SNMPERR_USM_AUTHENTICATIONFAILURE :: int where "SNMPERR_USM_AUTHENTICATIONFAILURE \<equiv> - 46"
abbreviation (input) SNMPERR_USM_PARSEERROR :: int where "SNMPERR_USM_PARSEERROR \<equiv> - 47"
abbreviation (input) SNMPERR_USM_UNKNOWNENGINEID :: int where "SNMPERR_USM_UNKNOWNENGINEID \<equiv> - 48"
abbreviation (input) SNMPERR_USM_DECRYPTIONERROR :: int where "SNMPERR_USM_DECRYPTIONERROR \<equiv> - 50"
abbreviation (input) SNMP_SESS_AUTHORITATIVE :: nat where "SNMP_SESS_AUTHORITATIVE \<equiv> 1"
abbreviation (input) SNMP_SESS_UNKNOWNAUTH :: nat where "SNMP_SESS_UNKNOWNAUTH \<equiv> 2"
abbreviation (input) SNMP_MSG_FLAG_AUTH_BIT :: u8 where "SNMP_MSG_FLAG_AUTH_BIT \<equiv> 0x01"
abbreviation (input) SNMP_MSG_FLAG_PRIV_BIT :: u8 where "SNMP_MSG_FLAG_PRIV_BIT \<equiv> 0x02"
abbreviation (input) SNMP_MSG_FLAG_RPRT_BIT :: u8 where "SNMP_MSG_FLAG_RPRT_BIT \<equiv> 0x04"

record crypto =
  c_hash :: sc_hash
  c_hmac :: hmac
  c_des :: cipher
  c_aes :: cipher

record usmStateReference =
  usr_name :: bytes
  usr_engine_id :: bytes
  usr_auth_protocol :: oid
  usr_auth_key :: bytes
  usr_priv_protocol :: oid
  usr_priv_key :: bytes
  usr_sec_level :: nat

record usm =
  um_state :: usm_state
  um_users :: "usmUser list"
  um_noNameUser :: "usmUser option"

record sec_params =
  sp_engineID :: bytes
  sp_boots :: u32
  sp_time :: u32
  sp_name :: bytes
  sp_nameLen :: nat
  sp_signature :: bytes
  sp_salt :: bytes
  sp_data :: nat
  sp_msg :: bytes

text \<open>\<open>struct snmp_secmod_incoming_params\<close>, the part that goes in.\<close>

record secmod_in =
  i_maxMsgSize :: nat
  i_secParams :: nat
  i_secLevel :: nat
  i_wholeMsg :: bytes
  i_wholeMsgLen :: nat
  i_secEngineID :: bytes
  i_secName :: bytes
  i_scopedPduLen :: nat
  i_sess :: "nat option"
  i_msg_flags :: u8

datatype scoped_pdu =
    NoScopedPdu
  | InMessage nat nat
  | Decrypted bytes

record usm_result =
  r_usm :: usm
  r_msg :: bytes
  r_engineID :: bytes
  r_name :: bytes
  r_nameLen :: nat
  r_scopedPdu :: scoped_pdu
  r_maxSizeResponse :: "nat option"
  r_ref :: "usmStateReference option"


subsection \<open>The state reference\<close>

definition MAKE_ENTRY :: "(nat \<Rightarrow> bool) \<Rightarrow> nat \<Rightarrow> 'a list \<Rightarrow> int \<times> 'a list" where
  "MAKE_ENTRY alloc width item =
     (if item = [] then (0, []) else if \<not> alloc (length item * width) then (- 1, []) else (0, item))"

definition usm_set_usmStateReference_name :: "(nat \<Rightarrow> bool) \<Rightarrow> bytes \<Rightarrow> usmStateReference \<Rightarrow> int \<times> usmStateReference" where
  "usm_set_usmStateReference_name alloc x ref = apsnd (\<lambda>y. ref\<lparr>usr_name := y\<rparr>) (MAKE_ENTRY alloc 1 x)"

definition usm_set_usmStateReference_engine_id :: "(nat \<Rightarrow> bool) \<Rightarrow> bytes \<Rightarrow> usmStateReference \<Rightarrow> int \<times> usmStateReference" where
  "usm_set_usmStateReference_engine_id alloc x ref = apsnd (\<lambda>y. ref\<lparr>usr_engine_id := y\<rparr>) (MAKE_ENTRY alloc 1 x)"

definition usm_set_usmStateReference_auth_protocol :: "(nat \<Rightarrow> bool) \<Rightarrow> oid \<Rightarrow> usmStateReference \<Rightarrow> int \<times> usmStateReference" where
  "usm_set_usmStateReference_auth_protocol alloc x ref = apsnd (\<lambda>y. ref\<lparr>usr_auth_protocol := y\<rparr>) (MAKE_ENTRY alloc 8 x)"

definition usm_set_usmStateReference_auth_key :: "(nat \<Rightarrow> bool) \<Rightarrow> bytes \<Rightarrow> usmStateReference \<Rightarrow> int \<times> usmStateReference" where
  "usm_set_usmStateReference_auth_key alloc x ref = apsnd (\<lambda>y. ref\<lparr>usr_auth_key := y\<rparr>) (MAKE_ENTRY alloc 1 x)"

definition usm_set_usmStateReference_priv_protocol :: "(nat \<Rightarrow> bool) \<Rightarrow> oid \<Rightarrow> usmStateReference \<Rightarrow> int \<times> usmStateReference" where
  "usm_set_usmStateReference_priv_protocol alloc x ref = apsnd (\<lambda>y. ref\<lparr>usr_priv_protocol := y\<rparr>) (MAKE_ENTRY alloc 8 x)"

definition usm_set_usmStateReference_priv_key :: "(nat \<Rightarrow> bool) \<Rightarrow> bytes \<Rightarrow> usmStateReference \<Rightarrow> int \<times> usmStateReference" where
  "usm_set_usmStateReference_priv_key alloc x ref = apsnd (\<lambda>y. ref\<lparr>usr_priv_key := y\<rparr>) (MAKE_ENTRY alloc 1 x)"

definition usm_set_usmStateReference_sec_level :: "nat \<Rightarrow> usmStateReference \<Rightarrow> int \<times> usmStateReference" where
  "usm_set_usmStateReference_sec_level x ref = (0, ref\<lparr>usr_sec_level := x\<rparr>)"

definition usm_malloc_usmStateReference :: "(nat \<Rightarrow> bool) \<Rightarrow> usmStateReference option" where
  "usm_malloc_usmStateReference alloc =
     (if alloc 104 then Some \<lparr>usr_name = [], usr_engine_id = [], usr_auth_protocol = [], usr_auth_key = [],
        usr_priv_protocol = [], usr_priv_key = [], usr_sec_level = 0\<rparr> else None)"

text \<open>A setter that returns -1 ends the sequence.\<close>

fun cache_all :: "(usmStateReference \<Rightarrow> int \<times> usmStateReference) list \<Rightarrow> usmStateReference \<Rightarrow> int \<times> usmStateReference" where
  "cache_all [] ref = (0, ref)"
| "cache_all (f # fs) ref = (case f ref of (rc, ref') \<Rightarrow> if rc = - 1 then (rc, ref') else cache_all fs ref')"

definition cache_identity :: "(nat \<Rightarrow> bool) \<Rightarrow> bytes \<Rightarrow> bytes \<Rightarrow> nat \<Rightarrow> usmStateReference \<Rightarrow> int \<times> usmStateReference" where
  "cache_identity alloc name engineID level =
     cache_all [usm_set_usmStateReference_name alloc name, usm_set_usmStateReference_engine_id alloc engineID,
                usm_set_usmStateReference_sec_level level]"

definition privKey_bytes :: "usmUser \<Rightarrow> bytes" where
  "privKey_bytes user = (case us_privKey user of None \<Rightarrow> [] | Some k \<Rightarrow> k)"

definition cache_user :: "(nat \<Rightarrow> bool) \<Rightarrow> usmUser \<Rightarrow> usmStateReference \<Rightarrow> int \<times> usmStateReference" where
  "cache_user alloc user =
     cache_all [usm_set_usmStateReference_auth_protocol alloc (us_authProtocol user),
                usm_set_usmStateReference_auth_key alloc (us_authKey user),
                usm_set_usmStateReference_priv_protocol alloc (us_privProtocol user),
                usm_set_usmStateReference_priv_key alloc (privKey_bytes user)]"

definition usm_clone_usmStateReference :: "(nat \<Rightarrow> bool) \<Rightarrow> usmStateReference \<Rightarrow> int \<times> usmStateReference option" where
  "usm_clone_usmStateReference alloc from =
     (case usm_malloc_usmStateReference alloc of
        None \<Rightarrow> (- 1, None)
      | Some ref \<Rightarrow>
          (case cache_all [usm_set_usmStateReference_name alloc (usr_name from),
                           usm_set_usmStateReference_engine_id alloc (usr_engine_id from),
                           usm_set_usmStateReference_auth_protocol alloc (usr_auth_protocol from),
                           usm_set_usmStateReference_auth_key alloc (usr_auth_key from),
                           usm_set_usmStateReference_priv_protocol alloc (usr_priv_protocol from),
                           usm_set_usmStateReference_priv_key alloc (usr_priv_key from),
                           usm_set_usmStateReference_sec_level (usr_sec_level from)] ref of
             (rc, to) \<Rightarrow> if rc = - 1 then (- 1, None) else (0, Some to)))"


subsection \<open>The security parameters\<close>

text \<open>A decoder that returns \<open>NULL\<close> makes the function return \<open>c\<close>.\<close>

definition or_return :: "int \<Rightarrow> 'a res \<Rightarrow> 'a res" where
  "or_return c r = (case r of Inl e \<Rightarrow> Inl (if undefined_behaviour e then e else SnmpErr c) | Inr x \<Rightarrow> Inr x)"

definition parse_octets :: "bytes \<Rightarrow> nat \<Rightarrow> nat \<Rightarrow> bytes \<Rightarrow> nat \<Rightarrow> (nat \<times> nat \<times> bytes \<times> nat) res" where
  "parse_octets mem data len buf buflen =
     ebind (asn_parse_string mem data len buf buflen) (\<lambda>(data', len', type, buf', n).
     if type \<noteq> ASN_OCTET_STR then Inl (TypeErr type) else Inr (data', len', buf', n))"

definition parse_integer :: "bytes \<Rightarrow> nat \<Rightarrow> nat \<Rightarrow> (nat \<times> nat \<times> u32) res" where
  "parse_integer mem data len =
     ebind (asn_parse_int mem data len 8) (\<lambda>(data', len', type, x).
     if type \<noteq> ASN_INTEGER then Inl (TypeErr type) else Inr (data', len', ucast x))"

text \<open>The name and the check of its length; \<open>origNameLen\<close> is an \<open>u_int\<close>.\<close>

definition parse_name :: "bytes \<Rightarrow> nat \<Rightarrow> nat \<Rightarrow> bytes \<Rightarrow> nat \<Rightarrow> (nat \<times> nat \<times> bytes \<times> nat) res" where
  "parse_name mem data len secName secNameLen =
     ebind (asn_parse_string mem data len secName secNameLen) (\<lambda>(data', len', type, secName1, n).
     if secNameLen mod 2 ^ 32 < n + 1 then Inl (LengthErr n)
     else if n > 32 then Inl (LengthErr n)
     else ebind (wr secName1 n 0) (\<lambda>secName2.
     if type \<noteq> ASN_OCTET_STR then Inl (TypeErr type) else Inr (data', len', secName2, n)))"

definition blank :: "bytes \<Rightarrow> nat \<Rightarrow> nat \<Rightarrow> bytes res" where
  "blank mem next n = (if n \<noteq> 0 then wr_bytes mem (next - n) (replicate n 0) else Inr mem)"

text \<open>Up to the signature, which is blanked in the message; then the salt.\<close>

definition parse_identity ::
  "bytes \<Rightarrow> nat \<Rightarrow> nat \<Rightarrow> bytes \<Rightarrow> bytes \<Rightarrow> bytes \<Rightarrow> (sec_params \<times> nat) res" where
  "parse_identity mem secParams remaining secEngineID secName signature =
     ebind (asn_parse_sequence mem secParams remaining ASN_OCTET_STR) (\<lambda>(p1, l1, _).
     ebind (asn_parse_sequence mem p1 l1 ASN_SEQUENCE_CONSTRUCTOR) (\<lambda>(p2, l2, _).
     ebind (parse_octets mem p2 l2 secEngineID (length secEngineID)) (\<lambda>(p3, l3, eid, eidLen).
     ebind (parse_integer mem p3 l3) (\<lambda>(p4, l4, boots).
     ebind (parse_integer mem p4 l4) (\<lambda>(p5, l5, time).
     if boots > ENGINEBOOT_MAX \<or> time > ENGINETIME_MAX then Inl (SnmpErr (- 1))
     else ebind (parse_name mem p5 l5 secName (length secName)) (\<lambda>(p6, l6, name, nameLen).
     ebind (parse_octets mem p6 l6 signature (length signature)) (\<lambda>(p7, l7, sig, sigLen).
     ebind (blank mem p7 sigLen) (\<lambda>mem'.
     Inr (\<lparr>sp_engineID = take eidLen eid, sp_boots = boots, sp_time = time, sp_name = name, sp_nameLen = nameLen,
           sp_signature = take sigLen sig, sp_salt = [], sp_data = p7, sp_msg = mem'\<rparr>, l7)))))))))"

definition usm_parse_security_parameters ::
  "bytes \<Rightarrow> nat \<Rightarrow> nat \<Rightarrow> bytes \<Rightarrow> bytes \<Rightarrow> bytes \<Rightarrow> bytes \<Rightarrow> sec_params res" where
  "usm_parse_security_parameters mem secParams remaining secEngineID secName signature salt =
     ebind (or_return (- 1) (parse_identity mem secParams remaining secEngineID secName signature)) (\<lambda>(sp, l7).
     or_return (- 2) (
       ebind (parse_octets (sp_msg sp) (sp_data sp) l7 salt (length salt)) (\<lambda>(p8, _, salt', saltLen).
       Inr (sp\<lparr>sp_salt := take saltLen salt', sp_data := p8\<rparr>))))"


subsection \<open>Processing a message\<close>

text \<open>
  The length that is left for the security parameters, as the source computes it: from the first bytes that \<open>secParams\<close> and
  \<open>wholeMsg\<close> point to, not from the pointers.
\<close>

definition usm_remaining :: "bytes \<Rightarrow> nat \<Rightarrow> nat \<Rightarrow> nat res" where
  "usm_remaining mem secParams wholeMsgLen =
     ebind (rd mem secParams) (\<lambda>a.
     ebind (rd mem 0) (\<lambda>b.
     Inr (usub64 wholeMsgLen (unat (ucast (ucast a - ucast b :: u64) :: u32)))))"

definition count_usm :: "usm_stat \<Rightarrow> usm_result \<Rightarrow> usm_result" where
  "count_usm i r = r\<lparr>r_usm := (r_usm r)\<lparr>um_state := count_stat i (um_state (r_usm r))\<rparr>\<rparr>"

definition with_lcd :: "lcd \<Rightarrow> usm_result \<Rightarrow> usm_result" where
  "with_lcd l r = r\<lparr>r_usm := (r_usm r)\<lparr>um_state := (um_state (r_usm r))\<lparr>u_lcd := l\<rparr>\<rparr>\<rparr>"

definition engine_must_be_known :: "nat option \<Rightarrow> u8 \<Rightarrow> bool" where
  "engine_must_be_known sess msg_flags \<longleftrightarrow>
     (case sess of
        Some auth \<Rightarrow> auth = SNMP_SESS_AUTHORITATIVE \<or> auth = SNMP_SESS_UNKNOWNAUTH \<and> msg_flags AND SNMP_MSG_FLAG_RPRT_BIT \<noteq> 0
      | None \<Rightarrow> msg_flags AND SNMP_MSG_FLAG_RPRT_BIT \<noteq> 0)"

definition engine_step :: "crypto \<Rightarrow> u32 \<Rightarrow> secmod_in \<Rightarrow> bytes \<Rightarrow> usm_result \<Rightarrow> int \<times> usm_result" where
  "engine_step cr now p engineID r =
     (let l = u_lcd (um_state (r_usm r)) in
      if engine_must_be_known (i_sess p) (i_msg_flags p) then
        (case ISENGINEKNOWN (c_hash cr) now l engineID of
           (known, l') \<Rightarrow> if known then (SNMPERR_SUCCESS, with_lcd l' r)
                         else (SNMPERR_USM_UNKNOWNENGINEID, count_usm UnknownEngineIDs (with_lcd l' r)))
      else
        (case ENSURE_ENGINE_RECORD (c_hash cr) now l engineID of
           (rc, l') \<Rightarrow> (if rc \<noteq> SNMPERR_SUCCESS then SNMPERR_USM_GENERICERROR else SNMPERR_SUCCESS, with_lcd l' r)))"

text \<open>The user, if there is one that may use the level.\<close>

definition user_step :: "secmod_in \<Rightarrow> sec_params \<Rightarrow> usm_result \<Rightarrow> usmUser option \<times> int \<times> usm_result" where
  "user_step p sp r =
     (case usm_get_user_from_list (sp_engineID sp) (sp_name sp) (um_users (r_usm r)) (um_noNameUser (r_usm r))
             (\<not> (i_sess p = Some SNMP_SESS_AUTHORITATIVE \<or> i_sess p = None)) of
        None \<Rightarrow> (None, SNMPERR_USM_UNKNOWNSECURITYNAME, count_usm UnknownUserNames r)
      | Some user \<Rightarrow>
          if us_userStatus user \<noteq> RS_ACTIVE then (None, SNMPERR_USM_UNKNOWNSECURITYNAME, r)
          else let rc = usm_check_secLevel (i_secLevel p) user in
            if rc = 1 then (None, SNMPERR_USM_UNSUPPORTEDSECURITYLEVEL, count_usm UnsupportedSecLevels r)
            else if rc \<noteq> 0 then (None, SNMPERR_USM_GENERICERROR, r)
            else (Some user, SNMPERR_SUCCESS, r))"

abbreviation auth_level :: "nat \<Rightarrow> bool" where
  "auth_level level \<equiv> level = SNMP_SEC_LEVEL_AUTHNOPRIV \<or> level = SNMP_SEC_LEVEL_AUTHPRIV"

definition hash_step :: "crypto \<Rightarrow> secmod_in \<Rightarrow> sec_params \<Rightarrow> usmUser \<Rightarrow> usm_result \<Rightarrow> (int \<times> usm_result) res" where
  "hash_step cr p sp user r =
     (if auth_level (i_secLevel p) then
        ebind (rd_bytes (sp_msg sp) 0 (i_wholeMsgLen p)) (\<lambda>whole.
        if \<not> sc_check_keyed_hash (c_hmac cr) (us_authProtocol user) (us_authKey user) whole (sp_signature sp)
        then Inr (SNMPERR_USM_AUTHENTICATIONFAILURE, count_usm WrongDigests r)
        else Inr (SNMPERR_SUCCESS, r))
      else Inr (SNMPERR_SUCCESS, r))"

definition time_step :: "crypto \<Rightarrow> u32 \<Rightarrow> secmod_in \<Rightarrow> sec_params \<Rightarrow> usm_result \<Rightarrow> int \<times> usm_result" where
  "time_step cr now p sp r =
     (if auth_level (i_secLevel p) then
        (case usm_check_and_update_timeliness (c_hash cr) now (um_state (r_usm r)) (sp_engineID sp) (sp_boots sp) (sp_time sp) of
           (rc, st) \<Rightarrow> (rc, r\<lparr>r_usm := (r_usm r)\<lparr>um_state := st\<rparr>\<rparr>))
      else
        (case set_enginetime (c_hash cr) now (u_lcd (um_state (r_usm r))) (sp_engineID sp) (sp_boots sp) (sp_time sp) False of
           (_, l') \<Rightarrow> (SNMPERR_SUCCESS, with_lcd l' r)))"


subsection \<open>Decryption\<close>

fun des_iv :: "bytes \<Rightarrow> bytes \<Rightarrow> nat \<Rightarrow> nat \<Rightarrow> bytes res" where
  "des_iv salt privKey iv_length 0 = Inr []"
| "des_iv salt privKey iv_length (Suc n) =
     ebind (des_iv salt privKey iv_length n) (\<lambda>iv.
     ebind (rd salt n) (\<lambda>a.
     ebind (rd privKey (iv_length + n)) (\<lambda>b.
     Inr (iv @ [a XOR b]))))"

definition aes_iv :: "u32 \<Rightarrow> u32 \<Rightarrow> bytes \<Rightarrow> bytes" where
  "aes_iv boots time salt = be_bytes 4 boots @ be_bytes 4 time @ salt"

text \<open>
  The two calls of \<open>usm_free_usmStateReference\<close> leave \<open>NULL\<close>.  \<open>end_of_overhead\<close> is set for DES only; \<open>None\<close> is
  the \<open>NULL\<close> it keeps for AES, and the size computed from it depends on the address of the message.
\<close>

definition decrypt_step :: "crypto \<Rightarrow> bytes \<Rightarrow> secmod_in \<Rightarrow> sec_params \<Rightarrow> usmUser \<Rightarrow> usm_result \<Rightarrow> (int \<times> usm_result) res" where
  "decrypt_step cr iv0 p sp user r =
     ebind (attempt (asn_parse_sequence (sp_msg sp) (sp_data sp) (usub64 (i_wholeMsgLen p) (sp_data sp)) ASN_OCTET_STR)) (\<lambda>seq.
     case seq of
       None \<Rightarrow> Inr (SNMPERR_USM_PARSEERROR, count_usm InASNParseErrs (r\<lparr>r_ref := None\<rparr>))
     | Some (value_ptr, remaining, _) \<Rightarrow>
         let des = ISTRANSFORM (us_privProtocol user) usmDESPrivProtocol in
         if des \<and> remaining mod 8 \<noteq> 0 then Inr (SNMPERR_USM_DECRYPTIONERROR, count_usm DecryptionErrors (r\<lparr>r_ref := None\<rparr>))
         else if des \<and> us_privKey user = None then Inr (SNMPERR_USM_DECRYPTIONERROR, count_usm DecryptionErrors (r\<lparr>r_ref := None\<rparr>))
         else
           ebind (if des then des_iv (sp_salt sp) (privKey_bytes user) 8 8
                  else if ISTRANSFORM (us_privProtocol user) usmAESPrivProtocol then Inr (aes_iv (sp_boots sp) (sp_time sp) (sp_salt sp))
                  else Inr iv0) (\<lambda>iv.
           ebind (rd_bytes (sp_msg sp) value_ptr remaining) (\<lambda>ciphertext.
           case sc_decrypt (c_des cr) (c_aes cr) (us_privProtocol user) (privKey_bytes user) iv ciphertext (i_scopedPduLen p) of
             None \<Rightarrow> Inr (SNMPERR_USM_DECRYPTIONERROR, count_usm DecryptionErrors r)
           | Some plaintext \<Rightarrow>
               Inr (SNMPERR_SUCCESS, r\<lparr>r_scopedPdu := Decrypted plaintext,
                 r_maxSizeResponse := (if des then Some (usub64 (i_maxMsgSize p) value_ptr) else None)\<rparr>))))"

definition plain_step :: "secmod_in \<Rightarrow> sec_params \<Rightarrow> usm_result \<Rightarrow> usm_result" where
  "plain_step p sp r = r\<lparr>r_scopedPdu := InMessage (sp_data sp) (usub64 (i_wholeMsgLen p) (sp_data sp)),
     r_maxSizeResponse := Some (usub64 (i_maxMsgSize p) (sp_data sp))\<rparr>"


subsection \<open>The whole function\<close>

text \<open>A step that returns an error ends the processing.\<close>

definition continue :: "int \<times> usm_result \<Rightarrow> (usm_result \<Rightarrow> (int \<times> usm_result) res) \<Rightarrow> (int \<times> usm_result) res" where
  "continue x f = (case x of (rc, r) \<Rightarrow> if rc \<noteq> SNMPERR_SUCCESS then Inr (rc, r) else f r)"

definition cached :: "int \<times> usmStateReference \<Rightarrow> usm_result \<Rightarrow> int \<times> usm_result" where
  "cached x r = (case x of (rc, ref) \<Rightarrow> (if rc = - 1 then SNMPERR_USM_GENERICERROR else SNMPERR_SUCCESS, r\<lparr>r_ref := Some ref\<rparr>))"

text \<open>With the user at hand: the hash, the cached credentials, the time and the text.\<close>

definition usm_credentials ::
  "crypto \<Rightarrow> u32 \<Rightarrow> (nat \<Rightarrow> bool) \<Rightarrow> bytes \<Rightarrow> secmod_in \<Rightarrow> sec_params \<Rightarrow> usmUser \<Rightarrow> usm_result \<Rightarrow> (int \<times> usm_result) res" where
  "usm_credentials cr now alloc iv0 p sp user r4 =
     ebind (hash_step cr p sp user r4) (\<lambda>x.
     continue x (\<lambda>r5.
     continue (cached (cache_user alloc user (the (r_ref r5))) r5) (\<lambda>r6.
     continue (time_step cr now p sp r6) (\<lambda>r7.
     if i_secLevel p = SNMP_SEC_LEVEL_AUTHPRIV then decrypt_step cr iv0 p sp user r7
     else Inr (SNMPERR_SUCCESS, plain_step p sp r7)))))"

text \<open>After the parameters are read: the cached identity, the engine and the user.\<close>

definition usm_verify ::
  "crypto \<Rightarrow> u32 \<Rightarrow> (nat \<Rightarrow> bool) \<Rightarrow> bytes \<Rightarrow> secmod_in \<Rightarrow> sec_params \<Rightarrow> usmStateReference \<Rightarrow> usm_result \<Rightarrow> (int \<times> usm_result) res" where
  "usm_verify cr now alloc iv0 p sp ref r =
     (if i_secLevel p = SNMP_SEC_LEVEL_AUTHPRIV \<and> length (sp_salt sp) \<noteq> 8
      then Inr (SNMPERR_USM_DECRYPTIONERROR, count_usm DecryptionErrors r)
      else
        let r1 = (if i_secLevel p \<noteq> SNMP_SEC_LEVEL_AUTHPRIV
                  then r\<lparr>r_scopedPdu := InMessage (sp_data sp) (usub64 (i_wholeMsgLen p) (sp_data sp))\<rparr> else r) in
        continue (cached (cache_identity alloc (take (sp_nameLen sp) (sp_name sp)) (sp_engineID sp) (i_secLevel p) ref) r1) (\<lambda>r2.
        continue (engine_step cr now p (sp_engineID sp) r2) (\<lambda>r3.
        case user_step p sp r3 of
          (None, rc, r4) \<Rightarrow> Inr (rc, r4)
        | (Some user, _, r4) \<Rightarrow> usm_credentials cr now alloc iv0 p sp user r4)))"

definition usm_process_in_msg ::
  "crypto \<Rightarrow> u32 \<Rightarrow> (nat \<Rightarrow> bool) \<Rightarrow> bytes \<Rightarrow> bytes \<Rightarrow> bytes \<Rightarrow> secmod_in \<Rightarrow> usm \<Rightarrow> (int \<times> usm_result) res" where
  "usm_process_in_msg cr now alloc signature salt iv0 p s =
     ebind (usm_remaining (i_wholeMsg p) (i_secParams p) (i_wholeMsgLen p)) (\<lambda>remaining.
     let r = \<lparr>r_usm = s, r_msg = i_wholeMsg p, r_engineID = [], r_name = [], r_nameLen = 0, r_scopedPdu = NoScopedPdu,
              r_maxSizeResponse = None, r_ref = usm_malloc_usmStateReference alloc\<rparr> in
     case r_ref r of
       None \<Rightarrow> Inr (SNMPERR_USM_GENERICERROR, r)
     | Some ref \<Rightarrow>
         (case usm_parse_security_parameters (i_wholeMsg p) (i_secParams p) remaining (i_secEngineID p) (i_secName p) signature salt of
            Inl e \<Rightarrow>
              if undefined_behaviour e then Inl e
              else if e = SnmpErr (- 2) then Inr (SNMPERR_USM_DECRYPTIONERROR, count_usm DecryptionErrors r)
              else Inr (SNMPERR_USM_PARSEERROR, count_usm InASNParseErrs r)
          | Inr sp \<Rightarrow>
              usm_verify cr now alloc iv0 p sp ref
                (r\<lparr>r_msg := sp_msg sp, r_engineID := sp_engineID sp, r_name := sp_name sp, r_nameLen := sp_nameLen sp\<rparr>)))"


subsection \<open>An accepted message is authentic\<close>

lemma continue_eq:
  "continue x f = Inr (SNMPERR_SUCCESS, r) \<longleftrightarrow> fst x = SNMPERR_SUCCESS \<and> f (snd x) = Inr (SNMPERR_SUCCESS, r)"
  by (auto simp: continue_def split: prod.splits)

text \<open>What a string decoder leaves in its buffer is what the message has before the new position.\<close>

lemma parse_string_copied:
  assumes "asn_parse_string mem data len buf k = Inr (data', len', type, buf', n)" and "k \<le> length buf"
  shows "n \<le> data' \<and> data' \<le> length mem \<and> n \<le> k \<and> take n buf' = take n (drop (data' - n) mem)"
proof -
  obtain bufp bs where b: "rd_bytes mem bufp n = Inr bs" "n \<le> k" "data' = bufp + n"
    and str: "ebind (wr_bytes buf 0 bs) (\<lambda>str'. if k > n then wr str' n 0 else Inr str') = Inr buf'"
    using assms(1) by (auto simp: asn_parse_string_def ebind_eq_Inr split: if_splits prod.splits)
  have bs: "bs = take n (drop bufp mem)" "bufp + n \<le> length mem" "length bs = n"
    using b(1) by (auto simp: rd_bytes_def split: if_splits)
  have "take n buf' = bs"
    using str bs(3) b(2) assms(2) by (auto simp: mem_simps store_at_def split: if_splits)
  with b bs show ?thesis by simp
qed

lemma parse_octets_copied:
  assumes "parse_octets mem data len buf k = Inr (data', len', buf', n)" and "k \<le> length buf"
  shows "n \<le> data' \<and> data' \<le> length mem \<and> take n buf' = take n (drop (data' - n) mem)"
  using assms parse_string_copied by (fastforce simp: parse_octets_def ebind_eq_Inr split: if_splits)

lemma blank_eq:
  assumes "blank mem next n = Inr mem'" and "n \<le> next" and "next \<le> length mem"
  shows "mem' = store_at mem (next - n) (replicate n 0)"
  using assms by (auto simp: blank_def mem_simps store_at_def split: if_splits)

lemma or_return_eq_Inr [simp]: "or_return c r = Inr x \<longleftrightarrow> r = Inr x"
  by (cases r) (auto simp: or_return_def)

text \<open>The signature is what stood in the message at the place that is now blank.\<close>

lemma parse_identity_signature:
  assumes "parse_identity mem secParams remaining eid name sig = Inr (sp, l)"
  shows "\<exists>pos. pos + length (sp_signature sp) \<le> length mem \<and>
    sp_signature sp = take (length (sp_signature sp)) (drop pos mem) \<and>
    sp_msg sp = store_at mem pos (replicate (length (sp_signature sp)) 0) \<and>
    sp_boots sp \<le> ENGINEBOOT_MAX \<and> sp_time sp \<le> ENGINETIME_MAX"
proof -
  obtain p6 l6 p7 l7 sig' n where s: "parse_octets mem p6 l6 sig (length sig) = Inr (p7, l7, sig', n)"
      "blank mem p7 n = Inr (sp_msg sp)" "sp_signature sp = take n sig'"
      "sp_boots sp \<le> ENGINEBOOT_MAX" "sp_time sp \<le> ENGINETIME_MAX"
    using assms by (fastforce simp: parse_identity_def ebind_eq_Inr linorder_not_less split: if_splits prod.splits)
  from parse_octets_copied [OF s(1)] have c: "n \<le> p7" "p7 \<le> length mem" "take n sig' = take n (drop (p7 - n) mem)" by simp_all
  then have "length (take n sig') = n" by simp
  then show ?thesis
    using s c blank_eq [OF s(2) c(1,2)] by (intro exI [of _ "p7 - n"]) simp
qed

lemma security_parameters_signature:
  assumes "usm_parse_security_parameters mem secParams remaining eid name sig salt = Inr sp"
  shows "\<exists>pos. pos + length (sp_signature sp) \<le> length mem \<and>
    sp_signature sp = take (length (sp_signature sp)) (drop pos mem) \<and>
    sp_msg sp = store_at mem pos (replicate (length (sp_signature sp)) 0) \<and>
    sp_boots sp \<le> ENGINEBOOT_MAX \<and> sp_time sp \<le> ENGINETIME_MAX"
proof -
  obtain sp1 l where "parse_identity mem secParams remaining eid name sig = Inr (sp1, l)"
      "sp_signature sp = sp_signature sp1" "sp_msg sp = sp_msg sp1" "sp_boots sp = sp_boots sp1" "sp_time sp = sp_time sp1"
    using assms by (auto simp: usm_parse_security_parameters_def ebind_eq_Inr split: prod.splits)
  then show ?thesis using parse_identity_signature by metis
qed


text \<open>What the verification keeps of the record, and which steps it has passed.\<close>

text \<open>The times of the engines after the engine of the message has been looked up.\<close>

definition engine_lcd :: "crypto \<Rightarrow> u32 \<Rightarrow> secmod_in \<Rightarrow> bytes \<Rightarrow> lcd \<Rightarrow> lcd" where
  "engine_lcd cr now p eid l =
     (if engine_must_be_known (i_sess p) (i_msg_flags p) then snd (ISENGINEKNOWN (c_hash cr) now l eid)
      else snd (ENSURE_ENGINE_RECORD (c_hash cr) now l eid))"

lemma engine_step_success:
  assumes "engine_step cr now p eid r = (SNMPERR_SUCCESS, r')"
  shows "r_usm r' = (r_usm r)\<lparr>um_state := (um_state (r_usm r))\<lparr>u_lcd := engine_lcd cr now p eid (u_lcd (um_state (r_usm r)))\<rparr>\<rparr>"
    and "engine_must_be_known (i_sess p) (i_msg_flags p) \<Longrightarrow> fst (ISENGINEKNOWN (c_hash cr) now (u_lcd (um_state (r_usm r))) eid)"
    and "r_msg r' = r_msg r" and "r_engineID r' = r_engineID r" and "r_name r' = r_name r"
  using assms by (auto simp: engine_step_def engine_lcd_def Let_def with_lcd_def split: if_splits prod.splits)

lemma user_step_Some:
  assumes "user_step p sp r = (Some user, rc, r')"
  shows "r' = r" and "us_userStatus user = RS_ACTIVE" and "usm_check_secLevel (i_secLevel p) user = 0"
    and "usm_get_user_from_list (sp_engineID sp) (sp_name sp) (um_users (r_usm r)) (um_noNameUser (r_usm r))
      (\<not> (i_sess p = Some SNMP_SESS_AUTHORITATIVE \<or> i_sess p = None)) = Some user"
  using assms by (auto simp: user_step_def Let_def split: option.splits if_splits)

lemma user_step_None:
  "user_step p sp r = (None, rc, r') \<Longrightarrow> rc \<noteq> SNMPERR_SUCCESS"
  by (auto simp: user_step_def Let_def split: option.splits if_splits)

lemma hash_step_success:
  assumes "hash_step cr p sp user r = Inr (SNMPERR_SUCCESS, r')" and "auth_level (i_secLevel p)"
  shows "r' = r" and "i_wholeMsgLen p \<le> length (sp_msg sp)"
    and "sc_check_keyed_hash (c_hmac cr) (us_authProtocol user) (us_authKey user) (take (i_wholeMsgLen p) (sp_msg sp)) (sp_signature sp)"
  using assms by (auto simp: hash_step_def ebind_eq_Inr rd_bytes_def split: if_splits)

text \<open>What is handed on: the rest of the message, or what the user's key makes of the octet string that stands there.\<close>

definition delivered :: "crypto \<Rightarrow> secmod_in \<Rightarrow> sec_params \<Rightarrow> usmUser \<Rightarrow> usm_result \<Rightarrow> bool" where
  "delivered cr p sp user r \<longleftrightarrow>
     (let n = usub64 (i_wholeMsgLen p) (sp_data sp) in
      if i_secLevel p = SNMP_SEC_LEVEL_AUTHPRIV then
        \<exists>v k t iv pt. asn_parse_sequence (sp_msg sp) (sp_data sp) n ASN_OCTET_STR = Inr (v, k, t) \<and> v + k \<le> length (sp_msg sp) \<and>
          (if ISTRANSFORM (us_privProtocol user) usmDESPrivProtocol then des_iv (sp_salt sp) (privKey_bytes user) 8 8 = Inr iv
           else ISTRANSFORM (us_privProtocol user) usmAESPrivProtocol \<and> iv = aes_iv (sp_boots sp) (sp_time sp) (sp_salt sp)) \<and>
          sc_decrypt (c_des cr) (c_aes cr) (us_privProtocol user) (privKey_bytes user) iv (take k (drop v (sp_msg sp))) (i_scopedPduLen p) = Some pt \<and>
          r_scopedPdu r = Decrypted pt
      else r_scopedPdu r = InMessage (sp_data sp) n)"

lemma sc_decrypt_protocol:
  "sc_decrypt des aes t key iv x n = Some y \<Longrightarrow> ISTRANSFORM t usmDESPrivProtocol \<or> ISTRANSFORM t usmAESPrivProtocol"
  by (auto simp: sc_decrypt_def proper_lengths_def split: if_splits)

lemma decrypt_step_keeps:
  assumes "decrypt_step cr iv0 p sp user r = Inr (SNMPERR_SUCCESS, r')"
  shows "r_usm r' = r_usm r \<and> r_msg r' = r_msg r \<and> r_engineID r' = r_engineID r \<and> r_name r' = r_name r"
  using assms by (auto simp: decrypt_step_def ebind_eq_Inr Let_def split: option.splits prod.splits if_splits)

lemma decrypt_step_delivers:
  assumes d: "decrypt_step cr iv0 p sp user r = Inr (SNMPERR_SUCCESS, r')" and level: "i_secLevel p = SNMP_SEC_LEVEL_AUTHPRIV"
  shows "delivered cr p sp user r'"
proof -
  let ?n = "usub64 (i_wholeMsgLen p) (sp_data sp)" and ?t = "us_privProtocol user"
  let ?des = "ISTRANSFORM ?t usmDESPrivProtocol" and ?aes = "ISTRANSFORM ?t usmAESPrivProtocol"
  obtain v k t where seq: "asn_parse_sequence (sp_msg sp) (sp_data sp) ?n ASN_OCTET_STR = Inr (v, k, t)"
    using d by (cases "asn_parse_sequence (sp_msg sp) (sp_data sp) ?n ASN_OCTET_STR")
      (auto simp: decrypt_step_def attempt_def split: if_splits)
  then obtain iv ct pt where x: "(if ?des then des_iv (sp_salt sp) (privKey_bytes user) 8 8
        else if ?aes then Inr (aes_iv (sp_boots sp) (sp_time sp) (sp_salt sp)) else Inr iv0) = Inr iv"
      "rd_bytes (sp_msg sp) v k = Inr ct" "sc_decrypt (c_des cr) (c_aes cr) ?t (privKey_bytes user) iv ct (i_scopedPduLen p) = Some pt"
      "r_scopedPdu r' = Decrypted pt"
    using d by (auto simp: decrypt_step_def attempt_def ebind_eq_Inr Let_def split: if_splits option.splits)
  moreover have "ct = take k (drop v (sp_msg sp))" "v + k \<le> length (sp_msg sp)" using x(2) by (auto simp: rd_bytes_def split: if_splits)
  ultimately show ?thesis
    using seq level sc_decrypt_protocol [OF x(3)] by (auto simp: delivered_def split: if_splits)
qed

lemma cached_keeps:
  assumes "cached x r = (rc, r')"
  shows "r_usm r' = r_usm r" and "r_msg r' = r_msg r" and "r_engineID r' = r_engineID r" and "r_name r' = r_name r"
  using assms by (auto simp: cached_def split: prod.splits)

lemma continueE:
  assumes "continue x f = Inr (SNMPERR_SUCCESS, r)"
  obtains r1 where "x = (SNMPERR_SUCCESS, r1)" "f r1 = Inr (SNMPERR_SUCCESS, r)"
  using assms by (cases x) (auto simp: continue_eq)

lemma usm_credentials_success:
  assumes v: "usm_credentials cr now alloc iv0 p sp user r = Inr (SNMPERR_SUCCESS, r')" and level: "auth_level (i_secLevel p)"
  shows "i_wholeMsgLen p \<le> length (sp_msg sp) \<and>
      sc_check_keyed_hash (c_hmac cr) (us_authProtocol user) (us_authKey user) (take (i_wholeMsgLen p) (sp_msg sp)) (sp_signature sp) \<and>
      usm_check_and_update_timeliness (c_hash cr) now (um_state (r_usm r)) (sp_engineID sp) (sp_boots sp) (sp_time sp) =
        (SNMPERR_SUCCESS, um_state (r_usm r')) \<and> delivered cr p sp user r' \<and>
      r_msg r' = r_msg r \<and> r_engineID r' = r_engineID r \<and> r_name r' = r_name r"
proof -
  obtain x where h: "hash_step cr p sp user r = Inr x"
    and x: "continue x (\<lambda>r5. continue (cached (cache_user alloc user (the (r_ref r5))) r5) (\<lambda>r6. continue (time_step cr now p sp r6) (\<lambda>r7.
       if i_secLevel p = SNMP_SEC_LEVEL_AUTHPRIV then decrypt_step cr iv0 p sp user r7
       else Inr (SNMPERR_SUCCESS, plain_step p sp r7)))) = Inr (SNMPERR_SUCCESS, r')"
    using v unfolding usm_credentials_def ebind_eq_Inr by blast
  from x obtain r5 where x5: "x = (SNMPERR_SUCCESS, r5)"
    and c5: "continue (cached (cache_user alloc user (the (r_ref r5))) r5) (\<lambda>r6. continue (time_step cr now p sp r6) (\<lambda>r7.
       if i_secLevel p = SNMP_SEC_LEVEL_AUTHPRIV then decrypt_step cr iv0 p sp user r7
       else Inr (SNMPERR_SUCCESS, plain_step p sp r7))) = Inr (SNMPERR_SUCCESS, r')" by (rule continueE)
  from c5 obtain r6 where x6: "cached (cache_user alloc user (the (r_ref r5))) r5 = (SNMPERR_SUCCESS, r6)"
    and c6: "continue (time_step cr now p sp r6) (\<lambda>r7.
       if i_secLevel p = SNMP_SEC_LEVEL_AUTHPRIV then decrypt_step cr iv0 p sp user r7
       else Inr (SNMPERR_SUCCESS, plain_step p sp r7)) = Inr (SNMPERR_SUCCESS, r')" by (rule continueE)
  from c6 obtain r7 where x7: "time_step cr now p sp r6 = (SNMPERR_SUCCESS, r7)"
    and c7: "(if i_secLevel p = SNMP_SEC_LEVEL_AUTHPRIV then decrypt_step cr iv0 p sp user r7
       else Inr (SNMPERR_SUCCESS, plain_step p sp r7)) = Inr (SNMPERR_SUCCESS, r')" by (rule continueE)
  have "r5 = r" using hash_step_success(1) [OF _ level] h x5 by simp
  then have r6: "r_usm r6 = r_usm r" "r_msg r6 = r_msg r" "r_engineID r6 = r_engineID r" "r_name r6 = r_name r"
    using cached_keeps [OF x6] by simp_all
  have t: "usm_check_and_update_timeliness (c_hash cr) now (um_state (r_usm r6)) (sp_engineID sp) (sp_boots sp) (sp_time sp) =
      (SNMPERR_SUCCESS, um_state (r_usm r7))" "r_msg r7 = r_msg r6" "r_engineID r7 = r_engineID r6" "r_name r7 = r_name r6"
    using x7 level by (auto simp: time_step_def split: prod.splits)
  have "r_usm r' = r_usm r7 \<and> r_msg r' = r_msg r7 \<and> r_engineID r' = r_engineID r7 \<and> r_name r' = r_name r7"
    using c7 decrypt_step_keeps [of cr iv0 p sp user r7 r'] by (auto simp: plain_step_def split: if_splits)
  moreover have "delivered cr p sp user r'"
  proof (cases "i_secLevel p = SNMP_SEC_LEVEL_AUTHPRIV")
    case True
    then show ?thesis using c7 decrypt_step_delivers [of cr iv0 p sp user r7 r'] by simp
  next
    case False
    then show ?thesis using c7 by (auto simp: delivered_def plain_step_def)
  qed
  ultimately show ?thesis using hash_step_success(2,3) [OF _ level] h x5 t r6 by simp
qed

lemma usm_verify_success:
  assumes v: "usm_verify cr now alloc iv0 p sp ref r = Inr (SNMPERR_SUCCESS, r')" and level: "auth_level (i_secLevel p)"
  defines "l \<equiv> u_lcd (um_state (r_usm r))"
  shows "\<exists>user. usm_get_user_from_list (sp_engineID sp) (sp_name sp) (um_users (r_usm r)) (um_noNameUser (r_usm r))
        (\<not> (i_sess p = Some SNMP_SESS_AUTHORITATIVE \<or> i_sess p = None)) = Some user \<and>
      us_userStatus user = RS_ACTIVE \<and> usm_check_secLevel (i_secLevel p) user = 0 \<and>
      (engine_must_be_known (i_sess p) (i_msg_flags p) \<longrightarrow> fst (ISENGINEKNOWN (c_hash cr) now l (sp_engineID sp))) \<and>
      i_wholeMsgLen p \<le> length (sp_msg sp) \<and>
      sc_check_keyed_hash (c_hmac cr) (us_authProtocol user) (us_authKey user) (take (i_wholeMsgLen p) (sp_msg sp)) (sp_signature sp) \<and>
      usm_check_and_update_timeliness (c_hash cr) now ((um_state (r_usm r))\<lparr>u_lcd := engine_lcd cr now p (sp_engineID sp) l\<rparr>)
        (sp_engineID sp) (sp_boots sp) (sp_time sp) = (SNMPERR_SUCCESS, um_state (r_usm r')) \<and>
      delivered cr p sp user r' \<and> r_msg r' = r_msg r \<and> r_engineID r' = r_engineID r \<and> r_name r' = r_name r"
proof -
  define r1 where "r1 = (if i_secLevel p \<noteq> SNMP_SEC_LEVEL_AUTHPRIV
    then r\<lparr>r_scopedPdu := InMessage (sp_data sp) (usub64 (i_wholeMsgLen p) (sp_data sp))\<rparr> else r)"
  have v1: "continue (cached (cache_identity alloc (take (sp_nameLen sp) (sp_name sp)) (sp_engineID sp) (i_secLevel p) ref) r1) (\<lambda>r2.
        continue (engine_step cr now p (sp_engineID sp) r2) (\<lambda>r3.
        case user_step p sp r3 of
          (None, rc, r4) \<Rightarrow> Inr (rc, r4)
        | (Some user, _, r4) \<Rightarrow> usm_credentials cr now alloc iv0 p sp user r4)) = Inr (SNMPERR_SUCCESS, r')"
    using v by (auto simp: usm_verify_def Let_def simp flip: r1_def split: if_splits)
  from v1 obtain r2 where r2: "cached (cache_identity alloc (take (sp_nameLen sp) (sp_name sp)) (sp_engineID sp) (i_secLevel p) ref) r1 = (SNMPERR_SUCCESS, r2)"
    and v2: "continue (engine_step cr now p (sp_engineID sp) r2) (\<lambda>r3.
        case user_step p sp r3 of
          (None, rc, r4) \<Rightarrow> Inr (rc, r4)
        | (Some user, _, r4) \<Rightarrow> usm_credentials cr now alloc iv0 p sp user r4) = Inr (SNMPERR_SUCCESS, r')" by (rule continueE)
  from v2 obtain r3 where e: "engine_step cr now p (sp_engineID sp) r2 = (SNMPERR_SUCCESS, r3)"
    and v3: "(case user_step p sp r3 of
          (None, rc, r4) \<Rightarrow> Inr (rc, r4)
        | (Some user, _, r4) \<Rightarrow> usm_credentials cr now alloc iv0 p sp user r4) = Inr (SNMPERR_SUCCESS, r')" by (rule continueE)
  obtain uo rc r4 where us: "user_step p sp r3 = (uo, rc, r4)" by (metis prod_cases3)
  then obtain user where uo: "uo = Some user" using v3 user_step_None by (cases uo) auto
  have c: "usm_credentials cr now alloc iv0 p sp user r4 = Inr (SNMPERR_SUCCESS, r')" using v3 us uo by simp
  have "r_usm r1 = r_usm r" "r_msg r1 = r_msg r" "r_engineID r1 = r_engineID r" "r_name r1 = r_name r" by (simp_all add: r1_def)
  moreover note cached_keeps [OF r2] engine_step_success [OF e] user_step_Some [OF us [unfolded uo]] usm_credentials_success [OF c level]
  ultimately show ?thesis by (intro exI [of _ user]) (simp add: l_def)
qed

lemma usm_process_in_msgE:
  assumes "usm_process_in_msg cr now alloc signature salt iv0 p s = Inr (SNMPERR_SUCCESS, r)"
  obtains remaining sp ref r0 where "usm_remaining (i_wholeMsg p) (i_secParams p) (i_wholeMsgLen p) = Inr remaining"
    "usm_parse_security_parameters (i_wholeMsg p) (i_secParams p) remaining (i_secEngineID p) (i_secName p) signature salt = Inr sp"
    "usm_verify cr now alloc iv0 p sp ref r0 = Inr (SNMPERR_SUCCESS, r)"
    "r_usm r0 = s" "r_msg r0 = sp_msg sp" "r_engineID r0 = sp_engineID sp" "r_name r0 = sp_name sp"
proof -
  obtain remaining where rem: "usm_remaining (i_wholeMsg p) (i_secParams p) (i_wholeMsgLen p) = Inr remaining"
    using assms by (auto simp: usm_process_in_msg_def ebind_eq_Inr)
  obtain ref where ref: "usm_malloc_usmStateReference alloc = Some ref"
    using assms rem by (cases "usm_malloc_usmStateReference alloc") (auto simp: usm_process_in_msg_def)
  show thesis
  proof (cases "usm_parse_security_parameters (i_wholeMsg p) (i_secParams p) remaining (i_secEngineID p) (i_secName p) signature salt")
    case (Inl e)
    then show ?thesis using assms rem ref by (auto simp: usm_process_in_msg_def Let_def split: if_splits)
  next
    case (Inr sp)
    then show ?thesis using assms rem ref by (intro that [OF rem Inr]) (auto simp: usm_process_in_msg_def Let_def)
  qed
qed

text \<open>
  What an accepted message of an authenticated level guarantees, where \<open>sp\<close> are the security parameters read from it: an active user with the engine identifier and name in the
  message who may use the level, the keyed hash over the blanked message at the place of the signature, and that the boots and time in the message
  are timely against the clocks the engine keeps.  What is handed on comes from behind the parameters.
\<close>

definition usm_authentic :: "crypto \<Rightarrow> u32 \<Rightarrow> bytes \<Rightarrow> bytes \<Rightarrow> secmod_in \<Rightarrow> usm \<Rightarrow> usm_result \<Rightarrow> bool" where
  "usm_authentic cr now signature salt p s r \<longleftrightarrow>
    (\<exists>remaining sp user alg pos.
     usm_remaining (i_wholeMsg p) (i_secParams p) (i_wholeMsgLen p) = Inr remaining \<and>
     usm_parse_security_parameters (i_wholeMsg p) (i_secParams p) remaining (i_secEngineID p) (i_secName p) signature salt = Inr sp \<and>
     r_engineID r = sp_engineID sp \<and> r_name r = sp_name sp \<and> r_msg r = sp_msg sp \<and>
     usm_get_user_from_list (sp_engineID sp) (sp_name sp) (um_users s) (um_noNameUser s)
       (\<not> (i_sess p = Some SNMP_SESS_AUTHORITATIVE \<or> i_sess p = None)) = Some user \<and>
     us_userStatus user = RS_ACTIVE \<and> usm_check_secLevel (i_secLevel p) user = 0 \<and>
     (engine_must_be_known (i_sess p) (i_msg_flags p) \<longrightarrow> fst (ISENGINEKNOWN (c_hash cr) now (u_lcd (um_state s)) (sp_engineID sp))) \<and>
     hash_of (us_authProtocol user) = Some alg \<and> (case alg of EVP_md5 \<Rightarrow> 16 | EVP_sha1 \<Rightarrow> 20) \<le> length (us_authKey user) \<and>
     pos + 12 \<le> length (i_wholeMsg p) \<and> i_wholeMsgLen p \<le> length (i_wholeMsg p) \<and>
     sp_msg sp = store_at (i_wholeMsg p) pos (replicate 12 0) \<and> sp_signature sp = take 12 (drop pos (i_wholeMsg p)) \<and>
     sp_signature sp = take 12 (take 512 (c_hmac cr alg (us_authKey user) (take (i_wholeMsgLen p) (sp_msg sp)))) \<and>
     usm_check_and_update_timeliness (c_hash cr) now ((um_state s)\<lparr>u_lcd := engine_lcd cr now p (sp_engineID sp) (u_lcd (um_state s))\<rparr>)
       (sp_engineID sp) (sp_boots sp) (sp_time sp) = (SNMPERR_SUCCESS, um_state (r_usm r)) \<and>
     delivered cr p sp user r)"

lemma process_in_msg_authentic:
  assumes acc: "usm_process_in_msg cr now alloc signature salt iv0 p s = Inr (SNMPERR_SUCCESS, r)"
    and level: "auth_level (i_secLevel p)"
  shows "usm_authentic cr now signature salt p s r"
proof -
  obtain remaining ref sp r0 where rem: "usm_remaining (i_wholeMsg p) (i_secParams p) (i_wholeMsgLen p) = Inr remaining"
    and sp: "usm_parse_security_parameters (i_wholeMsg p) (i_secParams p) remaining (i_secEngineID p) (i_secName p) signature salt = Inr sp"
    and v: "usm_verify cr now alloc iv0 p sp ref r0 = Inr (SNMPERR_SUCCESS, r)"
    and r0: "r_usm r0 = s" "r_msg r0 = sp_msg sp" "r_engineID r0 = sp_engineID sp" "r_name r0 = sp_name sp"
    using acc by (rule usm_process_in_msgE)
  from usm_verify_success [OF v level] obtain user where u:
      "usm_get_user_from_list (sp_engineID sp) (sp_name sp) (um_users s) (um_noNameUser s)
        (\<not> (i_sess p = Some SNMP_SESS_AUTHORITATIVE \<or> i_sess p = None)) = Some user"
      "us_userStatus user = RS_ACTIVE" "usm_check_secLevel (i_secLevel p) user = 0"
      "engine_must_be_known (i_sess p) (i_msg_flags p) \<longrightarrow> fst (ISENGINEKNOWN (c_hash cr) now (u_lcd (um_state s)) (sp_engineID sp))"
      "i_wholeMsgLen p \<le> length (sp_msg sp)"
      "sc_check_keyed_hash (c_hmac cr) (us_authProtocol user) (us_authKey user) (take (i_wholeMsgLen p) (sp_msg sp)) (sp_signature sp)"
      "usm_check_and_update_timeliness (c_hash cr) now ((um_state s)\<lparr>u_lcd := engine_lcd cr now p (sp_engineID sp) (u_lcd (um_state s))\<rparr>)
        (sp_engineID sp) (sp_boots sp) (sp_time sp) = (SNMPERR_SUCCESS, um_state (r_usm r))"
      "delivered cr p sp user r" "r_msg r = sp_msg sp" "r_engineID r = sp_engineID sp" "r_name r = sp_name sp"
    unfolding r0 by blast
  from u(6) obtain alg where alg: "hash_of (us_authProtocol user) = Some alg"
      "(case alg of EVP_md5 \<Rightarrow> 16 | EVP_sha1 \<Rightarrow> 20) \<le> length (us_authKey user)" "length (sp_signature sp) = 12"
      "sp_signature sp = take 12 (take 512 (c_hmac cr alg (us_authKey user) (take (i_wholeMsgLen p) (sp_msg sp))))"
    unfolding sc_check_keyed_hash_iff by blast
  from security_parameters_signature [OF sp, unfolded alg(3)] obtain pos where pos: "pos + 12 \<le> length (i_wholeMsg p)"
      "sp_signature sp = take 12 (drop pos (i_wholeMsg p))" "sp_msg sp = store_at (i_wholeMsg p) pos (replicate 12 0)" by blast
  have "i_wholeMsgLen p \<le> length (i_wholeMsg p)" using u(5) pos by simp
  with rem sp u alg pos show ?thesis unfolding usm_authentic_def by blast
qed

text \<open>
  C5 (authentic messages).  When \<open>usm_process_in_msg\<close> accepts a message of the levels \<open>authNoPriv\<close> and \<open>authPriv\<close>, then, with \<open>sp\<close> the security
  parameters that stand in it: their engine identifier and name belong to an active user who may use that level, with an authentication protocol and a key long enough for
  it; the twelve bytes of the signature are the first 96 bits of the keyed hash, under that user's key, of the message with just those bytes
  blanked; the boots and time in the message pass the timeliness check against the engine's clocks, which are left as that check leaves them;
  an engine that had to be known was; and what is handed on is the rest of the message or its decryption with that user's key.
\<close>

theorem usm_accepts_authentic:
  assumes acc: "usm_process_in_msg cr now alloc signature salt iv0 p s = Inr (SNMPERR_SUCCESS, r)"
    and level: "i_secLevel p = SNMP_SEC_LEVEL_AUTHNOPRIV \<or> i_secLevel p = SNMP_SEC_LEVEL_AUTHPRIV"
  shows "\<exists>remaining sp user alg pos.
     usm_remaining (i_wholeMsg p) (i_secParams p) (i_wholeMsgLen p) = Inr remaining \<and>
     usm_parse_security_parameters (i_wholeMsg p) (i_secParams p) remaining (i_secEngineID p) (i_secName p) signature salt = Inr sp \<and>
     r_engineID r = sp_engineID sp \<and> r_name r = sp_name sp \<and> r_msg r = sp_msg sp \<and>
     usm_get_user_from_list (sp_engineID sp) (sp_name sp) (um_users s) (um_noNameUser s)
       (\<not> (i_sess p = Some SNMP_SESS_AUTHORITATIVE \<or> i_sess p = None)) = Some user \<and>
     us_userStatus user = RS_ACTIVE \<and> usm_check_secLevel (i_secLevel p) user = 0 \<and>
     (engine_must_be_known (i_sess p) (i_msg_flags p) \<longrightarrow> fst (ISENGINEKNOWN (c_hash cr) now (u_lcd (um_state s)) (sp_engineID sp))) \<and>
     hash_of (us_authProtocol user) = Some alg \<and> (case alg of EVP_md5 \<Rightarrow> 16 | EVP_sha1 \<Rightarrow> 20) \<le> length (us_authKey user) \<and>
     pos + 12 \<le> length (i_wholeMsg p) \<and> i_wholeMsgLen p \<le> length (i_wholeMsg p) \<and>
     sp_msg sp = store_at (i_wholeMsg p) pos (replicate 12 0) \<and> sp_signature sp = take 12 (drop pos (i_wholeMsg p)) \<and>
     sp_signature sp = take 12 (take 512 (c_hmac cr alg (us_authKey user) (take (i_wholeMsgLen p) (sp_msg sp)))) \<and>
     usm_check_and_update_timeliness (c_hash cr) now ((um_state s)\<lparr>u_lcd := engine_lcd cr now p (sp_engineID sp) (u_lcd (um_state s))\<rparr>)
       (sp_engineID sp) (sp_boots sp) (sp_time sp) = (SNMPERR_SUCCESS, um_state (r_usm r)) \<and>
     delivered cr p sp user r"
  using process_in_msg_authentic [OF acc level] unfolding usm_authentic_def .

lemmas usm_setters = usm_set_usmStateReference_name_def usm_set_usmStateReference_engine_id_def
  usm_set_usmStateReference_sec_level_def usm_set_usmStateReference_auth_protocol_def usm_set_usmStateReference_auth_key_def
  usm_set_usmStateReference_priv_protocol_def usm_set_usmStateReference_priv_key_def

lemma make_entry_ok: "(\<And>n. alloc n) \<Longrightarrow> MAKE_ENTRY alloc w x = (0, x)"
  by (simp add: MAKE_ENTRY_def)

text \<open>What is left when every check passes, for both levels with authentication.\<close>

lemma process_in_msg_checked:
  assumes rem: "usm_remaining (i_wholeMsg p) (i_secParams p) (i_wholeMsgLen p) = Inr remaining"
    and sp: "usm_parse_security_parameters (i_wholeMsg p) (i_secParams p) remaining (i_secEngineID p) (i_secName p) signature salt = Inr sp"
    and level: "auth_level (i_secLevel p)" "i_secLevel p = SNMP_SEC_LEVEL_AUTHPRIV \<Longrightarrow> length (sp_salt sp) = 8"
    and sess: "i_sess p = Some SNMP_SESS_AUTHORITATIVE" and alloc: "\<And>n. alloc n"
    and known: "ISENGINEKNOWN (c_hash cr) now (u_lcd (um_state s)) (sp_engineID sp) = (True, l)"
    and user: "usm_get_user_from_list (sp_engineID sp) (sp_name sp) (um_users s) (um_noNameUser s) False = Some user"
      "us_userStatus user = RS_ACTIVE" "usm_check_secLevel (i_secLevel p) user = 0"
    and hash: "i_wholeMsgLen p \<le> length (sp_msg sp)"
      "sc_check_keyed_hash (c_hmac cr) (us_authProtocol user) (us_authKey user) (take (i_wholeMsgLen p) (sp_msg sp)) (sp_signature sp)"
    and time: "usm_check_and_update_timeliness (c_hash cr) now ((um_state s)\<lparr>u_lcd := l\<rparr>) (sp_engineID sp) (sp_boots sp) (sp_time sp) = (SNMPERR_SUCCESS, st)"
  defines "r \<equiv> \<lparr>r_usm = s\<lparr>um_state := st\<rparr>, r_msg = sp_msg sp, r_engineID = sp_engineID sp, r_name = sp_name sp, r_nameLen = sp_nameLen sp,
      r_scopedPdu = (if i_secLevel p = SNMP_SEC_LEVEL_AUTHPRIV then NoScopedPdu else InMessage (sp_data sp) (usub64 (i_wholeMsgLen p) (sp_data sp))),
      r_maxSizeResponse = None,
      r_ref = Some \<lparr>usr_name = take (sp_nameLen sp) (sp_name sp), usr_engine_id = sp_engineID sp, usr_auth_protocol = us_authProtocol user,
        usr_auth_key = us_authKey user, usr_priv_protocol = us_privProtocol user, usr_priv_key = privKey_bytes user, usr_sec_level = i_secLevel p\<rparr>\<rparr>"
  shows "usm_process_in_msg cr now alloc signature salt iv0 p s =
    (if i_secLevel p = SNMP_SEC_LEVEL_AUTHPRIV then decrypt_step cr iv0 p sp user r else Inr (SNMPERR_SUCCESS, plain_step p sp r))"
proof -
  define r1 where "r1 = \<lparr>r_usm = s, r_msg = sp_msg sp, r_engineID = sp_engineID sp, r_name = sp_name sp, r_nameLen = sp_nameLen sp,
    r_scopedPdu = r_scopedPdu r, r_maxSizeResponse = None,
    r_ref = Some \<lparr>usr_name = take (sp_nameLen sp) (sp_name sp), usr_engine_id = sp_engineID sp, usr_auth_protocol = [],
        usr_auth_key = [], usr_priv_protocol = [], usr_priv_key = [], usr_sec_level = i_secLevel p\<rparr>\<rparr>"
  have e: "engine_step cr now p (sp_engineID sp) r1 = (SNMPERR_SUCCESS, with_lcd l r1)"
    using known sess by (simp add: engine_step_def engine_must_be_known_def r1_def)
  have u: "user_step p sp (with_lcd l r1) = (Some user, SNMPERR_SUCCESS, with_lcd l r1)"
    using user sess by (simp add: user_step_def with_lcd_def r1_def)
  have h: "hash_step cr p sp user r = Inr (SNMPERR_SUCCESS, r)" for r
    using hash by (simp add: hash_step_def rd_bytes_def)
  have t: "time_step cr now p sp r = (SNMPERR_SUCCESS, r\<lparr>r_usm := (r_usm r)\<lparr>um_state := st\<rparr>\<rparr>)" if "um_state (r_usm r) = (um_state s)\<lparr>u_lcd := l\<rparr>" for r
    using time level that by (simp add: time_step_def)
  have "usm_process_in_msg cr now alloc signature salt iv0 p s = usm_credentials cr now alloc iv0 p sp user (with_lcd l r1)"
    using e u level unfolding r1_def r_def
    by (cases "i_secLevel p = SNMP_SEC_LEVEL_AUTHPRIV") (simp_all add: usm_process_in_msg_def rem sp usm_malloc_usmStateReference_def alloc usm_verify_def continue_def cached_def cache_identity_def
        usm_setters make_entry_ok)
  then show ?thesis
    by (simp add: usm_credentials_def h continue_def cached_def cache_user_def usm_setters make_entry_ok alloc t with_lcd_def r1_def r_def)
qed

lemma process_in_msg_accepts:
  assumes rem: "usm_remaining (i_wholeMsg p) (i_secParams p) (i_wholeMsgLen p) = Inr remaining"
    and sp: "usm_parse_security_parameters (i_wholeMsg p) (i_secParams p) remaining (i_secEngineID p) (i_secName p) signature salt = Inr sp"
    and level: "i_secLevel p = SNMP_SEC_LEVEL_AUTHNOPRIV" and sess: "i_sess p = Some SNMP_SESS_AUTHORITATIVE" and alloc: "\<And>n. alloc n"
    and known: "ISENGINEKNOWN (c_hash cr) now (u_lcd (um_state s)) (sp_engineID sp) = (True, l)"
    and user: "usm_get_user_from_list (sp_engineID sp) (sp_name sp) (um_users s) (um_noNameUser s) False = Some user"
      "us_userStatus user = RS_ACTIVE" "usm_check_secLevel SNMP_SEC_LEVEL_AUTHNOPRIV user = 0"
    and hash: "i_wholeMsgLen p \<le> length (sp_msg sp)"
      "sc_check_keyed_hash (c_hmac cr) (us_authProtocol user) (us_authKey user) (take (i_wholeMsgLen p) (sp_msg sp)) (sp_signature sp)"
    and time: "usm_check_and_update_timeliness (c_hash cr) now ((um_state s)\<lparr>u_lcd := l\<rparr>) (sp_engineID sp) (sp_boots sp) (sp_time sp) = (SNMPERR_SUCCESS, st)"
  shows "usm_process_in_msg cr now alloc signature salt iv0 p s =
    Inr (SNMPERR_SUCCESS, \<lparr>r_usm = s\<lparr>um_state := st\<rparr>, r_msg = sp_msg sp, r_engineID = sp_engineID sp, r_name = sp_name sp, r_nameLen = sp_nameLen sp,
      r_scopedPdu = InMessage (sp_data sp) (usub64 (i_wholeMsgLen p) (sp_data sp)),
      r_maxSizeResponse = Some (usub64 (i_maxMsgSize p) (sp_data sp)),
      r_ref = Some \<lparr>usr_name = take (sp_nameLen sp) (sp_name sp), usr_engine_id = sp_engineID sp, usr_auth_protocol = us_authProtocol user,
        usr_auth_key = us_authKey user, usr_priv_protocol = us_privProtocol user, usr_priv_key = privKey_bytes user, usr_sec_level = 2\<rparr>\<rparr>)"
  using process_in_msg_checked [where alloc = alloc, OF rem sp _ _ sess alloc known user(1,2) _ hash time] level user(3)
  by (simp add: plain_step_def)

text \<open>A concrete message: engine \<open>[0x80, 1]\<close>, user \<open>a\<close>, sent to that engine at its own time.\<close>

definition sample_hmac :: hmac where
  "sample_hmac alg key message = replicate 16 (hd key + word_of_nat (length message))"

definition sample_crypto :: crypto where
  "sample_crypto = \<lparr>c_hash = (\<lambda>bs. Some bs), c_hmac = sample_hmac, c_des = (\<lambda>_ _ ct. ct), c_aes = (\<lambda>_ _ ct. ct)\<rparr>"

definition sample_account :: usmUser where
  "sample_account = \<lparr>us_engineID = Some [0x80, 1], us_name = [0x61], us_authProtocol = usmHMACMD5AuthProtocol,
     us_authKey = replicate 16 7, us_privProtocol = usmNoPrivProtocol, us_privKey = None, us_userStatus = RS_ACTIVE\<rparr>"

definition sample_whole :: "u8 \<Rightarrow> bytes" where
  "sample_whole m = [0x30, 36, 0x04, 32, 0x30, 30, 0x04, 2, 0x80, 1, 0x02, 1, 3, 0x02, 2, 3, 0xe8, 0x04, 1, 0x61, 0x04, 12,
     m, m, m, m, m, m, m, m, m, m, m, m, 0x04, 0, 0x30, 0]"

definition zeros2 :: bytes where "zeros2 = [0, 0]"
definition zeros16 :: bytes where "zeros16 = [0, 0, 0, 0, 0, 0, 0, 0, 0, 0, 0, 0, 0, 0, 0, 0]"

lemma length_zeros [simp]: "length zeros2 = 2" "length zeros16 = 16"
  by (simp_all add: zeros2_def zeros16_def)

definition sample_in :: "bytes \<Rightarrow> secmod_in" where
  "sample_in msg = \<lparr>i_maxMsgSize = 1500, i_secParams = 2, i_secLevel = SNMP_SEC_LEVEL_AUTHNOPRIV, i_wholeMsg = msg, i_wholeMsgLen = length msg,
     i_secEngineID = zeros2, i_secName = zeros2, i_scopedPduLen = 1472, i_sess = Some SNMP_SESS_AUTHORITATIVE, i_msg_flags = 0x05\<rparr>"

definition sample_db :: usm where
  "sample_db = \<lparr>um_state = \<lparr>u_lcd = \<lparr>etimelist = (replicate 23 [])[13 := [new_enginetime [0x80, 1]]], local_clock = \<lparr>engineBoots = 3, last_engineTime = 0\<rparr>\<rparr>,
     u_engineID = [0x80, 1], u_stats = (\<lambda>_. 0)\<rparr>, um_users = [sample_account], um_noNameUser = None\<rparr>"

lemmas usm_decode = asn_parse_sequence_def asn_parse_header_def asn_parse_string_def asn_parse_int_def asn_parse_length_def
  asn_parse_length_check_def rd_def rd_bytes_def wr_def wr_bytes.simps(2) check_overflow_s_def parse_octets_def parse_integer_def parse_name_def blank_def


lemma sample_sequences:
  "asn_parse_sequence (sample_whole m) 2 18446744069414584402 0x04 = Inr (4, 32, 0x04)"
  "asn_parse_sequence (sample_whole m) 4 32 0x30 = Inr (6, 30, 0x30)"
  by (simp_all add: sample_whole_def usm_decode usub64_def zeros2_def zeros16_def cong: ebind_eval_cong)

lemma sample_octets:
  "parse_octets (sample_whole m) 6 30 zeros2 2 = Inr (10, 26, [0x80, 1], 2)"
  "parse_name (sample_whole m) 17 19 zeros2 2 = Inr (20, 16, [0x61, 0], 1)"
  by (simp_all add: sample_whole_def usm_decode usub64_def zeros2_def zeros16_def cong: ebind_eval_cong)



lemma replicate12: "replicate 12 x = [x, x, x, x, x, x, x, x, x, x, x, x]"
  by (simp add: numeral_eq_Suc)

lemma sample_sig:
  "parse_octets (sample_whole m) 20 16 zeros16 16 = Inr (34, 2, [m, m, m, m, m, m, m, m, m, m, m, m, 0, 0, 0, 0], 12)"
  "parse_octets (sample_whole 0) 34 2 zeros16 16 = Inr (36, 0, zeros16, 0)"
  "blank (sample_whole m) 34 12 = Inr (sample_whole 0)"
  by (simp_all add: sample_whole_def usm_decode usub64_def zeros2_def zeros16_def replicate12 cong: ebind_eval_cong)

lemma be_loop_two:
  "be_loop mem i 2 v = ebind (rd mem i) (\<lambda>b. ebind (rd mem (Suc i)) (\<lambda>c. Inr (Suc (Suc i), push_bit 8 (push_bit 8 v OR ucast b) OR ucast c)))"
  by (simp only: numeral_2_eq_2 be_loop.simps)

lemma sample_ints:
  "parse_integer (sample_whole m) 10 26 = Inr (13, 23, 3)"
  "parse_integer (sample_whole m) 13 23 = Inr (17, 19, 1000)"
  by (simp_all add: sample_whole_def usm_decode usub64_def zeros2_def zeros16_def be_loop_two cong: ebind_eval_cong)

lemma sample_parsed:
  "usm_parse_security_parameters (sample_whole m) 2 18446744069414584402 zeros2 zeros2 zeros16 zeros16 =
     Inr \<lparr>sp_engineID = [0x80, 1], sp_boots = 3, sp_time = 1000, sp_name = [0x61, 0], sp_nameLen = 1,
       sp_signature = replicate 12 m, sp_salt = [], sp_data = 36, sp_msg = sample_whole 0\<rparr>"
  by (simp add: usm_parse_security_parameters_def parse_identity_def sample_sequences sample_octets sample_sig sample_ints or_return_def replicate12
      cong: ebind_eval_cong)

lemma sample_remaining: "usm_remaining (sample_whole m) 2 38 = Inr 18446744069414584402"
  by (simp add: usm_remaining_def sample_whole_def rd_def usub64_def)


definition sample_sp :: sec_params where
  "sample_sp = \<lparr>sp_engineID = [0x80, 1], sp_boots = 3, sp_time = 1000, sp_name = [0x61, 0], sp_nameLen = 1,
       sp_signature = replicate 12 45, sp_salt = [], sp_data = 36, sp_msg = sample_whole 0\<rparr>"

lemma sample_known:
  "ISENGINEKNOWN (\<lambda>bs. Some bs) 900 (u_lcd (um_state sample_db)) [0x80, 1] = (True, u_lcd (um_state sample_db))"
  by (simp add: ISENGINEKNOWN_def get_enginetime_def sample_db_def search_enginetime_list_def hash_engineID_def
      new_enginetime_def enginetime_estimate_def)

lemma sample_user:
  "cstr name = [0x61] \<Longrightarrow> usm_get_user_from_list [0x80, 1] name (um_users sample_db) (um_noNameUser sample_db) dflt = Some sample_account"
  "us_userStatus sample_account = RS_ACTIVE" "usm_check_secLevel SNMP_SEC_LEVEL_AUTHNOPRIV sample_account = 0"
  by (simp_all add: usm_get_user_from_list_def user_matches_key sample_account_def sample_db_def usm_check_secLevel_def usm_protocols netsnmp_oid_equals_def)

lemma sample_hash:
  "12 \<le> length whole \<Longrightarrow>
   sc_check_keyed_hash sample_hmac (us_authProtocol sample_account) (us_authKey sample_account) whole (replicate 12 (7 + word_of_nat (length whole)))"
  by (simp add: sc_check_keyed_hash_iff sample_account_def hash_of_def sample_hmac_def)

definition sample_after :: usm_state where
  "sample_after = snd (usm_check_and_update_timeliness (\<lambda>bs. Some bs) 900 (um_state sample_db) [0x80, 1] 3 1000)"

lemma sample_time:
  "usm_check_and_update_timeliness (\<lambda>bs. Some bs) 900 ((um_state sample_db)\<lparr>u_lcd := u_lcd (um_state sample_db)\<rparr>) [0x80, 1] 3 1000 = (SNMPERR_SUCCESS, sample_after)"
  by (simp add: sample_after_def time_eval sample_db_def)

lemma sample_crypto_simps: "c_hash sample_crypto = (\<lambda>bs. Some bs)" "c_hmac sample_crypto = sample_hmac"
  by (simp_all add: sample_crypto_def)

lemma sample_accepted:
  "\<exists>r. usm_process_in_msg sample_crypto 900 (\<lambda>_. True) zeros16 zeros16 zeros16 (sample_in (sample_whole 45)) sample_db = Inr (SNMPERR_SUCCESS, r)"
proof -
  let ?p = "sample_in (sample_whole 45)"
  have w: "length (sample_whole m) = 38" for m by (simp add: sample_whole_def)
  have p: "i_wholeMsg ?p = sample_whole 45" "i_secParams ?p = 2" "i_wholeMsgLen ?p = 38" "i_secEngineID ?p = zeros2" "i_secName ?p = zeros2"
    "i_secLevel ?p = 2" "i_sess ?p = Some 1"
    by (simp_all add: sample_in_def w)
  show ?thesis
    using process_in_msg_accepts [of ?p 18446744069414584402 zeros16 zeros16 sample_sp "\<lambda>_. True" sample_crypto 900 sample_db
        "u_lcd (um_state sample_db)" sample_account sample_after zeros16]
      sample_hash [of "sample_whole 0"] sample_time sample_known sample_user(2,3) sample_user(1) [of "[0x61, 0]" False]
    by (simp add: p sample_remaining sample_parsed sample_crypto_simps w sample_sp_def cstr_def)
qed

theorem usm_accepts_authentic_witness:
  "\<exists>r sp. usm_process_in_msg sample_crypto 900 (\<lambda>_. True) zeros16 zeros16 zeros16 (sample_in (sample_whole 45)) sample_db = Inr (SNMPERR_SUCCESS, r) \<and>
     usm_parse_security_parameters (sample_whole 45) 2 18446744069414584402 zeros2 zeros2 zeros16 zeros16 = Inr sp \<and> r_msg r = sp_msg sp"
proof -
  obtain r where r: "usm_process_in_msg sample_crypto 900 (\<lambda>_. True) zeros16 zeros16 zeros16 (sample_in (sample_whole 45)) sample_db = Inr (SNMPERR_SUCCESS, r)"
    using sample_accepted by blast
  have "length (sample_whole 45) = 38" by (simp add: sample_whole_def)
  then have "i_secLevel (sample_in (sample_whole 45)) = SNMP_SEC_LEVEL_AUTHNOPRIV" "i_wholeMsg (sample_in (sample_whole 45)) = sample_whole 45"
    "i_secParams (sample_in (sample_whole 45)) = 2" "i_wholeMsgLen (sample_in (sample_whole 45)) = 38"
    "i_secEngineID (sample_in (sample_whole 45)) = zeros2" "i_secName (sample_in (sample_whole 45)) = zeros2"
    by (simp_all add: sample_in_def)
  with usm_accepts_authentic [OF r] sample_remaining show ?thesis using r by auto
qed


text \<open>
  The bound on the security parameters is taken from the bytes and not from the pointers: with the tags of a message (\<open>0x30\<close>) and of its security parameters
  (\<open>0x04\<close>) it is above \<open>2 ^ 64 - 2 ^ 32\<close>, whatever the length of the message.
  Parameters that claim to be longer than the message are then read beyond its end.
\<close>

lemma usm_remaining_no_bound:
  assumes "secParams < length mem" and "mem ! 0 = 0x30" and "mem ! secParams = 0x04" and "wholeMsgLen < 4294967252"
  shows "usm_remaining mem secParams wholeMsgLen = Inr (18446744069414584364 + wholeMsgLen)"
  using assms by (auto simp: usm_remaining_def rd_def usub64_def)

lemma usm_process_in_msg_overread:
  "usm_process_in_msg sample_crypto 900 (\<lambda>_. True) zeros16 zeros16 zeros16
     (sample_in [0x30, 9, 0x04, 0x40, 0x30, 0x3e, 0x04, 0x3c, 0x80, 1, 2]\<lparr>i_secEngineID := replicate 64 0\<rparr>) sample_db = Inl OverRead"
  by (simp add: usm_process_in_msg_def usm_remaining_def sample_in_def usm_malloc_usmStateReference_def usm_parse_security_parameters_def
      parse_identity_def usm_decode usub64_def or_return_def undefined_behaviour_def cong: ebind_eval_cong)

end
