(* ===== verification/Snmpv3.thy ===== *)
theory Snmpv3
  imports Usm_In
begin

unbundle bit_operations_syntax

section \<open>Incoming SNMPv3 messages (\<open>snmplib/snmp_api.c\<close>, \<open>snmplib/snmp_secmod.c\<close>)\<close>

text \<open>
  \<open>find_sec_mod\<close>, \<open>snmpv3_scopedPDU_parse\<close> and \<open>snmpv3_parse\<close>.  A registered security service is its number and its \<open>decode\<close> function, if it has one; that of the
  user-based model is \<open>usm_process_in_msg\<close>.  \<open>after_header\<close> is \<open>NULL\<close>, as in \<open>_snmp_parse\<close>.  The record \<open>v3_message\<close> has the
  fields of \<open>struct snmp_pdu\<close> that the function sets; those set by a decoder that fails in the middle are not kept.
  \<open>tmp_buf\<close> is the local array of 1472 bytes, and \<open>objid\<close> the one of \<open>snmp_pdu_parse\<close>.
\<close>

abbreviation (input) SNMPERR_ASN_PARSE_ERR :: int where "SNMPERR_ASN_PARSE_ERR \<equiv> - 29"
abbreviation (input) SNMPERR_UNKNOWN_SEC_MODEL :: int where "SNMPERR_UNKNOWN_SEC_MODEL \<equiv> - 30"
abbreviation (input) SNMPERR_INVALID_MSG :: int where "SNMPERR_INVALID_MSG \<equiv> - 31"
abbreviation (input) SNMP_MAX_MSG_SIZE :: nat where "SNMP_MAX_MSG_SIZE \<equiv> 1472"
abbreviation (input) SNMP_MAX_ENG_SIZE :: nat where "SNMP_MAX_ENG_SIZE \<equiv> 32"
abbreviation (input) SNMP_MAX_SEC_NAME_SIZE :: nat where "SNMP_MAX_SEC_NAME_SIZE \<equiv> 256"
abbreviation (input) SNMP_MAX_CONTEXT_SIZE :: nat where "SNMP_MAX_CONTEXT_SIZE \<equiv> 256"

type_synonym secmod_decode = "secmod_in \<Rightarrow> usm \<Rightarrow> (int \<times> usm_result) res"
type_synonym secmods = "(int \<times> secmod_decode option) list"

record v3_header =
  h_version :: u64
  h_msgid :: u64
  h_max_size :: u64
  h_flags :: u8
  h_sec_model :: int
  h_sec_params :: nat

record v3_message =
  v_header :: v3_header
  v_contextEngineID :: bytes
  v_contextName :: bytes
  v_securityEngineID :: bytes
  v_securityName :: bytes
  v_pdu :: netsnmp_pdu

definition find_sec_mod :: "(int \<times> 'a) list \<Rightarrow> int \<Rightarrow> 'a option" where
  "find_sec_mod registered_services secmod = map_of registered_services secmod"


subsection \<open>The global data\<close>

text \<open>An integer of the header with its legal range, as a signed number.\<close>

definition parse_ranged :: "bytes \<Rightarrow> nat \<Rightarrow> nat \<Rightarrow> int \<Rightarrow> (nat \<times> nat \<times> u64) res" where
  "parse_ranged mem data len least =
     ebind (asn_parse_int mem data len 8) (\<lambda>(data', len', type, x).
     if type \<noteq> ASN_INTEGER then Inl (TypeErr type)
     else if sint x < least \<or> sint x > 0x7fffffff then Inl (SnmpErr SNMPERR_ASN_PARSE_ERR)
     else Inr (data', len', x))"

definition security_level :: "u8 \<Rightarrow> nat" where
  "security_level msg_flags =
     (if msg_flags AND SNMP_MSG_FLAG_AUTH_BIT \<noteq> 0
      then if msg_flags AND SNMP_MSG_FLAG_PRIV_BIT \<noteq> 0 then SNMP_SEC_LEVEL_AUTHPRIV else SNMP_SEC_LEVEL_AUTHNOPRIV
      else SNMP_SEC_LEVEL_NOAUTH)"

definition parse_global ::
  "bytes \<Rightarrow> bytes \<Rightarrow> nat \<Rightarrow> nat \<Rightarrow> (v3_header \<times> nat) res" where
  "parse_global tmp_buf mem data len =
     ebind (asn_parse_sequence mem data len ASN_SEQUENCE_CONSTRUCTOR) (\<lambda>(d1, l1, _).
     ebind (asn_parse_int mem d1 l1 8) (\<lambda>(d2, l2, _, ver).
     ebind (asn_parse_sequence mem d2 l2 ASN_SEQUENCE_CONSTRUCTOR) (\<lambda>(d3, _, _).
     ebind (parse_ranged mem d3 (usub64 l2 (d3 - d2)) 0) (\<lambda>(d4, l4, msgid).
     ebind (parse_ranged mem d4 l4 484) (\<lambda>(d5, l5, max_size).
     ebind (asn_parse_string mem d5 l5 tmp_buf SNMP_MAX_MSG_SIZE) (\<lambda>(d6, l6, type, buf, n).
     if type \<noteq> ASN_OCTET_STR \<or> n \<noteq> 1 then Inl (SnmpErr SNMPERR_ASN_PARSE_ERR)
     else ebind (rd buf 0) (\<lambda>msg_flags.
     ebind (parse_ranged mem d6 l6 1) (\<lambda>(d7, l7, sec_model).
     Inr (\<lparr>h_version = ver, h_msgid = msgid, h_max_size = max_size, h_flags = msg_flags, h_sec_model = sint sec_model,
           h_sec_params = d7\<rparr>, l7)))))))))"

text \<open>The header and the security service for it.\<close>

definition v3_service ::
  "secmods \<Rightarrow> bytes \<Rightarrow> bytes \<Rightarrow> nat \<Rightarrow> nat \<Rightarrow> (v3_header \<times> secmod_decode option) res" where
  "v3_service services tmp_buf mem data len =
     ebind (or_return SNMPERR_ASN_PARSE_ERR (parse_global tmp_buf mem data len)) (\<lambda>(hdr, _).
     case find_sec_mod services (h_sec_model hdr) of
       None \<Rightarrow> Inl (SnmpErr SNMPERR_UNKNOWN_SEC_MODEL)
     | Some decode \<Rightarrow>
         if h_flags hdr AND SNMP_MSG_FLAG_PRIV_BIT \<noteq> 0 \<and> \<not> h_flags hdr AND SNMP_MSG_FLAG_AUTH_BIT \<noteq> 0
         then Inl (SnmpErr SNMPERR_INVALID_MSG)
         else Inr (hdr, decode))"


subsection \<open>The scoped PDU\<close>

text \<open>\<open>None\<close> is \<open>NULL\<close>.  A failed \<open>malloc\<close> of the context name is used as a destination before it is tested.\<close>

definition snmpv3_scopedPDU_parse ::
  "(nat \<Rightarrow> bool) \<Rightarrow> bytes \<Rightarrow> bytes \<Rightarrow> bytes \<Rightarrow> nat \<Rightarrow> nat \<Rightarrow> (nat \<times> nat \<times> bytes \<times> bytes \<times> u8) option res" where
  "snmpv3_scopedPDU_parse alloc contextEngineID tmp_buf mem cp len =
     attempt (
     ebind (asn_parse_sequence mem cp len ASN_SEQUENCE_CONSTRUCTOR) (\<lambda>(d1, _, _).
     ebind (asn_parse_string mem d1 (usub64 len (d1 - cp)) contextEngineID (length contextEngineID)) (\<lambda>(d2, l2, _, eid, eidLen).
     ebind (asn_parse_string mem d2 l2 tmp_buf SNMP_MAX_CONTEXT_SIZE) (\<lambda>(d3, l3, _, buf, n).
     if n \<noteq> 0 \<and> \<not> alloc n then Inl OverWrite
     else if n = 0 \<and> \<not> alloc 1 then Inl (SnmpErr SNMPERR_MALLOC)
     else ebind (asn_parse_header mem d3 l3) (\<lambda>(_, _, type).
     Inr (d3, l3, take eidLen eid, take n buf, type))))))"


subsection \<open>The whole message\<close>

definition count_v3 :: "usm_stat \<Rightarrow> usm \<Rightarrow> usm" where
  "count_v3 i s = s\<lparr>um_state := count_stat i (um_state s)\<rparr>"

definition service_errors :: "int \<Rightarrow> usm \<Rightarrow> usm" where
  "service_errors c s =
     (if c = SNMPERR_ASN_PARSE_ERR then count_v3 InASNParseErrs s
      else if c = SNMPERR_UNKNOWN_SEC_MODEL then count_v3 UnknownSecurityModels s
      else count_v3 InvalidMsgs s)"

text \<open>
  The room for the decrypted PDU: the local array, or memory of the size of the message if that is larger.  When this
  memory is missing, \<open>sc_decrypt\<close> gets \<open>NULL\<close> and fails as it does for no room at all.
\<close>

definition pdu_room :: "(nat \<Rightarrow> bool) \<Rightarrow> nat \<Rightarrow> nat \<Rightarrow> nat" where
  "pdu_room alloc level msg_len =
     (if SNMP_MAX_MSG_SIZE < msg_len \<and> level = SNMP_SEC_LEVEL_AUTHPRIV then if alloc msg_len then msg_len else 0
      else SNMP_MAX_MSG_SIZE)"

text \<open>The memory that \<open>cp\<close> points to after the security service, the position in it and \<open>pdu_buf_len\<close>.\<close>

definition scoped_memory :: "nat \<Rightarrow> usm_result \<Rightarrow> bytes \<times> nat \<times> nat" where
  "scoped_memory pdu_size r =
     (case r_scopedPdu r of
        InMessage pos n \<Rightarrow> (r_msg r, pos, n)
      | Decrypted pt \<Rightarrow> (pt @ replicate (pdu_size - length pt) 0, 0, length pt)
      | NoScopedPdu \<Rightarrow> (replicate pdu_size 0, 0, pdu_size))"

definition new_v3_message :: "v3_header \<Rightarrow> netsnmp_pdu \<Rightarrow> usm_result \<Rightarrow> v3_message" where
  "new_v3_message hdr pdu r = \<lparr>v_header = hdr, v_contextEngineID = [], v_contextName = [], v_securityEngineID = r_engineID r,
     v_securityName = take (r_nameLen r) (r_name r), v_pdu = pdu\<lparr>command := 0\<rparr>\<rparr>"

text \<open>After an error of the service: as much of the PDU as can be parsed, for a report.\<close>

definition parse_anyway ::
  "(nat \<Rightarrow> bool) \<Rightarrow> oid \<Rightarrow> bytes \<Rightarrow> bytes \<times> nat \<times> nat \<Rightarrow> v3_message \<Rightarrow> v3_message res" where
  "parse_anyway alloc objid tmp_buf m msg =
     (case m of (mem, cp, len) \<Rightarrow>
      if mem = [] then Inr msg
      else ebind (snmpv3_scopedPDU_parse alloc (replicate SNMP_MAX_ENG_SIZE 0) tmp_buf mem cp len) (\<lambda>x.
      case x of
        None \<Rightarrow> Inr msg
      | Some (d, l, eid, name, type) \<Rightarrow>
          let msg1 = msg\<lparr>v_contextEngineID := eid, v_contextName := name, v_pdu := (v_pdu msg)\<lparr>command := type\<rparr>\<rparr> in
          ebind (attempt (snmp_pdu_parse alloc objid mem d l (v_pdu msg1))) (\<lambda>y.
          case y of None \<Rightarrow> Inr msg1 | Some (_, pdu) \<Rightarrow> Inr (msg1\<lparr>v_pdu := pdu\<rparr>))))"

definition parse_scoped ::
  "(nat \<Rightarrow> bool) \<Rightarrow> oid \<Rightarrow> bytes \<Rightarrow> bytes \<times> nat \<times> nat \<Rightarrow> usm \<Rightarrow> v3_message \<Rightarrow> (int \<times> usm \<times> v3_message) res" where
  "parse_scoped alloc objid tmp_buf m s msg =
     (case m of (mem, cp, len) \<Rightarrow>
      ebind (snmpv3_scopedPDU_parse alloc (replicate SNMP_MAX_ENG_SIZE 0) tmp_buf mem cp len) (\<lambda>x.
      case x of
        None \<Rightarrow> Inr (SNMPERR_ASN_PARSE_ERR, count_v3 InASNParseErrs s, msg)
      | Some (d, l, eid, name, type) \<Rightarrow>
          let msg1 = msg\<lparr>v_contextEngineID := eid, v_contextName := name, v_pdu := (v_pdu msg)\<lparr>command := type\<rparr>\<rparr> in
          (case snmp_pdu_parse alloc objid mem d l (v_pdu msg1) of
             Inr (ret, pdu) \<Rightarrow>
               if ret \<noteq> SNMPERR_SUCCESS then Inr (SNMPERR_ASN_PARSE_ERR, count_v3 InASNParseErrs s, msg1\<lparr>v_pdu := pdu\<rparr>)
               else Inr (SNMPERR_SUCCESS, s, msg1\<lparr>v_pdu := pdu\<rparr>)
           | Inl e \<Rightarrow>
               if undefined_behaviour e then Inl e
               else Inr (SNMPERR_ASN_PARSE_ERR,
                 count_v3 InASNParseErrs (case e of BadPduType t \<Rightarrow> count_v3 InASNParseErrs s | _ \<Rightarrow> s), msg1))))"

definition snmpv3_parse ::
  "secmods \<Rightarrow> (nat \<Rightarrow> bool) \<Rightarrow> oid \<Rightarrow> bytes \<Rightarrow> nat option \<Rightarrow> usm \<Rightarrow> netsnmp_pdu \<Rightarrow> bytes \<Rightarrow> nat \<Rightarrow> (int \<times> usm \<times> v3_message option) res" where
  "snmpv3_parse services alloc objid tmp_buf sess s pdu mem len =
     (case v3_service services tmp_buf mem 0 len of
        Inl e \<Rightarrow> (case e of SnmpErr c \<Rightarrow> Inr (c, service_errors c s, None) | _ \<Rightarrow> Inl e)
      | Inr (hdr, decode) \<Rightarrow>
          if \<not> (alloc SNMP_MAX_ENG_SIZE \<and> alloc (2 * SNMP_MAX_ENG_SIZE) \<and> alloc SNMP_MAX_SEC_NAME_SIZE)
          then Inr (SNMPERR_MALLOC, s, None)
          else case decode of
            None \<Rightarrow> Inr (- 1, s, None)
          | Some f \<Rightarrow>
              let pdu_size = pdu_room alloc (security_level (h_flags hdr)) len in
              ebind (f \<lparr>i_maxMsgSize = unat (h_max_size hdr), i_secParams = h_sec_params hdr, i_secLevel = security_level (h_flags hdr), i_wholeMsg = mem,
                        i_wholeMsgLen = len, i_secEngineID = replicate (2 * SNMP_MAX_ENG_SIZE) 0,
                        i_secName = replicate SNMP_MAX_SEC_NAME_SIZE 0, i_scopedPduLen = pdu_size, i_sess = sess, i_msg_flags = h_flags hdr\<rparr> s)
                (\<lambda>(ret_val, r).
                 if ret_val \<noteq> SNMPERR_SUCCESS
                 then ebind (parse_anyway alloc objid tmp_buf (scoped_memory pdu_size r) (new_v3_message hdr pdu r))
                        (\<lambda>msg. Inr (ret_val, r_usm r, Some msg))
                 else ebind (parse_scoped alloc objid tmp_buf (scoped_memory pdu_size r) (r_usm r) (new_v3_message hdr pdu r))
                        (\<lambda>(rc, s', msg). Inr (rc, s', Some msg))))"


subsection \<open>Security services\<close>

lemma parse_scoped_success:
  assumes "parse_scoped alloc objid tmp_buf (mem, cp, len) s msg0 = Inr (SNMPERR_SUCCESS, s', msg)"
  shows "s' = s \<and> v_header msg = v_header msg0 \<and> v_securityEngineID msg = v_securityEngineID msg0 \<and> v_securityName msg = v_securityName msg0 \<and>
    (\<exists>d l type. snmpv3_scopedPDU_parse alloc (replicate SNMP_MAX_ENG_SIZE 0) tmp_buf mem cp len = Inr (Some (d, l, v_contextEngineID msg, v_contextName msg, type)) \<and>
       snmp_pdu_parse alloc objid mem d l ((v_pdu msg0)\<lparr>command := type\<rparr>) = Inr (SNMPERR_SUCCESS, v_pdu msg))"
proof -
  obtain x where x: "snmpv3_scopedPDU_parse alloc (replicate SNMP_MAX_ENG_SIZE 0) tmp_buf mem cp len = Inr x"
    using assms by (auto simp: parse_scoped_def ebind_eq_Inr)
  obtain d l eid name type where x': "x = Some (d, l, eid, name, type)"
    using assms x by (cases x) (auto simp: parse_scoped_def)
  show ?thesis
  proof (cases "snmp_pdu_parse alloc objid mem d l ((v_pdu msg0)\<lparr>command := type\<rparr>)")
    case (Inl e)
    then show ?thesis using assms x x' by (simp add: parse_scoped_def Let_def split: if_splits)
  next
    case (Inr y)
    then show ?thesis using assms x x' by (cases y) (auto simp: parse_scoped_def Let_def split: if_splits)
  qed
qed

text \<open>What the security service is asked for a message with the header \<open>hdr\<close>.\<close>

definition v3_params :: "(nat \<Rightarrow> bool) \<Rightarrow> nat option \<Rightarrow> v3_header \<Rightarrow> bytes \<Rightarrow> nat \<Rightarrow> secmod_in" where
  "v3_params alloc sess hdr mem len =
     \<lparr>i_maxMsgSize = unat (h_max_size hdr), i_secParams = h_sec_params hdr, i_secLevel = security_level (h_flags hdr), i_wholeMsg = mem,
      i_wholeMsgLen = len, i_secEngineID = replicate (2 * SNMP_MAX_ENG_SIZE) 0, i_secName = replicate SNMP_MAX_SEC_NAME_SIZE 0,
      i_scopedPduLen = pdu_room alloc (security_level (h_flags hdr)) len, i_sess = sess, i_msg_flags = h_flags hdr\<rparr>"

lemma v3_params_simps [simp]:
  "i_secLevel (v3_params alloc sess hdr mem len) = security_level (h_flags hdr)" "i_wholeMsg (v3_params alloc sess hdr mem len) = mem"
  "i_wholeMsgLen (v3_params alloc sess hdr mem len) = len" "i_scopedPduLen (v3_params alloc sess hdr mem len) = pdu_room alloc (security_level (h_flags hdr)) len"
  by (simp_all add: v3_params_def)

text \<open>
  What \<open>snmpv3_parse\<close> relies on: a service that accepts a message of an authenticated level vouches for it.
\<close>

locale security_service =
  fixes decode :: secmod_decode
    and authentic :: "secmod_in \<Rightarrow> usm \<Rightarrow> usm_result \<Rightarrow> bool"
  assumes accepted: "decode p s = Inr (SNMPERR_SUCCESS, r) \<Longrightarrow> auth_level (i_secLevel p) \<Longrightarrow> authentic p s r"
begin

text \<open>
  A message is accepted with a PDU only if the service accepted the whole message at the level of its flags, and the PDU is what
  stands in the scoped PDU that the service delivered.
\<close>

lemma snmpv3_parse_accepted:
  assumes acc: "snmpv3_parse services alloc objid tmp_buf sess s pdu mem len = Inr (SNMPERR_SUCCESS, s', Some msg)"
    and service: "find_sec_mod services (h_sec_model (v_header msg)) = Some (Some decode)"
    and auth: "h_flags (v_header msg) AND SNMP_MSG_FLAG_AUTH_BIT \<noteq> 0"
  shows "v3_service services tmp_buf mem 0 len = Inr (v_header msg, Some decode) \<and>
     (\<exists>r m cp n d l type.
        decode (v3_params alloc sess (v_header msg) mem len) s = Inr (SNMPERR_SUCCESS, r) \<and>
        authentic (v3_params alloc sess (v_header msg) mem len) s r \<and>
        v_securityEngineID msg = r_engineID r \<and> v_securityName msg = take (r_nameLen r) (r_name r) \<and> s' = r_usm r \<and>
        scoped_memory (pdu_room alloc (security_level (h_flags (v_header msg))) len) r = (m, cp, n) \<and>
        snmpv3_scopedPDU_parse alloc (replicate SNMP_MAX_ENG_SIZE 0) tmp_buf m cp n = Inr (Some (d, l, v_contextEngineID msg, v_contextName msg, type)) \<and>
        snmp_pdu_parse alloc objid m d l (pdu\<lparr>command := type\<rparr>) = Inr (SNMPERR_SUCCESS, v_pdu msg))"
proof -
  obtain hdr dec where srv: "v3_service services tmp_buf mem 0 len = Inr (hdr, dec)"
  proof (cases "v3_service services tmp_buf mem 0 len")
    case (Inl e)
    with acc show ?thesis by (cases e) (simp_all add: snmpv3_parse_def)
  next
    case (Inr x)
    then show ?thesis by (cases x) (simp add: that)
  qed
  then have found: "find_sec_mod services (h_sec_model hdr) = Some dec"
    by (auto simp: v3_service_def ebind_eq_Inr split: option.splits if_splits prod.splits)
  let ?size = "pdu_room alloc (security_level (h_flags hdr)) len" and ?p = "v3_params alloc sess hdr mem len"
  obtain f r where f: "dec = Some f" "f ?p s = Inr (SNMPERR_SUCCESS, r)"
      "parse_scoped alloc objid tmp_buf (scoped_memory ?size r) (r_usm r) (new_v3_message hdr pdu r) = Inr (SNMPERR_SUCCESS, s', msg)"
  proof (cases dec)
    case None
    with acc srv show ?thesis by (simp add: snmpv3_parse_def split: if_splits)
  next
    case (Some f)
    have e: "ebind (f ?p s) (\<lambda>(ret_val, r).
        if ret_val \<noteq> SNMPERR_SUCCESS
        then ebind (parse_anyway alloc objid tmp_buf (scoped_memory ?size r) (new_v3_message hdr pdu r)) (\<lambda>msg. Inr (ret_val, r_usm r, Some msg))
        else ebind (parse_scoped alloc objid tmp_buf (scoped_memory ?size r) (r_usm r) (new_v3_message hdr pdu r)) (\<lambda>(rc, s', msg). Inr (rc, s', Some msg)))
        = Inr (SNMPERR_SUCCESS, s', Some msg)"
      using acc srv Some by (simp add: snmpv3_parse_def Let_def v3_params_def split: if_splits)
    then obtain ret r where fp: "f ?p s = Inr (ret, r)" by (auto simp: ebind_eq_Inr)
    with e show ?thesis by (intro that [OF Some]) (auto simp: ebind_eq_Inr split: if_splits)
  qed
  obtain m cp n where m: "scoped_memory ?size r = (m, cp, n)" by (cases "scoped_memory ?size r")
  note ps = parse_scoped_success [OF f(3) [unfolded m]]
  then have hdr: "v_header msg = hdr" by (simp add: new_v3_message_def)
  then have "f = decode" using service found f(1) by simp
  moreover have "auth_level (i_secLevel ?p)" using auth hdr by (simp add: security_level_def)
  ultimately have "authentic ?p s r" using f(2) accepted by simp
  moreover have "v_securityEngineID msg = r_engineID r" "v_securityName msg = take (r_nameLen r) (r_name r)" "s' = r_usm r"
    using ps by (simp_all add: new_v3_message_def)
  moreover obtain d l type where
      "snmpv3_scopedPDU_parse alloc (replicate SNMP_MAX_ENG_SIZE 0) tmp_buf m cp n = Inr (Some (d, l, v_contextEngineID msg, v_contextName msg, type))"
      "snmp_pdu_parse alloc objid m d l (pdu\<lparr>command := type\<rparr>) = Inr (SNMPERR_SUCCESS, v_pdu msg)"
    using ps by (auto simp: new_v3_message_def)
  ultimately show ?thesis using srv f(1,2) m \<open>f = decode\<close> unfolding hdr by blast
qed

end


interpretation usm: security_service "usm_process_in_msg cr now alloc signature salt iv0" "usm_authentic cr now signature salt" for cr now alloc signature salt iv0
  by unfold_locales (rule process_in_msg_authentic)

text \<open>
  C1 (authentic SNMPv3 messages).  When \<open>snmpv3_parse\<close> accepts a message whose flags ask for authentication, and the security model it names is the user-based one,
  then its header is the one that stands at the start of the message and the service was given the whole message at exactly the level of the flags, accepted it and vouches for it
  (\<open>usm_authentic\<close>: an active user with the engine identifier and name in the message, whose key gives the keyed hash that it carries,
  and boots and time in the message that are timely).  The context and the PDU are parsed from the scoped PDU
  that the service delivered: the rest of that message, or its decryption if the flags ask for privacy.
\<close>

theorem snmpv3_parse_authentic:
  assumes "snmpv3_parse services alloc objid tmp_buf sess s pdu mem len = Inr (SNMPERR_SUCCESS, s', Some msg)"
    and "find_sec_mod services (h_sec_model (v_header msg)) = Some (Some (usm_process_in_msg cr now alloc' signature salt iv0))"
    and "h_flags (v_header msg) AND SNMP_MSG_FLAG_AUTH_BIT \<noteq> 0"
  shows "v3_service services tmp_buf mem 0 len = Inr (v_header msg, Some (usm_process_in_msg cr now alloc' signature salt iv0)) \<and>
     (\<exists>r m cp n d l type.
        usm_process_in_msg cr now alloc' signature salt iv0 (v3_params alloc sess (v_header msg) mem len) s = Inr (SNMPERR_SUCCESS, r) \<and>
        usm_authentic cr now signature salt (v3_params alloc sess (v_header msg) mem len) s r \<and>
        v_securityEngineID msg = r_engineID r \<and> v_securityName msg = take (r_nameLen r) (r_name r) \<and> s' = r_usm r \<and>
        scoped_memory (pdu_room alloc (security_level (h_flags (v_header msg))) len) r = (m, cp, n) \<and>
        snmpv3_scopedPDU_parse alloc (replicate SNMP_MAX_ENG_SIZE 0) tmp_buf m cp n = Inr (Some (d, l, v_contextEngineID msg, v_contextName msg, type)) \<and>
        snmp_pdu_parse alloc objid m d l (pdu\<lparr>command := type\<rparr>) = Inr (SNMPERR_SUCCESS, v_pdu msg))"
  using assms by (rule usm.snmpv3_parse_accepted)

definition v3_whole :: "u8 \<Rightarrow> bytes" where
  "v3_whole m = [0x30, 73, 0x02, 1, 3, 0x30, 13, 0x02, 1, 5, 0x02, 2, 0x05, 0xc0, 0x04, 1, 0x05, 0x02, 1, 3,
     0x04, 32, 0x30, 30, 0x04, 2, 0x80, 1, 0x02, 1, 3, 0x02, 2, 3, 0xe8, 0x04, 1, 0x61, 0x04, 12,
     m, m, m, m, m, m, m, m, m, m, m, m, 0x04, 0,
     0x30, 19, 0x04, 2, 0x80, 1, 0x04, 0, 0xa0, 11, 0x02, 1, 1, 0x02, 1, 0, 0x02, 1, 0, 0x30, 0]"

lemma length_v3_whole [simp]: "length (v3_whole m) = 75"
  by (simp add: v3_whole_def)

lemmas v3_decode = parse_octets_def parse_integer_def parse_name_def parse_ranged_def asn_parse_sequence_def asn_parse_header_def
  asn_parse_string_def asn_parse_int_def asn_parse_length_def asn_parse_length_check_def rd_def rd_bytes_def check_overflow_s_def be_loop_two mem_simps

lemma v3_global:
  "parse_global (replicate 1472 0) (v3_whole m) 0 75 =
     Inr (\<lparr>h_version = 3, h_msgid = 5, h_max_size = 1472, h_flags = 5, h_sec_model = 3, h_sec_params = 20\<rparr>, 55)"
proof -
  have "asn_parse_sequence (v3_whole m) 0 75 0x30 = Inr (2, 73, 0x30)"
    "asn_parse_int (v3_whole m) 2 73 8 = Inr (5, 70, 2, 3)"
    "asn_parse_sequence (v3_whole m) 5 70 0x30 = Inr (7, 13, 0x30)"
    "parse_ranged (v3_whole m) 7 68 0 = Inr (10, 65, 5)"
    "parse_ranged (v3_whole m) 10 65 484 = Inr (14, 61, 1472)"
    "asn_parse_string (v3_whole m) 14 61 (replicate 1472 0) 1472 = Inr (17, 58, 4, store_at (store_at (replicate 1472 0) 0 [5]) 1 [0], 1)"
    "parse_ranged (v3_whole m) 17 58 1 = Inr (20, 55, 3)"
    by (simp_all add: v3_whole_def v3_decode usub64_def cong: ebind_eval_cong)
  moreover have "rd (store_at (store_at (replicate 1472 0) 0 [5]) 1 [0]) 0 = Inr (5 :: u8)"
    by (simp add: rd_def store_at_def)
  ultimately show ?thesis by (simp add: parse_global_def cong: ebind_eval_cong)
qed


definition v3_sp :: sec_params where
  "v3_sp = \<lparr>sp_engineID = [0x80, 1], sp_boots = 3, sp_time = 1000, sp_name = 0x61 # 0 # replicate 254 0, sp_nameLen = 1,
       sp_signature = replicate 12 82, sp_salt = [], sp_data = 54, sp_msg = v3_whole 0\<rparr>"

lemma v3_identity:
  "asn_parse_sequence (v3_whole m) 20 18446744069414584439 0x04 = Inr (22, 32, 0x04)"
  "asn_parse_sequence (v3_whole m) 22 32 0x30 = Inr (24, 30, 0x30)"
  "parse_integer (v3_whole m) 28 26 = Inr (31, 23, 3)"
  "parse_integer (v3_whole m) 31 23 = Inr (35, 19, 1000)"
  "parse_octets (v3_whole m) 38 16 zeros16 16 = Inr (52, 2, [m, m, m, m, m, m, m, m, m, m, m, m, 0, 0, 0, 0], 12)"
  "parse_octets (v3_whole 0) 52 2 zeros16 16 = Inr (54, 0, zeros16, 0)"
  "blank (v3_whole m) 52 12 = Inr (v3_whole 0)"
  by (simp_all add: v3_whole_def v3_decode blank_def store_at_def usub64_def zeros16_def replicate12 cong: ebind_eval_cong)

lemma v3_engine_octets:
  "parse_octets (v3_whole m) 24 30 (replicate 64 0) 64 = Inr (28, 26, [0x80, 1, 0] @ replicate 61 0, 2)"
  by (simp add: v3_whole_def v3_decode store_at_def usub64_def cong: ebind_eval_cong)

lemma v3_name_octets:
  "parse_name (v3_whole m) 35 19 (replicate 256 0) 256 = Inr (38, 16, 0x61 # 0 # replicate 254 0, 1)"
  by (simp add: v3_whole_def v3_decode store_at_def usub64_def cong: ebind_eval_cong)


lemma v3_parsed:
  "usm_parse_security_parameters (v3_whole 82) 20 18446744069414584439 (replicate 64 0) (replicate 256 0) zeros16 zeros16 = Inr v3_sp"
  by (simp add: usm_parse_security_parameters_def parse_identity_def v3_identity v3_engine_octets v3_name_octets or_return_def replicate12 v3_sp_def
      cong: ebind_eval_cong)

lemma v3_remaining: "usm_remaining (v3_whole m) 20 75 = Inr 18446744069414584439"
  by (simp add: usm_remaining_def v3_whole_def rd_def usub64_def)

lemma v3_scoped:
  "snmpv3_scopedPDU_parse (\<lambda>_. True) (replicate 32 0) (replicate 1472 0) (v3_whole m) 54 21 = Inr (Some (62, 13, [0x80, 1], [], 0xa0))"
proof -
  have "asn_parse_sequence (v3_whole m) 54 21 0x30 = Inr (56, 19, 0x30)"
    "asn_parse_string (v3_whole m) 56 19 (replicate 32 0) 32 = Inr (60, 15, 4, [0x80, 1, 0] @ replicate 29 0, 2)"
    "asn_parse_string (v3_whole m) 60 15 (replicate 1472 0) 256 = Inr (62, 13, 4, 0 # replicate 1471 0, 0)"
    "asn_parse_header (v3_whole m) 62 13 = Inr (64, 11, 0xa0)"
    by (simp_all add: v3_whole_def v3_decode store_at_def usub64_def cong: ebind_eval_cong)
  then show ?thesis by (simp add: snmpv3_scopedPDU_parse_def attempt_def cong: ebind_eval_cong)
qed

abbreviation v3_request :: netsnmp_pdu where
  "v3_request \<equiv> \<lparr>command = 0, reqid = 0, errstat = 0, errindex = 0, uptime = 0, response_pdu = False, enterprise = [], agent_addr = [],
     trap_type = 0, specific_type = 0, variables = []\<rparr>"

lemma v3_pdu:
  "snmp_pdu_parse (\<lambda>_. True) [] (v3_whole m) 62 13 (v3_request\<lparr>command := 0xa0\<rparr>) = Inr (0, v3_request\<lparr>command := 0xa0, reqid := 1\<rparr>)"
proof -
  have "asn_parse_header (v3_whole m) 62 13 = Inr (64, 11, 0xa0)"
    "asn_parse_int (v3_whole m) 64 11 8 = Inr (67, 8, 2, 1)"
    "asn_parse_int (v3_whole m) 67 8 8 = Inr (70, 5, 2, 0)"
    "asn_parse_int (v3_whole m) 70 5 8 = Inr (73, 2, 2, 0)"
    "asn_parse_sequence (v3_whole m) 73 2 0x30 = Inr (75, 0, 0x30)"
    by (simp_all add: v3_whole_def v3_decode usub64_def cong: ebind_eval_cong)
  moreover have "parse_vars (\<lambda>_. True) (v3_whole m) 75 0 [] False = Inr ([], False)" by (subst parse_vars.simps) simp
  ultimately show ?thesis by (simp add: snmp_pdu_parse_def parse_request_fields_def request_command_def cong: ebind_eval_cong)
qed

theorem snmpv3_parse_authentic_witness:
  "\<exists>s' msg. snmpv3_parse [(3, Some (usm_process_in_msg sample_crypto 900 (\<lambda>_. True) zeros16 zeros16 zeros16))] (\<lambda>_. True) [] (replicate 1472 0) (Some 1)
      sample_db v3_request (v3_whole 82) 75 = Inr (SNMPERR_SUCCESS, s', Some msg) \<and>
    (\<exists>r. usm_authentic sample_crypto 900 zeros16 zeros16 (v3_params (\<lambda>_. True) (Some 1) (v_header msg) (v3_whole 82) 75) sample_db r \<and>
       v_securityEngineID msg = r_engineID r)"
proof -
  let ?d = "usm_process_in_msg sample_crypto 900 (\<lambda>_. True) zeros16 zeros16 zeros16"
  let ?p = "\<lparr>i_maxMsgSize = 1472, i_secParams = 20, i_secLevel = 2, i_wholeMsg = v3_whole 82, i_wholeMsgLen = 75, i_secEngineID = replicate 64 0,
     i_secName = replicate 256 0, i_scopedPduLen = 1472, i_sess = Some 1, i_msg_flags = 5\<rparr>"
  obtain r where r: "?d ?p sample_db = Inr (SNMPERR_SUCCESS, r)" "r_scopedPdu r = InMessage 54 21" "r_msg r = v3_whole 0"
    using process_in_msg_accepts [of ?p 18446744069414584439 zeros16 zeros16 v3_sp "\<lambda>_. True" sample_crypto 900 sample_db
        "u_lcd (um_state sample_db)" sample_account sample_after zeros16]
      sample_hash [of "v3_whole 0"] sample_time sample_known sample_user(2,3) sample_user(1) [of "0x61 # 0 # replicate 254 0" False]
    by (simp add: v3_remaining v3_parsed sample_crypto_simps v3_sp_def cstr_def)
  have s: "v3_service [(3, Some ?d)] (replicate 1472 0) (v3_whole 82) 0 75 =
      Inr (\<lparr>h_version = 3, h_msgid = 5, h_max_size = 1472, h_flags = 5, h_sec_model = 3, h_sec_params = 20\<rparr>, Some ?d)"
    by (simp add: v3_service_def v3_global or_return_def find_sec_mod_def)
  obtain s' msg where m: "snmpv3_parse [(3, Some ?d)] (\<lambda>_. True) [] (replicate 1472 0) (Some 1) sample_db v3_request (v3_whole 82) 75 =
      Inr (SNMPERR_SUCCESS, s', Some msg)" "v_header msg = \<lparr>h_version = 3, h_msgid = 5, h_max_size = 1472, h_flags = 5, h_sec_model = 3, h_sec_params = 20\<rparr>"
    using r by (simp add: snmpv3_parse_def s security_level_def pdu_room_def scoped_memory_def parse_scoped_def v3_scoped new_v3_message_def v3_pdu [simplified] Let_def)
  from snmpv3_parse_authentic [OF m(1), of sample_crypto 900 "\<lambda>_. True" zeros16 zeros16 zeros16] m show ?thesis
    by (simp add: find_sec_mod_def) blast
qed

end
