(* ===== verification/Usm_Out.thy ===== *)
theory Usm_Out
  imports Usm_In
begin

unbundle bit_operations_syntax

section \<open>Outgoing messages of the user-based security model (\<open>snmplib/snmpusm.c\<close>)\<close>

text \<open>
  \<open>usm_rgenerate_out_msg\<close>, which wraps a scoped PDU that stands at the end of the packet buffer, with \<open>usm_set_salt\<close>, \<open>usm_set_aes_iv\<close> and
  \<open>sc_encrypt\<close> of \<open>scapi.c\<close>.  The ciphers are arguments, as in \<open>Scapi\<close>; \<open>DES_ncbc_encrypt\<close> hands on its last block, so its two calls
  are one over the padded text.  A security name is a byte list without a zero.  \<open>out_state\<close> holds the global variables these functions change.
  An error code of the function is \<open>Inl\<close> of the inner sum; what the packet buffer holds then is not kept.
  \<open>malloc\<close> is the allocator of the packet buffer, \<open>alloc\<close> tells whether another allocation succeeds.
\<close>

abbreviation (input) SNMPERR_TOO_LONG :: int where "SNMPERR_TOO_LONG \<equiv> - 5"
abbreviation (input) SNMPERR_USM_ENCRYPTIONERROR :: int where "SNMPERR_USM_ENCRYPTIONERROR \<equiv> - 45"

record out_state =
  o_usm :: usm
  o_salt_integer :: u32
  o_salt_integer64_1 :: u32
  o_salt_integer64_2 :: u32

record out_cred =
  oc_name :: bytes
  oc_engineID :: bytes
  oc_authProtocol :: oid
  oc_authKey :: bytes
  oc_privProtocol :: oid
  oc_privKey :: bytes
  oc_level :: nat


subsection \<open>Encryption\<close>

definition des_pad :: "bytes \<Rightarrow> bytes" where
  "des_pad plaintext =
     (let pad = 8 - length plaintext mod 8 in
      if pad = 8 then plaintext else plaintext @ replicate pad (word_of_nat pad))"

definition sc_encrypt :: "cipher \<Rightarrow> cipher \<Rightarrow> oid \<Rightarrow> bytes \<Rightarrow> bytes \<Rightarrow> bytes \<Rightarrow> nat \<Rightarrow> bytes option" where
  "sc_encrypt des aes privtype key iv plaintext ctlen =
     (if privtype = [] \<or> key = [] \<or> iv = [] \<or> plaintext = [] \<or> ctlen = 0 \<or> length privtype \<noteq> USM_LENGTH_OID_TRANSFORM then None
      else if length plaintext > ctlen then None
      else case proper_lengths privtype of
        None \<Rightarrow> None
      | Some (properlength, properlength_iv) \<Rightarrow>
          if length key < properlength \<or> length iv < properlength_iv then None
          else if ISTRANSFORM privtype usmDESPrivProtocol then
            if length (des_pad plaintext) > ctlen then None else Some (des (take 8 key) iv (des_pad plaintext))
          else Some (aes (take properlength key) iv plaintext))"

text \<open>
  The result of \<open>usm_set_salt\<close> is the initialisation vector and the salt of the message, or \<open>None\<close> for -1.  The
  length of the salt part of the key is an \<open>u_int\<close> that wraps for a key of less than eight bytes.
\<close>

definition usm_set_salt :: "u64 \<Rightarrow> bytes \<Rightarrow> out_state \<Rightarrow> ((bytes \<times> bytes) option \<times> out_state) res" where
  "usm_set_salt boots privKey s =
     (if unat (word_of_nat (length privKey) - 8 :: u32) < 8 then Inr (None, s)
      else
        let msgSalt = be_bytes 4 (ucast boots :: u32) @ be_bytes 4 (o_salt_integer s) in
        ebind (des_iv msgSalt privKey 8 8) (\<lambda>iv.
        Inr (Some (iv, msgSalt), s\<lparr>o_salt_integer := o_salt_integer s + 1\<rparr>)))"

definition usm_set_aes_iv :: "u32 \<Rightarrow> u32 \<Rightarrow> out_state \<Rightarrow> (bytes \<times> bytes) \<times> out_state" where
  "usm_set_aes_iv boots time s =
     (let salt = be_bytes 4 (o_salt_integer64_1 s) @ be_bytes 4 (o_salt_integer64_2 s);
          n = o_salt_integer64_2 s + 1 in
      ((be_bytes 4 boots @ be_bytes 4 time @ salt, salt), s\<lparr>o_salt_integer64_2 := (if n = 0 then n + 1 else n)\<rparr>))"


subsection \<open>The credentials\<close>

definition usm_get_user :: "bytes \<Rightarrow> bytes \<Rightarrow> usm \<Rightarrow> usmUser option" where
  "usm_get_user engineID name s = usm_get_user_from_list engineID name (um_users s) (um_noNameUser s) True"

definition out_credentials :: "usmStateReference option \<Rightarrow> usm \<Rightarrow> bytes \<Rightarrow> bytes \<Rightarrow> nat \<Rightarrow> int + out_cred" where
  "out_credentials secStateRef s secEngineID secName secLevel =
     (case secStateRef of
        Some ref \<Rightarrow>
          Inr \<lparr>oc_name = usr_name ref, oc_engineID = (if usr_engine_id ref = [] then secEngineID else usr_engine_id ref),
               oc_authProtocol = usr_auth_protocol ref, oc_authKey = usr_auth_key ref, oc_privProtocol = usr_priv_protocol ref,
               oc_privKey = usr_priv_key ref, oc_level = usr_sec_level ref\<rparr>
      | None \<Rightarrow>
          (case usm_get_user secEngineID secName s of
             None \<Rightarrow>
               if secLevel \<noteq> SNMP_SEC_LEVEL_NOAUTH then Inl SNMPERR_USM_UNKNOWNSECURITYNAME
               else Inr \<lparr>oc_name = secName, oc_engineID = secEngineID, oc_authProtocol = usmNoAuthProtocol, oc_authKey = [],
                         oc_privProtocol = usmNoPrivProtocol, oc_privKey = [], oc_level = secLevel\<rparr>
           | Some user \<Rightarrow>
               Inr \<lparr>oc_name = secName, oc_engineID = secEngineID, oc_authProtocol = us_authProtocol user, oc_authKey = us_authKey user,
                    oc_privProtocol = us_privProtocol user, oc_privKey = privKey_bytes user, oc_level = secLevel\<rparr>))"


subsection \<open>The message\<close>

text \<open>A reverse encoder that returns 0 makes the function return \<open>c\<close>.\<close>

definition or_code :: "int \<Rightarrow> 'a res \<Rightarrow> (int + 'a) res" where
  "or_code c r = (case r of Inl e \<Rightarrow> if undefined_behaviour e then Inl e else Inr (Inl c) | Inr x \<Rightarrow> Inr (Inr x))"

text \<open>The encrypted PDU replaces what the buffer held; the result is the buffer and the salt.\<close>

definition out_encrypt ::
  "cipher \<Rightarrow> cipher \<Rightarrow> malloc \<Rightarrow> (nat \<Rightarrow> bool) \<Rightarrow> out_cred \<Rightarrow> u32 \<Rightarrow> u32 \<Rightarrow> bytes \<Rightarrow> out_state \<Rightarrow> rstate \<Rightarrow>
   ((int + rstate \<times> bytes) \<times> out_state) res" where
  "out_encrypt des aes malloc alloc c boots time scopedPdu s p =
     (let ctlen = length scopedPdu + 64 in
      if \<not> alloc ctlen then Inr (Inl SNMPERR_MALLOC, s)
      else
        ebind (if ISTRANSFORM (oc_privProtocol c) usmAESPrivProtocol then
                 if oc_privKey c = [] then Inr (None, s)
                 else case usm_set_aes_iv boots time s of (x, s') \<Rightarrow> Inr (Some x, s')
               else if ISTRANSFORM (oc_privProtocol c) usmDESPrivProtocol then
                 if oc_privKey c = [] then Inr (None, s)
                 else usm_set_salt (engineBoots (local_clock (u_lcd (um_state (o_usm s))))) (oc_privKey c) s
               else Inr (Some ([], []), s)) (\<lambda>(ivs, s1).
        case ivs of
          None \<Rightarrow> Inr (Inl SNMPERR_USM_GENERICERROR, s1)
        | Some (iv, salt) \<Rightarrow>
            (case sc_encrypt des aes (oc_privProtocol c) (oc_privKey c) iv scopedPdu ctlen of
               None \<Rightarrow> Inr (Inl SNMPERR_USM_ENCRYPTIONERROR, s1)
             | Some ciphertext \<Rightarrow>
                 ebind (or_code SNMPERR_USM_ENCRYPTIONERROR
                         (asn_realloc_rbuild_string malloc True ASN_OCTET_STR ciphertext (length ciphertext) (fst p, 0))) (\<lambda>r.
                 Inr (case r of Inl e \<Rightarrow> Inl e | Inr q \<Rightarrow> Inr (q, salt), s1)))))"

text \<open>The security parameters, the global data and the header of the whole; with it, \<open>mac_offset\<close>.\<close>

definition out_encode ::
  "malloc \<Rightarrow> out_cred \<Rightarrow> u32 \<Rightarrow> u32 \<Rightarrow> bytes \<Rightarrow> bytes \<Rightarrow> bytes \<Rightarrow> rstate \<Rightarrow> (nat \<times> rstate) res" where
  "out_encode malloc c boots time salt authParams globalData p =
     ebind (asn_realloc_rbuild_string malloc True ASN_OCTET_STR salt (length salt) p) (\<lambda>p1.
     ebind (asn_realloc_rbuild_string malloc True ASN_OCTET_STR authParams (length authParams) p1) (\<lambda>p2.
     ebind (asn_realloc_rbuild_string malloc True ASN_OCTET_STR (oc_name c) (length (oc_name c)) p2) (\<lambda>p3.
     ebind (asn_realloc_rbuild_int malloc True ASN_INTEGER (ucast time) 8 p3) (\<lambda>p4.
     ebind (asn_realloc_rbuild_int malloc True ASN_INTEGER (ucast boots) 8 p4) (\<lambda>p5.
     ebind (asn_realloc_rbuild_string malloc True ASN_OCTET_STR (oc_engineID c) (length (oc_engineID c)) p5) (\<lambda>p6.
     ebind (asn_realloc_rbuild_sequence malloc True ASN_SEQUENCE_CONSTRUCTOR (snd p6 - snd p) p6) (\<lambda>p7.
     ebind (asn_realloc_rbuild_header malloc True ASN_OCTET_STR (snd p7 - snd p) p7) (\<lambda>p8.
     ebind (room malloc True NoMemory (length globalData) p8) (\<lambda>p9.
     ebind (rput p9 globalData) (\<lambda>p10.
     ebind (asn_realloc_rbuild_sequence malloc True ASN_SEQUENCE_CONSTRUCTOR (snd p10) p10) (\<lambda>p11.
     Inr (snd p2 - 2, p11))))))))))))"

definition out_sign :: "hmac \<Rightarrow> (nat \<Rightarrow> bool) \<Rightarrow> out_cred \<Rightarrow> nat \<Rightarrow> nat \<Rightarrow> rstate \<Rightarrow> (int + rstate) res" where
  "out_sign hmac alloc c msgAuthParmLen mac_offset p =
     (case p of (pkt, offset) \<Rightarrow>
      if \<not> alloc msgAuthParmLen then Inr (Inl SNMPERR_USM_GENERICERROR)
      else case sc_generate_keyed_hash hmac (oc_authProtocol c) (oc_authKey c) (drop (length pkt - offset) pkt) msgAuthParmLen of
        None \<Rightarrow> Inr (Inl SNMPERR_USM_AUTHENTICATIONFAILURE)
      | Some temp_sig \<Rightarrow>
          if length temp_sig \<noteq> msgAuthParmLen then Inr (Inl SNMPERR_USM_AUTHENTICATIONFAILURE)
          else ebind (wr_bytes pkt (length pkt - mac_offset) temp_sig) (\<lambda>pkt'. Inr (Inr (pkt', offset))))"

definition usm_rgenerate_out_msg ::
  "crypto \<Rightarrow> cipher \<Rightarrow> cipher \<Rightarrow> u32 \<Rightarrow> malloc \<Rightarrow> (nat \<Rightarrow> bool) \<Rightarrow> bytes \<Rightarrow> bytes \<Rightarrow> bytes \<Rightarrow> nat \<Rightarrow> bytes \<Rightarrow>
   usmStateReference option \<Rightarrow> out_state \<Rightarrow> rstate \<Rightarrow> ((int + rstate) \<times> out_state) res" where
  "usm_rgenerate_out_msg cr des aes now malloc alloc globalData secEngineID secName secLevel scopedPdu secStateRef s p =
     (case out_credentials secStateRef (o_usm s) secEngineID secName secLevel of
        Inl e \<Rightarrow> Inr (Inl e, s)
      | Inr c \<Rightarrow>
          if usm_check_secLevel_vs_protocols (oc_level c) (oc_authProtocol c) (oc_privProtocol c) = 1
          then Inr (Inl SNMPERR_USM_UNSUPPORTEDSECURITYLEVEL, s)
          else case get_enginetime (c_hash cr) now (u_lcd (um_state (o_usm s))) (oc_engineID c) False of
            ((_, boots, time), l) \<Rightarrow>
              let s1 = s\<lparr>o_usm := (o_usm s)\<lparr>um_state := (um_state (o_usm s))\<lparr>u_lcd := l\<rparr>\<rparr>\<rparr>;
                  authLen = (if auth_level (oc_level c) then USM_MD5_AND_SHA_AUTH_LEN else 0) in
              ebind (if oc_level c = SNMP_SEC_LEVEL_AUTHPRIV then out_encrypt des aes malloc alloc c boots time scopedPdu s1 p
                     else Inr (Inr (p, []), s1)) (\<lambda>(x, s2).
              case x of
                Inl e \<Rightarrow> Inr (Inl e, s2)
              | Inr (p1, salt) \<Rightarrow>
                  ebind (or_code SNMPERR_TOO_LONG (out_encode malloc c boots time salt (replicate authLen 0) globalData p1)) (\<lambda>y.
                  case y of
                    Inl e \<Rightarrow> Inr (Inl e, s2)
                  | Inr (mac_offset, p2) \<Rightarrow>
                      if auth_level (oc_level c)
                      then ebind (out_sign (c_hmac cr) alloc c authLen mac_offset p2) (\<lambda>z. Inr (z, s2))
                      else Inr (Inr p2, s2))))"


subsection \<open>What is encoded\<close>

definition enc_params :: "out_cred \<Rightarrow> u32 \<Rightarrow> u32 \<Rightarrow> bytes \<Rightarrow> bytes \<Rightarrow> bytes" where
  "enc_params c boots time auth salt =
     enc_string ASN_OCTET_STR (oc_engineID c) @ enc_int ASN_INTEGER (ucast boots) @ enc_int ASN_INTEGER (ucast time) @
     enc_string ASN_OCTET_STR (oc_name c) @ enc_string ASN_OCTET_STR auth @ enc_string ASN_OCTET_STR salt"

definition enc_seq_params :: "out_cred \<Rightarrow> u32 \<Rightarrow> u32 \<Rightarrow> bytes \<Rightarrow> bytes \<Rightarrow> bytes" where
  "enc_seq_params c boots time auth salt =
     enc_header ASN_SEQUENCE_CONSTRUCTOR (length (enc_params c boots time auth salt)) @ enc_params c boots time auth salt"

definition enc_sec :: "out_cred \<Rightarrow> u32 \<Rightarrow> u32 \<Rightarrow> bytes \<Rightarrow> bytes \<Rightarrow> bytes" where
  "enc_sec c boots time auth salt = enc_string ASN_OCTET_STR (enc_seq_params c boots time auth salt)"

lemma int_field_u32: "int_field (ucast (x :: u32))"
proof -
  have lt: "unat x < 2 ^ 32" using unsigned_less [of x] by simp
  then have u: "unat (ucast x :: u64) = unat x" by (simp add: unsigned_ucast_eq take_bit_nat_eq_self)
  then have "sint (ucast x :: u64) = int (unat x)" using lt by (subst sint_nonneg64) simp_all
  moreover have "- (2 ^ 31) \<le> uint x" by (rule order_trans [OF _ unsigned_greater_eq]) simp
  moreover have "uint x < 2 ^ 32" using uint_bounded [of x] by simp
  ultimately show ?thesis unfolding int_field_def by simp
qed

lemma out_encode_prepends:
  fixes c :: out_cred and boots time :: u32 and auth salt globalData :: bytes and p :: rstate
  assumes w: "rwf p" and malloc: "\<And>n. malloc n \<noteq> None"
  defines "E \<equiv> enc_sec c boots time auth salt"
  assumes len: "length globalData + length E + snd p \<le> 0xffff"
  shows "\<exists>p'. out_encode malloc c boots time salt auth globalData p =
       Inr (snd p + length (enc_string ASN_OCTET_STR salt) + length (enc_string ASN_OCTET_STR auth) - 2, p') \<and>
     prepended p (enc_header ASN_SEQUENCE_CONSTRUCTOR (length globalData + length E + snd p) @ globalData @ E) p'"
proof -
  let ?salt = "enc_string ASN_OCTET_STR salt" and ?auth = "enc_string ASN_OCTET_STR auth" and ?name = "enc_string ASN_OCTET_STR (oc_name c)"
  let ?time = "enc_int ASN_INTEGER (ucast time)" and ?boots = "enc_int ASN_INTEGER (ucast boots)" and ?eid = "enc_string ASN_OCTET_STR (oc_engineID c)"
  let ?P = "enc_params c boots time auth salt" and ?S = "enc_seq_params c boots time auth salt"
  have P: "?P = ?eid @ ?boots @ ?time @ ?name @ ?auth @ ?salt" by (simp add: enc_params_def)
  have S: "?S = enc_header ASN_SEQUENCE_CONSTRUCTOR (length ?P) @ ?P" by (simp add: enc_seq_params_def)
  have E: "E = enc_header ASN_OCTET_STR (length ?S) @ ?S" by (simp add: E_def enc_sec_def enc_string_def)
  have n: "length salt \<le> 0xffff" "length auth \<le> 0xffff" "length (oc_name c) \<le> 0xffff" "length (oc_engineID c) \<le> 0xffff"
    "length ?P \<le> 0xffff" "length ?S \<le> 0xffff"
    using len unfolding E S P by (simp_all add: enc_string_def)
  have str: "\<exists>p'. asn_realloc_rbuild_string malloc True ASN_OCTET_STR x (length x) p0 = Inr p' \<and> prepended p0 (enc_string ASN_OCTET_STR x) p'"
    if "rwf p0" "length x \<le> 0xffff" for x p0
    using rgood_string [OF that, of malloc True ASN_OCTET_STR] malloc
    by (cases "asn_realloc_rbuild_string malloc True ASN_OCTET_STR x (length x) p0") (auto simp: rgood_def)
  have int: "\<exists>p'. asn_realloc_rbuild_int malloc True ASN_INTEGER (ucast x) 8 p0 = Inr p' \<and> prepended p0 (enc_int ASN_INTEGER (ucast x)) p'"
    if "rwf p0" for x :: u32 and p0
    using rgood_int_field [OF int_field_u32 that, of malloc True x] malloc
    by (cases "asn_realloc_rbuild_int malloc True ASN_INTEGER (ucast x) 8 p0") (auto simp: rgood_def)
  have hdr: "\<exists>p'. asn_realloc_rbuild_header malloc True t m p0 = Inr p' \<and> prepended p0 (enc_header t m) p'"
    if "rwf p0" "m \<le> 0xffff" for t m p0
    using rgood_header [OF that, of malloc True t] malloc
    by (cases "asn_realloc_rbuild_header malloc True t m p0") (auto simp: rgood_def)
  obtain p1 where p1: "asn_realloc_rbuild_string malloc True ASN_OCTET_STR salt (length salt) p = Inr p1" "prepended p ?salt p1"
    using str [OF w n(1)] by blast
  obtain p2 where p2: "asn_realloc_rbuild_string malloc True ASN_OCTET_STR auth (length auth) p1 = Inr p2" "prepended p1 ?auth p2"
    using str [OF prepended_rwf [OF p1(2)] n(2)] by blast
  obtain p3 where p3: "asn_realloc_rbuild_string malloc True ASN_OCTET_STR (oc_name c) (length (oc_name c)) p2 = Inr p3" "prepended p2 ?name p3"
    using str [OF prepended_rwf [OF p2(2)] n(3)] by blast
  obtain p4 where p4: "asn_realloc_rbuild_int malloc True ASN_INTEGER (ucast time) 8 p3 = Inr p4" "prepended p3 ?time p4"
    using int [OF prepended_rwf [OF p3(2)]] by blast
  obtain p5 where p5: "asn_realloc_rbuild_int malloc True ASN_INTEGER (ucast boots) 8 p4 = Inr p5" "prepended p4 ?boots p5"
    using int [OF prepended_rwf [OF p4(2)]] by blast
  obtain p6 where p6: "asn_realloc_rbuild_string malloc True ASN_OCTET_STR (oc_engineID c) (length (oc_engineID c)) p5 = Inr p6" "prepended p5 ?eid p6"
    using str [OF prepended_rwf [OF p5(2)] n(4)] by blast
  have q6: "prepended p ?P p6"
    using prepended_trans [OF prepended_trans [OF prepended_trans [OF prepended_trans [OF prepended_trans [OF p1(2) p2(2)] p3(2)] p4(2)] p5(2)] p6(2)]
    by (simp add: P)
  obtain p7 where p7: "asn_realloc_rbuild_sequence malloc True ASN_SEQUENCE_CONSTRUCTOR (snd p6 - snd p) p6 = Inr p7"
      "prepended p6 (enc_header ASN_SEQUENCE_CONSTRUCTOR (length ?P)) p7"
    using hdr [OF prepended_rwf [OF q6] n(5), of ASN_SEQUENCE_CONSTRUCTOR] prepended_snd [OF q6] by (auto simp: asn_realloc_rbuild_sequence_def)
  have q7: "prepended p ?S p7" using prepended_trans [OF q6 p7(2)] by (simp add: S)
  obtain p8 where p8: "asn_realloc_rbuild_header malloc True ASN_OCTET_STR (snd p7 - snd p) p7 = Inr p8" "prepended p7 (enc_header ASN_OCTET_STR (length ?S)) p8"
    using hdr [OF prepended_rwf [OF q7] n(6), of ASN_OCTET_STR] prepended_snd [OF q7] by auto
  have q8: "prepended p E p8" using prepended_trans [OF q7 p8(2)] by (simp add: E)
  have "rgood malloc True p8 globalData (ebind (room malloc True NoMemory (length globalData) p8) (\<lambda>s1. rput s1 globalData))"
    by (rule rgood_room_put [OF prepended_rwf [OF q8] made_room [OF prepended_rwf [OF q8]]]) simp
  then obtain p10 where p10: "ebind (room malloc True NoMemory (length globalData) p8) (\<lambda>s1. rput s1 globalData) = Inr p10" "prepended p8 globalData p10"
    using malloc by (cases "ebind (room malloc True NoMemory (length globalData) p8) (\<lambda>s1. rput s1 globalData)") (auto simp: rgood_def)
  then obtain p9 where p9: "room malloc True NoMemory (length globalData) p8 = Inr p9" "rput p9 globalData = Inr p10"
    by (auto simp: ebind_eq_Inr)
  have q10: "prepended p (globalData @ E) p10" using prepended_trans [OF q8 p10(2)] .
  obtain p11 where p11: "asn_realloc_rbuild_sequence malloc True ASN_SEQUENCE_CONSTRUCTOR (snd p10) p10 = Inr p11"
      "prepended p10 (enc_header ASN_SEQUENCE_CONSTRUCTOR (length globalData + length E + snd p)) p11"
    using hdr [OF prepended_rwf [OF q10] len, of ASN_SEQUENCE_CONSTRUCTOR] prepended_snd [OF q10]
    by (auto simp: asn_realloc_rbuild_sequence_def ac_simps)
  have "out_encode malloc c boots time salt auth globalData p = Inr (snd p2 - 2, p11)"
    using p1(1) p2(1) p3(1) p4(1) p5(1) p6(1) p7(1) p8(1) p9 p11(1) by (simp add: out_encode_def)
  then show ?thesis
    using prepended_trans [OF q10 p11(2)] prepended_snd [OF p1(2)] prepended_snd [OF p2(2)] by simp
qed


subsection \<open>Reading it back\<close>

lemma stored_after:
  "j + length cs \<le> i \<Longrightarrow> i \<le> length mem \<Longrightarrow> stored mem i bs \<Longrightarrow> stored (store_at mem j cs) i bs"
  by (auto simp: stored_def store_at_def)

lemma parse_octets_enc:
  assumes "stored mem d (enc_string ASN_OCTET_STR s)" and "length (enc_string ASN_OCTET_STR s) \<le> l" and "length s \<le> 0xffff"
    and "length s \<le> length buf"
  shows "parse_octets mem d l buf (length buf) =
    Inr (d + length (enc_string ASN_OCTET_STR s), l - length (enc_string ASN_OCTET_STR s), copied buf (length buf) s, length s)"
  using asn_parse_string_enc [OF assms(1,2) _ assms(3,4)] by (simp add: parse_octets_def string_type_def)

lemma parse_integer_enc:
  fixes x :: u32
  assumes "stored mem d (enc_int ASN_INTEGER (ucast x))" and "length (enc_int ASN_INTEGER (ucast x)) \<le> l"
  shows "parse_integer mem d l = Inr (d + length (enc_int ASN_INTEGER (ucast x)), l - length (enc_int ASN_INTEGER (ucast x)), x)"
  using parse_int_field [OF int_field_u32 assms] by (simp add: parse_integer_def ucast_up_ucast_id is_up)

text \<open>The name and its terminating zero; as a C string it is the name again.\<close>

lemma parse_name_enc:
  assumes "stored mem d (enc_string ASN_OCTET_STR s)" and "length (enc_string ASN_OCTET_STR s) \<le> l" and s: "length s \<le> 32"
    and buf: "length s < length buf" "length buf < 2 ^ 32" and zero: "0 \<notin> set s"
  shows "\<exists>name. parse_name mem d l buf (length buf) =
      Inr (d + length (enc_string ASN_OCTET_STR s), l - length (enc_string ASN_OCTET_STR s), name, length s) \<and>
    take (length s) name = s \<and> cstr name = s"
proof -
  define name where "name = store_at (copied buf (length buf) s) (length s) [0]"
  have c: "copied buf (length buf) s = s @ 0 # drop (Suc (length s)) buf"
    using buf(1) by (simp add: copied_def store_at_def)
  then have "length (copied buf (length buf) s) = length buf" using buf(1) by simp
  then have "wr (copied buf (length buf) s) (length s) 0 = Inr name" using buf(1) by (simp add: name_def wr_inside)
  moreover have n: "name = s @ 0 # drop (Suc (length s)) buf" by (simp add: name_def c store_at_def)
  have "cstr name = s" using zero by (auto simp: cstr_def n takeWhile_tail)
  moreover have "take (length s) name = s" by (simp add: n)
  moreover have "\<not> length buf mod 2 ^ 32 < length s + 1" using buf by simp
  ultimately show ?thesis
    using asn_parse_string_enc [OF assms(1,2), of "length buf" buf] s buf(1) by (simp add: parse_name_def string_type_def)
qed

lemma parse_octet_header:
  assumes "stored mem d (enc_string ASN_OCTET_STR s)" and "length (enc_string ASN_OCTET_STR s) \<le> l" and "length s \<le> 0xffff"
  shows "asn_parse_sequence mem d l ASN_OCTET_STR = Inr (d + length (enc_header ASN_OCTET_STR (length s)), length s, ASN_OCTET_STR)"
  using asn_parse_header_enc [of mem d ASN_OCTET_STR "length s" l] assms by (simp add: asn_parse_sequence_def enc_string_def)

lemma parse_enc_sec:
  fixes c :: out_cred and boots time :: u32 and auth salt :: bytes
  defines "E \<equiv> enc_sec c boots time auth salt"
  assumes st: "stored mem d E" and fit: "length E \<le> l" and short: "length E \<le> 0xffff"
    and bt: "boots \<le> ENGINEBOOT_MAX" "time \<le> ENGINETIME_MAX"
    and eid: "length (oc_engineID c) \<le> length eidBuf" and sig: "length auth \<le> length sigBuf" and slt: "length salt \<le> length saltBuf"
    and name: "length (oc_name c) \<le> 32" "length (oc_name c) < length nameBuf" "length nameBuf < 2 ^ 32" "0 \<notin> set (oc_name c)"
  defines "pos \<equiv> d + length E - length (enc_string ASN_OCTET_STR salt) - length auth"
  shows "\<exists>n. usm_parse_security_parameters mem d l eidBuf nameBuf sigBuf saltBuf =
      Inr \<lparr>sp_engineID = oc_engineID c, sp_boots = boots, sp_time = time, sp_name = n, sp_nameLen = length (oc_name c),
           sp_signature = auth, sp_salt = salt, sp_data = d + length E, sp_msg = store_at mem pos (replicate (length auth) 0)\<rparr> \<and>
     take (length (oc_name c)) n = oc_name c \<and> cstr n = oc_name c"
proof -
  let ?salt = "enc_string ASN_OCTET_STR salt" and ?auth = "enc_string ASN_OCTET_STR auth" and ?name = "enc_string ASN_OCTET_STR (oc_name c)"
  let ?time = "enc_int ASN_INTEGER (ucast time)" and ?boots = "enc_int ASN_INTEGER (ucast boots)" and ?eid = "enc_string ASN_OCTET_STR (oc_engineID c)"
  let ?P = "enc_params c boots time auth salt" and ?S = "enc_seq_params c boots time auth salt"
  let ?h1 = "enc_header ASN_OCTET_STR (length ?S)" and ?h2 = "enc_header ASN_SEQUENCE_CONSTRUCTOR (length ?P)"
  have P: "?P = ?eid @ ?boots @ ?time @ ?name @ ?auth @ ?salt" by (simp add: enc_params_def)
  have S: "?S = ?h2 @ ?P" by (simp add: enc_seq_params_def)
  have E: "E = ?h1 @ ?S" by (simp add: E_def enc_sec_def enc_string_def)
  have n: "length salt \<le> 0xffff" "length auth \<le> 0xffff" "length (oc_engineID c) \<le> 0xffff" "length ?P \<le> 0xffff" "length ?S \<le> 0xffff"
    using short unfolding E S P by (simp_all add: enc_string_def)
  define d1 where "d1 = d + length ?h1"
  define d2 where "d2 = d1 + length ?h2"
  have s1: "stored mem d (enc_string ASN_OCTET_STR ?S)" using st by (simp add: E enc_string_def)
  have s2: "stored mem d1 ?h2" "stored mem d2 ?P" using st by (simp_all add: E S d1_def d2_def ac_simps)
  have 1: "asn_parse_sequence mem d l ASN_OCTET_STR = Inr (d1, length ?S, ASN_OCTET_STR)"
    using parse_octet_header [OF s1 _ n(5), of l] fit by (simp add: d1_def E enc_string_def)
  have 2: "asn_parse_sequence mem d1 (length ?S) ASN_SEQUENCE_CONSTRUCTOR = Inr (d2, length ?P, ASN_SEQUENCE_CONSTRUCTOR)"
    using parse_rseq_enc [OF s2(1) n(4), of "length ?S"] by (simp add: d2_def S)
  define L where "L = length ?P"
  have L: "L = length ?eid + length ?boots + length ?time + length ?name + length ?auth + length ?salt" by (simp add: L_def P)
  define d3 where "d3 = d2 + length ?eid"
  define d4 where "d4 = d3 + length ?boots"
  define d5 where "d5 = d4 + length ?time"
  define d6 where "d6 = d5 + length ?name"
  define d7 where "d7 = d6 + length ?auth"
  have s: "stored mem d2 ?eid" "stored mem d3 ?boots" "stored mem d4 ?time" "stored mem d5 ?name" "stored mem d6 ?auth" "stored mem d7 ?salt"
    using s2(2) by (simp_all add: P d3_def d4_def d5_def d6_def d7_def)
  have 3: "parse_octets mem d2 L eidBuf (length eidBuf) = Inr (d3, L - length ?eid, copied eidBuf (length eidBuf) (oc_engineID c), length (oc_engineID c))"
    using parse_octets_enc [OF s(1) _ n(3) eid, of L] by (simp add: d3_def L)
  have 4: "parse_integer mem d3 (L - length ?eid) = Inr (d4, L - length ?eid - length ?boots, boots)"
    using parse_integer_enc [OF s(2), of "L - length ?eid"] by (simp add: d4_def L)
  have 5: "parse_integer mem d4 (L - length ?eid - length ?boots) = Inr (d5, L - length ?eid - length ?boots - length ?time, time)"
    using parse_integer_enc [OF s(3), of "L - length ?eid - length ?boots"] by (simp add: d5_def L)
  define l6 where "l6 = length ?auth + length ?salt"
  obtain nm where 6: "parse_name mem d5 (L - length ?eid - length ?boots - length ?time) nameBuf (length nameBuf) = Inr (d6, l6, nm, length (oc_name c))"
      "take (length (oc_name c)) nm = oc_name c" "cstr nm = oc_name c"
    using parse_name_enc [OF s(4) _ name, of "L - length ?eid - length ?boots - length ?time"] by (auto simp: d6_def l6_def L)
  have 7: "parse_octets mem d6 l6 sigBuf (length sigBuf) = Inr (d7, length ?salt, copied sigBuf (length sigBuf) auth, length auth)"
    using parse_octets_enc [OF s(5) _ n(2) sig, of l6] by (simp add: d7_def l6_def)
  have d7: "length auth \<le> d7" "d7 \<le> length mem" using stored_bound [OF s(6)] by (simp_all add: d7_def enc_string_def)
  define mem' where "mem' = store_at mem (d7 - length auth) (replicate (length auth) 0)"
  have 8: "blank mem d7 (length auth) = Inr mem'"
    using d7 by (cases "auth = []") (simp_all add: blank_def mem'_def mem_simps)
  have "stored mem' d7 ?salt" using s(6) d7 unfolding mem'_def by (intro stored_after) simp_all
  then have 9: "parse_octets mem' d7 (length ?salt) saltBuf (length saltBuf) =
      Inr (d7 + length ?salt, 0, copied saltBuf (length saltBuf) salt, length salt)"
    using parse_octets_enc [OF _ order_refl n(1) slt] by simp
  have end_data: "d7 + length ?salt = d + length E" and pos: "d7 - length auth = pos"
    by (simp_all add: d7_def d6_def d5_def d4_def d3_def d2_def d1_def pos_def E S P)
  have "usm_parse_security_parameters mem d l eidBuf nameBuf sigBuf saltBuf =
      Inr \<lparr>sp_engineID = oc_engineID c, sp_boots = boots, sp_time = time, sp_name = nm, sp_nameLen = length (oc_name c),
           sp_signature = auth, sp_salt = salt, sp_data = d + length E, sp_msg = mem'\<rparr>"
    using 1 2 3 4 5 6 7 8 9 bt eid sig slt end_data
    by (simp add: usm_parse_security_parameters_def parse_identity_def or_return_def copied_take linorder_not_less flip: L_def)
  then show ?thesis using 6 by (auto simp: mem'_def pos)
qed


subsection \<open>The code is written where the parameters hold it\<close>

lemma enc_sec_auth:
  assumes "length auth' = length auth"
  shows "\<exists>pre. enc_sec c boots time auth salt = pre @ auth @ enc_string ASN_OCTET_STR salt \<and>
    enc_sec c boots time auth' salt = pre @ auth' @ enc_string ASN_OCTET_STR salt"
proof -
  define pre where "pre = enc_header ASN_OCTET_STR (length (enc_seq_params c boots time auth salt)) @
    enc_header ASN_SEQUENCE_CONSTRUCTOR (length (enc_params c boots time auth salt)) @ enc_string ASN_OCTET_STR (oc_engineID c) @
    enc_int ASN_INTEGER (ucast boots) @ enc_int ASN_INTEGER (ucast time) @ enc_string ASN_OCTET_STR (oc_name c) @ enc_header ASN_OCTET_STR (length auth)"
  have "length (enc_params c boots time auth' salt) = length (enc_params c boots time auth salt)"
    using assms by (simp add: enc_params_def enc_string_def)
  then have "enc_sec c boots time auth salt = pre @ auth @ enc_string ASN_OCTET_STR salt \<and>
    enc_sec c boots time auth' salt = pre @ auth' @ enc_string ASN_OCTET_STR salt"
    using assms by (simp add: pre_def enc_sec_def enc_seq_params_def enc_params_def enc_string_def [of _ auth] enc_string_def [of _ auth']
        enc_string_def [of _ "_ @ _"])
  then show ?thesis by blast
qed

lemma length_used: "rwf p \<Longrightarrow> length (used p) = snd p"
  by (auto simp: rwf_def used_def split: prod.splits)

lemma store_at_middle:
  "length b' = length b \<Longrightarrow> store_at (a @ b @ c) (length a) b' = a @ b' @ c"
  by (simp add: store_at_def)

text \<open>Signing: the code replaces the zeros it was computed over, the rest of the message stays.\<close>

lemma out_sign_writes:
  assumes w: "rwf p" and whole: "used p = a @ replicate 12 0 @ b" and alloc: "\<And>n. alloc n"
    and alg: "hash_of (oc_authProtocol c) = Some alg" "(case alg of EVP_md5 \<Rightarrow> 16 | EVP_sha1 \<Rightarrow> 20) \<le> length (oc_authKey c)"
    and mac: "12 \<le> length (hmac alg (oc_authKey c) (used p))"
  shows "\<exists>p'. out_sign hmac alloc c 12 (12 + length b) p = Inr (Inr p') \<and> rwf p' \<and>
    used p' = a @ take 12 (hmac alg (oc_authKey c) (used p)) @ b"
proof -
  obtain pkt offset where p: "p = (pkt, offset)" by (cases p)
  define pre where "pre = take (length pkt - offset) pkt"
  define m where "m = take 12 (hmac alg (oc_authKey c) (used p))"
  have lm: "length m = 12" using mac by (simp add: m_def)
  have o: "offset \<le> length pkt" using w by (simp add: p rwf_def)
  have pkt: "pkt = pre @ a @ replicate 12 0 @ b"
    using whole append_take_drop_id [of "length pkt - offset" pkt] by (simp add: p pre_def used_def)
  have off: "offset = length a + 12 + length b" using length_used [OF w] unfolding whole by (simp add: p)
  have "sc_generate_keyed_hash hmac (oc_authProtocol c) (oc_authKey c) (used p) 12 = Some m"
    using alg whole by (cases alg)
      (auto simp: sc_generate_keyed_hash_def sc_get_properlength_def ISTRANSFORM_iff hash_of_def usm_protocols m_def split: if_splits)
  moreover have "wr_bytes pkt (length pkt - (12 + length b)) m = Inr (store_at pkt (length pkt - (12 + length b)) m)"
    using lm by (intro wr_bytes_inside) (simp add: pkt)
  moreover have "store_at pkt (length pkt - (12 + length b)) m = pre @ a @ m @ b"
    using store_at_middle [of m "replicate 12 0" "pre @ a" b] lm by (simp add: pkt)
  moreover have "length pkt - offset = length pre" by (simp add: pkt off)
  moreover have "used p = drop (length pre) pkt" using calculation(4) by (simp add: used_def p)
  ultimately show ?thesis
    using alloc lm off by (simp add: out_sign_def p rwf_def used_def m_def)
qed

lemma out_message:
  fixes c :: out_cred and boots time :: u32 and salt globalData :: bytes and p :: rstate
  assumes w: "rwf p" and malloc: "\<And>n. malloc n \<noteq> None" and alloc: "\<And>n. alloc n"
  defines "E \<equiv> \<lambda>auth. enc_sec c boots time auth salt"
  assumes len: "length globalData + length (E (replicate 12 0)) + snd p \<le> 0xffff"
    and alg: "hash_of (oc_authProtocol c) = Some alg" "(case alg of EVP_md5 \<Rightarrow> 16 | EVP_sha1 \<Rightarrow> 20) \<le> length (oc_authKey c)"
    and mac: "\<And>m. 12 \<le> length (hmac alg (oc_authKey c) m)"
  defines "W \<equiv> \<lambda>auth. enc_header ASN_SEQUENCE_CONSTRUCTOR (length globalData + length (E auth) + snd p) @ globalData @ E auth @ used p"
  shows "\<exists>off p2 p'. out_encode malloc c boots time salt (replicate 12 0) globalData p = Inr (off, p2) \<and>
    out_sign hmac alloc c 12 off p2 = Inr (Inr p') \<and> rwf p' \<and> used p' = W (take 12 (hmac alg (oc_authKey c) (W (replicate 12 0))))"
proof -
  define off where "off = snd p + length (enc_string ASN_OCTET_STR salt) + length (enc_string ASN_OCTET_STR (replicate 12 0)) - 2"
  obtain p2 where enc: "out_encode malloc c boots time salt (replicate 12 0) globalData p = Inr (off, p2)"
    and pp: "prepended p (enc_header ASN_SEQUENCE_CONSTRUCTOR (length globalData + length (E (replicate 12 0)) + snd p) @ globalData @ E (replicate 12 0)) p2"
    using out_encode_prepends [where malloc = malloc, OF w malloc len [unfolded E_def]] unfolding off_def E_def by blast
  have p2: "rwf p2" "used p2 = W (replicate 12 0)" using pp by (simp_all add: W_def prepended_def)
  define m where "m = take 12 (hmac alg (oc_authKey c) (W (replicate 12 0)))"
  have lm: "length m = length (replicate 12 0)" using mac by (simp add: m_def)
  obtain pre where pre: "E (replicate 12 0) = pre @ replicate 12 0 @ enc_string ASN_OCTET_STR salt" "E m = pre @ m @ enc_string ASN_OCTET_STR salt"
    using enc_sec_auth [OF lm] unfolding E_def by blast
  define a where "a = enc_header ASN_SEQUENCE_CONSTRUCTOR (length globalData + length (E m) + snd p) @ globalData @ pre"
  define b where "b = enc_string ASN_OCTET_STR salt @ used p"
  have W: "W (replicate 12 0) = a @ replicate 12 0 @ b" "W m = a @ m @ b"
    using lm by (simp_all add: W_def pre a_def b_def)
  have "off = 12 + length b" by (simp add: off_def b_def length_used [OF w] enc_string_def enc_header_def enc_length_def)
  then show ?thesis
    using out_sign_writes [where alloc = alloc and hmac = hmac, OF p2(1) _ alloc alg mac, of a b] enc p2 W by (simp add: m_def)
qed

end
