(* ===== verification/Usm_Roundtrip.thy ===== *)
theory Usm_Roundtrip
  imports Usm_Out
begin

section \<open>From one engine to another\<close>

text \<open>
  What \<open>usm_rgenerate_out_msg\<close> makes, \<open>usm_process_in_msg\<close> accepts and unwraps, with and without privacy.  The message is given as a byte list
  (\<open>signed_message\<close>): the sender stores it, the receiver parses it, blanks the code it was signed with and checks it against the same hash.
\<close>


subsection \<open>What is sent is accepted\<close>

abbreviation mac_key_length :: "hash_alg \<Rightarrow> nat" where
  "mac_key_length alg \<equiv> (case alg of EVP_md5 \<Rightarrow> 16 | EVP_sha1 \<Rightarrow> 20)"

definition enc_message :: "bytes \<Rightarrow> out_cred \<Rightarrow> u32 \<Rightarrow> u32 \<Rightarrow> bytes \<Rightarrow> bytes \<Rightarrow> bytes \<Rightarrow> bytes" where
  "enc_message globalData c boots time salt body auth =
     enc_header ASN_SEQUENCE_CONSTRUCTOR (length globalData + length (enc_sec c boots time auth salt) + length body) @ globalData @
     enc_sec c boots time auth salt @ body"

definition signed_message :: "hmac \<Rightarrow> hash_alg \<Rightarrow> bytes \<Rightarrow> out_cred \<Rightarrow> u32 \<Rightarrow> u32 \<Rightarrow> bytes \<Rightarrow> bytes \<Rightarrow> bytes" where
  "signed_message hmac alg globalData c boots time salt body =
     enc_message globalData c boots time salt body
       (take 12 (hmac alg (oc_authKey c) (enc_message globalData c boots time salt body (replicate 12 0))))"

lemma length_enc_sec: "length auth' = length auth \<Longrightarrow> length (enc_sec c boots time auth' salt) = length (enc_sec c boots time auth salt)"
  using enc_sec_auth [of auth' auth c boots time salt] by auto

text \<open>The place of the parameters in the message, with the code or with zeros in its stead.\<close>

definition message_head :: "bytes \<Rightarrow> out_cred \<Rightarrow> u32 \<Rightarrow> u32 \<Rightarrow> bytes \<Rightarrow> bytes \<Rightarrow> bytes" where
  "message_head globalData c boots time salt body =
     enc_header ASN_SEQUENCE_CONSTRUCTOR (length globalData + length (enc_sec c boots time (replicate 12 0) salt) + length body) @ globalData"

lemma enc_message_head:
  "length auth = 12 \<Longrightarrow> enc_message globalData c boots time salt body auth =
     message_head globalData c boots time salt body @ enc_sec c boots time auth salt @ body"
  using length_enc_sec [of auth "replicate 12 0"] by (simp add: enc_message_def message_head_def)

lemma blanked_message:
  fixes c :: out_cred and boots time :: u32 and globalData salt body auth :: bytes
  assumes "length auth = 12"
  defines "pos \<equiv> length (message_head globalData c boots time salt body) + length (enc_sec c boots time auth salt) -
    length (enc_string ASN_OCTET_STR salt) - length auth"
  shows "store_at (enc_message globalData c boots time salt body auth) pos (replicate (length auth) 0) =
    enc_message globalData c boots time salt body (replicate 12 0)"
proof -
  obtain pre where pre: "enc_sec c boots time auth salt = pre @ auth @ enc_string ASN_OCTET_STR salt"
      "enc_sec c boots time (replicate 12 0) salt = pre @ replicate 12 0 @ enc_string ASN_OCTET_STR salt"
    using enc_sec_auth [of "replicate 12 0" auth c boots time salt] assms(1) by auto
  let ?a = "message_head globalData c boots time salt body @ pre"
  have "pos = length ?a" by (simp add: pos_def pre(1))
  then show ?thesis
    using store_at_middle [of "replicate 12 0" auth ?a "enc_string ASN_OCTET_STR salt @ body"] assms(1)
    by (simp add: enc_message_head pre)
qed

lemma cstr_id: "0 \<notin> set s \<Longrightarrow> cstr s = s"
  by (auto simp: cstr_def takeWhile_eq_all_conv)

lemma get_user_cstr:
  "cstr n = cstr n' \<Longrightarrow> usm_get_user_from_list eid n us noName dflt = usm_get_user_from_list eid n' us noName dflt"
  unfolding usm_get_user_from_list_def user_matches_def [abs_def] by (simp only:)

lemma signed_message_parses:
  fixes c :: out_cred and boots time :: u32 and globalData salt body :: bytes and q :: secmod_in and cr :: crypto and alg :: hash_alg
  defines "W0 \<equiv> enc_message globalData c boots time salt body (replicate 12 0)"
    and "m \<equiv> take 12 (c_hmac cr alg (oc_authKey c) (enc_message globalData c boots time salt body (replicate 12 0)))"
    and "W \<equiv> signed_message (c_hmac cr) alg globalData c boots time salt body"
    and "head \<equiv> message_head globalData c boots time salt body" and "E \<equiv> enc_sec c boots time (replicate 12 0) salt"
  assumes len: "length W \<le> 0xffff" and bt: "boots \<le> ENGINEBOOT_MAX" "time \<le> ENGINETIME_MAX"
    and name: "length (oc_name c) \<le> 32" "length (oc_name c) < length (i_secName q)" "length (i_secName q) < 2 ^ 32" "0 \<notin> set (oc_name c)"
    and bufs: "length (oc_engineID c) \<le> length (i_secEngineID q)" "12 \<le> length sigBuf" "length salt \<le> length saltBuf"
    and mac: "\<And>m. 12 \<le> length (c_hmac cr alg (oc_authKey c) m)"
  shows "length W0 = length W" and "12 \<le> length W"
    and "\<exists>n l. usm_remaining W (length head) (length W) = Inr l \<and>
      usm_parse_security_parameters W (length head) l (i_secEngineID q) (i_secName q) sigBuf saltBuf =
        Inr \<lparr>sp_engineID = oc_engineID c, sp_boots = boots, sp_time = time, sp_name = n, sp_nameLen = length (oc_name c),
           sp_signature = m, sp_salt = salt, sp_data = length head + length E, sp_msg = W0\<rparr> \<and> cstr n = oc_name c \<and> take (length (oc_name c)) n = oc_name c"
proof -
  have lm: "length m = 12" using mac by (simp add: m_def)
  have W: "W = head @ enc_sec c boots time m salt @ body"
    unfolding W_def signed_message_def head_def using enc_message_head [OF lm] by (simp add: m_def)
  have E: "length (enc_sec c boots time m salt) = length E" unfolding E_def using lm by (intro length_enc_sec) simp
  have st: "stored W (length head) (enc_sec c boots time m salt)" by (simp add: W stored_def)
  have "head \<noteq> []" by (simp add: head_def message_head_def enc_header_def)
  then have "W ! 0 = 0x30" by (simp add: W nth_append head_def message_head_def enc_header_def)
  moreover have "W ! length head = 0x04" by (simp add: W nth_append enc_sec_def enc_string_def enc_header_def)
  moreover have "length head < length W" using E by (simp add: W enc_sec_def enc_string_def enc_header_def)
  moreover have "length W < 4294967252" using len by simp
  ultimately have rem: "usm_remaining W (length head) (length W) = Inr (18446744069414584364 + length W)"
    by (intro usm_remaining_no_bound)
  have blank: "store_at W (length head + length (enc_sec c boots time m salt) - length (enc_string ASN_OCTET_STR salt) - length m) (replicate (length m) 0) =
      W0"
    using blanked_message [OF lm, of globalData c boots time salt body] by (simp add: W0_def W head_def enc_message_head [OF lm])
  have E12: "12 \<le> length E" using enc_sec_auth [of "replicate 12 0" "replicate 12 0" c boots time salt] by (auto simp: E_def)
  then show "12 \<le> length W" using E by (simp add: W)
  show "length W0 = length W" using E by (simp add: W W0_def enc_message_head head_def E_def)
  show "\<exists>n l. usm_remaining W (length head) (length W) = Inr l \<and>
      usm_parse_security_parameters W (length head) l (i_secEngineID q) (i_secName q) sigBuf saltBuf =
        Inr \<lparr>sp_engineID = oc_engineID c, sp_boots = boots, sp_time = time, sp_name = n, sp_nameLen = length (oc_name c),
           sp_signature = m, sp_salt = salt, sp_data = length head + length E, sp_msg = W0\<rparr> \<and> cstr n = oc_name c \<and> take (length (oc_name c)) n = oc_name c"
    using rem parse_enc_sec [OF st _ _ bt bufs(1) _ bufs(3) name, of "18446744069414584364 + length W" sigBuf] bufs(2) lm len
    unfolding blank by (auto simp: W E)
qed

lemma received_checked:
  fixes c :: out_cred and boots time :: u32 and globalData salt body :: bytes and q :: secmod_in and cr :: crypto and alg :: hash_alg
  defines "W \<equiv> signed_message (c_hmac cr) alg globalData c boots time salt body"
    and "head \<equiv> message_head globalData c boots time salt body" and "E \<equiv> enc_sec c boots time (replicate 12 0) salt"
  assumes len: "length W \<le> 0xffff" and bt: "boots \<le> ENGINEBOOT_MAX" "time \<le> ENGINETIME_MAX"
    and name: "length (oc_name c) \<le> 32" "length (oc_name c) < length (i_secName q)" "length (i_secName q) < 2 ^ 32" "0 \<notin> set (oc_name c)"
    and bufs: "length (oc_engineID c) \<le> length (i_secEngineID q)" "12 \<le> length sigBuf" "length salt \<le> length saltBuf"
    and q: "i_wholeMsg q = W" "i_wholeMsgLen q = length W" "i_secParams q = length head"
    and level: "auth_level (i_secLevel q)" "i_secLevel q = SNMP_SEC_LEVEL_AUTHPRIV \<Longrightarrow> length salt = 8"
    and sess: "i_sess q = Some SNMP_SESS_AUTHORITATIVE" and alloc: "\<And>n. alloc n"
    and alg: "hash_of (us_authProtocol user) = Some alg" "us_authKey user = oc_authKey c" "mac_key_length alg \<le> length (oc_authKey c)"
      "\<And>m. 12 \<le> length (c_hmac cr alg (oc_authKey c) m)"
    and known: "ISENGINEKNOWN (c_hash cr) now (u_lcd (um_state r)) (oc_engineID c) = (True, l)"
    and user: "usm_get_user_from_list (oc_engineID c) (oc_name c) (um_users r) (um_noNameUser r) False = Some user"
      "us_userStatus user = RS_ACTIVE" "usm_check_secLevel (i_secLevel q) user = 0"
    and timely: "usm_check_and_update_timeliness (c_hash cr) now ((um_state r)\<lparr>u_lcd := l\<rparr>) (oc_engineID c) boots time = (SNMPERR_SUCCESS, st)"
  shows "\<exists>sp rr. usm_process_in_msg cr now alloc sigBuf saltBuf iv0 q r =
      (if i_secLevel q = SNMP_SEC_LEVEL_AUTHPRIV then decrypt_step cr iv0 q sp user rr else Inr (SNMPERR_SUCCESS, plain_step q sp rr)) \<and>
    sp_data sp = length head + length E \<and> sp_msg sp = enc_message globalData c boots time salt body (replicate 12 0) \<and>
    sp_salt sp = salt \<and> sp_boots sp = boots \<and> sp_time sp = time \<and>
    r_usm rr = r\<lparr>um_state := st\<rparr> \<and> r_msg rr = sp_msg sp \<and> r_engineID rr = oc_engineID c \<and> cstr (r_name rr) = oc_name c \<and>
    take (r_nameLen rr) (r_name rr) = oc_name c"
proof -
  let ?W0 = "enc_message globalData c boots time salt body (replicate 12 0)"
  define m where "m = take 12 (c_hmac cr alg (oc_authKey c) ?W0)"
  note parses = signed_message_parses [where cr = cr and c = c and q = q, OF len [unfolded W_def] bt name bufs alg(4),
    folded W_def head_def E_def m_def]
  note len1 = parses(1,2)
  obtain n rem where sp: "usm_remaining W (length head) (length W) = Inr rem"
      "usm_parse_security_parameters W (length head) rem (i_secEngineID q) (i_secName q) sigBuf saltBuf =
        Inr \<lparr>sp_engineID = oc_engineID c, sp_boots = boots, sp_time = time, sp_name = n, sp_nameLen = length (oc_name c),
           sp_signature = m, sp_salt = salt, sp_data = length head + length E, sp_msg = ?W0\<rparr>" and n: "cstr n = oc_name c" "take (length (oc_name c)) n = oc_name c"
    using parses(3) by blast
  let ?sp = "\<lparr>sp_engineID = oc_engineID c, sp_boots = boots, sp_time = time, sp_name = n, sp_nameLen = length (oc_name c),
           sp_signature = m, sp_salt = salt, sp_data = length head + length E, sp_msg = ?W0\<rparr>"
  let ?rr = "\<lparr>r_usm = r\<lparr>um_state := st\<rparr>, r_msg = sp_msg ?sp, r_engineID = oc_engineID c, r_name = n, r_nameLen = length (oc_name c),
      r_scopedPdu = (if i_secLevel q = SNMP_SEC_LEVEL_AUTHPRIV then NoScopedPdu else InMessage (sp_data ?sp) (usub64 (length W) (sp_data ?sp))),
      r_maxSizeResponse = None,
      r_ref = Some \<lparr>usr_name = take (length (oc_name c)) n, usr_engine_id = oc_engineID c, usr_auth_protocol = us_authProtocol user,
        usr_auth_key = us_authKey user, usr_priv_protocol = us_privProtocol user, usr_priv_key = privKey_bytes user, usr_sec_level = i_secLevel q\<rparr>\<rparr>"
  have u: "usm_get_user_from_list (oc_engineID c) n (um_users r) (um_noNameUser r) False = Some user"
    using user(1) get_user_cstr [of n "oc_name c"] n(1) cstr_id [OF name(4)] by simp
  have "sc_check_keyed_hash (c_hmac cr) (us_authProtocol user) (us_authKey user) ?W0 m"
    using alg len1 by (auto simp: sc_check_keyed_hash_iff m_def)
  then have main: "usm_process_in_msg cr now alloc sigBuf saltBuf iv0 q r =
      (if i_secLevel q = SNMP_SEC_LEVEL_AUTHPRIV then decrypt_step cr iv0 q ?sp user ?rr else Inr (SNMPERR_SUCCESS, plain_step q ?sp ?rr))"
    using process_in_msg_checked [where alloc = alloc and user = user and sp = ?sp and p = q and cr = cr and now = now and s = r,
        of rem sigBuf saltBuf l st iv0]
      sp level sess alloc known u user(2,3) timely len1
    by (simp add: q)
  show ?thesis by (rule exI [of _ ?sp], rule exI [of _ ?rr], intro conjI, rule main) (simp_all add: n)
qed


subsection \<open>Sending\<close>

lemma length_enc_sec_le:
  "length (enc_sec c boots time auth salt) \<le> length (oc_engineID c) + length (oc_name c) + length auth + length salt + 44"
proof -
  have h: "length (enc_header t n) \<le> 4" for t n using length_enc_length(2) [of n] by (simp add: enc_header_def)
  have "length (enc_params c boots time auth salt) \<le> length (oc_engineID c) + length (oc_name c) + length auth + length salt + 36"
    using length_enc_string [of ASN_OCTET_STR "oc_engineID c"] length_enc_string [of ASN_OCTET_STR "oc_name c"]
      length_enc_string [of ASN_OCTET_STR auth] length_enc_string [of ASN_OCTET_STR salt]
      length_enc_int [of ASN_INTEGER "ucast boots"] length_enc_int [of ASN_INTEGER "ucast time"]
    by (simp add: enc_params_def)
  then show ?thesis
    using h [of ASN_SEQUENCE_CONSTRUCTOR "length (enc_params c boots time auth salt)"] length_enc_string [of ASN_OCTET_STR "enc_seq_params c boots time auth salt"]
    by (simp add: enc_sec_def enc_seq_params_def)
qed

definition user_cred :: "usmUser \<Rightarrow> bytes \<Rightarrow> bytes \<Rightarrow> nat \<Rightarrow> out_cred" where
  "user_cred user eid name level = \<lparr>oc_name = name, oc_engineID = eid, oc_authProtocol = us_authProtocol user, oc_authKey = us_authKey user,
     oc_privProtocol = us_privProtocol user, oc_privKey = privKey_bytes user, oc_level = level\<rparr>"

lemma user_cred_simps [simp]:
  "oc_name (user_cred user eid name level) = name" "oc_engineID (user_cred user eid name level) = eid"
  "oc_authProtocol (user_cred user eid name level) = us_authProtocol user" "oc_authKey (user_cred user eid name level) = us_authKey user"
  "oc_privProtocol (user_cred user eid name level) = us_privProtocol user" "oc_privKey (user_cred user eid name level) = privKey_bytes user"
  "oc_level (user_cred user eid name level) = level"
  by (simp_all add: user_cred_def)

lemma hash_of_not_noauth: "hash_of x = Some alg \<Longrightarrow> x \<noteq> usmNoAuthProtocol"
  by (auto simp: hash_of_def usm_protocols split: if_splits)

lemma same_oid_iff: "same_oid a b \<longleftrightarrow> a = b"
  by (cases "length a = length b") (auto simp: netsnmp_oid_equals_def oid_equal_loop_iff)

lemma rgenerate_signed:
  fixes user :: usmUser and eid name globalData :: bytes and level :: nat and s :: out_state and l :: lcd
  defines "c \<equiv> user_cred user eid name level"
    and "s1 \<equiv> s\<lparr>o_usm := (o_usm s)\<lparr>um_state := (um_state (o_usm s))\<lparr>u_lcd := l\<rparr>\<rparr>\<rparr>"
  assumes user: "usm_get_user eid name (o_usm s) = Some user"
    and level: "auth_level level" "level = SNMP_SEC_LEVEL_AUTHPRIV \<Longrightarrow> us_privProtocol user \<noteq> usmNoPrivProtocol"
    and time: "get_enginetime (c_hash cr) now (u_lcd (um_state (o_usm s))) eid False = ((rc, boots, time), l)"
    and enc: "(if level = SNMP_SEC_LEVEL_AUTHPRIV then out_encrypt des aes malloc alloc c boots time scopedPdu s1 p else Inr (Inr (p, []), s1)) =
      Inr (Inr (p1, salt), s2)"
    and w: "rwf p1" and malloc: "\<And>n. malloc n \<noteq> None" and alloc: "\<And>n. alloc n"
    and len: "length globalData + length (enc_sec c boots time (replicate 12 0) salt) + snd p1 \<le> 0xffff"
    and alg: "hash_of (us_authProtocol user) = Some alg" "mac_key_length alg \<le> length (us_authKey user)"
    and mac: "\<And>m. 12 \<le> length (c_hmac cr alg (us_authKey user) m)"
  shows "\<exists>p'. usm_rgenerate_out_msg cr des aes now malloc alloc globalData eid name level scopedPdu None s p = Inr (Inr p', s2) \<and>
    rwf p' \<and> used p' = signed_message (c_hmac cr) alg globalData c boots time salt (used p1)"
proof -
  have cred: "out_credentials None (o_usm s) eid name level = Inr c"
    using user by (simp add: out_credentials_def c_def user_cred_def)
  have "usm_check_secLevel_vs_protocols level (us_authProtocol user) (us_privProtocol user) = 0"
    using level(2) hash_of_not_noauth [OF alg(1)]
    by (simp add: usm_check_secLevel_vs_protocols_def same_oid_iff)
  moreover obtain off p2 p' where "out_encode malloc c boots time salt (replicate 12 0) globalData p1 = Inr (off, p2)"
      "out_sign (c_hmac cr) alloc c 12 off p2 = Inr (Inr p')" "rwf p'"
      "used p' = signed_message (c_hmac cr) alg globalData c boots time salt (used p1)"
    using out_message [where malloc = malloc and alloc = alloc and hmac = "c_hmac cr" and c = c and alg = alg, OF w malloc alloc len] alg mac
    by (auto simp: signed_message_def enc_message_def length_used [OF w] c_def)
  moreover have "oc_level c = level" "oc_authProtocol c = us_authProtocol user" "oc_privProtocol c = us_privProtocol user" "oc_engineID c = eid"
    by (simp_all add: c_def)
  ultimately have "usm_rgenerate_out_msg cr des aes now malloc alloc globalData eid name level scopedPdu None s p = Inr (Inr p', s2)"
    unfolding usm_rgenerate_out_msg_def cred using level(1) enc time by (simp add: or_code_def flip: s1_def)
  then show ?thesis using \<open>rwf p'\<close> \<open>used p' = _\<close> by blast
qed


subsection \<open>Encryption and decryption\<close>

abbreviation priv_protocol :: "oid \<Rightarrow> bool" where
  "priv_protocol t \<equiv> t = usmDESPrivProtocol \<or> t = usmAESPrivProtocol"

text \<open>The initialisation vector, which sender and receiver compute from the salt and what they share.\<close>

definition shared_iv :: "oid \<Rightarrow> bytes \<Rightarrow> u32 \<Rightarrow> u32 \<Rightarrow> bytes \<Rightarrow> bytes res" where
  "shared_iv t key boots time salt = (if t = usmDESPrivProtocol then des_iv salt key 8 8 else Inr (aes_iv boots time salt))"

definition padded :: "oid \<Rightarrow> bytes \<Rightarrow> bytes" where
  "padded t pdu = (if t = usmDESPrivProtocol then des_pad pdu else pdu)"

definition ciphertext :: "cipher \<Rightarrow> cipher \<Rightarrow> oid \<Rightarrow> bytes \<Rightarrow> bytes \<Rightarrow> bytes \<Rightarrow> bytes" where
  "ciphertext des aes t key iv x = (if t = usmDESPrivProtocol then des (take 8 key) iv x else aes (take 16 key) iv x)"

lemma is_transform:
  "priv_protocol t \<Longrightarrow> ISTRANSFORM t usmDESPrivProtocol \<longleftrightarrow> t = usmDESPrivProtocol"
  "priv_protocol t \<Longrightarrow> ISTRANSFORM t usmAESPrivProtocol \<longleftrightarrow> t \<noteq> usmDESPrivProtocol"
  "priv_protocol t \<Longrightarrow> length t = 10"
  by (auto simp: ISTRANSFORM_iff usm_protocols)

lemma length_des_pad: "length (des_pad x) mod 8 = 0" "length x \<le> length (des_pad x)" "length (des_pad x) \<le> length x + 7"
proof -
  have "(length x + (8 - length x mod 8)) mod 8 = 0" by presburger
  then show "length (des_pad x) mod 8 = 0" by (cases "length x mod 8 = 0") (simp_all add: des_pad_def Let_def)
qed (auto simp: des_pad_def Let_def)

lemma length_padded: "length x \<le> length (padded t x)" "length (padded t x) \<le> length x + 7"
  using length_des_pad [of x] by (auto simp: padded_def)

lemma des_iv_ok: "n \<le> length salt \<Longrightarrow> k + n \<le> length key \<Longrightarrow> \<exists>iv. des_iv salt key k n = Inr iv \<and> length iv = n"
proof (induction n)
  case (Suc n)
  then obtain iv where "des_iv salt key k n = Inr iv" "length iv = n" by force
  with Suc.prems show ?case by (simp add: rd_def)
qed simp

lemma length_aes_iv: "length (aes_iv boots time salt) = 8 + length salt"
  by (simp add: aes_iv_def)

lemma nonempty_room: "x \<noteq> [] \<Longrightarrow> length x \<le> n \<Longrightarrow> 0 < n"
  by (cases x) auto

lemma sc_encrypt_ok:
  assumes "priv_protocol t" and "16 \<le> length key" and "x \<noteq> []" and "length (padded t x) \<le> ctlen"
    and "t = usmDESPrivProtocol \<Longrightarrow> length iv = 8" and "t \<noteq> usmDESPrivProtocol \<Longrightarrow> length iv = 16"
  shows "sc_encrypt des aes t key iv x ctlen = Some (ciphertext des aes t key iv (padded t x))"
  using assms is_transform [OF assms(1)] length_padded(1) [of x t] nonempty_room [of x ctlen]
  by (cases "t = usmDESPrivProtocol") (auto simp: sc_encrypt_def proper_lengths_def ciphertext_def padded_def Let_def)

lemma sc_decrypt_ok:
  assumes "priv_protocol t" and "16 \<le> length key" and "x \<noteq> []" and "length x \<le> ptlen"
    and "t = usmDESPrivProtocol \<Longrightarrow> length iv = 8" and "t \<noteq> usmDESPrivProtocol \<Longrightarrow> length iv = 16"
  shows "sc_decrypt des aes t key iv x ptlen = Some (ciphertext des aes t key iv x)"
  using assms is_transform [OF assms(1)] nonempty_room [of x ptlen]
  by (cases "t = usmDESPrivProtocol") (auto simp: sc_decrypt_def proper_lengths_def ciphertext_def Let_def)

lemma out_encrypt_ok:
  fixes c :: out_cred
  defines "t \<equiv> oc_privProtocol c" and "key \<equiv> oc_privKey c"
  assumes t: "priv_protocol t" and key: "16 \<le> length key" "length key < 2 ^ 32"
    and x: "x \<noteq> []" "length x \<le> 65000" and malloc: "\<And>n. malloc n \<noteq> None" and alloc: "\<And>n. alloc n"
    and des: "\<And>k iv y. length (des k iv y) = length y" and aes: "\<And>k iv y. length (aes k iv y) = length y"
  shows "\<exists>p1 salt iv s2. out_encrypt des aes malloc alloc c boots time x s p = Inr (Inr (p1, salt), s2) \<and> rwf p1 \<and> length salt = 8 \<and>
    shared_iv t key boots time salt = Inr iv \<and> used p1 = enc_string ASN_OCTET_STR (ciphertext des aes t key iv (padded t x))"
proof -
  define ivs where "ivs = (if ISTRANSFORM t usmAESPrivProtocol then
                 if key = [] then Inr (None, s)
                 else case usm_set_aes_iv boots time s of (x, s') \<Rightarrow> Inr (Some x, s')
               else if ISTRANSFORM t usmDESPrivProtocol then
                 if key = [] then Inr (None, s)
                 else usm_set_salt (engineBoots (local_clock (u_lcd (um_state (o_usm s))))) key s
               else Inr (Some ([], []), s))"
  have "\<exists>iv salt s2. ivs = Inr (Some (iv, salt), s2) \<and> length salt = 8 \<and> shared_iv t key boots time salt = Inr iv \<and>
      (t = usmDESPrivProtocol \<longrightarrow> length iv = 8) \<and> (t \<noteq> usmDESPrivProtocol \<longrightarrow> length iv = 16)"
  proof (cases "t = usmDESPrivProtocol")
    case True
    define salt where "salt = be_bytes 4 (ucast (engineBoots (local_clock (u_lcd (um_state (o_usm s))))) :: u32) @ be_bytes 4 (o_salt_integer s)"
    have salt: "length salt = 8" by (simp add: salt_def)
    obtain iv where iv: "des_iv salt key 8 8 = Inr iv" "length iv = 8" using des_iv_ok [of 8 salt 8 key] key(1) salt by auto
    have "unat (word_of_nat (length key) - 8 :: u32) = length key - 8"
      using key by (subst unat_sub) (simp_all add: word_le_nat_alt unsigned_of_nat take_bit_nat_eq_self)
    then have "ivs = Inr (Some (iv, salt), s\<lparr>o_salt_integer := o_salt_integer s + 1\<rparr>)"
      using key iv True t by (auto simp: ivs_def is_transform usm_set_salt_def Let_def simp flip: salt_def)
    then show ?thesis using salt iv True by (auto simp: shared_iv_def)
  next
    case False
    have "key \<noteq> []" using key(1) by auto
    then show ?thesis using False t
      by (auto simp: ivs_def is_transform usm_set_aes_iv_def Let_def shared_iv_def aes_iv_def)
  qed
  then obtain iv salt s2 where iv: "ivs = Inr (Some (iv, salt), s2)" "length salt = 8" "shared_iv t key boots time salt = Inr iv"
      and len: "t = usmDESPrivProtocol \<Longrightarrow> length iv = 8" "t \<noteq> usmDESPrivProtocol \<Longrightarrow> length iv = 16" by blast
  define ct where "ct = ciphertext des aes t key iv (padded t x)"
  have ct: "length ct = length (padded t x)" by (simp add: ct_def ciphertext_def des aes)
  have enc: "sc_encrypt des aes t key iv x (length x + 64) = Some ct"
    unfolding ct_def using length_padded(2) [of t x] by (intro sc_encrypt_ok t key(1) x(1) len) simp_all
  have "length ct \<le> 0xffff" using ct length_padded(2) [of t x] x(2) by simp
  then obtain p1 where p1: "asn_realloc_rbuild_string malloc True ASN_OCTET_STR ct (length ct) (fst p, 0) = Inr p1"
      "prepended (fst p, 0) (enc_string ASN_OCTET_STR ct) p1"
    using rgood_string [of "(fst p, 0)" ct malloc True ASN_OCTET_STR] malloc
    by (cases "asn_realloc_rbuild_string malloc True ASN_OCTET_STR ct (length ct) (fst p, 0)") (auto simp: rgood_def rwf_def)
  have "out_encrypt des aes malloc alloc c boots time x s p = Inr (Inr (p1, salt), s2)"
    using alloc iv(1) enc p1(1) unfolding out_encrypt_def t_def [symmetric] key_def [symmetric] ivs_def [symmetric] by (simp add: or_code_def)
  then show ?thesis using p1(2) iv(2,3) by (auto simp: prepended_def used_def ct_def)
qed

lemma decrypt_step_ok:
  fixes user :: usmUser and sp :: sec_params
  defines "t \<equiv> us_privProtocol user" and "key \<equiv> privKey_bytes user"
  assumes t: "priv_protocol t" and key: "16 \<le> length key" and ct: "ct \<noteq> []" "length ct \<le> 0xffff" "length ct \<le> i_scopedPduLen q"
      "t = usmDESPrivProtocol \<Longrightarrow> length ct mod 8 = 0"
    and st: "stored (sp_msg sp) (sp_data sp) (enc_string ASN_OCTET_STR ct)"
    and len: "i_wholeMsgLen q = sp_data sp + length (enc_string ASN_OCTET_STR ct)" "i_wholeMsgLen q < 2 ^ 64"
    and iv: "shared_iv t key (sp_boots sp) (sp_time sp) (sp_salt sp) = Inr iv" "length (sp_salt sp) = 8"
  shows "\<exists>r'. decrypt_step cr iv0 q sp user r = Inr (SNMPERR_SUCCESS, r') \<and> r_usm r' = r_usm r \<and> r_engineID r' = r_engineID r \<and> r_name r' = r_name r \<and> r_nameLen r' = r_nameLen r \<and>
    r_scopedPdu r' = Decrypted (ciphertext (c_des cr) (c_aes cr) t key iv ct)"
proof -
  define d where "d = sp_data sp + length (enc_header ASN_OCTET_STR (length ct))"
  have left: "usub64 (i_wholeMsgLen q) (sp_data sp) = length (enc_string ASN_OCTET_STR ct)" using len by (simp add: usub64_def)
  have seq: "asn_parse_sequence (sp_msg sp) (sp_data sp) (length (enc_string ASN_OCTET_STR ct)) ASN_OCTET_STR = Inr (d, length ct, ASN_OCTET_STR)"
    using parse_octet_header [OF st order_refl ct(2)] by (simp add: d_def)
  have rd: "rd_bytes (sp_msg sp) d (length ct) = Inr ct" using st by (intro rd_bytes_stored) (simp_all add: d_def enc_string_def)
  have pk: "us_privKey user \<noteq> None" using key by (cases "us_privKey user") (simp_all add: key_def privKey_bytes_def)
  have "t = usmDESPrivProtocol \<Longrightarrow> length iv = 8" "t \<noteq> usmDESPrivProtocol \<Longrightarrow> length iv = 16"
    using iv des_iv_ok [of 8 "sp_salt sp" 8 key] key by (auto simp: shared_iv_def aes_iv_def)
  then have dec: "sc_decrypt (c_des cr) (c_aes cr) t key iv ct (i_scopedPduLen q) = Some (ciphertext (c_des cr) (c_aes cr) t key iv ct)"
    by (intro sc_decrypt_ok t key ct(1,3))
  show ?thesis
    using t ct(4) pk iv(1) rd dec unfolding decrypt_step_def left seq t_def [symmetric] key_def [symmetric]
    by (auto simp: attempt_def is_transform shared_iv_def Let_def)
qed


subsection \<open>The round trips\<close>

lemma signed_message_size:
  assumes "\<And>m. 12 \<le> length (hmac alg (oc_authKey c) m)"
    and "length globalData + length (oc_engineID c) + length (oc_name c) + length body \<le> 65200" and "length salt \<le> 8"
  shows "length globalData + length (enc_sec c boots time (replicate 12 0) salt) + length body \<le> 0xffff"
    and "length (signed_message hmac alg globalData c boots time salt body) \<le> 0xffff"
proof -
  let ?m = "take 12 (hmac alg (oc_authKey c) (enc_message globalData c boots time salt body (replicate 12 0)))"
  have h: "length (enc_header t n) \<le> 4" for t n using length_enc_length(2) [of n] by (simp add: enc_header_def)
  have "length ?m = 12" using assms(1) by simp
  then show "length (signed_message hmac alg globalData c boots time salt body) \<le> 0xffff"
    using length_enc_sec_le [of c boots time ?m salt] assms(2,3)
      h [of ASN_SEQUENCE_CONSTRUCTOR "length globalData + length (enc_sec c boots time ?m salt) + length body"]
    by (simp add: signed_message_def enc_message_def)
  show "length globalData + length (enc_sec c boots time (replicate 12 0) salt) + length body \<le> 0xffff"
    using length_enc_sec_le [of c boots time "replicate 12 0" salt] assms(2,3) by simp
qed

lemma signed_message_split:
  assumes "\<And>m. 12 \<le> length (hmac alg (oc_authKey c) m)"
  shows "\<exists>k rest. signed_message hmac alg globalData c boots time salt body = enc_header ASN_SEQUENCE_CONSTRUCTOR k @ globalData @ rest \<and>
    k = length globalData + length rest \<and> message_head globalData c boots time salt body = enc_header ASN_SEQUENCE_CONSTRUCTOR k @ globalData \<and>
    length rest = length (enc_sec c boots time (replicate 12 0) salt) + length body"
proof -
  define m where "m = take 12 (hmac alg (oc_authKey c) (enc_message globalData c boots time salt body (replicate 12 0)))"
  have lm: "length m = 12" using assms by (simp add: m_def)
  have E: "length (enc_sec c boots time m salt) = length (enc_sec c boots time (replicate 12 0) salt)" using lm by (intro length_enc_sec) simp
  have W: "signed_message hmac alg globalData c boots time salt body = enc_message globalData c boots time salt body m"
    by (simp add: signed_message_def m_def)
  show ?thesis unfolding W
    by (rule exI [of _ "length globalData + length (enc_sec c boots time m salt @ body)"], rule exI [of _ "enc_sec c boots time m salt @ body"])
      (simp add: enc_message_def message_head_def E ac_simps)
qed

lemma check_secLevel_ok:
  "us_userStatus u = RS_ACTIVE \<Longrightarrow> hash_of (us_authProtocol u) = Some alg \<Longrightarrow>
   (level = SNMP_SEC_LEVEL_AUTHPRIV \<Longrightarrow> us_privProtocol u \<noteq> usmNoPrivProtocol) \<Longrightarrow> usm_check_secLevel level u = 0"
  by (auto simp: usm_check_secLevel_def same_oid_iff dest: hash_of_not_noauth)

lemma same_room:
  "q\<lparr>i_wholeMsg := x, i_wholeMsgLen := n, i_secParams := k, i_scopedPduLen := i_scopedPduLen q\<rparr> =
   q\<lparr>i_wholeMsg := x, i_wholeMsgLen := n, i_secParams := k\<rparr>"
  by (cases q) simp

lemma authNoPriv_roundtrip:
  assumes w: "rwf p" and mem: "\<And>n. malloc n \<noteq> None" "\<And>n. alloc n" "\<And>n. alloc' n"
    and sender: "usm_get_user eid name (o_usm s) = Some user"
      "get_enginetime (c_hash cr) now (u_lcd (um_state (o_usm s))) eid False = ((rc, boots, time), l)" "boots \<le> ENGINEBOOT_MAX" "time \<le> ENGINETIME_MAX"
    and receiver: "ISENGINEKNOWN (c_hash cr) now' (u_lcd (um_state r)) eid = (True, l')"
      "usm_get_user_from_list eid name (um_users r) (um_noNameUser r) False = Some user'" "us_userStatus user' = RS_ACTIVE"
      "usm_check_and_update_timeliness (c_hash cr) now' ((um_state r)\<lparr>u_lcd := l'\<rparr>) eid boots time = (SNMPERR_SUCCESS, st)"
    and shared: "us_authProtocol user' = us_authProtocol user" "us_authKey user' = us_authKey user"
    and alg: "hash_of (us_authProtocol user) = Some alg" "mac_key_length alg \<le> length (us_authKey user)" "\<And>k m. 12 \<le> length (c_hmac cr alg k m)"
    and name: "length name \<le> 32" "length name < length (i_secName q)" "length (i_secName q) < 2 ^ 32" "0 \<notin> set name"
    and bufs: "length eid \<le> length (i_secEngineID q)" "12 \<le> length sigBuf"
    and size: "length globalData + length eid + length name + snd p \<le> 65000"
    and q: "i_secLevel q = SNMP_SEC_LEVEL_AUTHNOPRIV" "i_sess q = Some SNMP_SESS_AUTHORITATIVE"
  shows "\<exists>p' s' k rest r' n. usm_rgenerate_out_msg cr des aes now malloc alloc globalData eid name SNMP_SEC_LEVEL_AUTHNOPRIV (used p) None s p = Inr (Inr p', s') \<and> rwf p' \<and> snd p' \<le> 0xffff \<and>
    used p' = enc_header ASN_SEQUENCE_CONSTRUCTOR k @ globalData @ rest \<and> k = length globalData + length rest \<and>
    usm_process_in_msg cr now' alloc' sigBuf saltBuf iv0 (q\<lparr>i_wholeMsg := used p', i_wholeMsgLen := snd p',
      i_secParams := length (enc_header ASN_SEQUENCE_CONSTRUCTOR k @ globalData), i_scopedPduLen := scoped (snd p')\<rparr>) r = Inr (SNMPERR_SUCCESS, r') \<and>
    r_scopedPdu r' = InMessage n (snd p) \<and> drop n (r_msg r') = used p \<and> r_engineID r' = eid \<and> cstr (r_name r') = name \<and>
    take (r_nameLen r') (r_name r') = name \<and> r_usm r' = r\<lparr>um_state := st\<rparr>"
proof -
  define c where "c = user_cred user eid name SNMP_SEC_LEVEL_AUTHNOPRIV"
  define W where "W = signed_message (c_hmac cr) alg globalData c boots time [] (used p)"
  define head where "head = message_head globalData c boots time [] (used p)"
  let ?E = "enc_sec c boots time (replicate 12 0) []"
  have c [simp]: "oc_engineID c = eid" "oc_name c = name" "oc_authKey c = us_authKey user" "oc_level c = 2" by (simp_all add: c_def)
  have sz: "length globalData + length ?E + snd p \<le> 0xffff" "length W \<le> 0xffff"
    unfolding W_def using signed_message_size [of "c_hmac cr" alg c globalData "used p" "[]" boots time] alg(3) size by (simp_all add: length_used [OF w])
  obtain p' where gen: "usm_rgenerate_out_msg cr des aes now malloc alloc globalData eid name SNMP_SEC_LEVEL_AUTHNOPRIV (used p) None s p =
        Inr (Inr p', s\<lparr>o_usm := (o_usm s)\<lparr>um_state := (um_state (o_usm s))\<lparr>u_lcd := l\<rparr>\<rparr>\<rparr>)" and p': "rwf p'" "used p' = W"
    using rgenerate_signed [where malloc = malloc and alloc = alloc and cr = cr and alg = alg and level = "SNMP_SEC_LEVEL_AUTHNOPRIV" and p = p and scopedPdu = "used p" and
        des = des and aes = aes and globalData = globalData and ?p1.0 = p and salt = "[]",
        OF sender(1) _ _ sender(2) _ w mem(1,2) _ alg(1,2)] alg(3) sz(1) unfolding W_def c_def by auto
  let ?q = "q\<lparr>i_wholeMsg := W, i_wholeMsgLen := length W, i_secParams := length head, i_scopedPduLen := scoped (length W)\<rparr>"
  obtain sp rr where run: "usm_process_in_msg cr now' alloc' sigBuf saltBuf iv0 ?q r = Inr (SNMPERR_SUCCESS, plain_step ?q sp rr)"
    and sp: "sp_data sp = length head + length ?E" "sp_msg sp = enc_message globalData c boots time [] (used p) (replicate 12 0)"
    and rr: "r_usm rr = r\<lparr>um_state := st\<rparr>" "r_msg rr = sp_msg sp" "r_engineID rr = eid" "cstr (r_name rr) = name" "take (r_nameLen rr) (r_name rr) = name"
    using received_checked [where alloc = alloc' and cr = cr and alg = alg and q = ?q and user = user' and c = c and body = "used p" and salt = "[]" and ?iv0.0 = iv0 and
        sigBuf = sigBuf and saltBuf = saltBuf and now = now' and r = r and l = l' and st = st,
        OF sz(2) [unfolded W_def] sender(3,4)]
      name bufs q mem(3) alg shared receiver check_secLevel_ok [of user' alg SNMP_SEC_LEVEL_AUTHNOPRIV]
    unfolding W_def [symmetric] head_def [symmetric] by auto
  obtain k rest where Wk: "W = enc_header ASN_SEQUENCE_CONSTRUCTOR k @ globalData @ rest" and k: "k = length globalData + length rest"
    and hd: "head = enc_header ASN_SEQUENCE_CONSTRUCTOR k @ globalData" and rest: "length rest = length ?E + snd p"
    unfolding W_def head_def using signed_message_split [of "c_hmac cr" alg c globalData boots time "[]" "used p"] alg(3) by (auto simp: length_used [OF w])
  have left: "usub64 (length W) (sp_data sp) = snd p" using sz(2) by (simp add: Wk hd sp rest usub64_def)
  have tail: "drop (sp_data sp) (sp_msg sp) = used p" by (simp add: sp enc_message_head head_def)
  have sndp: "snd p' = length W" using length_used [OF p'(1)] by (simp add: p')
  note facts = sz(2) left tail sndp gen p' run rr
  show ?thesis
    by (rule exI [of _ p'], rule exI, rule exI [of _ k], rule exI [of _ rest], rule exI [of _ "plain_step ?q sp rr"], rule exI [of _ "sp_data sp"], intro conjI)
      (use facts in \<open>simp_all add: plain_step_def hd Wk [symmetric] k [symmetric]\<close>)
qed

text \<open>
  C4 (authenticated round trip).  What \<open>usm_rgenerate_out_msg\<close> makes of a scoped PDU at level \<open>authNoPriv\<close> is accepted by
  \<open>usm_process_in_msg\<close> of an authoritative engine that knows an active user of that name with the same protocol and key, when the
  times the sender believes are timely there; the receiver gets the scoped PDU, the engine and the user that were sent.
\<close>

theorem usm_authNoPriv_roundtrip:
  assumes w: "rwf p" and mem: "\<And>n. malloc n \<noteq> None" "\<And>n. alloc n" "\<And>n. alloc' n"
    and sender: "usm_get_user eid name (o_usm s) = Some user"
      "get_enginetime (c_hash cr) now (u_lcd (um_state (o_usm s))) eid False = ((rc, boots, time), l)" "boots \<le> ENGINEBOOT_MAX" "time \<le> ENGINETIME_MAX"
    and receiver: "ISENGINEKNOWN (c_hash cr) now' (u_lcd (um_state r)) eid = (True, l')"
      "usm_get_user_from_list eid name (um_users r) (um_noNameUser r) False = Some user'" "us_userStatus user' = RS_ACTIVE"
      "usm_check_and_update_timeliness (c_hash cr) now' ((um_state r)\<lparr>u_lcd := l'\<rparr>) eid boots time = (SNMPERR_SUCCESS, st)"
    and shared: "us_authProtocol user' = us_authProtocol user" "us_authKey user' = us_authKey user"
    and alg: "hash_of (us_authProtocol user) = Some alg" "mac_key_length alg \<le> length (us_authKey user)" "\<And>k m. 12 \<le> length (c_hmac cr alg k m)"
    and name: "length name \<le> 32" "length name < length (i_secName q)" "length (i_secName q) < 2 ^ 32" "0 \<notin> set name"
    and bufs: "length eid \<le> length (i_secEngineID q)" "12 \<le> length sigBuf"
    and size: "length globalData + length eid + length name + snd p \<le> 65000"
    and q: "i_secLevel q = SNMP_SEC_LEVEL_AUTHNOPRIV" "i_sess q = Some SNMP_SESS_AUTHORITATIVE"
  shows "\<exists>p' s' k rest r' n. usm_rgenerate_out_msg cr des aes now malloc alloc globalData eid name SNMP_SEC_LEVEL_AUTHNOPRIV (used p) None s p = Inr (Inr p', s') \<and>
    used p' = enc_header ASN_SEQUENCE_CONSTRUCTOR k @ globalData @ rest \<and> k = length globalData + length rest \<and>
    usm_process_in_msg cr now' alloc' sigBuf saltBuf iv0 (q\<lparr>i_wholeMsg := used p', i_wholeMsgLen := snd p',
      i_secParams := length (enc_header ASN_SEQUENCE_CONSTRUCTOR k @ globalData)\<rparr>) r = Inr (SNMPERR_SUCCESS, r') \<and>
    r_scopedPdu r' = InMessage n (snd p) \<and> drop n (r_msg r') = used p \<and> r_engineID r' = eid \<and> cstr (r_name r') = name \<and> r_usm r' = r\<lparr>um_state := st\<rparr>"
  using authNoPriv_roundtrip [where malloc = malloc and alloc = alloc and alloc' = alloc' and q = q and scoped = "\<lambda>_. i_scopedPduLen q" and sigBuf = sigBuf and saltBuf = saltBuf and
      des = des and aes = aes and globalData = globalData and ?iv0.0 = iv0, OF w mem sender receiver shared alg name bufs size q]
  unfolding same_room by blast


lemma ciphertext_inverse:
  assumes "\<And>k iv y. length y mod 8 = 0 \<Longrightarrow> des' k iv (des k iv y) = y" and "\<And>k iv y. aes' k iv (aes k iv y) = y"
  shows "ciphertext des' aes' t key iv (ciphertext des aes t key iv (padded t x)) = padded t x"
  using assms length_des_pad(1) [of x] by (auto simp: ciphertext_def padded_def)

lemma authPriv_roundtrip:
  assumes w: "rwf p" and mem: "\<And>n. malloc n \<noteq> None" "\<And>n. alloc n" "\<And>n. alloc' n"
    and sender: "usm_get_user eid name (o_usm s) = Some user"
      "get_enginetime (c_hash cr) now (u_lcd (um_state (o_usm s))) eid False = ((rc, boots, time), l)" "boots \<le> ENGINEBOOT_MAX" "time \<le> ENGINETIME_MAX"
    and receiver: "ISENGINEKNOWN (c_hash cr) now' (u_lcd (um_state r)) eid = (True, l')"
      "usm_get_user_from_list eid name (um_users r) (um_noNameUser r) False = Some user'" "us_userStatus user' = RS_ACTIVE"
      "usm_check_and_update_timeliness (c_hash cr) now' ((um_state r)\<lparr>u_lcd := l'\<rparr>) eid boots time = (SNMPERR_SUCCESS, st)"
    and shared: "us_authProtocol user' = us_authProtocol user" "us_authKey user' = us_authKey user"
      "us_privProtocol user' = us_privProtocol user" "us_privKey user' = us_privKey user"
    and alg: "hash_of (us_authProtocol user) = Some alg" "mac_key_length alg \<le> length (us_authKey user)" "\<And>k m. 12 \<le> length (c_hmac cr alg k m)"
    and priv: "priv_protocol (us_privProtocol user)" "us_privKey user = Some key" "16 \<le> length key" "length key < 2 ^ 32"
    and ciphers: "\<And>k iv y. length (des k iv y) = length y" "\<And>k iv y. length (aes k iv y) = length y"
      "\<And>k iv y. length y mod 8 = 0 \<Longrightarrow> c_des cr k iv (des k iv y) = y" "\<And>k iv y. c_aes cr k iv (aes k iv y) = y"
    and name: "length name \<le> 32" "length name < length (i_secName q)" "length (i_secName q) < 2 ^ 32" "0 \<notin> set name"
    and bufs: "length eid \<le> length (i_secEngineID q)" "12 \<le> length sigBuf" "8 \<le> length saltBuf" "\<And>n. snd p + 7 \<le> n \<Longrightarrow> snd p + 7 \<le> scoped n"
    and size: "used p \<noteq> []" "length globalData + length eid + length name + snd p \<le> 65000"
    and q: "i_secLevel q = SNMP_SEC_LEVEL_AUTHPRIV" "i_sess q = Some SNMP_SESS_AUTHORITATIVE"
  shows "\<exists>p' s' k rest r'. usm_rgenerate_out_msg cr des aes now malloc alloc globalData eid name SNMP_SEC_LEVEL_AUTHPRIV (used p) None s p = Inr (Inr p', s') \<and> rwf p' \<and> snd p' \<le> 0xffff \<and>
    used p' = enc_header ASN_SEQUENCE_CONSTRUCTOR k @ globalData @ rest \<and> k = length globalData + length rest \<and>
    usm_process_in_msg cr now' alloc' sigBuf saltBuf iv0 (q\<lparr>i_wholeMsg := used p', i_wholeMsgLen := snd p',
      i_secParams := length (enc_header ASN_SEQUENCE_CONSTRUCTOR k @ globalData), i_scopedPduLen := scoped (snd p')\<rparr>) r = Inr (SNMPERR_SUCCESS, r') \<and>
    r_scopedPdu r' = Decrypted (if us_privProtocol user = usmDESPrivProtocol then des_pad (used p) else used p) \<and>
    r_engineID r' = eid \<and> cstr (r_name r') = name \<and>
    take (r_nameLen r') (r_name r') = name \<and> r_usm r' = r\<lparr>um_state := st\<rparr>"
proof -
  define c where "c = user_cred user eid name SNMP_SEC_LEVEL_AUTHPRIV"
  let ?t = "us_privProtocol user" and ?s1 = "s\<lparr>o_usm := (o_usm s)\<lparr>um_state := (um_state (o_usm s))\<lparr>u_lcd := l\<rparr>\<rparr>\<rparr>"
  have key: "privKey_bytes user = key" "privKey_bytes user' = key" using priv(2) shared(4) by (simp_all add: privKey_bytes_def)
  have c [simp]: "oc_engineID c = eid" "oc_name c = name" "oc_authKey c = us_authKey user" "oc_level c = 3" "oc_privProtocol c = ?t" "oc_privKey c = key"
    by (simp_all add: c_def key)
  have lp: "length (used p) = snd p" by (rule length_used [OF w])
  obtain p1 salt iv s2 where enc: "out_encrypt des aes malloc alloc c boots time (used p) ?s1 p = Inr (Inr (p1, salt), s2)" and p1: "rwf p1"
    and salt: "length salt = 8" and iv: "shared_iv ?t key boots time salt = Inr iv"
    and body: "used p1 = enc_string ASN_OCTET_STR (ciphertext des aes ?t key iv (padded ?t (used p)))"
    using out_encrypt_ok [where c = c and malloc = malloc and alloc = alloc and des = des and aes = aes and boots = boots and time = time and x = "used p" and
        s = ?s1 and p = p, unfolded c, OF priv(1,3,4) size(1) _ mem(1,2) ciphers(1,2)] size(2) unfolding lp by force
  define ct where "ct = ciphertext des aes ?t key iv (padded ?t (used p))"
  have lct: "length ct = length (padded ?t (used p))" by (simp add: ct_def ciphertext_def ciphers)
  have ct: "length ct \<le> snd p + 7" "ct \<noteq> []" "?t = usmDESPrivProtocol \<Longrightarrow> length ct mod 8 = 0"
    using length_padded(1) [of "used p" ?t] length_padded(2) [of ?t "used p"] length_des_pad(1) [of "used p"] lp size(1) unfolding lct length_0_conv [symmetric] by (auto simp: padded_def)
  define W where "W = signed_message (c_hmac cr) alg globalData c boots time salt (used p1)"
  define head where "head = message_head globalData c boots time salt (used p1)"
  let ?E = "enc_sec c boots time (replicate 12 0) salt"
  have lb: "length (used p1) \<le> snd p + 11" using length_enc_string [of ASN_OCTET_STR ct] ct(1) by (simp add: body ct_def)
  have sz: "length globalData + length ?E + snd p1 \<le> 0xffff" "length W \<le> 0xffff"
    unfolding W_def using signed_message_size [of "c_hmac cr" alg c globalData "used p1" salt boots time] alg(3) size(2) lb salt
    by (simp_all add: length_used [OF p1])
  have np: "?t \<noteq> usmNoPrivProtocol" using priv(1) by (auto simp: usm_protocols)
  obtain p' where gen: "usm_rgenerate_out_msg cr des aes now malloc alloc globalData eid name SNMP_SEC_LEVEL_AUTHPRIV (used p) None s p = Inr (Inr p', s2)"
      and p': "rwf p'" "used p' = W"
    using rgenerate_signed [where malloc = malloc and alloc = alloc and cr = cr and alg = alg and level = "SNMP_SEC_LEVEL_AUTHPRIV" and p = p and scopedPdu = "used p" and
        des = des and aes = aes and globalData = globalData and ?p1.0 = p1 and salt = salt and ?s2.0 = s2,
        OF sender(1) _ _ sender(2) _ p1 mem(1,2) _ alg(1,2)] alg(3) sz(1) enc np unfolding W_def c_def by auto
  let ?q = "q\<lparr>i_wholeMsg := W, i_wholeMsgLen := length W, i_secParams := length head, i_scopedPduLen := scoped (length W)\<rparr>"
  obtain sp rr where run: "usm_process_in_msg cr now' alloc' sigBuf saltBuf iv0 ?q r = decrypt_step cr iv0 ?q sp user' rr"
    and sp: "sp_data sp = length head + length ?E" "sp_msg sp = enc_message globalData c boots time salt (used p1) (replicate 12 0)"
      "sp_salt sp = salt" "sp_boots sp = boots" "sp_time sp = time"
    and rr: "r_usm rr = r\<lparr>um_state := st\<rparr>" "r_engineID rr = eid" "cstr (r_name rr) = name" "take (r_nameLen rr) (r_name rr) = name"
    using received_checked [where alloc = alloc' and cr = cr and alg = alg and q = ?q and user = user' and c = c and body = "used p1" and salt = salt and ?iv0.0 = iv0 and
        sigBuf = sigBuf and saltBuf = saltBuf and now = now' and r = r and l = l' and st = st,
        OF sz(2) [unfolded W_def] sender(3,4)]
      name bufs q mem(3) alg shared receiver check_secLevel_ok [of user' alg SNMP_SEC_LEVEL_AUTHPRIV] salt np
    unfolding W_def [symmetric] head_def [symmetric] by auto
  obtain k rest where Wk: "W = enc_header ASN_SEQUENCE_CONSTRUCTOR k @ globalData @ rest" and k: "k = length globalData + length rest"
    and hd: "head = enc_header ASN_SEQUENCE_CONSTRUCTOR k @ globalData" and rest: "length rest = length ?E + length (used p1)"
    unfolding W_def head_def using signed_message_split [of "c_hmac cr" alg c globalData boots time salt "used p1"] alg(3) by auto
  have st1: "stored (sp_msg sp) (sp_data sp) (enc_string ASN_OCTET_STR ct)"
  proof -
    have "sp_msg sp = head @ ?E @ used p1" by (simp add: sp enc_message_head head_def)
    then show ?thesis by (simp add: sp(1) stored_def body ct_def)
  qed
  have lW: "length W = sp_data sp + length (enc_string ASN_OCTET_STR ct)" by (simp add: Wk sp hd rest body ct_def)
  have room: "snd p + 7 \<le> length W"
  proof -
    have "12 \<le> length ?E" using enc_sec_auth [of "replicate 12 0" "replicate 12 0" c boots time salt] by auto
    then show ?thesis using lW length_padded(1) [of "used p" ?t] by (simp add: sp(1) enc_string_def lct lp)
  qed
  obtain r' where dec: "decrypt_step cr iv0 ?q sp user' rr = Inr (SNMPERR_SUCCESS, r')" "r_usm r' = r_usm rr" "r_engineID r' = r_engineID rr" "r_name r' = r_name rr" "r_nameLen r' = r_nameLen rr"
      "r_scopedPdu r' = Decrypted (ciphertext (c_des cr) (c_aes cr) ?t key iv ct)"
    using decrypt_step_ok [of user' ct ?q sp iv cr iv0 rr] priv(1,3) ct bufs(4) [OF room] size(2) st1 lW sz(2) iv salt unfolding shared key by (auto simp: sp)
  have sndp: "snd p' = length W" using length_used [OF p'(1)] by (simp add: p')
  note facts = sz(2) sndp gen p' run rr dec ciphertext_inverse [of "c_des cr" des "c_aes cr" aes, OF ciphers(3,4)]
  show ?thesis
    by (rule exI [of _ p'], rule exI, rule exI [of _ k], rule exI [of _ rest], rule exI [of _ r'], intro conjI)
      (use facts in \<open>simp_all add: hd Wk [symmetric] k [symmetric] ct_def padded_def\<close>)
qed

text \<open>
  C3 (private round trip).  The same at level \<open>authPriv\<close>, for DES and for AES: when decryption with a key and an initialisation vector inverts
  encryption with them, the receiver decrypts the scoped PDU that was sent, with the padding that DES needs.  Sender and receiver
  compute the same initialisation vector from the salt in the message.
\<close>

theorem usm_authPriv_roundtrip:
  assumes w: "rwf p" and mem: "\<And>n. malloc n \<noteq> None" "\<And>n. alloc n" "\<And>n. alloc' n"
    and sender: "usm_get_user eid name (o_usm s) = Some user"
      "get_enginetime (c_hash cr) now (u_lcd (um_state (o_usm s))) eid False = ((rc, boots, time), l)" "boots \<le> ENGINEBOOT_MAX" "time \<le> ENGINETIME_MAX"
    and receiver: "ISENGINEKNOWN (c_hash cr) now' (u_lcd (um_state r)) eid = (True, l')"
      "usm_get_user_from_list eid name (um_users r) (um_noNameUser r) False = Some user'" "us_userStatus user' = RS_ACTIVE"
      "usm_check_and_update_timeliness (c_hash cr) now' ((um_state r)\<lparr>u_lcd := l'\<rparr>) eid boots time = (SNMPERR_SUCCESS, st)"
    and shared: "us_authProtocol user' = us_authProtocol user" "us_authKey user' = us_authKey user"
      "us_privProtocol user' = us_privProtocol user" "us_privKey user' = us_privKey user"
    and alg: "hash_of (us_authProtocol user) = Some alg" "mac_key_length alg \<le> length (us_authKey user)" "\<And>k m. 12 \<le> length (c_hmac cr alg k m)"
    and priv: "priv_protocol (us_privProtocol user)" "us_privKey user = Some key" "16 \<le> length key" "length key < 2 ^ 32"
    and ciphers: "\<And>k iv y. length (des k iv y) = length y" "\<And>k iv y. length (aes k iv y) = length y"
      "\<And>k iv y. length y mod 8 = 0 \<Longrightarrow> c_des cr k iv (des k iv y) = y" "\<And>k iv y. c_aes cr k iv (aes k iv y) = y"
    and name: "length name \<le> 32" "length name < length (i_secName q)" "length (i_secName q) < 2 ^ 32" "0 \<notin> set name"
    and bufs: "length eid \<le> length (i_secEngineID q)" "12 \<le> length sigBuf" "8 \<le> length saltBuf" "snd p + 7 \<le> i_scopedPduLen q"
    and size: "used p \<noteq> []" "length globalData + length eid + length name + snd p \<le> 65000"
    and q: "i_secLevel q = SNMP_SEC_LEVEL_AUTHPRIV" "i_sess q = Some SNMP_SESS_AUTHORITATIVE"
  shows "\<exists>p' s' k rest r'. usm_rgenerate_out_msg cr des aes now malloc alloc globalData eid name SNMP_SEC_LEVEL_AUTHPRIV (used p) None s p = Inr (Inr p', s') \<and>
    used p' = enc_header ASN_SEQUENCE_CONSTRUCTOR k @ globalData @ rest \<and> k = length globalData + length rest \<and>
    usm_process_in_msg cr now' alloc' sigBuf saltBuf iv0 (q\<lparr>i_wholeMsg := used p', i_wholeMsgLen := snd p',
      i_secParams := length (enc_header ASN_SEQUENCE_CONSTRUCTOR k @ globalData)\<rparr>) r = Inr (SNMPERR_SUCCESS, r') \<and>
    r_scopedPdu r' = Decrypted (if us_privProtocol user = usmDESPrivProtocol then des_pad (used p) else used p) \<and>
    r_engineID r' = eid \<and> cstr (r_name r') = name \<and> r_usm r' = r\<lparr>um_state := st\<rparr>"
  using authPriv_roundtrip [where malloc = malloc and alloc = alloc and alloc' = alloc' and q = q and scoped = "\<lambda>_. i_scopedPduLen q" and sigBuf = sigBuf and saltBuf = saltBuf and
      des = des and aes = aes and globalData = globalData and ?iv0.0 = iv0, OF w mem sender receiver shared alg priv ciphers name bufs size q]
  unfolding same_room by blast


text \<open>A concrete exchange: the engine, the user and the receiver of the samples above, and a sender that last heard of the engine at its own time.\<close>

definition sample_sender :: "usmUser \<Rightarrow> out_state" where
  "sample_sender u = \<lparr>o_usm = sample_db\<lparr>um_users := [u], um_state := (um_state sample_db)\<lparr>u_lcd := (u_lcd (um_state sample_db))\<lparr>etimelist :=
       (replicate 23 [])[13 := [(new_enginetime [0x80, 1])\<lparr>engineTime := 1000, engineBoot := 3, lastReceivedEngineTime := 900\<rparr>]]\<rparr>\<rparr>\<rparr>,
     o_salt_integer = 5, o_salt_integer64_1 = 6, o_salt_integer64_2 = 7\<rparr>"

definition sample_packet :: rstate where
  "sample_packet = ([0, 0, 0x30, 1, 5], 3)"

lemma sample_packet: "rwf sample_packet" "used sample_packet = [0x30, 1, 5]" "snd sample_packet = 3"
  by (simp_all add: sample_packet_def rwf_def used_def)

lemma sample_sender_time:
  "\<exists>l. get_enginetime (\<lambda>bs. Some bs) 900 (u_lcd (um_state (o_usm (sample_sender u)))) [0x80, 1] False = ((SNMPERR_SUCCESS, 3, 1000), l)"
  by (simp add: get_enginetime_def sample_sender_def sample_db_def search_enginetime_list_def hash_engineID_def new_enginetime_def
      enginetime_estimate_def snmpv3_local_snmpEngineTime_def Let_def)

lemma sample_sender_user:
  "us_engineID u = Some [0x80, 1] \<Longrightarrow> us_name u = [0x61] \<Longrightarrow> usm_get_user [0x80, 1] [0x61] (o_usm (sample_sender u)) = Some u"
  by (simp add: usm_get_user_def usm_get_user_from_list_def user_matches_key sample_sender_def cstr_def)

theorem usm_authNoPriv_roundtrip_witness:
  "\<exists>p' s' k rest r' n. usm_rgenerate_out_msg sample_crypto (\<lambda>_ _ y. y) (\<lambda>_ _ y. y) 900 (\<lambda>_. Some (\<lambda>_. 0)) (\<lambda>_. True) [0x30, 0] [0x80, 1] [0x61] 2
      (used sample_packet) None (sample_sender sample_account) sample_packet = Inr (Inr p', s') \<and>
    used p' = enc_header ASN_SEQUENCE_CONSTRUCTOR k @ [0x30, 0] @ rest \<and> k = length [0x30 :: u8, 0] + length rest \<and>
    usm_process_in_msg sample_crypto 900 (\<lambda>_. True) zeros16 zeros16 zeros16 ((sample_in [])\<lparr>i_wholeMsg := used p', i_wholeMsgLen := snd p',
      i_secParams := length (enc_header ASN_SEQUENCE_CONSTRUCTOR k @ [0x30, 0])\<rparr>) sample_db = Inr (SNMPERR_SUCCESS, r') \<and>
    r_scopedPdu r' = InMessage n (snd sample_packet) \<and> drop n (r_msg r') = used sample_packet \<and> r_engineID r' = [0x80, 1] \<and> cstr (r_name r') = [0x61] \<and>
    r_usm r' = sample_db\<lparr>um_state := sample_after\<rparr>"
proof -
  obtain l where l: "get_enginetime (\<lambda>bs. Some bs) 900 (u_lcd (um_state (o_usm (sample_sender sample_account)))) [0x80, 1] False = ((SNMPERR_SUCCESS, 3, 1000), l)"
    using sample_sender_time by blast
  have a: "us_engineID sample_account = Some [0x80, 1]" "us_name sample_account = [0x61]" "hash_of (us_authProtocol sample_account) = Some EVP_md5"
      "length (us_authKey sample_account) = 16"
    by (simp_all add: sample_account_def hash_of_def)
  have i: "i_secName (sample_in []) = zeros2" "i_secEngineID (sample_in []) = zeros2" "i_secLevel (sample_in []) = 2" "i_sess (sample_in []) = Some 1"
    by (simp_all add: sample_in_def)
  show ?thesis
    by (rule usm_authNoPriv_roundtrip [where user = sample_account and user' = sample_account and alg = EVP_md5 and l' = "u_lcd (um_state sample_db)" and
          boots = 3 and time = 1000 and rc = 0 and l = l])
      (use sample_packet sample_sender_user [OF a(1,2)] l sample_known sample_time sample_user(2,3) sample_user(1) [of "[0x61]" False] a i
        in \<open>simp_all add: sample_crypto_simps sample_hmac_def cstr_def\<close>)
qed

text \<open>For the private exchange, a cipher that adds the first byte of the key to every byte.\<close>

definition sample_cipher :: cipher where
  "sample_cipher k iv y = map (\<lambda>b. b + hd k) y"

definition sample_decipher :: cipher where
  "sample_decipher k iv y = map (\<lambda>b. b - hd k) y"

definition private_account :: usmUser where
  "private_account = sample_account\<lparr>us_privProtocol := usmDESPrivProtocol, us_privKey := Some (replicate 16 9)\<rparr>"

lemma private_account:
  "us_engineID private_account = Some [0x80, 1]" "us_name private_account = [0x61]" "hash_of (us_authProtocol private_account) = Some EVP_md5"
  "length (us_authKey private_account) = 16" "us_userStatus private_account = RS_ACTIVE" "us_privProtocol private_account = usmDESPrivProtocol"
  "us_privKey private_account = Some (replicate 16 9)"
  by (simp_all add: private_account_def sample_account_def hash_of_def)

theorem usm_authPriv_roundtrip_witness:
  "\<exists>p' s' k rest r'. usm_rgenerate_out_msg (sample_crypto\<lparr>c_des := sample_decipher, c_aes := sample_decipher\<rparr>) sample_cipher sample_cipher 900
      (\<lambda>_. Some (\<lambda>_. 0)) (\<lambda>_. True) [0x30, 0] [0x80, 1] [0x61] 3 (used sample_packet) None (sample_sender private_account) sample_packet = Inr (Inr p', s') \<and>
    used p' = enc_header ASN_SEQUENCE_CONSTRUCTOR k @ [0x30, 0] @ rest \<and> k = length [0x30 :: u8, 0] + length rest \<and>
    usm_process_in_msg (sample_crypto\<lparr>c_des := sample_decipher, c_aes := sample_decipher\<rparr>) 900 (\<lambda>_. True) zeros16 zeros16 zeros16
      ((sample_in [])\<lparr>i_secLevel := 3\<rparr>\<lparr>i_wholeMsg := used p', i_wholeMsgLen := snd p',
        i_secParams := length (enc_header ASN_SEQUENCE_CONSTRUCTOR k @ [0x30, 0])\<rparr>) (sample_db\<lparr>um_users := [private_account]\<rparr>) = Inr (SNMPERR_SUCCESS, r') \<and>
    r_scopedPdu r' = Decrypted (if us_privProtocol private_account = usmDESPrivProtocol then des_pad (used sample_packet) else used sample_packet) \<and>
    r_engineID r' = [0x80, 1] \<and> cstr (r_name r') = [0x61] \<and> r_usm r' = sample_db\<lparr>um_users := [private_account], um_state := sample_after\<rparr>"
proof -
  obtain l where l: "get_enginetime (\<lambda>bs. Some bs) 900 (u_lcd (um_state (o_usm (sample_sender private_account)))) [0x80, 1] False = ((SNMPERR_SUCCESS, 3, 1000), l)"
    using sample_sender_time by blast
  have i: "i_secName (sample_in []) = zeros2" "i_secEngineID (sample_in []) = zeros2" "i_scopedPduLen (sample_in []) = 1472" "i_sess (sample_in []) = Some 1"
    by (simp_all add: sample_in_def)
  have u: "usm_get_user_from_list [0x80, 1] [0x61] [private_account] x False = Some private_account" for x
    by (simp add: usm_get_user_from_list_def user_matches_key private_account cstr_def)
  show ?thesis
    by (rule usm_authPriv_roundtrip [where user = private_account and user' = private_account and alg = EVP_md5 and l' = "u_lcd (um_state sample_db)" and
          boots = 3 and time = 1000 and rc = 0 and l = l and key = "replicate 16 9"])
      (use sample_packet sample_sender_user [OF private_account(1,2)] l sample_known sample_time u private_account i
        in \<open>simp_all add: sample_crypto_simps sample_hmac_def sample_cipher_def sample_decipher_def comp_def\<close>)
qed

end
