(* ===== verification/Snmpv3_Out.thy ===== *)
theory Snmpv3_Out
  imports Snmpv3 Usm_Roundtrip
begin

unbundle bit_operations_syntax

section \<open>Outgoing SNMPv3 messages (\<open>snmplib/snmp_api.c\<close>)\<close>

text \<open>
  \<open>snmpv3_build\<close> with reverse encoding, the default: it fills in what the PDU leaves to the session and calls \<open>snmpv3_packet_realloc_rbuild\<close>, which
  puts the scoped PDU into the packet and hands it, with the global data, to the \<open>encode_reverse\<close> function of the security service; that of the
  user-based model is \<open>usm_rgenerate_out_msg\<close>.  Names and engine identifiers are byte lists, names without a zero; \<open>None\<close> is a name that is \<open>NULL\<close>.
  \<open>default_secmodel\<close> is the value of the configured security model, a lookup in another table.  The fields
  that were filled in before an error are not kept.  The records hold the members of \<open>netsnmp_session\<close> and \<open>netsnmp_pdu\<close> that this code uses.
\<close>

abbreviation (input) SNMPERR_BAD_CONTEXT :: int where "SNMPERR_BAD_CONTEXT \<equiv> - 17"
abbreviation (input) SNMPERR_BAD_SEC_NAME :: int where "SNMPERR_BAD_SEC_NAME \<equiv> - 27"
abbreviation (input) SNMPERR_BAD_SEC_LEVEL :: int where "SNMPERR_BAD_SEC_LEVEL \<equiv> - 28"
abbreviation (input) SNMP_DEFAULT_SECMODEL :: int where "SNMP_DEFAULT_SECMODEL \<equiv> - 1"
abbreviation (input) SNMP_SEC_MODEL_USM :: int where "SNMP_SEC_MODEL_USM \<equiv> 3"
abbreviation (input) SNMP_SEC_MODEL_TSM :: int where "SNMP_SEC_MODEL_TSM \<equiv> 4"
abbreviation (input) SNMP_MAX_MSG_V3_HDRS :: nat where "SNMP_MAX_MSG_V3_HDRS \<equiv> 51"

type_synonym secmod_encode =
  "bytes \<Rightarrow> bytes \<Rightarrow> bytes \<Rightarrow> nat \<Rightarrow> bytes \<Rightarrow> usmStateReference option \<Rightarrow> out_state \<Rightarrow> rstate \<Rightarrow> ((int + rstate) \<times> out_state) res"

record v3_session =
  se_rcvMsgMaxSize :: u64
  se_securityEngineID :: bytes
  se_contextEngineID :: bytes
  se_contextName :: "bytes option"
  se_securityModel :: int
  se_securityName :: "bytes option"
  se_securityLevel :: nat

record v3_pdu =
  p_version :: u64
  p_msgid :: u64
  p_securityModel :: int
  p_securityLevel :: nat
  p_contextEngineID :: bytes
  p_contextName :: "bytes option"
  p_securityEngineID :: bytes
  p_securityName :: "bytes option"
  p_securityStateRef :: "usmStateReference option"
  p_pdu :: netsnmp_pdu

definition name_bytes :: "bytes option \<Rightarrow> bytes" where
  "name_bytes x = (case x of None \<Rightarrow> [] | Some n \<Rightarrow> n)"


subsection \<open>The headers\<close>

definition SNMP_CMD_CONFIRMED :: "u8 \<Rightarrow> bool" where
  "SNMP_CMD_CONFIRMED c \<longleftrightarrow>
     c = SNMP_MSG_INFORM \<or> c = SNMP_MSG_GETBULK \<or> c = SNMP_MSG_GETNEXT \<or> c = SNMP_MSG_GET \<or> c = SNMP_MSG_SET"

definition snmpv3_calc_msg_flags :: "nat \<Rightarrow> u8 \<Rightarrow> u8" where
  "snmpv3_calc_msg_flags sec_level msg_command =
     (let flags = (if sec_level = SNMP_SEC_LEVEL_AUTHNOPRIV then SNMP_MSG_FLAG_AUTH_BIT
                   else if sec_level = SNMP_SEC_LEVEL_AUTHPRIV then SNMP_MSG_FLAG_AUTH_BIT OR SNMP_MSG_FLAG_PRIV_BIT
                   else 0) in
      if SNMP_CMD_CONFIRMED msg_command then flags OR SNMP_MSG_FLAG_RPRT_BIT else flags)"

definition snmpv3_header_realloc_rbuild :: "malloc \<Rightarrow> v3_session \<Rightarrow> v3_pdu \<Rightarrow> rstate \<Rightarrow> rstate res" where
  "snmpv3_header_realloc_rbuild malloc session pdu p =
     (let start_offset = snd p in
      ebind (asn_realloc_rbuild_int malloc True ASN_INTEGER (word_of_int (p_securityModel pdu)) 8 p) (\<lambda>p1.
      let msg_flags = snmpv3_calc_msg_flags (p_securityLevel pdu) (command (p_pdu pdu)) in
      ebind (asn_realloc_rbuild_string malloc True ASN_OCTET_STR [msg_flags] 1 p1) (\<lambda>p2.
      ebind (asn_realloc_rbuild_int malloc True ASN_INTEGER (se_rcvMsgMaxSize session) 8 p2) (\<lambda>p3.
      ebind (asn_realloc_rbuild_int malloc True ASN_INTEGER (p_msgid pdu) 8 p3) (\<lambda>p4.
      ebind (asn_realloc_rbuild_sequence malloc True ASN_SEQUENCE_CONSTRUCTOR (snd p4 - start_offset) p4) (\<lambda>p5.
      asn_realloc_rbuild_int malloc True ASN_INTEGER (p_version pdu) 8 p5))))))"

definition snmpv3_scopedPDU_header_realloc_rbuild :: "malloc \<Rightarrow> v3_pdu \<Rightarrow> nat \<Rightarrow> rstate \<Rightarrow> rstate res" where
  "snmpv3_scopedPDU_header_realloc_rbuild malloc pdu body_len p =
     (let start_offset = snd p; cname = name_bytes (p_contextName pdu) in
      ebind (asn_realloc_rbuild_string malloc True ASN_OCTET_STR cname (length cname) p) (\<lambda>p1.
      ebind (asn_realloc_rbuild_string malloc True ASN_OCTET_STR (p_contextEngineID pdu) (length (p_contextEngineID pdu)) p1) (\<lambda>p2.
      asn_realloc_rbuild_sequence malloc True ASN_SEQUENCE_CONSTRUCTOR (snd p2 - start_offset + body_len) p2)))"


subsection \<open>The packet\<close>

text \<open>\<open>pdu_data\<close> is a PDU that is encoded already.  The result is the error code, which is -1 or comes from the security service, or the packet.\<close>

definition rbuild_scoped :: "malloc \<Rightarrow> v3_pdu \<Rightarrow> bytes option \<Rightarrow> rstate \<Rightarrow> rstate res" where
  "rbuild_scoped malloc pdu pdu_data p =
     ebind (case pdu_data of
              Some bs \<Rightarrow> ebind (room malloc True NoMemory (length bs) p) (\<lambda>p0. rput p0 bs)
            | None \<Rightarrow> snmp_pdu_realloc_rbuild malloc (p_pdu pdu) p) (\<lambda>p1.
     snmpv3_scopedPDU_header_realloc_rbuild malloc pdu (snd p1 - snd p) p1)"

definition snmpv3_packet_realloc_rbuild ::
  "(int \<times> secmod_encode option) list \<Rightarrow> malloc \<Rightarrow> v3_session \<Rightarrow> v3_pdu \<Rightarrow> bytes option \<Rightarrow> out_state \<Rightarrow> rstate \<Rightarrow> ((int + rstate) \<times> out_state) res" where
  "snmpv3_packet_realloc_rbuild services malloc session pdu pdu_data s p =
     ebind (or_code (- 1) (rbuild_scoped malloc pdu pdu_data p)) (\<lambda>x.
     case x of
       Inl e \<Rightarrow> Inr (Inl e, s)
     | Inr p2 \<Rightarrow>
         (case malloc SNMP_MAX_MSG_V3_HDRS of
            None \<Rightarrow> Inr (Inl (- 1), s)
          | Some hdrbuf \<Rightarrow>
              ebind (or_code (- 1) (snmpv3_header_realloc_rbuild malloc session pdu (map hdrbuf [0..<SNMP_MAX_MSG_V3_HDRS], 0))) (\<lambda>y.
              case y of
                Inl e \<Rightarrow> Inr (Inl e, s)
              | Inr (buf, hdr_offset) \<Rightarrow>
                  (case find_sec_mod services (p_securityModel pdu) of
                     Some (Some encode_reverse) \<Rightarrow>
                       encode_reverse (drop (length buf - hdr_offset) buf) (p_securityEngineID pdu) (name_bytes (p_securityName pdu)) (p_securityLevel pdu)
                         (drop (length (fst p2) - snd p2) (fst p2)) (p_securityStateRef pdu) s p2
                   | _ \<Rightarrow> Inr (Inl (- 1), s)))))"


subsection \<open>What the session fills in\<close>

definition snmpv3_clone_engineID :: "(nat \<Rightarrow> bool) \<Rightarrow> bytes \<Rightarrow> bytes" where
  "snmpv3_clone_engineID alloc src = (if src \<noteq> [] \<and> alloc (length src) then src else [])"

text \<open>The command; a negative bulk parameter and the trap of version 1 are refused.\<close>

definition v3_command :: "netsnmp_pdu \<Rightarrow> int + netsnmp_pdu" where
  "v3_command pdu =
     (let c = command pdu in
      if c = SNMP_MSG_RESPONSE \<or> c = SNMP_MSG_TRAP2 \<or> c = SNMP_MSG_REPORT \<or> c = SNMP_MSG_GET \<or> c = SNMP_MSG_GETNEXT \<or> c = SNMP_MSG_SET \<or> c = SNMP_MSG_INFORM
      then Inr (zero_defaults pdu)
      else if c = SNMP_MSG_GETBULK then
        if sint (errindex pdu) < 0 then Inl SNMPERR_BAD_REPETITIONS
        else if sint (errstat pdu) < 0 then Inl SNMPERR_BAD_REPEATERS
        else Inr pdu
      else if c = SNMP_MSG_TRAP then Inl SNMPERR_V1_IN_V2
      else Inl SNMPERR_UNKNOWN_PDU)"

definition v3_engines :: "(nat \<Rightarrow> bool) \<Rightarrow> v3_session \<Rightarrow> v3_pdu \<Rightarrow> v3_pdu" where
  "v3_engines alloc session pdu =
     (let sec = (if p_securityEngineID pdu = [] \<and> se_securityEngineID session \<noteq> []
                 then snmpv3_clone_engineID alloc (se_securityEngineID session) else p_securityEngineID pdu);
          ctx = (if p_contextEngineID pdu = [] then
                   if se_contextEngineID session \<noteq> [] then snmpv3_clone_engineID alloc (se_contextEngineID session)
                   else if sec \<noteq> [] then snmpv3_clone_engineID alloc sec
                   else []
                 else p_contextEngineID pdu) in
      pdu\<lparr>p_securityEngineID := sec, p_contextEngineID := ctx\<rparr>)"

definition v3_context :: "(nat \<Rightarrow> bool) \<Rightarrow> v3_session \<Rightarrow> v3_pdu \<Rightarrow> int + v3_pdu" where
  "v3_context alloc session pdu =
     (case p_contextName pdu of
        Some _ \<Rightarrow> Inr pdu
      | None \<Rightarrow>
          (case se_contextName session of
             None \<Rightarrow> Inl SNMPERR_BAD_CONTEXT
           | Some n \<Rightarrow> if \<not> alloc (length n + 1) then Inl SNMPERR_GENERR else Inr (pdu\<lparr>p_contextName := Some n\<rparr>)))"

definition v3_model :: "int \<Rightarrow> v3_session \<Rightarrow> v3_pdu \<Rightarrow> v3_pdu" where
  "v3_model default_secmodel session pdu =
     (if p_securityModel pdu = SNMP_DEFAULT_SECMODEL then
        let m = se_securityModel session in
        pdu\<lparr>p_securityModel := (if m = SNMP_DEFAULT_SECMODEL then if default_secmodel \<le> 0 then SNMP_SEC_MODEL_USM else default_secmodel else m)\<rparr>
      else pdu)"

text \<open>The security name; a session without one gets the empty name.\<close>

definition v3_name :: "(nat \<Rightarrow> bool) \<Rightarrow> v3_session \<Rightarrow> v3_pdu \<Rightarrow> v3_session \<times> (int + v3_pdu)" where
  "v3_name alloc session pdu =
     (if p_securityName pdu = None then
        if se_securityModel session \<noteq> SNMP_SEC_MODEL_TSM \<and> name_bytes (se_securityName session) = [] then (session, Inl SNMPERR_BAD_SEC_NAME)
        else case se_securityName session of
          Some n \<Rightarrow> (session, if \<not> alloc (length n + 1) then Inl SNMPERR_GENERR else Inr (pdu\<lparr>p_securityName := Some n\<rparr>))
        | None \<Rightarrow>
            let empty = (if alloc 1 then Some [] else None) in
            (session\<lparr>se_securityName := empty\<rparr>, Inr (pdu\<lparr>p_securityName := empty\<rparr>))
      else (session, Inr pdu))"

definition v3_level :: "v3_session \<Rightarrow> v3_pdu \<Rightarrow> int + v3_pdu" where
  "v3_level session pdu =
     (if p_securityLevel pdu = 0 then
        if se_securityLevel session = 0 then Inl SNMPERR_BAD_SEC_LEVEL else Inr (pdu\<lparr>p_securityLevel := se_securityLevel session\<rparr>)
      else Inr pdu)"

text \<open>The session, and \<open>s_snmp_errno\<close> if it is an error or the PDU.\<close>

definition v3_defaults :: "(nat \<Rightarrow> bool) \<Rightarrow> int \<Rightarrow> v3_session \<Rightarrow> v3_pdu \<Rightarrow> v3_session \<times> (int + v3_pdu)" where
  "v3_defaults alloc default_secmodel session pdu =
     (case v3_command (p_pdu pdu) of
        Inl e \<Rightarrow> (session, Inl e)
      | Inr pdu0 \<Rightarrow>
          (case v3_context alloc session (v3_engines alloc session (pdu\<lparr>p_pdu := pdu0\<rparr>)) of
             Inl e \<Rightarrow> (session, Inl e)
           | Inr pdu1 \<Rightarrow>
               (case v3_name alloc session (v3_model default_secmodel session pdu1) of
                  (session', Inl e) \<Rightarrow> (session', Inl e)
                | (session', Inr pdu2) \<Rightarrow> (session', v3_level session' pdu2))))"

text \<open>The value of the function, \<open>s_snmp_errno\<close>, the session and the state.\<close>

definition snmpv3_build ::
  "(int \<times> secmod_encode option) list \<Rightarrow> malloc \<Rightarrow> (nat \<Rightarrow> bool) \<Rightarrow> int \<Rightarrow> v3_session \<Rightarrow> v3_pdu \<Rightarrow> out_state \<Rightarrow> rstate \<Rightarrow>
   ((int + rstate) \<times> int \<times> v3_session \<times> out_state) res" where
  "snmpv3_build services malloc alloc default_secmodel session pdu s p =
     (case v3_defaults alloc default_secmodel session pdu of
        (session', Inl e) \<Rightarrow> Inr (Inl (- 1), e, session', s)
      | (session', Inr pdu') \<Rightarrow>
          ebind (snmpv3_packet_realloc_rbuild services malloc session' pdu' None s p) (\<lambda>(ret, s').
          Inr (ret, case ret of Inl e \<Rightarrow> if e = - 1 then 0 else e | Inr _ \<Rightarrow> 0, session', s')))"


subsection \<open>Matching a response\<close>

text \<open>
  \<open>snmpv3_verify_msg\<close>, for a request that is there; the arguments are the identifier in the request list, the request that was sent and the message that
  came in, with its version, security model and level.  \<open>memcmp\<close> compares as many bytes as the incoming field has.
\<close>

definition snmpv3_verify_msg :: "u64 \<Rightarrow> v3_pdu \<Rightarrow> v3_pdu \<Rightarrow> bool" where
  "snmpv3_verify_msg request_id rpdu pdu \<longleftrightarrow>
     command (p_pdu pdu) = SNMP_MSG_REPORT \<or>
     \<not> (request_id \<noteq> reqid (p_pdu pdu) \<or> reqid (p_pdu rpdu) \<noteq> reqid (p_pdu pdu)) \<and>
     p_version rpdu = p_version pdu \<and>
     p_securityModel rpdu = p_securityModel pdu \<and>
     p_securityLevel rpdu = p_securityLevel pdu \<and>
     \<not> (length (p_contextEngineID rpdu) \<noteq> length (p_contextEngineID pdu) \<or>
        memcmp (p_contextEngineID rpdu) (p_contextEngineID pdu) (length (p_contextEngineID pdu)) \<noteq> 0) \<and>
     \<not> (length (name_bytes (p_contextName rpdu)) \<noteq> length (name_bytes (p_contextName pdu)) \<or>
        memcmp (name_bytes (p_contextName rpdu)) (name_bytes (p_contextName pdu)) (length (name_bytes (p_contextName pdu))) \<noteq> 0) \<and>
     \<not> (p_securityModel pdu = SNMP_SEC_MODEL_USM \<and>
        (length (p_securityEngineID rpdu) \<noteq> length (p_securityEngineID pdu) \<or>
         memcmp (p_securityEngineID rpdu) (p_securityEngineID pdu) (length (p_securityEngineID pdu)) \<noteq> 0)) \<and>
     \<not> (length (name_bytes (p_securityName rpdu)) \<noteq> length (name_bytes (p_securityName pdu)) \<or>
        memcmp (name_bytes (p_securityName rpdu)) (name_bytes (p_securityName pdu)) (length (name_bytes (p_securityName pdu))) \<noteq> 0)"


subsection \<open>What is encoded\<close>

definition enc_global_fields :: "v3_session \<Rightarrow> v3_pdu \<Rightarrow> bytes" where
  "enc_global_fields session pdu =
     enc_int ASN_INTEGER (p_msgid pdu) @ enc_int ASN_INTEGER (se_rcvMsgMaxSize session) @
     enc_string ASN_OCTET_STR [snmpv3_calc_msg_flags (p_securityLevel pdu) (command (p_pdu pdu))] @
     enc_int ASN_INTEGER (word_of_int (p_securityModel pdu))"

definition enc_global :: "v3_session \<Rightarrow> v3_pdu \<Rightarrow> bytes" where
  "enc_global session pdu =
     enc_int ASN_INTEGER (p_version pdu) @ enc_header ASN_SEQUENCE_CONSTRUCTOR (length (enc_global_fields session pdu)) @ enc_global_fields session pdu"

definition enc_context :: "v3_pdu \<Rightarrow> bytes" where
  "enc_context pdu = enc_string ASN_OCTET_STR (p_contextEngineID pdu) @ enc_string ASN_OCTET_STR (name_bytes (p_contextName pdu))"

definition enc_scoped :: "v3_pdu \<Rightarrow> bytes \<Rightarrow> bytes" where
  "enc_scoped pdu body = enc_header ASN_SEQUENCE_CONSTRUCTOR (length (enc_context pdu) + length body) @ enc_context pdu @ body"

text \<open>The fields of a header that an engine may send.\<close>

definition header_ok :: "v3_session \<Rightarrow> v3_pdu \<Rightarrow> bool" where
  "header_ok session pdu \<longleftrightarrow> int_field (p_version pdu) \<and> 0 \<le> sint (p_msgid pdu) \<and> sint (p_msgid pdu) \<le> 0x7fffffff \<and>
     484 \<le> sint (se_rcvMsgMaxSize session) \<and> sint (se_rcvMsgMaxSize session) \<le> 0x7fffffff \<and>
     1 \<le> p_securityModel pdu \<and> p_securityModel pdu \<le> 0x7fffffff"

lemma rbuild_some:
  assumes "rgood malloc True p e m" and "\<And>n. malloc n \<noteq> None"
  shows "\<exists>p'. m = Inr p' \<and> prepended p e p'"
  using assms by (cases m) (auto simp: rgood_def)

lemma small_int_field: "0 \<le> sint x \<Longrightarrow> sint x \<le> 0x7fffffff \<Longrightarrow> int_field x"
  by (simp add: int_field_def)

lemma sint_model: "0 \<le> m \<Longrightarrow> m \<le> 0x7fffffff \<Longrightarrow> sint (word_of_int m :: u64) = m"
  by (simp add: signed_of_int signed_take_bit_int_eq_self)

lemma header_fields:
  assumes "header_ok session pdu"
  shows "int_field (p_version pdu)" "int_field (p_msgid pdu)" "int_field (se_rcvMsgMaxSize session)" "int_field (word_of_int (p_securityModel pdu))"
    "sint (word_of_int (p_securityModel pdu) :: u64) = p_securityModel pdu"
proof -
  show m: "sint (word_of_int (p_securityModel pdu) :: u64) = p_securityModel pdu" using assms by (intro sint_model) (simp_all add: header_ok_def)
  show "int_field (p_version pdu)" "int_field (p_msgid pdu)" "int_field (se_rcvMsgMaxSize session)"
    using assms by (auto simp: header_ok_def intro: small_int_field)
  show "int_field (word_of_int (p_securityModel pdu))" using assms m by (intro small_int_field) (simp_all add: header_ok_def)
qed

lemma length_enc_global_fields: "length (enc_global_fields session pdu) \<le> 40"
  using length_enc_int [of ASN_INTEGER "p_msgid pdu"] length_enc_int [of ASN_INTEGER "se_rcvMsgMaxSize session"]
    length_enc_int [of ASN_INTEGER "word_of_int (p_securityModel pdu)"]
  by (simp add: enc_global_fields_def enc_string_def enc_header_def enc_length_def)

lemma length_enc_global: "length (enc_global session pdu) \<le> 60"
  using length_enc_global_fields [of session pdu] length_enc_int [of ASN_INTEGER "p_version pdu"]
  by (simp add: enc_global_def enc_header_def enc_length_def)

lemma header_builds:
  assumes ok: "header_ok session pdu" and w: "rwf p" and malloc: "\<And>n. malloc n \<noteq> None"
  shows "\<exists>p'. snmpv3_header_realloc_rbuild malloc session pdu p = Inr p' \<and> prepended p (enc_global session pdu) p'"
proof (rule rbuild_some [OF _ malloc])
  note f = header_fields [OF ok]
  let ?model = "enc_int ASN_INTEGER (word_of_int (p_securityModel pdu))" and ?flags = "snmpv3_calc_msg_flags (p_securityLevel pdu) (command (p_pdu pdu))"
  have seq: "rgood malloc True p' (enc_header ASN_SEQUENCE_CONSTRUCTOR n) (asn_realloc_rbuild_sequence malloc True ASN_SEQUENCE_CONSTRUCTOR (snd p' - snd p) p')"
    if "prepended p c p'" "n = length c" "n \<le> 0xffff" for p' n c
    using rgood_header [OF prepended_rwf [OF that(1)] that(3), of malloc True ASN_SEQUENCE_CONSTRUCTOR] prepended_snd [OF that(1)] that(2)
    by (simp add: asn_realloc_rbuild_sequence_def)
  have str: "rgood malloc True p' (enc_string ASN_OCTET_STR [?flags]) (asn_realloc_rbuild_string malloc True ASN_OCTET_STR [?flags] 1 p')"
    if "rwf p'" for p'
    using rgood_string [OF that, of "[?flags]" malloc True ASN_OCTET_STR] by simp
  note 1 = rgood_int_field [OF f(4) w, of malloc True]
  note 2 = rgood_bind [OF 1 str [OF prepended_rwf]]
  note 3 = rgood_bind [OF 2 rgood_int_field [OF f(3) prepended_rwf]]
  note 4 = rgood_bind [OF 3 rgood_int_field [OF f(2) prepended_rwf]]
  have e: "enc_int ASN_INTEGER (p_msgid pdu) @ enc_int ASN_INTEGER (se_rcvMsgMaxSize session) @ enc_string ASN_OCTET_STR [?flags] @ ?model = enc_global_fields session pdu"
    by (simp add: enc_global_fields_def)
  have "length (enc_global_fields session pdu) \<le> 0xffff" using length_enc_global_fields [of session pdu] by simp
  note 5 = rgood_bind [OF 4 [unfolded e] seq [OF _ refl this]]
  note 6 = rgood_bind [OF 5 rgood_int_field [OF f(1) prepended_rwf]]
  show "rgood malloc True p (enc_global session pdu) (snmpv3_header_realloc_rbuild malloc session pdu p)"
    using 6 by (simp add: snmpv3_header_realloc_rbuild_def enc_global_def ebind_assoc Let_def)
qed


lemma scoped_builds:
  assumes ok: "pdu_ok (p_pdu pdu) bs" and w: "rwf p" and malloc: "\<And>n. malloc n \<noteq> None"
    and len: "length (enc_context pdu) + length (enc_rpdu (p_pdu pdu) bs) \<le> 0xffff"
  shows "\<exists>p'. rbuild_scoped malloc pdu None p = Inr p' \<and> prepended p (enc_scoped pdu (enc_rpdu (p_pdu pdu) bs)) p'"
proof -
  let ?n = "name_bytes (p_contextName pdu)" and ?e = "p_contextEngineID pdu"
  have l: "length ?n \<le> 0xffff" "length ?e \<le> 0xffff" "length (enc_rbody (p_pdu pdu) bs) \<le> 0xffff"
    using len by (simp_all add: enc_context_def enc_string_def enc_rpdu_def)
  obtain p1 where p1: "snmp_pdu_realloc_rbuild malloc (p_pdu pdu) p = Inr p1" "prepended p (enc_rpdu (p_pdu pdu) bs) p1"
    using rpdu_builds [where malloc = malloc, OF ok w l(3) malloc] by blast
  obtain p2 where p2: "asn_realloc_rbuild_string malloc True ASN_OCTET_STR ?n (length ?n) p1 = Inr p2" "prepended p1 (enc_string ASN_OCTET_STR ?n) p2"
    using rbuild_some [where malloc = malloc, OF rgood_string [OF prepended_rwf [OF p1(2)] l(1)] malloc] by blast
  obtain p3 where p3: "asn_realloc_rbuild_string malloc True ASN_OCTET_STR ?e (length ?e) p2 = Inr p3" "prepended p2 (enc_string ASN_OCTET_STR ?e) p3"
    using rbuild_some [where malloc = malloc, OF rgood_string [OF prepended_rwf [OF p2(2)] l(2)] malloc] by blast
  have q3: "prepended p1 (enc_context pdu) p3" using prepended_trans [OF p2(2) p3(2)] by (simp add: enc_context_def)
  have n: "snd p3 - snd p1 + (snd p1 - snd p) = length (enc_context pdu) + length (enc_rpdu (p_pdu pdu) bs)"
    using prepended_snd [OF p1(2)] prepended_snd [OF q3] by simp
  obtain p4 where p4: "asn_realloc_rbuild_sequence malloc True ASN_SEQUENCE_CONSTRUCTOR (snd p3 - snd p1 + (snd p1 - snd p)) p3 = Inr p4"
      "prepended p3 (enc_header ASN_SEQUENCE_CONSTRUCTOR (length (enc_context pdu) + length (enc_rpdu (p_pdu pdu) bs))) p4"
    unfolding n asn_realloc_rbuild_sequence_def using rbuild_some [where malloc = malloc, OF rgood_header [OF prepended_rwf [OF q3] len] malloc] by blast
  have "prepended p (enc_scoped pdu (enc_rpdu (p_pdu pdu) bs)) p4"
    using prepended_trans [OF prepended_trans [OF p1(2) q3] p4(2)] by (simp add: enc_scoped_def)
  then show ?thesis using p1(1) p2(1) p3(1) p4(1) by (simp add: rbuild_scoped_def snmpv3_scopedPDU_header_realloc_rbuild_def Let_def)
qed


subsection \<open>Reading it back\<close>

lemma parse_ranged_enc:
  assumes "stored mem d (enc_int ASN_INTEGER x)" and "length (enc_int ASN_INTEGER x) \<le> l" and "0 \<le> least" and "least \<le> sint x" and "sint x \<le> 0x7fffffff"
  shows "parse_ranged mem d l least = Inr (d + length (enc_int ASN_INTEGER x), l - length (enc_int ASN_INTEGER x), x)"
  using parse_int_field [OF small_int_field assms(1,2)] assms(3-5) by (simp add: parse_ranged_def)

definition sent_header :: "v3_session \<Rightarrow> v3_pdu \<Rightarrow> nat \<Rightarrow> v3_header" where
  "sent_header session pdu d = \<lparr>h_version = p_version pdu, h_msgid = p_msgid pdu, h_max_size = se_rcvMsgMaxSize session,
     h_flags = snmpv3_calc_msg_flags (p_securityLevel pdu) (command (p_pdu pdu)), h_sec_model = p_securityModel pdu, h_sec_params = d\<rparr>"

lemma parse_global_enc:
  fixes session :: v3_session and pdu :: v3_pdu and k :: nat
  defines "H \<equiv> enc_header ASN_SEQUENCE_CONSTRUCTOR k" and "G \<equiv> enc_global session pdu"
  assumes ok: "header_ok session pdu" and st: "stored mem 0 (H @ G)" and k: "length G \<le> k" "k \<le> 0xffff" and len: "length H + k \<le> len"
    and buf: "length tmp_buf = 1472"
  shows "\<exists>l. parse_global tmp_buf mem 0 len = Inr (sent_header session pdu (length (H @ G)), l)"
proof -
  let ?F = "enc_global_fields session pdu" and ?flags = "snmpv3_calc_msg_flags (p_securityLevel pdu) (command (p_pdu pdu))"
  let ?v = "enc_int ASN_INTEGER (p_version pdu)" and ?h = "enc_header ASN_SEQUENCE_CONSTRUCTOR (length (enc_global_fields session pdu))"
  let ?id = "enc_int ASN_INTEGER (p_msgid pdu)" and ?max = "enc_int ASN_INTEGER (se_rcvMsgMaxSize session)"
  let ?fl = "enc_string ASN_OCTET_STR [?flags]" and ?mod = "enc_int ASN_INTEGER (word_of_int (p_securityModel pdu))"
  note f = header_fields [OF ok]
  have G: "G = ?v @ ?h @ ?id @ ?max @ ?fl @ ?mod" by (simp add: G_def enc_global_def enc_global_fields_def)
  have F: "?F = ?id @ ?max @ ?fl @ ?mod" by (simp add: enc_global_fields_def)
  define d1 where "d1 = length H"
  define d2 where "d2 = d1 + length ?v"
  define d3 where "d3 = d2 + length ?h"
  define d4 where "d4 = d3 + length ?id"
  define d5 where "d5 = d4 + length ?max"
  define d6 where "d6 = d5 + length ?fl"
  define d7 where "d7 = d6 + length ?mod"
  note d = d1_def d2_def d3_def d4_def d5_def d6_def d7_def
  have s: "stored mem 0 H" "stored mem d1 ?v" "stored mem d2 ?h" "stored mem d3 ?id" "stored mem d4 ?max" "stored mem d5 ?fl" "stored mem d6 ?mod"
    using st by (simp_all add: G d add.assoc)
  have kk: "length ?v + length ?h + length ?id + length ?max + length ?fl + length ?mod \<le> k" using k(1) by (simp add: G)
  have F1: "length ?F \<le> 0xffff" using length_enc_global_fields [of session pdu] by simp
  have 1: "asn_parse_sequence mem 0 len ASN_SEQUENCE_CONSTRUCTOR = Inr (d1, k, ASN_SEQUENCE_CONSTRUCTOR)"
    using parse_rseq_enc [OF s(1) [unfolded H_def] k(2), of len] len by (simp add: d1_def H_def)
  have 2: "asn_parse_int mem d1 k 8 = Inr (d2, k - length ?v, ASN_INTEGER, p_version pdu)"
    using parse_int_field [OF f(1) s(2), of k] kk by (simp add: d2_def)
  have 3: "asn_parse_sequence mem d2 (k - length ?v) ASN_SEQUENCE_CONSTRUCTOR = Inr (d3, length ?F, ASN_SEQUENCE_CONSTRUCTOR)"
    using parse_rseq_enc [OF s(3) F1, of "k - length ?v"] kk by (simp add: d3_def F)
  define l3 where "l3 = k - length ?v - length ?h"
  have l3: "usub64 (k - length ?v) (d3 - d2) = l3" using kk k(2) by (simp add: l3_def d3_def usub64_def)
  have 4: "parse_ranged mem d3 l3 0 = Inr (d4, l3 - length ?id, p_msgid pdu)"
    using parse_ranged_enc [OF s(4), of l3 0] ok kk by (simp add: d4_def header_ok_def l3_def)
  have 5: "parse_ranged mem d4 (l3 - length ?id) 484 = Inr (d5, l3 - (length ?id + length ?max), se_rcvMsgMaxSize session)"
    using parse_ranged_enc [OF s(5), of "l3 - length ?id" 484] ok kk by (simp add: d5_def header_ok_def l3_def)
  define l5 where "l5 = l3 - (length ?id + length ?max)"
  have 6: "asn_parse_string mem d5 l5 tmp_buf 1472 = Inr (d6, l5 - length ?fl, ASN_OCTET_STR, copied tmp_buf 1472 [?flags], 1)"
    using asn_parse_string_enc [OF s(6), of l5 1472 tmp_buf] kk buf by (simp add: d6_def l5_def l3_def string_type_def)
  have 7: "rd (copied tmp_buf 1472 [?flags]) 0 = Inr ?flags" by (simp add: rd_def copied_def store_at_def)
  have 8: "parse_ranged mem d6 (l5 - length ?fl) 1 = Inr (d7, l5 - length ?fl - length ?mod, word_of_int (p_securityModel pdu))"
    using parse_ranged_enc [OF s(7), of "l5 - length ?fl" 1] ok kk f(5) by (simp add: d7_def header_ok_def l5_def l3_def)
  have d7: "d7 = length (H @ G)" by (simp add: d G)
  show ?thesis
    using 1 2 3 4 5 6 7 8 f(5) l3 d7 by (simp add: parse_global_def sent_header_def flip: l5_def)
qed

lemma parse_scoped_enc:
  fixes pdu :: v3_pdu and bs :: "binding list" and msg :: v3_message
  defines "S \<equiv> enc_scoped pdu (enc_rpdu (p_pdu pdu) bs)"
  assumes ok: "pdu_ok (p_pdu pdu) bs" and st: "stored mem cp S" and len: "length S \<le> len" "len < 2 ^ 64" and short: "length S \<le> 0xffff"
    and ctx: "length (p_contextEngineID pdu) \<le> 32" "length (name_bytes (p_contextName pdu)) \<le> 256"
    and buf: "length tmp_buf = 1472" and obj: "length objid = 128" and addr: "length (agent_addr (v_pdu msg)) = 4" and alloc: "\<And>n. alloc n"
  shows "parse_scoped alloc objid tmp_buf (mem, cp, len) s msg =
    Inr (SNMPERR_SUCCESS, s, msg\<lparr>v_contextEngineID := p_contextEngineID pdu, v_contextName := name_bytes (p_contextName pdu),
      v_pdu := received ((v_pdu msg)\<lparr>command := command (p_pdu pdu)\<rparr>) (p_pdu pdu)\<rparr>)"
proof -
  let ?e = "enc_string ASN_OCTET_STR (p_contextEngineID pdu)" and ?n = "enc_string ASN_OCTET_STR (name_bytes (p_contextName pdu))"
  let ?P = "enc_rpdu (p_pdu pdu) bs" and ?c = "name_bytes (p_contextName pdu)"
  define h where "h = enc_header ASN_SEQUENCE_CONSTRUCTOR (length (enc_context pdu) + length ?P)"
  have S: "S = h @ ?e @ ?n @ ?P" by (simp add: S_def enc_scoped_def enc_context_def h_def)
  define d1 where "d1 = cp + length h"
  define d2 where "d2 = d1 + length ?e"
  define d3 where "d3 = d2 + length ?n"
  define l1 where "l1 = len - length h"
  have s: "stored mem cp h" "stored mem d1 ?e" "stored mem d2 ?n" "stored mem d3 ?P" using st by (simp_all add: S d1_def d2_def d3_def)
  have sz: "length h + length ?e + length ?n + length ?P \<le> len" "length (enc_context pdu) + length ?P \<le> 0xffff" "length ?P \<le> 0xffff"
    using len(1) short by (simp_all add: S enc_context_def)
  have 1: "asn_parse_sequence mem cp len ASN_SEQUENCE_CONSTRUCTOR = Inr (d1, length (enc_context pdu) + length ?P, ASN_SEQUENCE_CONSTRUCTOR)"
    using parse_rseq_enc [OF s(1) [unfolded h_def] sz(2), of len] sz(1) by (simp add: d1_def h_def enc_context_def)
  have l1: "usub64 len (d1 - cp) = l1" using sz(1) len(2) by (simp add: l1_def d1_def usub64_def)
  have 2: "asn_parse_string mem d1 l1 (replicate 32 0) 32 = Inr (d2, l1 - length ?e, ASN_OCTET_STR, copied (replicate 32 0) 32 (p_contextEngineID pdu), length (p_contextEngineID pdu))"
    using asn_parse_string_enc [OF s(2), of l1 32 "replicate 32 0"] sz(1) ctx by (simp add: d2_def l1_def string_type_def)
  have 3: "asn_parse_string mem d2 (l1 - length ?e) tmp_buf 256 = Inr (d3, l1 - (length ?e + length ?n), ASN_OCTET_STR, copied tmp_buf 256 ?c, length ?c)"
    using asn_parse_string_enc [OF s(3), of "l1 - length ?e" 256 tmp_buf] sz(1) ctx buf by (simp add: d3_def l1_def string_type_def)
  define l3 where "l3 = l1 - (length ?e + length ?n)"
  have l3: "length ?P \<le> l3" using sz(1) by (simp add: l3_def l1_def)
  have body: "length (enc_rbody (p_pdu pdu) bs) \<le> 0xffff" using sz(3) by (simp add: enc_rpdu_def)
  have 4: "asn_parse_header mem d3 l3 = Inr (d3 + length (enc_header (command (p_pdu pdu)) (length (enc_rbody (p_pdu pdu) bs))), length (enc_rbody (p_pdu pdu) bs), command (p_pdu pdu))"
    using s(4) l3 body pdu_command_plain [OF ok] by (intro asn_parse_header_enc) (simp_all add: enc_rpdu_def)
  have cop: "take (length (p_contextEngineID pdu)) (copied (replicate 32 0) 32 (p_contextEngineID pdu)) = p_contextEngineID pdu"
    "take (length ?c) (copied tmp_buf 256 ?c) = ?c"
    using ctx buf by (simp_all add: copied_take)
  have 5: "snmpv3_scopedPDU_parse alloc (replicate 32 0) tmp_buf mem cp len = Inr (Some (d3, l3, p_contextEngineID pdu, ?c, command (p_pdu pdu)))"
    using 1 2 3 4 l1 cop alloc by (simp add: snmpv3_scopedPDU_parse_def attempt_def flip: l3_def)
  have 6: "snmp_pdu_parse alloc objid mem d3 l3 ((v_pdu msg)\<lparr>command := command (p_pdu pdu)\<rparr>) = Inr (0, received ((v_pdu msg)\<lparr>command := command (p_pdu pdu)\<rparr>) (p_pdu pdu))"
    using addr by (intro pdu_parse_renc [where alloc = alloc, OF ok obj _ alloc s(4) body l3]) simp
  show ?thesis using 5 6 by (simp add: parse_scoped_def Let_def)
qed


subsection \<open>A service that encodes and one that decodes\<close>

lemma flags_level:
  "auth_level level \<Longrightarrow> security_level (snmpv3_calc_msg_flags level c) = level"
  "auth_level level \<Longrightarrow> snmpv3_calc_msg_flags level c AND SNMP_MSG_FLAG_AUTH_BIT \<noteq> 0"
  by (auto simp: security_level_def snmpv3_calc_msg_flags_def Let_def bit.conj_disj_distrib2)

text \<open>
  What the two sides of an exchange rely on: a scoped PDU that the sender's service wraps is delivered by the receiver's service, when the two are
  \<open>ready\<close> for the engine, the name and the level; \<open>r'\<close> is the state of the receiver afterwards.  \<open>scoped\<close> is the room for a decrypted PDU.
\<close>

locale secmod_pair =
  fixes encode :: secmod_encode and decode :: secmod_decode
    and ready :: "bytes \<Rightarrow> bytes \<Rightarrow> nat \<Rightarrow> out_state \<Rightarrow> usm \<Rightarrow> usm \<Rightarrow> bool"
  assumes ready_level: "ready eid name level s r st \<Longrightarrow> auth_level level"
    and delivers: "ready eid name level s r st \<Longrightarrow> rwf p \<Longrightarrow> used p \<noteq> [] \<Longrightarrow> length globalData + length eid + length name + snd p \<le> 65000 \<Longrightarrow>
      i_secLevel q = level \<Longrightarrow> i_sess q = Some SNMP_SESS_AUTHORITATIVE \<Longrightarrow> length (i_secName q) = 256 \<Longrightarrow> length (i_secEngineID q) = 64 \<Longrightarrow>
      (\<And>n. level = SNMP_SEC_LEVEL_AUTHPRIV \<Longrightarrow> n \<le> scoped n) \<Longrightarrow>
      \<exists>p' s' k rest r' m pos n. encode globalData eid name level (used p) None s p = Inr (Inr p', s') \<and> rwf p' \<and> snd p' \<le> 0xffff \<and>
        used p' = enc_header ASN_SEQUENCE_CONSTRUCTOR k @ globalData @ rest \<and> k = length globalData + length rest \<and>
        decode (q\<lparr>i_wholeMsg := used p', i_wholeMsgLen := snd p', i_secParams := length (enc_header ASN_SEQUENCE_CONSTRUCTOR k @ globalData),
          i_scopedPduLen := scoped (snd p')\<rparr>) r = Inr (SNMPERR_SUCCESS, r') \<and>
        scoped_memory (scoped (snd p')) r' = (m, pos, n) \<and> stored m pos (used p) \<and> snd p \<le> n \<and> n \<le> 0xffff \<and>
        r_engineID r' = eid \<and> take (r_nameLen r') (r_name r') = name \<and> r_usm r' = st"
begin

lemma packet_delivered:
  fixes pdu :: v3_pdu and bs :: "binding list" and session :: v3_session
  assumes ready: "ready (p_securityEngineID pdu) (name_bytes (p_securityName pdu)) (p_securityLevel pdu) s r st"
    and services: "find_sec_mod senders (p_securityModel pdu) = Some (Some encode)" "find_sec_mod receivers (p_securityModel pdu) = Some (Some decode)"
    and w: "rwf p" and malloc: "\<And>n. malloc n \<noteq> None" and alloc: "\<And>n. alloc n"
    and ok: "header_ok session pdu" "pdu_ok (p_pdu pdu) bs" "p_securityStateRef pdu = None"
    and ctx: "length (p_contextEngineID pdu) \<le> 32" "length (name_bytes (p_contextName pdu)) \<le> 256"
    and size: "length (p_securityEngineID pdu) + length (name_bytes (p_securityName pdu)) + length (enc_rpdu (p_pdu pdu) bs) + snd p \<le> 64000"
    and bufs: "length tmp_buf = 1472" "length objid = 128" "length (agent_addr pdu0) = 4"
  shows "\<exists>p' s' d. snmpv3_packet_realloc_rbuild senders malloc session pdu None s p = Inr (Inr p', s') \<and>
    snmpv3_parse receivers alloc objid tmp_buf (Some SNMP_SESS_AUTHORITATIVE) r pdu0 (used p') (snd p') =
      Inr (SNMPERR_SUCCESS, st, Some \<lparr>v_header = sent_header session pdu d, v_contextEngineID = p_contextEngineID pdu,
        v_contextName = name_bytes (p_contextName pdu), v_securityEngineID = p_securityEngineID pdu,
        v_securityName = name_bytes (p_securityName pdu), v_pdu = received (pdu0\<lparr>command := command (p_pdu pdu)\<rparr>) (p_pdu pdu)\<rparr>)"
proof -
  let ?level = "p_securityLevel pdu" and ?S = "enc_scoped pdu (enc_rpdu (p_pdu pdu) bs)" and ?G = "enc_global session pdu"
  let ?eid = "p_securityEngineID pdu" and ?name = "name_bytes (p_securityName pdu)"
  have level: "auth_level ?level" by (rule ready_level [OF ready])
  have c: "length (enc_context pdu) \<le> 300"
    using ctx length_enc_string [of ASN_OCTET_STR "p_contextEngineID pdu"] length_enc_string [of ASN_OCTET_STR "name_bytes (p_contextName pdu)"]
    by (simp add: enc_context_def)
  have "length (enc_context pdu) + length (enc_rpdu (p_pdu pdu) bs) \<le> 0xffff" using c size by simp
  then obtain p2 where p2: "rbuild_scoped malloc pdu None p = Inr p2" "prepended p ?S p2"
    using scoped_builds [where malloc = malloc, OF ok(2) w malloc] by blast
  have S: "length ?S \<le> length (enc_context pdu) + length (enc_rpdu (p_pdu pdu) bs) + 4" "?S \<noteq> []"
    using length_enc_length(2) [of "length (enc_context pdu) + length (enc_rpdu (p_pdu pdu) bs)"] by (simp_all add: enc_scoped_def enc_header_def)
  have u2: "used p2 = ?S @ used p" "rwf p2" "snd p2 = snd p + length ?S" using p2(2) by (simp_all add: prepended_def)
  obtain buf where buf: "malloc 51 = Some buf" using malloc by blast
  obtain hp where hp: "snmpv3_header_realloc_rbuild malloc session pdu (map buf [0..<51], 0) = Inr hp" "prepended (map buf [0..<51], 0) ?G hp"
    using header_builds [where malloc = malloc, OF ok(1) _ malloc, of "(map buf [0..<51], 0)"] by (auto simp: rwf_def)
  have G: "used hp = ?G" using hp(2) by (simp add: prepended_def used_def)
  define q where "q = \<lparr>i_maxMsgSize = unat (se_rcvMsgMaxSize session), i_secParams = 0, i_secLevel = ?level, i_wholeMsg = [], i_wholeMsgLen = 0,
    i_secEngineID = replicate 64 0, i_secName = replicate 256 0, i_scopedPduLen = 0, i_sess = Some SNMP_SESS_AUTHORITATIVE,
    i_msg_flags = snmpv3_calc_msg_flags ?level (command (p_pdu pdu))\<rparr>"
  have qf: "i_secLevel q = ?level" "i_sess q = Some SNMP_SESS_AUTHORITATIVE" "length (i_secName q) = 256" "length (i_secEngineID q) = 64" by (simp_all add: q_def)
  have rm: "n \<le> pdu_room alloc ?level n" if "?level = SNMP_SEC_LEVEL_AUTHPRIV" for n using that alloc by (simp add: pdu_room_def)
  have sz: "length ?G + length ?eid + length ?name + snd p2 \<le> 65000" using length_enc_global [of session pdu] size c S u2 by simp
  have ne: "used p2 \<noteq> []" using S(2) by (simp add: u2)
  obtain p' s' k rest r' m pos n where e: "encode ?G ?eid ?name ?level (used p2) None s p2 = Inr (Inr p', s')" "rwf p'" "snd p' \<le> 0xffff"
      "used p' = enc_header ASN_SEQUENCE_CONSTRUCTOR k @ ?G @ rest" "k = length ?G + length rest"
    and d: "decode (q\<lparr>i_wholeMsg := used p', i_wholeMsgLen := snd p', i_secParams := length (enc_header ASN_SEQUENCE_CONSTRUCTOR k @ ?G),
          i_scopedPduLen := pdu_room alloc ?level (snd p')\<rparr>) r = Inr (SNMPERR_SUCCESS, r')"
    and m: "scoped_memory (pdu_room alloc ?level (snd p')) r' = (m, pos, n)" "stored m pos (used p2)" "snd p2 \<le> n" "n \<le> 0xffff"
    and r': "r_engineID r' = ?eid" "take (r_nameLen r') (r_name r') = ?name" "r_usm r' = st"
    using delivers [where scoped = "pdu_room alloc ?level", OF ready u2(2) ne sz qf rm] by blast
  have build: "snmpv3_packet_realloc_rbuild senders malloc session pdu None s p = Inr (Inr p', s')"
    using p2(1) buf hp(1) services(1) e(1) G ok(3)
    by (simp add: snmpv3_packet_realloc_rbuild_def or_code_def used_def split: prod.splits)
  have lp: "length (used p') = snd p'" by (rule length_used [OF e(2)])
  define dd where "dd = length (enc_header ASN_SEQUENCE_CONSTRUCTOR k @ ?G)"
  obtain l where glob: "parse_global tmp_buf (used p') 0 (snd p') = Inr (sent_header session pdu dd, l)"
    using parse_global_enc [OF ok(1), of "used p'" k "snd p'" tmp_buf] e(3-5) lp bufs(1) by (auto simp: stored_def dd_def)
  have srv: "v3_service receivers tmp_buf (used p') 0 (snd p') = Inr (sent_header session pdu dd, Some decode)"
    using glob services(2) flags_level [OF level, of "command (p_pdu pdu)"] by (simp add: v3_service_def sent_header_def or_return_def)
  have st: "stored m pos ?S" using m(2) by (simp add: u2)
  have scoped: "parse_scoped alloc objid tmp_buf (m, pos, n) st (new_v3_message (sent_header session pdu dd) pdu0 r') =
      Inr (SNMPERR_SUCCESS, st, (new_v3_message (sent_header session pdu dd) pdu0 r')\<lparr>v_contextEngineID := p_contextEngineID pdu, v_contextName := name_bytes (p_contextName pdu),
      v_pdu := received ((v_pdu (new_v3_message (sent_header session pdu dd) pdu0 r'))\<lparr>command := command (p_pdu pdu)\<rparr>) (p_pdu pdu)\<rparr>)"
    using m(3,4) S(1) c size u2(3) bufs(3)
    by (intro parse_scoped_enc [where alloc = alloc, OF ok(2) st _ _ _ ctx bufs(1,2) _ alloc]) (simp_all add: new_v3_message_def)
  have "snmpv3_parse receivers alloc objid tmp_buf (Some SNMP_SESS_AUTHORITATIVE) r pdu0 (used p') (snd p') =
      Inr (SNMPERR_SUCCESS, st, Some \<lparr>v_header = sent_header session pdu dd, v_contextEngineID = p_contextEngineID pdu,
        v_contextName = name_bytes (p_contextName pdu), v_securityEngineID = ?eid,
        v_securityName = ?name, v_pdu = received (pdu0\<lparr>command := command (p_pdu pdu)\<rparr>) (p_pdu pdu)\<rparr>)"
    using srv alloc d m(1) r' scoped flags_level(1) [OF level, of "command (p_pdu pdu)"]
    by (simp add: snmpv3_parse_def sent_header_def q_def dd_def new_v3_message_def)
  with build show ?thesis by blast
qed

end


subsection \<open>The user-based security model at both ends\<close>

text \<open>
  Two engines can exchange messages of a user: memory is available, the sender knows the user and takes the receiver's boots and time to be \<open>boots\<close> and \<open>time\<close>, the receiver
  is that engine, knows an active user of that name with the same authentication key and finds these times timely.
  For privacy they share that protocol and key, and the deciphering of the library inverts its enciphering.
\<close>

definition private_ready :: "crypto \<Rightarrow> cipher \<Rightarrow> cipher \<Rightarrow> usmUser \<Rightarrow> usmUser \<Rightarrow> bool" where
  "private_ready cr des aes user user' \<longleftrightarrow>
     us_privProtocol user' = us_privProtocol user \<and> us_privKey user' = us_privKey user \<and> priv_protocol (us_privProtocol user) \<and>
     (\<exists>key. us_privKey user = Some key \<and> 16 \<le> length key \<and> length key < 2 ^ 32) \<and>
     (\<forall>k iv y. length (des k iv y) = length y \<and> length (aes k iv y) = length y \<and>
        (length y mod 8 = 0 \<longrightarrow> c_des cr k iv (des k iv y) = y) \<and> c_aes cr k iv (aes k iv y) = y)"

definition usm_ready ::
  "crypto \<Rightarrow> cipher \<Rightarrow> cipher \<Rightarrow> u32 \<Rightarrow> malloc \<Rightarrow> (nat \<Rightarrow> bool) \<Rightarrow> u32 \<Rightarrow> (nat \<Rightarrow> bool) \<Rightarrow> bytes \<Rightarrow> bytes \<Rightarrow>
   bytes \<Rightarrow> bytes \<Rightarrow> nat \<Rightarrow> out_state \<Rightarrow> usm \<Rightarrow> usm \<Rightarrow> bool" where
  "usm_ready cr des aes now malloc alloc now' alloc' sigBuf saltBuf eid name level s r st \<longleftrightarrow>
     (\<forall>n. malloc n \<noteq> None) \<and> (\<forall>n. alloc n) \<and> (\<forall>n. alloc' n) \<and> 12 \<le> length sigBuf \<and> 8 \<le> length saltBuf \<and>
     length name \<le> 32 \<and> 0 \<notin> set name \<and> length eid \<le> 64 \<and>
     (\<exists>user user' rc boots time l l' alg ust.
        usm_get_user eid name (o_usm s) = Some user \<and>
        get_enginetime (c_hash cr) now (u_lcd (um_state (o_usm s))) eid False = ((rc, boots, time), l) \<and> boots \<le> ENGINEBOOT_MAX \<and> time \<le> ENGINETIME_MAX \<and>
        ISENGINEKNOWN (c_hash cr) now' (u_lcd (um_state r)) eid = (True, l') \<and>
        usm_get_user_from_list eid name (um_users r) (um_noNameUser r) False = Some user' \<and> us_userStatus user' = RS_ACTIVE \<and>
        usm_check_and_update_timeliness (c_hash cr) now' ((um_state r)\<lparr>u_lcd := l'\<rparr>) eid boots time = (SNMPERR_SUCCESS, ust) \<and> st = r\<lparr>um_state := ust\<rparr> \<and>
        us_authProtocol user' = us_authProtocol user \<and> us_authKey user' = us_authKey user \<and>
        hash_of (us_authProtocol user) = Some alg \<and> mac_key_length alg \<le> length (us_authKey user) \<and> (\<forall>k m. 12 \<le> length (c_hmac cr alg k m)) \<and>
        (level = SNMP_SEC_LEVEL_AUTHNOPRIV \<or> level = SNMP_SEC_LEVEL_AUTHPRIV \<and> private_ready cr des aes user user'))"

lemma usm_ready_level: "usm_ready cr des aes now malloc alloc now' alloc' sigBuf saltBuf eid name level s r st \<Longrightarrow> auth_level level"
  by (auto simp: usm_ready_def)

lemma stored_pad: "stored (des_pad x @ z) 0 x" "stored (x @ z) 0 x"
  by (auto simp: stored_def des_pad_def Let_def)

lemma usm_delivers:
  assumes ready: "usm_ready cr des aes now malloc alloc now' alloc' sigBuf saltBuf eid name level s r st"
    and p: "rwf p" "used p \<noteq> []" "length globalData + length eid + length name + snd p \<le> 65000"
    and q: "i_secLevel q = level" "i_sess q = Some SNMP_SESS_AUTHORITATIVE" "length (i_secName q) = 256" "length (i_secEngineID q) = 64"
    and scoped: "\<And>n. level = SNMP_SEC_LEVEL_AUTHPRIV \<Longrightarrow> n \<le> scoped n"
  shows "\<exists>p' s' k rest r' m pos n.
    usm_rgenerate_out_msg cr des aes now malloc alloc globalData eid name level (used p) None s p = Inr (Inr p', s') \<and> rwf p' \<and> snd p' \<le> 0xffff \<and>
    used p' = enc_header ASN_SEQUENCE_CONSTRUCTOR k @ globalData @ rest \<and> k = length globalData + length rest \<and>
    usm_process_in_msg cr now' alloc' sigBuf saltBuf iv0 (q\<lparr>i_wholeMsg := used p', i_wholeMsgLen := snd p',
      i_secParams := length (enc_header ASN_SEQUENCE_CONSTRUCTOR k @ globalData), i_scopedPduLen := scoped (snd p')\<rparr>) r = Inr (SNMPERR_SUCCESS, r') \<and>
    scoped_memory (scoped (snd p')) r' = (m, pos, n) \<and> stored m pos (used p) \<and> snd p \<le> n \<and> n \<le> 0xffff \<and>
    r_engineID r' = eid \<and> take (r_nameLen r') (r_name r') = name \<and> r_usm r' = st"
proof -
  have mem: "\<And>n. malloc n \<noteq> None" "\<And>n. alloc n" "\<And>n. alloc' n"
    and bufs: "12 \<le> length sigBuf" "8 \<le> length saltBuf" "length eid \<le> length (i_secEngineID q)"
    and name: "length name \<le> 32" "length name < length (i_secName q)" "length (i_secName q) < 2 ^ 32" "0 \<notin> set name"
    using ready q(3,4) by (simp_all add: usm_ready_def)
  obtain user user' rc boots time l l' alg ust where sender: "usm_get_user eid name (o_usm s) = Some user"
      "get_enginetime (c_hash cr) now (u_lcd (um_state (o_usm s))) eid False = ((rc, boots, time), l)" "boots \<le> ENGINEBOOT_MAX" "time \<le> ENGINETIME_MAX"
    and receiver: "ISENGINEKNOWN (c_hash cr) now' (u_lcd (um_state r)) eid = (True, l')"
      "usm_get_user_from_list eid name (um_users r) (um_noNameUser r) False = Some user'" "us_userStatus user' = RS_ACTIVE"
      "usm_check_and_update_timeliness (c_hash cr) now' ((um_state r)\<lparr>u_lcd := l'\<rparr>) eid boots time = (SNMPERR_SUCCESS, ust)"
    and st: "st = r\<lparr>um_state := ust\<rparr>" and shared: "us_authProtocol user' = us_authProtocol user" "us_authKey user' = us_authKey user"
    and alg: "hash_of (us_authProtocol user) = Some alg" "mac_key_length alg \<le> length (us_authKey user)" "\<And>k m. 12 \<le> length (c_hmac cr alg k m)"
    and level: "level = SNMP_SEC_LEVEL_AUTHNOPRIV \<or> level = SNMP_SEC_LEVEL_AUTHPRIV \<and> private_ready cr des aes user user'"
    using ready unfolding usm_ready_def by blast
  have lp: "length (used p) = snd p" by (rule length_used [OF p(1)])
  show ?thesis
  proof (cases "level = SNMP_SEC_LEVEL_AUTHNOPRIV")
    case True
    obtain p' s' k rest r' n where x: "usm_rgenerate_out_msg cr des aes now malloc alloc globalData eid name level (used p) None s p = Inr (Inr p', s')"
        "rwf p'" "snd p' \<le> 0xffff" "used p' = enc_header ASN_SEQUENCE_CONSTRUCTOR k @ globalData @ rest" "k = length globalData + length rest"
        "usm_process_in_msg cr now' alloc' sigBuf saltBuf iv0 (q\<lparr>i_wholeMsg := used p', i_wholeMsgLen := snd p',
          i_secParams := length (enc_header ASN_SEQUENCE_CONSTRUCTOR k @ globalData), i_scopedPduLen := scoped (snd p')\<rparr>) r = Inr (SNMPERR_SUCCESS, r')"
      and y: "r_scopedPdu r' = InMessage n (snd p)" "drop n (r_msg r') = used p" "r_engineID r' = eid" "take (r_nameLen r') (r_name r') = name" "r_usm r' = st"
      using authNoPriv_roundtrip [where malloc = malloc and alloc = alloc and alloc' = alloc' and q = q and scoped = scoped and sigBuf = sigBuf and saltBuf = saltBuf and
          des = des and aes = aes and globalData = globalData and ?iv0.0 = iv0,
          OF p(1) mem sender receiver shared alg name bufs(3,1) p(3) q(1) [unfolded True] q(2)] True st by blast
    have len: "snd p = length (r_msg r') - n" using arg_cong [OF y(2), of length] lp by simp
    have "0 < snd p" using p(2) lp by (cases "used p") auto
    then have "stored (r_msg r') n (used p)" using y(2) len lp by (simp add: stored_def)
    moreover have "snd p \<le> 0xffff" using p(3) by simp
    ultimately have m: "scoped_memory (scoped (snd p')) r' = (r_msg r', n, snd p) \<and> stored (r_msg r') n (used p) \<and> snd p \<le> snd p \<and> snd p \<le> 0xffff"
      by (simp add: scoped_memory_def y(1))
    then show ?thesis using x y(3-5) by blast
  next
    case False
    then have lv: "level = SNMP_SEC_LEVEL_AUTHPRIV" and pr: "private_ready cr des aes user user'" using level by auto
    then obtain key where priv: "priv_protocol (us_privProtocol user)" "us_privKey user = Some key" "16 \<le> length key" "length key < 2 ^ 32"
        "us_privProtocol user' = us_privProtocol user" "us_privKey user' = us_privKey user"
      and ciphers: "\<And>k iv y. length (des k iv y) = length y" "\<And>k iv y. length (aes k iv y) = length y"
        "\<And>k iv y. length y mod 8 = 0 \<Longrightarrow> c_des cr k iv (des k iv y) = y" "\<And>k iv y. c_aes cr k iv (aes k iv y) = y"
      by (auto simp: private_ready_def)
    have sc: "snd p + 7 \<le> scoped n" if "snd p + 7 \<le> n" for n using scoped [OF lv, of n] that by simp
    define pt where "pt = (if us_privProtocol user = usmDESPrivProtocol then des_pad (used p) else used p)"
    obtain p' s' k rest r' where x: "usm_rgenerate_out_msg cr des aes now malloc alloc globalData eid name level (used p) None s p = Inr (Inr p', s')"
        "rwf p'" "snd p' \<le> 0xffff" "used p' = enc_header ASN_SEQUENCE_CONSTRUCTOR k @ globalData @ rest" "k = length globalData + length rest"
        "usm_process_in_msg cr now' alloc' sigBuf saltBuf iv0 (q\<lparr>i_wholeMsg := used p', i_wholeMsgLen := snd p',
          i_secParams := length (enc_header ASN_SEQUENCE_CONSTRUCTOR k @ globalData), i_scopedPduLen := scoped (snd p')\<rparr>) r = Inr (SNMPERR_SUCCESS, r')"
      and y: "r_scopedPdu r' = Decrypted pt" "r_engineID r' = eid" "take (r_nameLen r') (r_name r') = name" "r_usm r' = st"
      using authPriv_roundtrip [where malloc = malloc and alloc = alloc and alloc' = alloc' and q = q and scoped = scoped and sigBuf = sigBuf and saltBuf = saltBuf and
          des = des and aes = aes and globalData = globalData and ?iv0.0 = iv0,
          OF p(1) mem sender receiver shared priv(5,6) alg priv(1-4) ciphers name bufs(3,1,2) sc p(2,3) q(1) [unfolded lv] q(2)] lv st
      unfolding pt_def by blast
    have "length pt \<le> snd p + 7" "snd p \<le> length pt" using length_des_pad [of "used p"] lp by (simp_all add: pt_def)
    then have m: "scoped_memory (scoped (snd p')) r' = (pt @ replicate (scoped (snd p') - length pt) 0, 0, length pt) \<and>
        stored (pt @ replicate (scoped (snd p') - length pt) 0) 0 (used p) \<and> snd p \<le> length pt \<and> length pt \<le> 0xffff"
      using stored_pad p(3) by (simp add: scoped_memory_def y(1) pt_def)
    then show ?thesis using x y(2-4) by blast
  qed
qed

interpretation usm_exchange: secmod_pair "usm_rgenerate_out_msg cr des aes now malloc alloc" "usm_process_in_msg cr now' alloc' sigBuf saltBuf iv0"
    "usm_ready cr des aes now malloc alloc now' alloc' sigBuf saltBuf" for cr des aes now malloc alloc now' alloc' sigBuf saltBuf iv0
  by unfold_locales (erule usm_ready_level, rule usm_delivers)


subsection \<open>The whole message\<close>

text \<open>
  C2 (SNMPv3 round trip).  Let the session fill in what the PDU leaves open, and let the two engines be ready for the user and for a level with
  authentication (\<open>usm_ready\<close>: they share the user's protocols and keys, the receiver is the authoritative engine and finds the sender's boots and time timely,
  memory is available and the deciphering inverts the enciphering).  If the header fields are in the range of the protocol, the PDU is
  one that the encoding represents (\<open>pdu_ok\<close>) and engine identifiers, names and PDU stay within the stated sizes, then \<open>snmpv3_build\<close>, with
  reverse encoding, makes a message, and \<open>snmpv3_parse\<close> of the receiving engine accepts it and gives back the header, the context, the security name
  and engine and the PDU with all its variables; with privacy as without.
\<close>

theorem snmpv3_message_roundtrip:
  assumes fill: "v3_defaults alloc default_secmodel session pdu = (session', Inr msg)"
    and ready: "usm_ready cr des aes now malloc alloc now' alloc' sigBuf saltBuf
      (p_securityEngineID msg) (name_bytes (p_securityName msg)) (p_securityLevel msg) s r st"
    and services: "find_sec_mod senders (p_securityModel msg) = Some (Some (usm_rgenerate_out_msg cr des aes now malloc alloc))"
      "find_sec_mod receivers (p_securityModel msg) = Some (Some (usm_process_in_msg cr now' alloc' sigBuf saltBuf iv0))"
    and w: "rwf p" and ok: "header_ok session' msg" "pdu_ok (p_pdu msg) bs" "p_securityStateRef msg = None"
    and ctx: "length (p_contextEngineID msg) \<le> 32" "length (name_bytes (p_contextName msg)) \<le> 256"
    and size: "length (p_securityEngineID msg) + length (name_bytes (p_securityName msg)) + length (enc_rpdu (p_pdu msg) bs) + snd p \<le> 64000"
    and bufs: "length tmp_buf = 1472" "length objid = 128" "length (agent_addr pdu0) = 4"
  shows "\<exists>p' s' d. snmpv3_build senders malloc alloc default_secmodel session pdu s p = Inr (Inr p', 0, session', s') \<and>
    snmpv3_parse receivers alloc' objid tmp_buf (Some SNMP_SESS_AUTHORITATIVE) r pdu0 (used p') (snd p') =
      Inr (SNMPERR_SUCCESS, st, Some \<lparr>v_header = sent_header session' msg d, v_contextEngineID = p_contextEngineID msg,
        v_contextName = name_bytes (p_contextName msg), v_securityEngineID = p_securityEngineID msg,
        v_securityName = name_bytes (p_securityName msg), v_pdu = received (pdu0\<lparr>command := command (p_pdu msg)\<rparr>) (p_pdu msg)\<rparr>)"
proof -
  have mem: "\<And>n. malloc n \<noteq> None" "\<And>n. alloc' n" using ready by (simp_all add: usm_ready_def)
  from usm_exchange.packet_delivered [where malloc = malloc and alloc = alloc', OF ready services w mem ok ctx size bufs]
  show ?thesis using fill by (auto simp: snmpv3_build_def)
qed

definition sample_session :: v3_session where
  "sample_session = \<lparr>se_rcvMsgMaxSize = 1472, se_securityEngineID = [0x80, 1], se_contextEngineID = [], se_contextName = Some [],
     se_securityModel = - 1, se_securityName = Some [0x61], se_securityLevel = 3\<rparr>"

definition open_pdu :: v3_pdu where
  "open_pdu = \<lparr>p_version = 3, p_msgid = 5, p_securityModel = - 1, p_securityLevel = 0, p_contextEngineID = [], p_contextName = None,
     p_securityEngineID = [], p_securityName = None, p_securityStateRef = None, p_pdu = sample_pdu\<rparr>"

definition filled_pdu :: v3_pdu where
  "filled_pdu = \<lparr>p_version = 3, p_msgid = 5, p_securityModel = 3, p_securityLevel = 3, p_contextEngineID = [0x80, 1], p_contextName = Some [],
     p_securityEngineID = [0x80, 1], p_securityName = Some [0x61], p_securityStateRef = None, p_pdu = sample_pdu\<rparr>"

lemma sample_filled: "v3_defaults (\<lambda>_. True) (- 1) sample_session open_pdu = (sample_session, Inr filled_pdu)"
proof -
  have 1: "v3_command (p_pdu open_pdu) = Inr sample_pdu" by (simp add: v3_command_def open_pdu_def sample_pdu_def zero_defaults_def)
  have 2: "v3_context (\<lambda>_. True) sample_session (v3_engines (\<lambda>_. True) sample_session (open_pdu\<lparr>p_pdu := sample_pdu\<rparr>)) =
      Inr (open_pdu\<lparr>p_securityEngineID := [0x80, 1], p_contextEngineID := [0x80, 1], p_contextName := Some []\<rparr>)"
    by (simp add: v3_context_def v3_engines_def snmpv3_clone_engineID_def Let_def sample_session_def open_pdu_def)
  have 3: "v3_name (\<lambda>_. True) sample_session (v3_model (- 1) sample_session (open_pdu\<lparr>p_securityEngineID := [0x80, 1], p_contextEngineID := [0x80, 1], p_contextName := Some []\<rparr>)) =
      (sample_session, Inr (filled_pdu\<lparr>p_securityLevel := 0\<rparr>))"
    by (simp add: v3_name_def v3_model_def name_bytes_def Let_def sample_session_def open_pdu_def filled_pdu_def)
  show ?thesis using 1 2 3 by (simp add: v3_defaults_def v3_level_def sample_session_def filled_pdu_def)
qed

definition private_crypto :: crypto where
  "private_crypto = sample_crypto\<lparr>c_des := sample_decipher, c_aes := sample_decipher\<rparr>"

lemma private_crypto_simps:
  "c_hash private_crypto = (\<lambda>bs. Some bs)" "c_hmac private_crypto = sample_hmac" "c_des private_crypto = sample_decipher" "c_aes private_crypto = sample_decipher"
  by (simp_all add: private_crypto_def sample_crypto_simps)

lemma sample_ready:
  "usm_ready private_crypto sample_cipher sample_cipher 900 (\<lambda>_. Some (\<lambda>_. 0)) (\<lambda>_. True) 900 (\<lambda>_. True) zeros16 zeros16
     [0x80, 1] [0x61] 3 (sample_sender private_account) (sample_db\<lparr>um_users := [private_account]\<rparr>) (sample_db\<lparr>um_users := [private_account], um_state := sample_after\<rparr>)"
proof -
  obtain l where l: "get_enginetime (\<lambda>bs. Some bs) 900 (u_lcd (um_state (o_usm (sample_sender private_account)))) [0x80, 1] False = ((SNMPERR_SUCCESS, 3, 1000), l)"
    using sample_sender_time by blast
  have u: "usm_get_user_from_list [0x80, 1] [0x61] [private_account] x False = Some private_account" for x
    by (simp add: usm_get_user_from_list_def user_matches_key private_account cstr_def)
  have p: "private_ready private_crypto sample_cipher sample_cipher private_account private_account"
    by (simp add: private_ready_def private_account private_crypto_simps sample_cipher_def sample_decipher_def comp_def)
  show ?thesis
    unfolding usm_ready_def
    by (intro conjI exI [of _ private_account] exI [of _ "0 :: int"] exI [of _ "3 :: u32"] exI [of _ "1000 :: u32"] exI [of _ l] exI [of _ "u_lcd (um_state sample_db)"]
        exI [of _ EVP_md5] exI [of _ sample_after])
      (use l u p sample_sender_user [OF private_account(1,2)] sample_known sample_time private_account
        in \<open>simp_all add: private_crypto_simps sample_hmac_def\<close>)
qed

theorem snmpv3_message_roundtrip_witness:
  "\<exists>p' s' d. snmpv3_build [(3, Some (usm_rgenerate_out_msg private_crypto sample_cipher sample_cipher 900 (\<lambda>_. Some (\<lambda>_. 0)) (\<lambda>_. True)))]
      (\<lambda>_. Some (\<lambda>_. 0)) (\<lambda>_. True) (- 1) sample_session open_pdu (sample_sender private_account) ([], 0) = Inr (Inr p', 0, sample_session, s') \<and>
    snmpv3_parse [(3, Some (usm_process_in_msg private_crypto 900 (\<lambda>_. True) zeros16 zeros16 zeros16))] (\<lambda>_. True) (replicate 128 0) (replicate 1472 0) (Some 1)
        (sample_db\<lparr>um_users := [private_account]\<rparr>) sample_pdu (used p') (snd p') =
      Inr (SNMPERR_SUCCESS, sample_db\<lparr>um_users := [private_account], um_state := sample_after\<rparr>, Some \<lparr>v_header = sent_header sample_session filled_pdu d,
        v_contextEngineID = [0x80, 1], v_contextName = [], v_securityEngineID = [0x80, 1], v_securityName = [0x61],
        v_pdu = received (sample_pdu\<lparr>command := command sample_pdu\<rparr>) sample_pdu\<rparr>)"
proof -
  have f: "p_securityEngineID filled_pdu = [0x80, 1]" "name_bytes (p_securityName filled_pdu) = [0x61]" "p_securityLevel filled_pdu = 3" "p_securityModel filled_pdu = 3"
    "p_pdu filled_pdu = sample_pdu" "p_securityStateRef filled_pdu = None" "p_contextEngineID filled_pdu = [0x80, 1]" "name_bytes (p_contextName filled_pdu) = []"
    by (simp_all add: filled_pdu_def name_bytes_def)
  have h: "header_ok sample_session filled_pdu" by (simp add: header_ok_def sample_session_def filled_pdu_def int_field_def)
  have n: "length (enc_rpdu sample_pdu sample_bindings) \<le> 300"
  proof -
    have "length (enc_header t n) \<le> 4" for t n using length_enc_length(2) [of n] by (simp add: enc_header_def)
    from this [of "command sample_pdu" "length (enc_rbody sample_pdu sample_bindings)"] show ?thesis using sample_enc(2) by (simp add: enc_rpdu_def)
  qed
  show ?thesis
    using snmpv3_message_roundtrip [OF sample_filled, of private_crypto sample_cipher sample_cipher 900 "\<lambda>_. Some (\<lambda>_. 0)" 900 "\<lambda>_. True" zeros16 zeros16
        "sample_sender private_account" "sample_db\<lparr>um_users := [private_account]\<rparr>" "sample_db\<lparr>um_users := [private_account], um_state := sample_after\<rparr>"
        "[(3, Some (usm_rgenerate_out_msg private_crypto sample_cipher sample_cipher 900 (\<lambda>_. Some (\<lambda>_. 0)) (\<lambda>_. True)))]"
        "[(3, Some (usm_process_in_msg private_crypto 900 (\<lambda>_. True) zeros16 zeros16 zeros16))]" zeros16 "([], 0)" sample_bindings "replicate 1472 0" "replicate 128 0" sample_pdu]
      sample_ready h n sample_pdu_ok
    by (simp add: f find_sec_mod_def rwf_def) (simp add: sample_pdu_def)
qed


subsection \<open>What is filled in\<close>

definition v3_commands :: "u8 list" where
  "v3_commands = [SNMP_MSG_GET, SNMP_MSG_GETNEXT, SNMP_MSG_RESPONSE, SNMP_MSG_SET, SNMP_MSG_GETBULK, SNMP_MSG_INFORM, SNMP_MSG_TRAP2, SNMP_MSG_REPORT]"

lemma v3_command_legal:
  assumes "v3_command pdu = Inr pdu'"
  shows "command pdu' = command pdu \<and> variables pdu' = variables pdu \<and> reqid pdu' = reqid pdu \<and> command pdu' \<in> set v3_commands \<and>
    (if command pdu' = SNMP_MSG_GETBULK then 0 \<le> sint (errstat pdu') \<and> 0 \<le> sint (errindex pdu') else errstat pdu' \<noteq> - 1 \<and> errindex pdu' \<noteq> - 1)"
  using assms by (auto simp: v3_command_def v3_commands_def zero_defaults_def Let_def split: if_splits)

lemma v3_context_fills:
  "v3_context alloc session pdu = Inr pdu' \<Longrightarrow>
   p_contextName pdu' \<noteq> None \<and> pdu' = pdu\<lparr>p_contextName := (if p_contextName pdu = None then se_contextName session else p_contextName pdu)\<rparr>"
  by (auto simp: v3_context_def split: option.splits if_splits)

lemma v3_name_fills:
  "v3_name alloc session pdu = (session', Inr pdu') \<Longrightarrow>
   pdu' = pdu\<lparr>p_securityName := (if p_securityName pdu = None then se_securityName session' else p_securityName pdu)\<rparr> \<and>
   session' = session\<lparr>se_securityName := se_securityName session'\<rparr> \<and>
   (se_securityName session \<noteq> None \<longrightarrow> se_securityName session' = se_securityName session)"
  by (auto simp: v3_name_def Let_def split: option.splits if_splits)

lemma v3_level_fills:
  "v3_level session pdu = Inr pdu' \<Longrightarrow>
   p_securityLevel pdu' \<noteq> 0 \<and> pdu' = pdu\<lparr>p_securityLevel := (if p_securityLevel pdu = 0 then se_securityLevel session else p_securityLevel pdu)\<rparr>"
  by (auto simp: v3_level_def split: if_splits)

lemma v3_model_fills:
  "v3_model default_secmodel session pdu = pdu\<lparr>p_securityModel :=
     (if p_securityModel pdu \<noteq> SNMP_DEFAULT_SECMODEL then p_securityModel pdu
      else if se_securityModel session \<noteq> SNMP_DEFAULT_SECMODEL then se_securityModel session
      else if default_secmodel \<le> 0 then SNMP_SEC_MODEL_USM else default_secmodel)\<rparr>"
  by (auto simp: v3_model_def Let_def)

lemma v3_engines_fills:
  "\<exists>sec ctx. v3_engines alloc session pdu = pdu\<lparr>p_securityEngineID := sec, p_contextEngineID := ctx\<rparr>"
  unfolding v3_engines_def Let_def by (intro exI) (rule refl)

lemma v3_engines_given:
  "(p_securityEngineID pdu \<noteq> [] \<longrightarrow> p_securityEngineID (v3_engines alloc session pdu) = p_securityEngineID pdu) \<and>
   (p_contextEngineID pdu \<noteq> [] \<longrightarrow> p_contextEngineID (v3_engines alloc session pdu) = p_contextEngineID pdu) \<and>
   ((\<forall>n. alloc n) \<longrightarrow>
      p_securityEngineID (v3_engines alloc session pdu) =
        (if p_securityEngineID pdu = [] then se_securityEngineID session else p_securityEngineID pdu) \<and>
      p_contextEngineID (v3_engines alloc session pdu) = (if p_contextEngineID pdu \<noteq> [] then p_contextEngineID pdu
         else if se_contextEngineID session \<noteq> [] then se_contextEngineID session
         else p_securityEngineID (v3_engines alloc session pdu)))"
  by (simp add: v3_engines_def snmpv3_clone_engineID_def Let_def)

text \<open>The five steps of \<open>v3_defaults\<close>, when all of them succeed.\<close>

lemma v3_defaults_steps:
  assumes "v3_defaults alloc default_secmodel session pdu = (session', Inr msg)"
  obtains pdu0 pdu1 pdu2 where "v3_command (p_pdu pdu) = Inr pdu0"
    and "v3_context alloc session (v3_engines alloc session (pdu\<lparr>p_pdu := pdu0\<rparr>)) = Inr pdu1"
    and "v3_name alloc session (v3_model default_secmodel session pdu1) = (session', Inr pdu2)"
    and "v3_level session' pdu2 = Inr msg"
  using assms by (auto simp: v3_defaults_def split: sum.splits prod.splits)

lemma v3_defaults_msg:
  assumes "v3_defaults alloc default_secmodel session pdu = (session', Inr msg)"
  obtains pdu0 sec ctx name where "v3_command (p_pdu pdu) = Inr pdu0"
    and "msg = pdu\<lparr>p_pdu := pdu0, p_securityEngineID := sec, p_contextEngineID := ctx,
      p_contextName := (if p_contextName pdu = None then se_contextName session else p_contextName pdu),
      p_securityModel := p_securityModel (v3_model default_secmodel session pdu),
      p_securityName := (if p_securityName pdu = None then name else p_securityName pdu),
      p_securityLevel := (if p_securityLevel pdu = 0 then se_securityLevel session else p_securityLevel pdu)\<rparr>"
    and "p_contextName msg \<noteq> None" and "p_securityLevel msg \<noteq> 0"
    and "session' = session\<lparr>se_securityName := name\<rparr>" and "se_securityName session \<noteq> None \<longrightarrow> name = se_securityName session"
    and "v3_engines alloc session (pdu\<lparr>p_pdu := pdu0\<rparr>) = pdu\<lparr>p_pdu := pdu0, p_securityEngineID := sec, p_contextEngineID := ctx\<rparr>"
proof -
  from assms obtain pdu0 pdu1 pdu2 where s: "v3_command (p_pdu pdu) = Inr pdu0"
      "v3_context alloc session (v3_engines alloc session (pdu\<lparr>p_pdu := pdu0\<rparr>)) = Inr pdu1"
      "v3_name alloc session (v3_model default_secmodel session pdu1) = (session', Inr pdu2)" "v3_level session' pdu2 = Inr msg"
    by (rule v3_defaults_steps)
  obtain sec ctx where e: "v3_engines alloc session (pdu\<lparr>p_pdu := pdu0\<rparr>) = pdu\<lparr>p_pdu := pdu0, p_securityEngineID := sec, p_contextEngineID := ctx\<rparr>"
    using v3_engines_fills [of alloc session "pdu\<lparr>p_pdu := pdu0\<rparr>"] by blast
  obtain name where n: "session' = session\<lparr>se_securityName := name\<rparr>" "se_securityName session \<noteq> None \<longrightarrow> name = se_securityName session"
    using v3_name_fills [OF s(3)] by metis
  have c1: "p_contextName pdu1 \<noteq> None" using v3_context_fills [OF s(2)] by blast
  have c2: "pdu1 = pdu\<lparr>p_pdu := pdu0, p_securityEngineID := sec, p_contextEngineID := ctx,
      p_contextName := (if p_contextName pdu = None then se_contextName session else p_contextName pdu)\<rparr>"
    using conjunct2 [OF v3_context_fills [OF s(2)]] unfolding e by simp
  note l = v3_level_fills [OF s(4)]
  have p: "pdu2 = pdu1\<lparr>p_securityModel := p_securityModel (v3_model default_secmodel session pdu),
      p_securityName := (if p_securityName pdu = None then name else p_securityName pdu)\<rparr>"
    using v3_name_fills [OF s(3)] unfolding v3_model_fills c2 n(1) by simp
  have m: "msg = pdu2\<lparr>p_securityLevel := (if p_securityLevel pdu = 0 then se_securityLevel session else p_securityLevel pdu)\<rparr>"
    using conjunct2 [OF l] unfolding p c2 n(1) by simp
  have "p_contextName msg \<noteq> None" using c1 unfolding m p by simp
  from that [OF s(1) _ this conjunct1 [OF l] n e] show thesis unfolding m p c2 by simp
qed



text \<open>A response is matched with a request only if all identifying fields agree; a report is not compared.\<close>

lemma memcmp_same: "length a = length b \<and> memcmp a b (length b) = 0 \<longleftrightarrow> a = b"
  by (auto simp: memcmp_equal_length memcmp_lex split: if_splits)

lemma snmpv3_verify_msg_iff:
  "snmpv3_verify_msg request_id rpdu pdu \<longleftrightarrow> command (p_pdu pdu) = SNMP_MSG_REPORT \<or>
     (request_id = reqid (p_pdu pdu) \<and> reqid (p_pdu rpdu) = reqid (p_pdu pdu) \<and> p_version rpdu = p_version pdu \<and> p_securityModel rpdu = p_securityModel pdu \<and>
      p_securityLevel rpdu = p_securityLevel pdu \<and> p_contextEngineID rpdu = p_contextEngineID pdu \<and> name_bytes (p_contextName rpdu) = name_bytes (p_contextName pdu) \<and>
      (p_securityModel pdu = SNMP_SEC_MODEL_USM \<longrightarrow> p_securityEngineID rpdu = p_securityEngineID pdu) \<and>
      name_bytes (p_securityName rpdu) = name_bytes (p_securityName pdu))"
  unfolding snmpv3_verify_msg_def using memcmp_same by (smt (verit))

end
