(* ===== verification/Int64_Arith.thy ===== *)
theory Int64_Arith
  imports Asn1_Int64
begin

unbundle bit_operations_syntax

section \<open>64-bit integers in two halves (\<open>snmplib/int64.c\<close>)\<close>

text \<open>
  The arithmetic on \<open>U64\<close> (\<open>struct counter64\<close>): division and multiplication by ten in 16-bit
  steps, addition and subtraction with an explicit carry, the update of a 64-bit counter from
  32-bit readings, and the conversions to and from decimal text.

  \<open>u64_val c\<close> is the number a pair stands for and \<open>u64_ok c\<close> says that both halves fit 32 bits.
  The lemmas show that each operation is the operation on \<open>u64_val\<close> modulo \<open>2 ^ 64\<close>.  A buffer of
  text is the string that ends at its NUL; \<open>printU64\<close> is \<open>None\<close> when it would leave its array.
\<close>

definition divBy10 :: "counter64 \<Rightarrow> counter64 \<times> u64" where
  "divBy10 c =
     (let ulT = drop_bit 16 (ctr_high c) AND 0x0ffff;
          ulQ = ulT div 10; ulR = ulT mod 10;
          high = push_bit 16 ulQ;
          ulT = (ctr_high c AND 0x0ffff) + push_bit 16 ulR;
          ulQ = ulT div 10; ulR = ulT mod 10;
          high = high OR ulQ;
          ulT = (drop_bit 16 (ctr_low c) AND 0x0ffff) + push_bit 16 ulR;
          ulQ = ulT div 10; ulR = ulT mod 10;
          low = push_bit 16 ulQ;
          ulT = (ctr_low c AND 0x0ffff) + push_bit 16 ulR;
          ulQ = ulT div 10; ulR = ulT mod 10;
          low = low OR ulQ in
      (\<lparr>ctr_high = high, ctr_low = low\<rparr>, ulR))"

definition multBy10 :: "counter64 \<Rightarrow> counter64" where
  "multBy10 c =
     (let ulT = ctr_low c AND 0x0ffff;
          ulP = ulT * 10; ulK = drop_bit 16 ulP;
          low = ulP AND 0x0ffff;
          ulT = drop_bit 16 (ctr_low c) AND 0x0ffff;
          ulP = ulT * 10 + ulK; ulK = drop_bit 16 ulP;
          low = push_bit 16 (ulP AND 0x0ffff) OR low;
          ulT = ctr_high c AND 0x0ffff;
          ulP = ulT * 10 + ulK; ulK = drop_bit 16 ulP;
          high = ulP AND 0x0ffff;
          ulT = drop_bit 16 (ctr_high c) AND 0x0ffff;
          ulP = ulT * 10 + ulK;
          high = push_bit 16 (ulP AND 0x0ffff) OR high in
      \<lparr>ctr_high = high, ctr_low = low\<rparr>)"

definition incrByU32 :: "counter64 \<Rightarrow> u32 \<Rightarrow> counter64" where
  "incrByU32 c u =
     (let tmp = ucast (ctr_low c) :: u32;
          low = ucast (tmp + u) :: u64 in
      if low < ucast tmp
      then \<lparr>ctr_high = ucast (ucast (ctr_high c + 1) :: u32), ctr_low = low\<rparr>
      else c\<lparr>ctr_low := low\<rparr>)"

definition incrByU16 :: "counter64 \<Rightarrow> u32 \<Rightarrow> counter64" where
  "incrByU16 c u = incrByU32 c u"

definition u64Subtract :: "counter64 \<Rightarrow> counter64 \<Rightarrow> counter64" where
  "u64Subtract one two =
     (let carry = (if ctr_low one < ctr_low two then 1 else 0 :: u64) in
      \<lparr>ctr_high = ucast (ucast (ctr_high one - ctr_high two - carry) :: u32),
       ctr_low = ucast (ucast (ctr_low one - ctr_low two) :: u32)\<rparr>)"

definition u64Incr :: "counter64 \<Rightarrow> counter64 \<Rightarrow> counter64" where
  "u64Incr out one =
     incrByU32 (out\<lparr>ctr_high := ucast (ucast (ctr_high out + ctr_high one) :: u32)\<rparr>) (ucast (ctr_low one))"

definition u64UpdateCounter :: "counter64 \<Rightarrow> counter64 \<Rightarrow> counter64 \<Rightarrow> counter64" where
  "u64UpdateCounter out one two = u64Incr out (u64Subtract one two)"

definition zeroU64 :: counter64 where
  "zeroU64 = \<lparr>ctr_high = 0, ctr_low = 0\<rparr>"

definition isZeroU64 :: "counter64 \<Rightarrow> bool" where
  "isZeroU64 c \<longleftrightarrow> ctr_low c = 0 \<and> ctr_high c = 0"

text \<open>The result and the adjusted \<open>*new_val\<close>; \<open>None\<close> is a \<open>NULL\<close> pointer.\<close>

definition netsnmp_c64_check_for_32bit_wrap ::
  "counter64 option \<Rightarrow> counter64 option \<Rightarrow> bool \<Rightarrow> int \<times> counter64 option" where
  "netsnmp_c64_check_for_32bit_wrap old_val new_val adjust =
     (case (old_val, new_val) of
        (Some old, Some new) \<Rightarrow>
          if ctr_low new \<ge> ctr_low old \<and> ctr_high new = ctr_high old then (0, new_val)
          else if ctr_high new = ctr_high old then
            (32, Some (if adjust then new\<lparr>ctr_high := ucast (ucast (ctr_high new + 1) :: u32)\<rparr> else new))
          else if ctr_high new = ucast (ucast (ctr_high old + 1) :: u32) then (64, new_val)
          else (-2, new_val)
      | _ \<Rightarrow> (-1, new_val))"

text \<open>
  The result, \<open>*prev_val\<close>, \<open>*new_val\<close> and \<open>*need_wrap_check\<close>.  \<open>netsnmp_assert\<close> only logs; that
  its condition holds is part of the theorem below.  The three counters are there; for a \<open>NULL\<close> counter the code
  returns -1, or dereferences it.
\<close>

definition netsnmp_c64_check32_and_update ::
  "counter64 \<Rightarrow> counter64 \<Rightarrow> counter64 \<Rightarrow> int option \<Rightarrow> int \<times> counter64 \<times> counter64 \<times> int option" where
  "netsnmp_c64_check32_and_update prev_val new_val old_prev_val need_wrap_check =
     (let (rc, new') =
        (if need_wrap_check = None \<or> need_wrap_check \<noteq> Some 0
         then (case netsnmp_c64_check_for_32bit_wrap (Some old_prev_val) (Some new_val) True of
                 (rc, new) \<Rightarrow> (rc, the new))
         else (0, new_val)) in
      if rc < 0 then (-1, prev_val, new', need_wrap_check)
      else
        let prev' = u64UpdateCounter prev_val new' old_prev_val in
        if rc = 32 then (0, prev', new'\<lparr>ctr_high := 0\<rparr>, need_wrap_check)
        else if rc = 64 then
          if ctr_low prev' \<noteq> ctr_low new' \<or> ctr_high prev' \<noteq> ctr_high new' then (-2, prev', new', need_wrap_check)
          else (0, prev', new', if need_wrap_check \<noteq> None then Some 0 else None)
        else (0, prev', new', need_wrap_check))"

text \<open>
  The loop of \<open>printU64\<close>: \<open>n\<close> is \<open>I64CHARSZ - j\<close> and \<open>res\<close> the part of \<open>aRes\<close> already filled.  A
  number of more than \<open>I64CHARSZ\<close> digits would read \<open>aRes[-1]\<close>.
\<close>

fun printU64_loop :: "nat \<Rightarrow> counter64 \<Rightarrow> string \<Rightarrow> string option" where
  "printU64_loop 0 u64a res = None"
| "printU64_loop (Suc n) u64a res =
     (let (u64b, u) = divBy10 u64a;
          res' = char_of (48 + unat u) # res in
      if isZeroU64 u64b then Some res' else printU64_loop n u64b res')"

definition printU64 :: "counter64 \<Rightarrow> string option" where
  "printU64 c = printU64_loop 21 c []"

definition negU64 :: "counter64 \<Rightarrow> counter64" where
  "negU64 c = incrByU32 \<lparr>ctr_high = ucast (ucast (NOT (ctr_high c)) :: u32),
                          ctr_low = ucast (ucast (NOT (ctr_low c)) :: u32)\<rparr> 1"

definition printI64 :: "counter64 \<Rightarrow> string option" where
  "printI64 c =
     (if ctr_high c AND 0x80000000 \<noteq> 0
      then map_option (\<lambda>s. CHR ''-'' # s) (printU64 (negU64 c))
      else printU64 c)"

definition isdigit :: "char \<Rightarrow> bool" where
  "isdigit ch \<longleftrightarrow> 48 \<le> (of_char ch :: nat) \<and> (of_char ch :: nat) \<le> 57"

fun read64_loop :: "bool \<Rightarrow> counter64 \<Rightarrow> string \<Rightarrow> bool \<times> counter64" where
  "read64_loop ok i64 [] = (ok, i64)"
| "read64_loop ok i64 (ch # str) =
     (if ch \<noteq> CHR 0x00 \<and> isdigit ch
      then read64_loop True (incrByU16 (multBy10 i64) (word_of_nat (of_char ch - 48))) str
      else (ok, i64))"

definition read64 :: "string \<Rightarrow> bool \<times> counter64" where
  "read64 str =
     (let (sign, str') = (case str of ch # rest \<Rightarrow> if ch = CHR ''-'' then (True, rest) else (False, str)
                                    | [] \<Rightarrow> (False, str));
          (ok, i64) = read64_loop False zeroU64 str' in
      (ok, if sign then negU64 i64 else i64))"


subsection \<open>The number a pair stands for\<close>

definition u64_ok :: "counter64 \<Rightarrow> bool" where
  "u64_ok c \<longleftrightarrow> unat (ctr_high c) < 2 ^ 32 \<and> unat (ctr_low c) < 2 ^ 32"

definition u64_val :: "counter64 \<Rightarrow> nat" where
  "u64_val c = unat (ctr_high c) * 2 ^ 32 + unat (ctr_low c)"

lemma u64_val_bound: "u64_ok c \<Longrightarrow> u64_val c < 2 ^ 64"
  by (simp add: u64_ok_def u64_val_def)

lemma u64_val_inj: "u64_ok c \<Longrightarrow> u64_ok d \<Longrightarrow> u64_val c = u64_val d \<Longrightarrow> c = d"
proof -
  assume a: "u64_ok c" "u64_ok d" "u64_val c = u64_val d"
  have h: "unat (ctr_high c) = u64_val c div 2 ^ 32" "unat (ctr_low c) = u64_val c mod 2 ^ 32" if "u64_ok c" for c
    using that by (simp_all add: u64_val_def u64_ok_def)
  have "unat (ctr_high c) = unat (ctr_high d)" "unat (ctr_low c) = unat (ctr_low d)"
    using h [OF a(1)] h [OF a(2)] a(3) by simp_all
  then show "c = d" by (simp add: word_unat_eq_iff)
qed

lemma lo16: "unat (x AND 0xffff :: u64) = unat x mod 65536"
proof -
  have "x AND 0xffff = take_bit 16 x" by (simp add: take_bit_eq_mask mask_eq_exp_minus_1)
  then show ?thesis by (simp add: unsigned_take_bit_eq take_bit_eq_mod [where 'a = nat])
qed

lemma unat_drop: "unat (drop_bit n x) = unat x div 2 ^ n"
  by (metis unat_drop_bit_eq drop_bit_eq_div)

lemma shl16: "unat x < 2 ^ 48 \<Longrightarrow> unat (push_bit 16 x :: u64) = unat x * 65536"
  using unat_mult_lem [of x 65536] by (simp add: push_bit_eq_mult)

lemma or16:
  assumes "unat b < 65536"
  shows "push_bit 16 a OR b = push_bit 16 a + (b::u64)"
proof (rule sym, rule disjunctive_add)
  have "\<not> bit b i" if "16 \<le> i" for i
    using bit_above [of b 16 i] assms that by simp
  then show "\<not> bit (push_bit 16 a) n \<or> \<not> bit b n" for n
    by (cases "16 \<le> n") (auto simp: bit_simps)
qed

lemma unat_plus: "unat a + unat b < 2 ^ 64 \<Longrightarrow> unat (a + b :: u64) = unat a + unat b"
  using unat_add_lem [of a b] by simp

lemma unat_times10: "unat a < 2 ^ 60 \<Longrightarrow> unat (a * 10 :: u64) = unat a * 10"
  using unat_mult_lem [of a 10] by simp

lemma unat_div10: "unat (a div 10 :: u64) = unat a div 10" "unat (a mod 10 :: u64) = unat a mod 10"
  by (simp_all add: unat_div unat_mod)

text \<open>One step of the long division: a 16-bit digit with the carry of the digit above.\<close>

lemma div_step:
  fixes d r :: u64
  assumes "unat d < 65536" "unat r < 10"
  defines "t \<equiv> d + push_bit 16 r"
  shows "unat t = unat d + unat r * 65536" "unat (t div 10) < 65536" "unat (t mod 10) < 10"
    "unat d + unat r * 65536 = 10 * unat (t div 10) + unat (t mod 10)"
proof -
  have r: "unat (push_bit 16 r) = unat r * 65536" using assms(2) by (intro shl16) simp
  show t: "unat t = unat d + unat r * 65536"
    unfolding t_def using assms(1,2) r by (subst unat_plus) simp_all
  show "unat (t div 10) < 65536" using assms(1,2) by (simp add: unat_div10 t)
  show "unat (t mod 10) < 10" by (simp add: unat_div10)
  show "unat d + unat r * 65536 = 10 * unat (t div 10) + unat (t mod 10)"
    unfolding unat_div10 t [symmetric] by simp
qed

lemma join16:
  assumes "unat a < 65536" "unat b < 65536"
  shows "unat (push_bit 16 a OR b :: u64) = unat a * 65536 + unat b"
proof -
  have "unat (push_bit 16 a) = unat a * 65536" using assms(1) by (intro shl16) simp
  then show ?thesis using assms by (simp add: or16 unat_plus)
qed

lemma digits16:
  assumes "unat x < 2 ^ 32"
  shows "unat x = unat (drop_bit 16 x AND 0xffff :: u64) * 65536 + unat (x AND 0xffff)"
proof -
  have "unat x div 65536 < 65536" using assms by simp
  then have "unat x div 65536 mod 65536 = unat x div 65536" by simp
  then show ?thesis by (simp add: lo16 unat_drop)
qed

lemma lo16_bound: "unat (x AND 0xffff :: u64) < 65536"
  by (simp add: lo16)

lemma divBy10_spec:
  assumes "u64_ok c" and "divBy10 c = (q, r)"
  shows "u64_ok q" "u64_val c = 10 * u64_val q + unat r" "unat r < 10"
proof -
  define d3 where "d3 = drop_bit 16 (ctr_high c) AND 0xffff"
  define d2 where "d2 = ctr_high c AND 0xffff"
  define d1 where "d1 = drop_bit 16 (ctr_low c) AND 0xffff"
  define d0 where "d0 = ctr_low c AND 0xffff"
  define t2 where "t2 = d2 + push_bit 16 (d3 mod 10)"
  define t1 where "t1 = d1 + push_bit 16 (t2 mod 10)"
  define t0 where "t0 = d0 + push_bit 16 (t1 mod 10)"
  have b: "unat d3 < 65536" "unat d2 < 65536" "unat d1 < 65536" "unat d0 < 65536"
    unfolding d3_def d2_def d1_def d0_def by (rule lo16_bound)+
  have s3: "unat d3 = 10 * unat (d3 div 10) + unat (d3 mod 10)" "unat (d3 mod 10) < 10" "unat (d3 div 10) < 65536"
    using b(1) by (simp_all add: unat_div10)
  note s2 = div_step [OF b(2) s3(2), folded t2_def]
  note s1 = div_step [OF b(3) s2(3), folded t1_def]
  note s0 = div_step [OF b(4) s1(3), folded t0_def]
  have q: "q = \<lparr>ctr_high = push_bit 16 (d3 div 10) OR t2 div 10, ctr_low = push_bit 16 (t1 div 10) OR t0 div 10\<rparr>"
    and r: "r = t0 mod 10"
    using assms(2) by (simp_all add: divBy10_def Let_def d3_def d2_def d1_def d0_def t2_def t1_def t0_def)
  have h: "unat (ctr_high q) = unat (d3 div 10) * 65536 + unat (t2 div 10)"
      "unat (ctr_low q) = unat (t1 div 10) * 65536 + unat (t0 div 10)"
    unfolding q using join16 [OF s3(3) s2(2)] join16 [OF s1(2) s0(2)] by simp_all
  show "u64_ok q" using s3(3) s2(2) s1(2) s0(2) by (simp add: u64_ok_def h)
  show "unat r < 10" unfolding r by (rule s0(3))
  have "unat (ctr_high c) = unat d3 * 65536 + unat d2" "unat (ctr_low c) = unat d1 * 65536 + unat d0"
    using digits16 [of "ctr_high c"] digits16 [of "ctr_low c"] assms(1)
    by (simp_all add: u64_ok_def d3_def d2_def d1_def d0_def)
  then show "u64_val c = 10 * u64_val q + unat r"
    unfolding u64_val_def h r using s3(1) s2(4) s1(4) s0(4) by simp
qed


lemma mult_step:
  fixes d k :: u64
  assumes "unat d < 65536" "unat k < 10"
  defines "p \<equiv> d * 10 + k"
  shows "unat (drop_bit 16 p) < 10" "unat d * 10 + unat k = unat (drop_bit 16 p) * 65536 + unat (p AND 0xffff)"
proof -
  have p: "unat p = unat d * 10 + unat k"
    unfolding p_def using assms(1,2) unat_times10 [of d] by (subst unat_plus) simp_all
  show "unat (drop_bit 16 p) < 10" using assms(1,2) by (simp add: unat_drop p)
  show "unat d * 10 + unat k = unat (drop_bit 16 p) * 65536 + unat (p AND 0xffff)"
    unfolding p [symmetric] by (simp add: unat_drop lo16)
qed

lemma multBy10_spec:
  assumes "u64_ok c"
  shows "u64_ok (multBy10 c)" "u64_val (multBy10 c) = 10 * u64_val c mod 2 ^ 64"
proof -
  define d3 where "d3 = drop_bit 16 (ctr_high c) AND 0xffff"
  define d2 where "d2 = ctr_high c AND 0xffff"
  define d1 where "d1 = drop_bit 16 (ctr_low c) AND 0xffff"
  define d0 where "d0 = ctr_low c AND 0xffff"
  define p0 where "p0 = d0 * 10 + 0"
  define p1 where "p1 = d1 * 10 + drop_bit 16 p0"
  define p2 where "p2 = d2 * 10 + drop_bit 16 p1"
  define p3 where "p3 = d3 * 10 + drop_bit 16 p2"
  have b: "unat d3 < 65536" "unat d2 < 65536" "unat d1 < 65536" "unat d0 < 65536"
    unfolding d3_def d2_def d1_def d0_def by (rule lo16_bound)+
  have z: "unat (0::u64) < 10" by simp
  note s0 = mult_step [OF b(4) z, folded p0_def]
  note s1 = mult_step [OF b(3) s0(1), folded p1_def]
  note s2 = mult_step [OF b(2) s1(1), folded p2_def]
  note s3 = mult_step [OF b(1) s2(1), folded p3_def]
  have q: "multBy10 c = \<lparr>ctr_high = push_bit 16 (p3 AND 0xffff) OR (p2 AND 0xffff),
      ctr_low = push_bit 16 (p1 AND 0xffff) OR (p0 AND 0xffff)\<rparr>"
    by (simp add: multBy10_def Let_def d3_def d2_def d1_def d0_def p3_def p2_def p1_def p0_def)
  have h: "unat (ctr_high (multBy10 c)) = unat (p3 AND 0xffff) * 65536 + unat (p2 AND 0xffff)"
      "unat (ctr_low (multBy10 c)) = unat (p1 AND 0xffff) * 65536 + unat (p0 AND 0xffff)"
    unfolding q using join16 [OF lo16_bound lo16_bound, of p3 p2] join16 [OF lo16_bound lo16_bound, of p1 p0]
    by simp_all
  show ok: "u64_ok (multBy10 c)"
    using lo16_bound [of p3] lo16_bound [of p2] lo16_bound [of p1] lo16_bound [of p0] by (simp add: u64_ok_def h)
  have "unat (ctr_high c) = unat d3 * 65536 + unat d2" "unat (ctr_low c) = unat d1 * 65536 + unat d0"
    using digits16 [of "ctr_high c"] digits16 [of "ctr_low c"] assms
    by (simp_all add: u64_ok_def d3_def d2_def d1_def d0_def)
  then have "10 * u64_val c = unat (drop_bit 16 p3) * 2 ^ 64 + u64_val (multBy10 c)"
    unfolding u64_val_def h using s0(2) s1(2) s2(2) s3(2) by simp
  then show "u64_val (multBy10 c) = 10 * u64_val c mod 2 ^ 64"
    using u64_val_bound [OF ok] by simp
qed

lemma unat_uu32: "unat (ucast (ucast (x::u64) :: u32) :: u64) = unat x mod 2 ^ 32"
  by (simp add: unsigned_ucast_eq unsigned_take_bit_eq take_bit_eq_mod [where 'a = nat])

lemma unat_ucast32: "unat (ucast (x::u64) :: u32) = unat x mod 2 ^ 32"
  by (simp add: unsigned_ucast_eq take_bit_eq_mod [where 'a = nat])

lemma unat_ucast64: "unat (ucast (x::u32) :: u64) = unat x"
  using unsigned_less [where ?'a = nat, of x] by (simp add: unsigned_ucast_eq take_bit_nat_eq_self)

lemma incrByU32_spec:
  assumes "u64_ok c"
  shows "u64_ok (incrByU32 c u)" "u64_val (incrByU32 c u) = (u64_val c + unat u) mod 2 ^ 64"
proof -
  define h where "h = unat (ctr_high c)"
  define l where "l = unat (ctr_low c)"
  have b: "h < 2 ^ 32" "l < 2 ^ 32" "unat u < 2 ^ 32"
    using assms unsigned_less [where ?'a = nat, of u] by (simp_all add: u64_ok_def h_def l_def)
  define tmp where "tmp = (ucast (ctr_low c) :: u32)"
  have tmp: "unat tmp = l" using b(2) by (simp add: tmp_def unat_ucast32 l_def)
  have low: "unat (ucast (tmp + u) :: u64) = (l + unat u) mod 2 ^ 32"
    by (simp add: unat_ucast64 unat_word_ariths tmp)
  have cmp: "(ucast (tmp + u) :: u64) < ucast tmp \<longleftrightarrow> 2 ^ 32 \<le> l + unat u"
  proof -
    have "(ucast (tmp + u) :: u64) < ucast tmp \<longleftrightarrow> (l + unat u) mod 2 ^ 32 < l"
      unfolding word_less_nat_alt low by (simp add: unat_ucast64 tmp)
    then show ?thesis
      using b by (cases "2 ^ 32 \<le> l + unat u") (auto simp: mod_if)
  qed
  have "u64_ok (incrByU32 c u) \<and> u64_val (incrByU32 c u) = (u64_val c + unat u) mod 2 ^ 64"
  proof (cases "2 ^ 32 \<le> l + unat u")
    case True
    have hi: "unat (ucast (ucast (ctr_high c + 1) :: u32) :: u64) = (h + 1) mod 2 ^ 32"
    proof -
      have "unat (ctr_high c + 1) = h + 1" using b(1) by (subst unat_plus) (simp_all add: h_def)
      then show ?thesis by (simp only: unat_uu32)
    qed
    have i: "incrByU32 c u = \<lparr>ctr_high = ucast (ucast (ctr_high c + 1) :: u32), ctr_low = ucast (tmp + u)\<rparr>"
      using True cmp by (simp add: incrByU32_def Let_def tmp_def)
    have lm: "(l + unat u) mod 2 ^ 32 = l + unat u - 2 ^ 32"
      using True b by (simp add: mod_if)
    have "((h + 1) mod 2 ^ 32) * 2 ^ 32 + (l + unat u - 2 ^ 32) = (h * 2 ^ 32 + l + unat u) mod 2 ^ 64"
    proof (cases "h + 1 = 2 ^ 32")
      case eq: True
      have "h * 2 ^ 32 + l + unat u = 2 ^ 64 + (l + unat u - 2 ^ 32)" using True eq by simp
      moreover have "(2 ^ 64 + (l + unat u - 2 ^ 32)) mod 2 ^ 64 = l + unat u - 2 ^ 32" using b by simp
      moreover have "(h + 1) mod 2 ^ 32 = 0" unfolding eq by simp
      ultimately show ?thesis by (simp only: mult_0 add_0)
    next
      case False
      then have "(h + 1) mod 2 ^ 32 = h + 1" using b(1) by simp
      moreover have "h * 2 ^ 32 + l + unat u = (h + 1) * 2 ^ 32 + (l + unat u - 2 ^ 32)" using True by simp
      moreover have "(h + 1) * 2 ^ 32 + (l + unat u - 2 ^ 32) < 2 ^ 64" using False b True by simp
      ultimately show ?thesis by simp
    qed
    moreover have "l + unat u - 2 ^ 32 < 2 ^ 32" using b by linarith
    ultimately show ?thesis
      unfolding i by (simp add: u64_ok_def u64_val_def hi low [unfolded lm] lm flip: h_def l_def)
  next
    case False
    then have "(l + unat u) mod 2 ^ 32 = l + unat u" by simp
    moreover have "h * 2 ^ 32 + (l + unat u) < 2 ^ 64" using False b by simp
    moreover have "incrByU32 c u = c\<lparr>ctr_low := ucast (tmp + u)\<rparr>"
      using False cmp by (simp add: incrByU32_def Let_def tmp_def)
    ultimately show ?thesis
      using b(1) False low by (simp add: u64_ok_def u64_val_def flip: h_def l_def)
  qed
  then show "u64_ok (incrByU32 c u)" "u64_val (incrByU32 c u) = (u64_val c + unat u) mod 2 ^ 64" by simp_all
qed

lemma u64_sub_mod:
  fixes h1 h2 l1 l2 B :: nat
  assumes "l1 < B" "l2 < B" "h1 < B" "h2 < B"
  shows "(h1 + 2 * B - h2 - (if l1 < l2 then 1 else 0)) mod B * B + (l1 + B - l2) mod B =
    (h1 * B + l1 + B * B - (h2 * B + l2)) mod (B * B)"
proof -
  define c where "c = (if l1 < l2 then 1 else 0 :: nat)"
  define H where "H = h1 + 2 * B - h2 - c"
  define L where "L = (l1 + B - l2) mod B"
  have B: "0 < B" using assms(1) by simp
  have L: "l1 + c * B = l2 + L" "L < B"
    using assms by (auto simp: L_def c_def mod_if)
  have H: "H + h2 + c = h1 + 2 * B" using assms by (auto simp: H_def c_def)
  have HB: "H * B + h2 * B + c * B = h1 * B + 2 * (B * B)"
    using arg_cong [OF H, of "\<lambda>x. x * B"] by (simp add: distrib_right)
  have "(h2 + 1) * B \<le> B * B" using assms(4) by (intro mult_right_mono) auto
  then have sum: "H * B + L = (h1 * B + l1 + B * B - (h2 * B + l2)) + B * B"
    using HB L(1) assms(2) by simp
  have "H * B + L = (H div B) * (B * B) + ((H mod B) * B + L)"
    by (metis (no_types, lifting) add.assoc div_mult_mod_eq distrib_right mult.assoc)
  moreover have "(H mod B) * B + L < B * B"
  proof -
    have m: "H mod B + 1 \<le> B" using B by (simp add: Suc_leI)
    have "(H mod B) * B + L < (H mod B + 1) * B" using L(2) by simp
    also have "\<dots> \<le> B * B" using m by (rule mult_right_mono) simp
    finally show ?thesis .
  qed
  ultimately have "(H * B + L) mod (B * B) = (H mod B) * B + L" by (simp only: mod_mult_self3 mod_less)
  then show ?thesis unfolding sum by (simp add: c_def H_def L_def)
qed

lemma unat_minus_mod32:
  fixes x y :: u64
  assumes "unat y \<le> unat x + k * 2 ^ 32" "unat x + k * 2 ^ 32 < 2 ^ 64"
  shows "unat (x - y) mod 2 ^ 32 = (unat x + k * 2 ^ 32 - unat y) mod 2 ^ 32"
proof (cases "unat y \<le> unat x")
  case True
  have "unat x + k * 2 ^ 32 - unat y = (unat x - unat y) + k * 2 ^ 32" using True by simp
  moreover have "unat (x - y) = unat x - unat y" using True by (simp add: unat_sub_if')
  ultimately show ?thesis by (simp only: mod_mult_self1)
next
  case False
  have "unat (x - y) = unat x + 2 ^ 64 - unat y" using False by (simp add: unat_sub_if')
  moreover have "unat x + 2 ^ 64 - unat y = (unat x + k * 2 ^ 32 - unat y) + (2 ^ 32 - k) * 2 ^ 32"
    using assms by (simp add: diff_mult_distrib)
  ultimately show ?thesis by (simp only: mod_mult_self1)
qed

lemma u64Subtract_spec:
  assumes "u64_ok a" "u64_ok b"
  shows "u64_ok (u64Subtract a b)" "u64_val (u64Subtract a b) = (u64_val a + 2 ^ 64 - u64_val b) mod 2 ^ 64"
proof -
  define h1 where "h1 = unat (ctr_high a)" define l1 where "l1 = unat (ctr_low a)"
  define h2 where "h2 = unat (ctr_high b)" define l2 where "l2 = unat (ctr_low b)"
  define c where "c = (if l1 < l2 then 1 else 0 :: nat)"
  define cw where "cw = (if ctr_low a < ctr_low b then 1 else 0 :: u64)"
  have w: "h1 < 2 ^ 32" "l1 < 2 ^ 32" "h2 < 2 ^ 32" "l2 < 2 ^ 32"
    using assms by (simp_all add: u64_ok_def h1_def h2_def l1_def l2_def)
  have cw: "unat cw = c" by (simp add: cw_def c_def word_less_nat_alt l1_def l2_def)
  have lo: "unat (ctr_low (u64Subtract a b)) = (l1 + 2 ^ 32 - l2) mod 2 ^ 32"
    using unat_minus_mod32 [of "ctr_low b" "ctr_low a" 1] w
    by (simp add: u64Subtract_def Let_def unat_uu32 flip: l1_def l2_def)
  have "ctr_high (u64Subtract a b) = ucast (ucast (ctr_high a - (ctr_high b + cw)) :: u32)"
    by (simp add: u64Subtract_def Let_def cw_def diff_diff_eq)
  moreover have y: "unat (ctr_high b + cw) = h2 + c"
    using w(3) cw by (subst unat_plus) (auto simp: c_def h2_def)
  moreover have "unat (ctr_high a - (ctr_high b + cw)) mod 2 ^ 32 = (h1 + 2 * 2 ^ 32 - (h2 + c)) mod 2 ^ 32"
    using unat_minus_mod32 [of "ctr_high b + cw" "ctr_high a" 2] w y by (simp add: c_def flip: h1_def)
  ultimately have hi: "unat (ctr_high (u64Subtract a b)) = (h1 + 2 * 2 ^ 32 - h2 - c) mod 2 ^ 32"
    by (simp only: unat_uu32 diff_diff_eq)
  show "u64_ok (u64Subtract a b)" unfolding u64_ok_def hi lo by simp
  show "u64_val (u64Subtract a b) = (u64_val a + 2 ^ 64 - u64_val b) mod 2 ^ 64"
    using u64_sub_mod [OF w(2,4,1,3)]
    by (simp add: u64_val_def hi lo c_def flip: h1_def l1_def h2_def l2_def)
qed

lemma u64Incr_spec:
  assumes "u64_ok out" "u64_ok one"
  shows "u64_ok (u64Incr out one)" "u64_val (u64Incr out one) = (u64_val out + u64_val one) mod 2 ^ 64"
proof -
  define h where "h = unat (ctr_high out) + unat (ctr_high one)"
  let ?o = "out\<lparr>ctr_high := ucast (ucast (ctr_high out + ctr_high one) :: u32)\<rparr>"
  have b: "h < 2 * 2 ^ 32" using assms by (simp add: u64_ok_def h_def)
  have "unat (ctr_high out + ctr_high one) = h"
    unfolding h_def using assms by (subst unat_plus) (simp_all add: u64_ok_def)
  then have hi: "unat (ctr_high ?o) = h mod 2 ^ 32" by (simp add: unat_uu32)
  then have ok: "u64_ok ?o" using assms(1) by (simp add: u64_ok_def)
  have low: "unat (ucast (ctr_low one) :: u32) = unat (ctr_low one)"
    using assms(2) by (simp add: unat_ucast32 u64_ok_def)
  note i = incrByU32_spec [OF ok, of "ucast (ctr_low one)"]
  show "u64_ok (u64Incr out one)" using i(1) by (simp add: u64Incr_def)
  have "u64_val (u64Incr out one) = ((h mod 2 ^ 32) * 2 ^ 32 + (unat (ctr_low out) + unat (ctr_low one))) mod 2 ^ 64"
    using i(2) hi low by (simp add: u64Incr_def u64_val_def add.assoc)
  also have "\<dots> = (h * 2 ^ 32 + (unat (ctr_low out) + unat (ctr_low one))) mod 2 ^ 64"
  proof (cases "h < 2 ^ 32")
    case False
    then have "h mod 2 ^ 32 = h - 2 ^ 32" using b by (simp add: mod_if)
    moreover have "h * 2 ^ 32 = 2 ^ 64 + (h - 2 ^ 32) * 2 ^ 32" using False by simp
    ultimately show ?thesis by (simp only: add.assoc mod_add_self1)
  qed (simp only: mod_less)
  also have "\<dots> = (u64_val out + u64_val one) mod 2 ^ 64"
    by (simp add: u64_val_def h_def distrib_right ac_simps)
  finally show "u64_val (u64Incr out one) = (u64_val out + u64_val one) mod 2 ^ 64" .
qed


subsection \<open>Decimal text\<close>

fun dec :: "nat \<Rightarrow> string" where
  "dec n = (if n < 10 then [char_of (48 + n)] else dec (n div 10) @ [char_of (48 + n mod 10)])"

declare dec.simps [simp del]

lemma isZeroU64_val: "u64_ok c \<Longrightarrow> isZeroU64 c \<longleftrightarrow> u64_val c = 0"
  by (auto simp: isZeroU64_def u64_val_def unat_eq_zero)

lemma printU64_loop_dec:
  "u64_ok c \<Longrightarrow> u64_val c < 10 ^ Suc n \<Longrightarrow> printU64_loop (Suc n) c res = Some (dec (u64_val c) @ res)"
proof (induction n arbitrary: c res)
  case 0
  obtain q r where qr: "divBy10 c = (q, r)" by (cases "divBy10 c")
  note d = divBy10_spec [OF 0(1) qr]
  have "u64_val q = 0" "unat r = u64_val c" using 0(2) d(2) by simp_all
  then show ?case using qr 0(2) isZeroU64_val [OF d(1)] by (simp add: dec.simps [of "u64_val c"])
next
  case (Suc n)
  obtain q r where qr: "divBy10 c = (q, r)" by (cases "divBy10 c")
  note d = divBy10_spec [OF Suc.prems(1) qr]
  have q: "u64_val q = u64_val c div 10" "unat r = u64_val c mod 10" using d(2,3) by simp_all
  show ?case
  proof (cases "u64_val q = 0")
    case True
    then have "u64_val c < 10" using q(1) by simp
    then show ?thesis using True qr q isZeroU64_val [OF d(1)] by (simp add: dec.simps [of "u64_val c"])
  next
    case False
    then have "\<not> u64_val c < 10" using q(1) by simp
    then have "dec (u64_val c) = dec (u64_val q) @ [char_of (48 + unat r)]"
      using q by (subst dec.simps) simp
    moreover have "u64_val q < 10 ^ Suc n" using Suc.prems(2) q(1) by simp
    ultimately show ?thesis
      using False qr isZeroU64_val [OF d(1)] Suc.IH [OF d(1), of "char_of (48 + unat r) # res"] by simp
  qed
qed

lemma printU64_dec: "u64_ok c \<Longrightarrow> printU64 c = Some (dec (u64_val c))"
  using printU64_loop_dec [of c 20 "[]"] u64_val_bound [of c] by (simp add: printU64_def)

lemma of_char_digit: "d < 10 \<Longrightarrow> (of_char (char_of (48 + d)) :: nat) = 48 + d"
  by simp

lemma dec_digits: "list_all isdigit (dec n)" "dec n \<noteq> []"
proof -
  show "list_all isdigit (dec n)"
  proof (induction n rule: dec.induct)
    case (1 n)
    have "isdigit (char_of (48 + k))" if "k < 10" for k :: nat using that by (simp add: isdigit_def)
    moreover have "n mod 10 < 10" by simp
    ultimately show ?case using 1 by (subst dec.simps) (simp del: of_char_of)
  qed
  show "dec n \<noteq> []" by (subst dec.simps) simp
qed

definition num :: "nat \<Rightarrow> string \<Rightarrow> nat" where
  "num a s = foldl (\<lambda>a ch. 10 * a + (of_char ch - 48)) a s"

lemma num_dec: "num 0 (dec n) = n"
proof (induction n rule: dec.induct)
  case (1 n)
  show ?case
  proof (cases "n < 10")
    case True
    then show ?thesis by (subst dec.simps) (simp add: num_def)
  next
    case False
    have "num 0 (dec (n div 10) @ [char_of (48 + n mod 10)]) = 10 * num 0 (dec (n div 10)) + n mod 10"
      by (simp add: num_def)
    with False 1 show ?thesis by (subst dec.simps) simp
  qed
qed

lemma num_mod: "num (a mod m) s mod m = num a s mod m"
proof (induction s arbitrary: a)
  case Nil
  then show ?case by (simp add: num_def)
next
  case (Cons ch s)
  let ?d = "of_char ch - 48 :: nat"
  have n: "num b (ch # s) = num (10 * b + ?d) s" for b by (simp add: num_def)
  have e: "(10 * (a mod m) + ?d) mod m = (10 * a + ?d) mod m" by (metis mod_add_left_eq mod_mult_right_eq)
  have "num (10 * (a mod m) + ?d) s mod m = num ((10 * (a mod m) + ?d) mod m) s mod m" using Cons by simp
  also have "\<dots> = num (10 * a + ?d) s mod m" unfolding e using Cons by simp
  finally show ?case unfolding n .
qed

lemma read64_loop_num:
  "u64_ok c \<Longrightarrow> list_all isdigit s \<Longrightarrow>
   \<exists>c'. read64_loop ok c s = (ok \<or> s \<noteq> [], c') \<and> u64_ok c' \<and> u64_val c' = num (u64_val c) s mod 2 ^ 64"
proof (induction s arbitrary: ok c)
  case Nil
  then show ?case using u64_val_bound [of c] by (simp add: num_def)
next
  case (Cons ch s)
  let ?d = "of_char ch - 48 :: nat"
  have ch: "isdigit ch" "ch \<noteq> CHR 0x00" "?d < 10"
    using Cons.prems(2) by (auto simp: isdigit_def)
  let ?c = "incrByU16 (multBy10 c) (word_of_nat ?d)"
  note m = multBy10_spec [OF Cons.prems(1)]
  note i = incrByU32_spec [OF m(1), of "word_of_nat ?d", folded incrByU16_def]
  have v: "u64_val ?c = (10 * u64_val c + ?d) mod 2 ^ 64"
  proof -
    have "unat (word_of_nat ?d :: u32) = ?d" using ch(3) by (simp add: unat_of_nat)
    then show ?thesis unfolding i(2) m(2) by (metis mod_add_left_eq)
  qed
  obtain c' where c': "read64_loop True ?c s = (True \<or> s \<noteq> [], c')" "u64_ok c'"
      "u64_val c' = num (u64_val ?c) s mod 2 ^ 64"
    using Cons.IH [OF i(1), of True] Cons.prems(2) by auto
  have "num (u64_val c) (ch # s) = num (10 * u64_val c + ?d) s" by (simp add: num_def)
  then have "u64_val c' = num (u64_val c) (ch # s) mod 2 ^ 64"
    unfolding c'(3) v by (simp only: num_mod)
  with c' ch show ?case by simp
qed

lemma unat_not64: "unat (NOT x :: u64) = 2 ^ 64 - 1 - unat x"
proof -
  have "NOT x = - 1 - x" by (simp add: not_eq_complement)
  moreover have "unat (- 1 :: u64) = 2 ^ 64 - 1" by (simp add: unsigned_minus_1_eq_mask mask_eq_exp_minus_1)
  moreover have "unat x \<le> 2 ^ 64 - 1" using unsigned_less [where ?'a = nat, of x] by simp
  ultimately show ?thesis by (simp only: unat_sub_if' if_True)
qed

lemma negU64_spec:
  assumes "u64_ok c"
  shows "u64_ok (negU64 c)" "u64_val (negU64 c) = (2 ^ 64 - u64_val c) mod 2 ^ 64"
proof -
  let ?n = "\<lparr>ctr_high = ucast (ucast (NOT (ctr_high c)) :: u32), ctr_low = ucast (ucast (NOT (ctr_low c)) :: u32)\<rparr> :: counter64"
  have n: "unat (ucast (ucast (NOT x) :: u32) :: u64) = 2 ^ 32 - 1 - unat x" if "unat (x::u64) < 2 ^ 32" for x
  proof -
    have "unat (NOT x) = (2 ^ 32 - 1 - unat x) + (2 ^ 32 - 1) * 2 ^ 32"
      using that by (simp add: unat_not64)
    moreover have "2 ^ 32 - 1 - unat x < 2 ^ 32" by simp
    ultimately show ?thesis by (simp only: unat_uu32 mod_mult_self1 mod_less)
  qed
  have b: "unat (ctr_high c) < 2 ^ 32" "unat (ctr_low c) < 2 ^ 32" using assms by (simp_all add: u64_ok_def)
  have h: "unat (ctr_high ?n) = 2 ^ 32 - 1 - unat (ctr_high c)" "unat (ctr_low ?n) = 2 ^ 32 - 1 - unat (ctr_low c)"
    using n [OF b(1)] n [OF b(2)] by simp_all
  have "k - x < 2 ^ 32" if "k < 2 ^ 32" for k x :: nat using that by simp
  then have ok: "u64_ok ?n" unfolding u64_ok_def h by simp
  have "u64_val ?n + 1 = 2 ^ 64 - u64_val c"
    unfolding u64_val_def h using b by (simp add: diff_mult_distrib)
  then show "u64_val (negU64 c) = (2 ^ 64 - u64_val c) mod 2 ^ 64"
    using incrByU32_spec(2) [OF ok, of 1] by (simp add: negU64_def)
  show "u64_ok (negU64 c)"
    using incrByU32_spec(1) [OF ok, of 1] by (simp add: negU64_def)
qed

lemma u64UpdateCounter_spec:
  assumes "u64_ok out" and "u64_ok one" and "u64_ok two"
  shows "u64_ok (u64UpdateCounter out one two)"
    "u64_val (u64UpdateCounter out one two) = (u64_val out + (u64_val one + 2 ^ 64 - u64_val two)) mod 2 ^ 64"
  using u64Incr_spec [OF assms(1) u64Subtract_spec(1) [OF assms(2,3)]] u64Subtract_spec(2) [OF assms(2,3)]
  by (simp_all add: u64UpdateCounter_def mod_add_right_eq del: power_numeral)


subsection \<open>Properties\<close>

text \<open>
  Division by ten.  \<open>divBy10\<close> is Euclidean division: for every number the remainder is
  below ten and quotient and remainder give the number back.
\<close>

lemma divBy10_euclid:
  assumes "u64_ok c" and "divBy10 c = (q, r)"
  shows "u64_ok q \<and> u64_val q = u64_val c div 10 \<and> unat r = u64_val c mod 10"
  using divBy10_spec [OF assms] by simp

theorem divBy10_euclid_witness:
  "u64_ok (fst (divBy10 \<lparr>ctr_high = 1, ctr_low = 5\<rparr>)) \<and>
   u64_val (fst (divBy10 \<lparr>ctr_high = 1, ctr_low = 5\<rparr>)) = 429496730"
proof -
  obtain q r where d: "divBy10 \<lparr>ctr_high = 1, ctr_low = 5\<rparr> = (q, r)" by (cases "divBy10 \<lparr>ctr_high = 1, ctr_low = 5\<rparr>")
  with divBy10_euclid [of "\<lparr>ctr_high = 1, ctr_low = 5\<rparr>" q r] show ?thesis
    by (simp add: u64_ok_def u64_val_def)
qed

text \<open>
  C14 (counter arithmetic).  Adding the difference of two readings to a counter is exact modulo
  \<open>2 ^ 64\<close>: the borrow between the halves in \<open>u64Subtract\<close> and the carries in \<open>u64Incr\<close> are right.
\<close>

theorem u64UpdateCounter_exact:
  assumes "u64_ok out" and "u64_ok one" and "u64_ok two"
  shows "u64_ok (u64UpdateCounter out one two) \<and>
    u64_val (u64UpdateCounter out one two) = (u64_val out + (u64_val one + 2 ^ 64 - u64_val two)) mod 2 ^ 64"
  using u64UpdateCounter_spec [OF assms] by blast

theorem u64UpdateCounter_exact_witness:
  "u64_val (u64UpdateCounter \<lparr>ctr_high = 0, ctr_low = 10\<rparr> \<lparr>ctr_high = 1, ctr_low = 1\<rparr> \<lparr>ctr_high = 0, ctr_low = 4294967295\<rparr>) = 12"
  using u64UpdateCounter_exact [of "\<lparr>ctr_high = 0, ctr_low = 10\<rparr>" "\<lparr>ctr_high = 1, ctr_low = 1\<rparr>" "\<lparr>ctr_high = 0, ctr_low = 4294967295\<rparr>"]
  by (simp add: u64_ok_def u64_val_def)

lemma read64_dec: "n < 2 ^ 64 \<Longrightarrow> \<exists>c. read64_loop False zeroU64 (dec n) = (True, c) \<and> u64_ok c \<and> u64_val c = n"
  using read64_loop_num [of zeroU64 "dec n" False] dec_digits [of n] num_dec [of n]
  by (simp add: zeroU64_def u64_ok_def u64_val_def)

lemma dec_not_minus: "dec n = ch # rest \<Longrightarrow> ch \<noteq> CHR ''-''"
  using dec_digits(1) [of n] by (auto simp: isdigit_def)

lemma read64_unsigned: "dec n = str \<Longrightarrow> read64 str = read64_loop False zeroU64 str"
  using dec_not_minus [of n] by (auto simp: read64_def Let_def split: list.splits prod.splits)

text \<open>
  C36 (decimal text round trip).  For every 64-bit number \<open>printU64\<close> stays inside its 21-character
  array and produces the decimal digits, and reading the text of \<open>printI64\<close> with \<open>read64\<close> gives
  back the same pair, negative numbers included.
\<close>

theorem printI64_read64:
  assumes "u64_ok c"
  shows "printU64 c = Some (dec (u64_val c)) \<and>
    (\<exists>s. printI64 c = Some s \<and> read64 s = (True, c))"
proof (intro conjI)
  show "printU64 c = Some (dec (u64_val c))" by (rule printU64_dec [OF assms])
  show "\<exists>s. printI64 c = Some s \<and> read64 s = (True, c)"
  proof (cases "ctr_high c AND 0x80000000 \<noteq> 0")
    case True
    note n = negU64_spec [OF assms]
    obtain d where d: "read64_loop False zeroU64 (dec (u64_val (negU64 c))) = (True, d)" "u64_ok d"
        "u64_val d = u64_val (negU64 c)"
      using read64_dec [OF u64_val_bound [OF n(1)]] by blast
    have "d = negU64 c" by (rule u64_val_inj [OF d(2) n(1) d(3)])
    moreover have "negU64 (negU64 c) = c"
    proof (rule u64_val_inj [OF negU64_spec(1) [OF n(1)] assms])
      have "(2 ^ 64 - (2 ^ 64 - u64_val c) mod 2 ^ 64) mod 2 ^ 64 = u64_val c"
        using u64_val_bound [OF assms] by (cases "u64_val c = 0") simp_all
      then show "u64_val (negU64 (negU64 c)) = u64_val c"
        using negU64_spec(2) [OF n(1)] n(2) by simp
    qed
    ultimately show ?thesis
      using True d(1) by (simp add: printI64_def printU64_dec [OF n(1)] read64_def)
  next
    case False
    obtain d where d: "read64_loop False zeroU64 (dec (u64_val c)) = (True, d)" "u64_ok d" "u64_val d = u64_val c"
      using read64_dec [OF u64_val_bound [OF assms]] by blast
    have "d = c" using u64_val_inj [OF d(2) assms d(3)] .
    then show ?thesis
      using False d(1) by (simp add: printI64_def printU64_dec [OF assms] read64_unsigned [OF refl])
  qed
qed

theorem printI64_read64_witness:
  "printU64 \<lparr>ctr_high = 0, ctr_low = 42\<rparr> = Some ''42'' \<and>
   (\<exists>s. printI64 \<lparr>ctr_high = 0xffffffff, ctr_low = 0\<rparr> = Some s \<and> read64 s = (True, \<lparr>ctr_high = 0xffffffff, ctr_low = 0\<rparr>))"
  using printI64_read64 [of "\<lparr>ctr_high = 0, ctr_low = 42\<rparr>"]
    printI64_read64 [of "\<lparr>ctr_high = 0xffffffff, ctr_low = 0\<rparr>"]
  by (simp add: u64_ok_def u64_val_def dec.simps char_of_def bit_0)

text \<open>
  C37 (32-bit readings).  Fed with 32-bit readings (high halves zero), the wrap check never fails,
  the 64-bit counter grows by the difference of the readings modulo \<open>2 ^ 32\<close>, the reading is left
  without the temporary carry, and the wrap check stays on.
\<close>

theorem c64_check32_and_update_adds:
  assumes "u64_ok prev" and "u64_ok new" and "u64_ok old" and "ctr_high new = 0" and "ctr_high old = 0"
    and "need \<noteq> Some 0"
  shows "\<exists>prev'. netsnmp_c64_check32_and_update prev new old need = (0, prev', new, need) \<and>
    u64_val prev' = (u64_val prev + (unat (ctr_low new) + 2 ^ 32 - unat (ctr_low old)) mod 2 ^ 32) mod 2 ^ 64"
proof -
  define n where "n = unat (ctr_low new)"
  define l where "l = unat (ctr_low old)"
  have b: "n < 2 ^ 32" "l < 2 ^ 32" using assms(2,3) by (simp_all add: u64_ok_def n_def l_def)
  have v: "u64_val new = n" "u64_val old = l" using assms(4,5) by (simp_all add: u64_val_def n_def l_def)
  have sum: "(u64_val prev + (k + 2 ^ 64 - l)) mod 2 ^ 64 = (u64_val prev + (k - l)) mod 2 ^ 64" if "l \<le> k" for k
  proof -
    have "u64_val prev + (k + 2 ^ 64 - l) = (u64_val prev + (k - l)) + 2 ^ 64" using that by simp
    then show ?thesis by (simp only: mod_add_self2)
  qed
  show ?thesis
  proof (cases "l \<le> n")
    case True
    then have "netsnmp_c64_check32_and_update prev new old need = (0, u64UpdateCounter prev new old, new, need)"
      using assms(4-6) by (simp add: netsnmp_c64_check32_and_update_def netsnmp_c64_check_for_32bit_wrap_def
          word_le_nat_alt flip: n_def l_def)
    moreover have "(n + 2 ^ 32 - l) mod 2 ^ 32 = n - l"
    proof -
      have "n + 2 ^ 32 - l = (n - l) + 2 ^ 32" "n - l < 2 ^ 32" using True b by simp_all
      then show ?thesis by (simp only: mod_add_self2 mod_less)
    qed
    moreover have "u64_val (u64UpdateCounter prev new old) = (u64_val prev + (n - l)) mod 2 ^ 64"
      unfolding u64UpdateCounter_spec(2) [OF assms(1-3)] v by (rule sum [OF True])
    ultimately show ?thesis
      unfolding n_def [symmetric] l_def [symmetric] by metis
  next
    case False
    let ?new = "new\<lparr>ctr_high := 1\<rparr>"
    have "new\<lparr>ctr_high := 0\<rparr> = new" using assms(4) by simp
    then have "netsnmp_c64_check32_and_update prev new old need = (0, u64UpdateCounter prev ?new old, new, need)"
      using False assms(4-6) by (simp add: netsnmp_c64_check32_and_update_def netsnmp_c64_check_for_32bit_wrap_def
          word_le_nat_alt flip: n_def l_def)
    moreover have new: "u64_ok ?new" "u64_val ?new = 2 ^ 32 + n"
      using assms(2) by (simp_all add: u64_ok_def u64_val_def n_def)
    moreover have "u64_val (u64UpdateCounter prev ?new old) = (u64_val prev + (2 ^ 32 + n - l)) mod 2 ^ 64"
      unfolding u64UpdateCounter_spec(2) [OF assms(1) new(1) assms(3)] new(2) v using b by (intro sum) simp
    moreover have "(n + 2 ^ 32 - l) mod 2 ^ 32 = 2 ^ 32 + n - l" using False b by simp
    ultimately show ?thesis
      unfolding n_def [symmetric] l_def [symmetric] by metis
  qed
qed

theorem c64_check32_and_update_adds_witness:
  "\<exists>prev'. netsnmp_c64_check32_and_update \<lparr>ctr_high = 0, ctr_low = 7\<rparr> \<lparr>ctr_high = 0, ctr_low = 1\<rparr>
      \<lparr>ctr_high = 0, ctr_low = 0xffffffff\<rparr> (Some 1) = (0, prev', \<lparr>ctr_high = 0, ctr_low = 1\<rparr>, Some 1) \<and>
    u64_val prev' = 9"
  using c64_check32_and_update_adds [of "\<lparr>ctr_high = 0, ctr_low = 7\<rparr>" "\<lparr>ctr_high = 0, ctr_low = 1\<rparr>"
      "\<lparr>ctr_high = 0, ctr_low = 0xffffffff\<rparr>" "Some 1"]
  by (simp add: u64_ok_def u64_val_def)

end
