(* ===== verification/Container_Spec.thy ===== *)
theory Container_Spec
  imports Prelude
begin

section \<open>What a container promises\<close>

text \<open>
  The contract of a sorted container as its users see it (the comments of \<open>netsnmp_container\<close> in
  \<open>include/net-snmp/library/container.h\<close>): \<open>find_next\<close> returns an entry with the least key above
  the given one, or the first entry for \<open>NULL\<close>; \<open>find\<close> returns the entry with the key; \<open>insert\<close>
  refuses a second entry with the same key; \<open>remove\<close> removes the entry with the key.  The
  locale \<open>ordered_store\<close> has the first part, \<open>keyed_store\<close> adds the second.  The lemmas proved here
  once are those the table code rests on: a walk with \<open>CONTAINER_FIRST\<close> and \<open>CONTAINER_NEXT\<close>
  meets every entry exactly once in ascending order, and \<open>find\<close> behaves like a finite map.
\<close>

text \<open>The successor of a key: an entry with the least key above it.\<close>

definition is_next :: "('e \<Rightarrow> 'k::linorder) \<Rightarrow> 'e option \<Rightarrow> 'k \<Rightarrow> 'e set \<Rightarrow> bool" where
  "is_next key r k S \<longleftrightarrow> (case r of None \<Rightarrow> \<forall>e\<in>S. key e \<le> k
     | Some e \<Rightarrow> e \<in> S \<and> k < key e \<and> (\<forall>e'\<in>S. k < key e' \<longrightarrow> key e \<le> key e'))"

text \<open>The loop \<open>for (e = CONTAINER_FIRST(c); e; e = CONTAINER_NEXT(c, e))\<close>, for at most \<open>n\<close> steps.\<close>

fun walk :: "('s \<Rightarrow> 'e option \<Rightarrow> 'e option \<times> 's) \<Rightarrow> nat \<Rightarrow> 's \<Rightarrow> 'e option \<Rightarrow> 'e list" where
  "walk find_next 0 s k = []"
| "walk find_next (Suc n) s k =
     (case find_next s k of (None, s') \<Rightarrow> [] | (Some e, s') \<Rightarrow> e # walk find_next n s' (Some e))"

lemma option_eqI: "(\<And>x. a = Some x \<longleftrightarrow> b = Some x) \<Longrightarrow> a = b"
  by (cases a; cases b) auto

locale ordered_store =
  fixes inv :: "'s \<Rightarrow> bool" and items :: "'s \<Rightarrow> 'e set" and key :: "'e \<Rightarrow> 'k::linorder"
    and find_next :: "'s \<Rightarrow> 'e option \<Rightarrow> 'e option \<times> 's"
  assumes items_finite: "inv s \<Longrightarrow> finite (items s)"
    and items_keys: "inv s \<Longrightarrow> inj_on key (items s)"
    and next_keeps: "inv s \<Longrightarrow> inv (snd (find_next s k)) \<and> items (snd (find_next s k)) = items s"
    and next_first: "inv s \<Longrightarrow> case fst (find_next s None) of None \<Rightarrow> items s = {}
      | Some e \<Rightarrow> e \<in> items s \<and> (\<forall>e'\<in>items s. key e \<le> key e')"
    and next_above: "inv s \<Longrightarrow> is_next key (fst (find_next s (Some e))) (key e) (items s)"
begin

lemma walk_above:
  assumes "inv s" and "card {e' \<in> items s. key e < key e'} \<le> n"
  shows "set (walk find_next n s (Some e)) = {e' \<in> items s. key e < key e'} \<and>
    sorted_wrt (<) (map key (walk find_next n s (Some e)))"
  using assms
proof (induction n arbitrary: s e)
  case 0
  then have "{e' \<in> items s. key e < key e'} = {}" using items_finite [OF 0(1)] by simp
  then show ?case by simp
next
  case (Suc n)
  obtain r s' where r: "find_next s (Some e) = (r, s')" by fastforce
  have s': "inv s'" "items s' = items s" using next_keeps [OF Suc.prems(1), of "Some e"] r by simp_all
  have nx: "is_next key r (key e) (items s)" using next_above [OF Suc.prems(1), of e] r by simp
  show ?case
  proof (cases r)
    case None
    with nx r show ?thesis by (force simp: is_next_def)
  next
    case (Some f)
    have f: "f \<in> items s" "key e < key f" "\<And>e'. e' \<in> items s \<Longrightarrow> key e < key e' \<Longrightarrow> key f \<le> key e'"
      using nx Some by (auto simp: is_next_def)
    have split: "{e' \<in> items s. key e < key e'} = insert f {e' \<in> items s. key f < key e'}"
    proof -
      have "e' = f \<or> key f < key e'" if "e' \<in> items s" "key e < key e'" for e'
        using f(1) f(3) [OF that] inj_onD [OF items_keys [OF Suc.prems(1)]] that(1) by (metis order_le_less)
      with f(1,2) show ?thesis by (auto intro: order_less_trans)
    qed
    have "card {e' \<in> items s'. key f < key e'} \<le> n"
      using Suc.prems(2) items_finite [OF Suc.prems(1)] unfolding split s'(2) by simp
    from Suc.IH [OF s'(1) this] show ?thesis using r Some split s'(2) by auto
  qed
qed

lemma walk_all:
  assumes "inv s" and "card (items s) \<le> n"
  shows "set (walk find_next n s None) = items s \<and> sorted_wrt (<) (map key (walk find_next n s None))"
proof (cases n)
  case 0
  then show ?thesis using assms items_finite [OF assms(1)] by simp
next
  case (Suc m)
  obtain r s' where r: "find_next s None = (r, s')" by fastforce
  have s': "inv s'" "items s' = items s" using next_keeps [OF assms(1), of None] r by simp_all
  show ?thesis
  proof (cases r)
    case None
    then show ?thesis using next_first [OF assms(1)] r Suc by simp
  next
    case (Some f)
    then have f: "f \<in> items s" "\<And>e'. e' \<in> items s \<Longrightarrow> key f \<le> key e'"
      using next_first [OF assms(1)] r by simp_all
    have split: "items s = insert f {e' \<in> items s. key f < key e'}"
    proof -
      have "e' = f \<or> key f < key e'" if "e' \<in> items s" for e'
        using f(1) f(2) [OF that] inj_onD [OF items_keys [OF assms(1)]] that by (metis order_le_less)
      with f(1) show ?thesis by auto
    qed
    have "card (insert f {e' \<in> items s. key f < key e'}) \<le> Suc m"
      using assms(2) Suc split by metis
    then have "card {e' \<in> items s'. key f < key e'} \<le> m"
      using items_finite [OF assms(1)] unfolding s'(2) by simp
    from walk_above [OF s'(1) this] show ?thesis using r Some split s'(2) Suc by auto
  qed
qed

end

locale keyed_store = ordered_store inv items key find_next
  for inv :: "'s \<Rightarrow> bool" and items :: "'s \<Rightarrow> 'e set" and key :: "'e \<Rightarrow> 'k::linorder"
    and find_next :: "'s \<Rightarrow> 'e option \<Rightarrow> 'e option \<times> 's" +
  fixes find :: "'s \<Rightarrow> 'e \<Rightarrow> 'e option \<times> 's"
    and insert1 :: "'s \<Rightarrow> 'e \<Rightarrow> int \<times> 's"
    and remove1 :: "'s \<Rightarrow> 'e \<Rightarrow> (int \<times> 's) option"
  assumes find_keeps: "inv s \<Longrightarrow> inv (snd (find s k)) \<and> items (snd (find s k)) = items s"
    and find_item: "inv s \<Longrightarrow> case fst (find s k) of None \<Rightarrow> \<forall>e\<in>items s. key e \<noteq> key k
      | Some e \<Rightarrow> e \<in> items s \<and> key e = key k"
    and insert_inv: "inv s \<Longrightarrow> inv (snd (insert1 s e))"
    and insert_ok: "inv s \<Longrightarrow> fst (insert1 s e) = 0 \<Longrightarrow>
      key e \<notin> key ` items s \<and> items (snd (insert1 s e)) = insert e (items s)"
    and insert_fails: "inv s \<Longrightarrow> fst (insert1 s e) \<noteq> 0 \<Longrightarrow> items (snd (insert1 s e)) = items s"
    and remove_item: "inv s \<Longrightarrow> \<exists>rc s'. remove1 s k = Some (rc, s') \<and> inv s' \<and>
      items s' = {e \<in> items s. key e \<noteq> key k}"
begin

lemma find_iff: "inv s \<Longrightarrow> fst (find s k) = Some e \<longleftrightarrow> e \<in> items s \<and> key e = key k"
  using find_item [of s k] inj_onD [OF items_keys, of s] by (auto split: option.splits)

lemma find_insert:
  assumes "inv s" and "fst (insert1 s e) = 0"
  shows "fst (find (snd (insert1 s e)) k) = (if key k = key e then Some e else fst (find s k))"
proof -
  have "fst (find (snd (insert1 s e)) k) = Some x \<longleftrightarrow>
      (if key k = key e then Some e else fst (find s k)) = Some x" for x
    unfolding find_iff [OF insert_inv [OF assms(1)]] insert_ok [OF assms, THEN conjunct2]
    using find_iff [OF assms(1), of k x] insert_ok [OF assms, THEN conjunct1] by (auto simp: image_iff)
  then show ?thesis by (rule option_eqI)
qed

lemma find_remove:
  assumes "inv s" and "remove1 s d = Some (rc, s')"
  shows "inv s' \<and> fst (find s' k) = (if key k = key d then None else fst (find s k))"
proof -
  have i: "inv s'" "items s' = {e \<in> items s. key e \<noteq> key d}" using remove_item [OF assms(1), of d] assms(2) by auto
  have "fst (find s' k) = Some x \<longleftrightarrow> (if key k = key d then None else fst (find s k)) = Some x" for x
    unfolding find_iff [OF i(1)] i(2) using find_iff [OF assms(1), of k x] by (cases "key x = key k") simp_all
  then have "fst (find s' k) = (if key k = key d then None else fst (find s k))" by (rule option_eqI)
  with i show ?thesis by blast
qed

end

end
