(* ===== verification/Container_Array.thy ===== *)
theory Container_Array
  imports Container_Compare Container_Spec
begin

section \<open>The binary array container (\<open>snmplib/container_binary_array.c\<close>)\<close>

text \<open>
  The default container of the library: an array of entries that is sorted lazily, before it is
  searched.  The record \<open>container\<close> holds the fields of \<open>netsnmp_container\<close> and
  \<open>binary_array_table\<close> that the code reads and writes: \<open>entries\<close> are the \<open>count\<close> used slots of
  \<open>t->data\<close>, \<open>max_size\<close> the size of the allocation, \<open>sync\<close> the modification count that
  invalidates iterators.  The comparison functions \<open>c->compare\<close> and \<open>c->ncompare\<close> are the parameters
  \<open>cmp\<close> and \<open>ncmp\<close>; a key is compared like an entry, as in C.  Whether the allocator gives room for
  a number of slots is the parameter \<open>alloc\<close>.  A search result \<open>-1\<close> is \<open>None\<close>, a \<open>NULL\<close> entry is
  \<open>None\<close>; entries stored are not \<open>NULL\<close>.  Every operation that may sort returns the container
  too.
\<close>

abbreviation CONTAINER_KEY_ALLOW_DUPLICATES :: u32 where "CONTAINER_KEY_ALLOW_DUPLICATES \<equiv> 1"
abbreviation CONTAINER_KEY_UNSORTED :: u32 where "CONTAINER_KEY_UNSORTED \<equiv> 2"

record 'a container =
  c_flags :: u32
  c_sync :: u64
  max_size :: nat
  dirty :: bool
  entries :: "'a list"

definition flag_set :: "'a container \<Rightarrow> u32 \<Rightarrow> bool" where
  "flag_set c fl \<longleftrightarrow> c_flags c AND fl \<noteq> 0"

definition netsnmp_binary_array_initialize :: "'a container" where
  "netsnmp_binary_array_initialize =
     \<lparr>c_flags = 0, c_sync = 0, max_size = 0, dirty = False, entries = []\<rparr>"


subsection \<open>Sorting and searching\<close>

definition Sort_Array :: "('a \<Rightarrow> 'a \<Rightarrow> int) \<Rightarrow> 'a container \<Rightarrow> int \<times> 'a container" where
  "Sort_Array cmp c =
     (if flag_set c CONTAINER_KEY_UNSORTED then (0, c)
      else if dirty c then
        let xs = (if length (entries c) > 1
                  then array_qsort cmp (entries c) 0 (int (length (entries c)) - 1)
                  else entries c) in
        (1, c\<lparr>entries := xs, dirty := False, c_sync := c_sync c + 1\<rparr>)
      else (1, c))"

definition sort_if_dirty :: "('a \<Rightarrow> 'a \<Rightarrow> int) \<Rightarrow> 'a container \<Rightarrow> 'a container" where
  "sort_if_dirty cmp c = (if dirty c then snd (Sort_Array cmp c) else c)"

fun linear_loop :: "('a \<Rightarrow> 'a \<Rightarrow> int) \<Rightarrow> 'a list \<Rightarrow> 'a \<Rightarrow> nat \<Rightarrow> nat option" where
  "linear_loop cmp [] val pos = None"
| "linear_loop cmp (x # xs) val pos =
     (if cmp x val = 0 then Some pos else linear_loop cmp xs val (pos + 1))"

definition linear_search :: "('a \<Rightarrow> 'a \<Rightarrow> int) \<Rightarrow> 'a \<Rightarrow> 'a container \<Rightarrow> nat option" where
  "linear_search cmp val c =
     (if length (entries c) = 0 then None
      else if \<not> flag_set c CONTAINER_KEY_UNSORTED then None
      else linear_loop cmp (entries c) val 0)"

text \<open>The loop of \<open>binary_search\<close>: it returns \<open>first\<close>, \<open>middle\<close> and \<open>result\<close>.\<close>

function bs_loop ::
  "('a \<Rightarrow> 'a \<Rightarrow> int) \<Rightarrow> 'a list \<Rightarrow> 'a \<Rightarrow> nat \<Rightarrow> nat \<Rightarrow> int \<Rightarrow> nat \<Rightarrow> nat \<times> nat \<times> int" where
  "bs_loop cmp xs val first middle result len =
     (if len > 0 then
        let half = len div 2;
            middle' = first + half;
            result' = cmp (xs ! middle') val in
        if result' < 0 then bs_loop cmp xs val (middle' + 1) middle' result' (len - half - 1)
        else if result' = 0 then (middle', middle', result')
        else bs_loop cmp xs val first middle' result' half
      else (first, middle, result))"
  by pat_completeness auto
termination
  by (relation "measure (\<lambda>(cmp, xs, val, first, middle, result, len). len)") auto

declare bs_loop.simps [simp del]

definition binary_search ::
  "('a \<Rightarrow> 'a \<Rightarrow> int) \<Rightarrow> 'a \<Rightarrow> 'a container \<Rightarrow> bool \<Rightarrow> nat option \<times> 'a container" where
  "binary_search cmp val c exact =
     (let len = length (entries c) in
      if len = 0 then (None, c)
      else if flag_set c CONTAINER_KEY_UNSORTED then
        (if \<not> exact then (None, c) else (linear_search cmp val c, c))
      else
        let c' = sort_if_dirty cmp c;
            (first, middle, result) = bs_loop cmp (entries c') val 0 0 0 len in
        if first \<ge> length (entries c') then (None, c')
        else
          let result' = (if first \<noteq> middle then cmp (entries c' ! first) val else result) in
          if result' = 0 then
            (if \<not> exact then
               (if first + 1 = length (entries c') then (None, c') else (Some (first + 1), c'))
             else (Some first, c'))
          else (if exact then (None, c') else (Some first, c')))"


subsection \<open>The operations\<close>

definition netsnmp_binary_array_options_set :: "'a container \<Rightarrow> bool \<Rightarrow> u32 \<Rightarrow> int \<times> 'a container" where
  "netsnmp_binary_array_options_set c set1 flags =
     (let BA_FLAGS = CONTAINER_KEY_ALLOW_DUPLICATES OR CONTAINER_KEY_UNSORTED in
      if set1 then
        (if flags AND BA_FLAGS = flags then (sint flags, c\<lparr>c_flags := flags\<rparr>) else (-1, c))
      else (if c_flags c AND flags = flags then (1, c) else (0, c)))"

definition netsnmp_binary_array_count :: "'a container \<Rightarrow> nat" where
  "netsnmp_binary_array_count c = length (entries c)"

text \<open>The loop that steps over entries equal to the key; \<open>None\<close> is the end of the array.\<close>

function skip_duplicates :: "('a \<Rightarrow> 'a \<Rightarrow> int) \<Rightarrow> 'a list \<Rightarrow> 'a \<Rightarrow> nat \<Rightarrow> nat option" where
  "skip_duplicates cmp xs key index =
     (if index < length xs then
        (if cmp (xs ! index) key = 0 then skip_duplicates cmp xs key (index + 1) else Some index)
      else None)"
  by pat_completeness auto
termination
  by (relation "measure (\<lambda>(cmp, xs, key, index). length xs - index)") auto

declare skip_duplicates.simps [simp del]

definition netsnmp_binary_array_get ::
  "('a \<Rightarrow> 'a \<Rightarrow> int) \<Rightarrow> 'a container \<Rightarrow> 'a option \<Rightarrow> bool \<Rightarrow> 'a option \<times> 'a container" where
  "netsnmp_binary_array_get cmp c key exact =
     (if length (entries c) = 0 then (None, c)
      else let c1 = sort_if_dirty cmp c in
        case key of
          None \<Rightarrow> (Some (entries c1 ! 0), c1)
        | Some k \<Rightarrow>
            (case binary_search cmp k c1 exact of
               (None, c2) \<Rightarrow> (None, c2)
             | (Some index, c2) \<Rightarrow>
                 if \<not> exact \<and> flag_set c2 CONTAINER_KEY_ALLOW_DUPLICATES then
                   (case skip_duplicates cmp (entries c2) k index of
                      None \<Rightarrow> (None, c2)
                    | Some i \<Rightarrow> (Some (entries c2 ! i), c2))
                 else (Some (entries c2 ! index), c2)))"

text \<open>
  Removal of a slot.  \<open>None\<close> as a whole is an access outside the used slots; otherwise the return
  code, \<open>*save\<close> and the container.
\<close>

definition netsnmp_binary_array_remove_at ::
  "'a container \<Rightarrow> nat \<Rightarrow> (int \<times> 'a option \<times> 'a container) option" where
  "netsnmp_binary_array_remove_at c index =
     (if length (entries c) = 0 then Some (0, None, c)
      else if index \<ge> length (entries c) then None
      else
        let count = length (entries c) - 1;
            c' = c\<lparr>entries := take index (entries c) @ drop (index + 1) (entries c)\<rparr> in
        Some (0, Some (entries c ! index),
              if index \<noteq> count then c'\<lparr>c_sync := c_sync c + 1\<rparr> else c'))"

definition netsnmp_binary_array_remove ::
  "('a \<Rightarrow> 'a \<Rightarrow> int) \<Rightarrow> 'a container \<Rightarrow> 'a \<Rightarrow> (int \<times> 'a option \<times> 'a container) option" where
  "netsnmp_binary_array_remove cmp c key =
     (if length (entries c) = 0 then Some (0, None, c)
      else
        let c1 = sort_if_dirty cmp c in
        case binary_search cmp key c1 True of
          (None, c2) \<Rightarrow> Some (-1, None, c2)
        | (Some index, c2) \<Rightarrow> netsnmp_binary_array_remove_at c2 index)"

text \<open>The callback is represented by the entries it is called on, in order.\<close>

definition netsnmp_binary_array_for_each ::
  "('a \<Rightarrow> 'a \<Rightarrow> int) \<Rightarrow> 'a container \<Rightarrow> bool \<Rightarrow> 'a list \<times> 'a container" where
  "netsnmp_binary_array_for_each cmp c sort1 =
     (let c1 = (if sort1 then sort_if_dirty cmp c else c) in (entries c1, c1))"

definition netsnmp_binary_array_clear :: "'a container \<Rightarrow> bool \<Rightarrow> 'a list \<times> 'a container" where
  "netsnmp_binary_array_clear c fe =
     (if fe then entries c else [], c\<lparr>entries := [], dirty := False, c_sync := c_sync c + 1\<rparr>)"

definition netsnmp_binary_array_insert ::
  "('a \<Rightarrow> 'a \<Rightarrow> int) \<Rightarrow> (nat \<Rightarrow> bool) \<Rightarrow> 'a container \<Rightarrow> 'a \<Rightarrow> int \<times> 'a container" where
  "netsnmp_binary_array_insert cmp alloc c entry =
     (let dups = flag_set c CONTAINER_KEY_ALLOW_DUPLICATES;
          was_dirty = (if dups then False else dirty c);
          (found, c1) = (if dups then (None, c) else netsnmp_binary_array_get cmp c (Some entry) True) in
      if found \<noteq> None then (-1, c1)
      else
        let new_max = (if max_size c1 > 0 then 2 * max_size c1 else 10) in
        if max_size c1 \<le> length (entries c1) \<and> \<not> alloc new_max then (-1, c1)
        else
          let c2 = (if max_size c1 \<le> length (entries c1) then c1\<lparr>max_size := new_max\<rparr> else c1);
              c3 = c2\<lparr>entries := entries c2 @ [entry], dirty := True\<rparr> in
          (0, if \<not> was_dirty then c3\<lparr>c_sync := c_sync c3 + 1\<rparr> else c3))"

function bs_start_loop :: "('a \<Rightarrow> 'a \<Rightarrow> int) \<Rightarrow> 'a list \<Rightarrow> 'a \<Rightarrow> nat \<Rightarrow> nat \<Rightarrow> nat" where
  "bs_start_loop ncmp xs val first len =
     (if len > 0 then
        let half = len div 2; middle = first + half in
        if ncmp (xs ! middle) val < 0 then bs_start_loop ncmp xs val (middle + 1) (len - half - 1)
        else bs_start_loop ncmp xs val first half
      else first)"
  by pat_completeness auto
termination
  by (relation "measure (\<lambda>(ncmp, xs, val, first, len). len)") auto

declare bs_start_loop.simps [simp del]

definition binary_search_for_start ::
  "('a \<Rightarrow> 'a \<Rightarrow> int) \<Rightarrow> ('a \<Rightarrow> 'a \<Rightarrow> int) \<Rightarrow> 'a \<Rightarrow> 'a container \<Rightarrow> nat option \<times> 'a container" where
  "binary_search_for_start cmp ncmp val c =
     (let len = length (entries c) in
      if len = 0 then (None, c)
      else
        let c' = sort_if_dirty cmp c;
            first = bs_start_loop ncmp (entries c') val 0 len in
        if first \<ge> length (entries c') \<or> ncmp (entries c' ! first) val \<noteq> 0 then (None, c')
        else (Some first, c'))"

text \<open>
  \<open>netsnmp_binary_array_get_subset\<close>: the entries from the first match on, as long as they match.
  \<open>ncmp = None\<close> is a container without \<open>ncompare\<close>.
\<close>

definition netsnmp_binary_array_get_subset ::
  "('a \<Rightarrow> 'a \<Rightarrow> int) \<Rightarrow> ('a \<Rightarrow> 'a \<Rightarrow> int) option \<Rightarrow> (nat \<Rightarrow> bool) \<Rightarrow> 'a container \<Rightarrow> 'a
     \<Rightarrow> 'a list option \<times> 'a container" where
  "netsnmp_binary_array_get_subset cmp ncmp alloc c key =
     (case ncmp of
        None \<Rightarrow> (None, c)
      | Some nc \<Rightarrow>
          if length (entries c) = 0 then (None, c)
          else
            let c1 = sort_if_dirty cmp c in
            case binary_search_for_start cmp nc key c1 of
              (None, c2) \<Rightarrow> (None, c2)
            | (Some start, c2) \<Rightarrow>
                let rest = takeWhile (\<lambda>e. nc e key = 0) (drop (start + 1) (entries c2));
                    len = length rest + 1 in
                if alloc len then (Some (take len (drop start (entries c2))), c2) else (None, c2))"

definition ba_duplicate ::
  "bool \<Rightarrow> (nat \<Rightarrow> bool) \<Rightarrow> 'a container \<Rightarrow> u32 \<Rightarrow> 'a container option" where
  "ba_duplicate produced alloc c flags =
     (if flags \<noteq> 0 then None
      else if \<not> produced then None
      else if \<not> alloc (max_size c) then None
      else Some (netsnmp_binary_array_initialize
        \<lparr>c_sync := c_sync c, c_flags := c_flags c, max_size := max_size c, dirty := dirty c,
         entries := entries c\<rparr>))"

definition ba_find :: "('a \<Rightarrow> 'a \<Rightarrow> int) \<Rightarrow> 'a container \<Rightarrow> 'a \<Rightarrow> 'a option \<times> 'a container" where
  "ba_find cmp c k = netsnmp_binary_array_get cmp c (Some k) True"

definition ba_find_next :: "('a \<Rightarrow> 'a \<Rightarrow> int) \<Rightarrow> 'a container \<Rightarrow> 'a option \<Rightarrow> 'a option \<times> 'a container" where
  "ba_find_next cmp c k = netsnmp_binary_array_get cmp c k False"


subsection \<open>Iterators\<close>

record ba_iterator =
  it_sync :: u64
  it_pos :: u64

definition ba_iterator_position :: "'a container \<Rightarrow> ba_iterator \<Rightarrow> u64 \<Rightarrow> 'a option" where
  "ba_iterator_position c it pos =
     (if c_sync c \<noteq> it_sync it then None
      else if length (entries c) = 0 then None
      else if unat pos \<ge> length (entries c) then None
      else Some (entries c ! unat pos))"

definition ba_iterator_curr :: "'a container \<Rightarrow> ba_iterator \<Rightarrow> 'a option" where
  "ba_iterator_curr c it = ba_iterator_position c it (it_pos it)"

definition ba_iterator_first :: "'a container \<Rightarrow> ba_iterator \<Rightarrow> 'a option" where
  "ba_iterator_first c it = ba_iterator_position c it 0"

definition ba_iterator_next :: "'a container \<Rightarrow> ba_iterator \<Rightarrow> 'a option \<times> ba_iterator" where
  "ba_iterator_next c it =
     (let it' = it\<lparr>it_pos := it_pos it + 1\<rparr> in (ba_iterator_position c it' (it_pos it'), it'))"

definition ba_iterator_last :: "'a container \<Rightarrow> ba_iterator \<Rightarrow> 'a option" where
  "ba_iterator_last c it = ba_iterator_position c it (word_of_nat (length (entries c)) - 1)"

definition ba_iterator_remove ::
  "'a container \<Rightarrow> ba_iterator \<Rightarrow> (int \<times> 'a container \<times> ba_iterator) option" where
  "ba_iterator_remove c it =
     (case netsnmp_binary_array_remove_at c (unat (it_pos it)) of
        None \<Rightarrow> None
      | Some (rc, save, c') \<Rightarrow>
          Some (rc, c', it\<lparr>it_sync := it_sync it + 1, it_pos := it_pos it - 1\<rparr>))"

definition ba_iterator_reset ::
  "('a \<Rightarrow> 'a \<Rightarrow> int) \<Rightarrow> 'a container \<Rightarrow> ba_iterator \<Rightarrow> int \<times> 'a container \<times> ba_iterator" where
  "ba_iterator_reset cmp c it =
     (let c' = sort_if_dirty cmp c in (0, c', it\<lparr>it_sync := c_sync c', it_pos := 0\<rparr>))"

definition ba_iterator_get :: "('a \<Rightarrow> 'a \<Rightarrow> int) \<Rightarrow> bool \<Rightarrow> 'a container \<Rightarrow> 'a container \<times> ba_iterator option" where
  "ba_iterator_get cmp produced c =
     (if \<not> produced then (c, None)
      else case ba_iterator_reset cmp c \<lparr>it_sync = 0, it_pos = 0\<rparr> of (_, c', it) \<Rightarrow> (c', Some it))"


subsection \<open>Correctness of the searches\<close>

lemma sort_if_dirty_fields [simp]:
  "c_flags (sort_if_dirty cmp c) = c_flags c" "max_size (sort_if_dirty cmp c) = max_size c"
  "flag_set (sort_if_dirty cmp c) fl = flag_set c fl"
  by (simp_all add: sort_if_dirty_def Sort_Array_def flag_set_def Let_def)

lemma sort_if_dirty_dirty: "dirty (sort_if_dirty cmp c) \<longleftrightarrow> dirty c \<and> flag_set c CONTAINER_KEY_UNSORTED"
  by (simp add: sort_if_dirty_def Sort_Array_def Let_def)

lemma sort_if_dirty_again [simp]: "sort_if_dirty cmp (sort_if_dirty cmp c) = sort_if_dirty cmp c"
  by (simp add: sort_if_dirty_def Sort_Array_def flag_set_def Let_def)

lemma sort_if_dirty_unsorted [simp]: "flag_set c CONTAINER_KEY_UNSORTED \<Longrightarrow> sort_if_dirty cmp c = c"
  by (simp add: sort_if_dirty_def Sort_Array_def)

lemma linear_loop_spec:
  "case linear_loop cmp xs val pos of
     None \<Rightarrow> \<forall>x\<in>set xs. cmp x val \<noteq> 0
   | Some i \<Rightarrow> pos \<le> i \<and> i < pos + length xs \<and> cmp (xs ! (i - pos)) val = 0"
proof (induction xs arbitrary: pos)
  case Nil
  then show ?case by simp
next
  case (Cons x xs)
  show ?case
  proof (cases "cmp x val = 0")
    case False
    then show ?thesis using Cons [of "pos + 1"] by (auto split: option.splits simp: nth_Cons')
  qed simp
qed

text \<open>The invariant of a container: it is sorted unless marked dirty, and fits its allocation.\<close>

definition ba_inv :: "('a \<Rightarrow> 'k::linorder) \<Rightarrow> 'a container \<Rightarrow> bool" where
  "ba_inv key c \<longleftrightarrow> (\<not> dirty c \<longrightarrow> sorted (map key (entries c))) \<and> length (entries c) \<le> max_size c"

text \<open>What the loop of \<open>binary_search\<close> finds in the sorted array, and the result derived from it.\<close>

definition bs_point :: "('a \<Rightarrow> 'a \<Rightarrow> int) \<Rightarrow> ('a \<Rightarrow> 'k::linorder) \<Rightarrow> 'a container \<Rightarrow> 'a \<Rightarrow> nat \<Rightarrow> bool" where
  "bs_point cmp key c k f \<longleftrightarrow>
     (\<forall>exact. binary_search cmp k (sort_if_dirty cmp c) exact =
       (if f \<ge> length (entries c) then None
        else if key (entries (sort_if_dirty cmp c) ! f) = key k then
          (if exact then Some f else if f + 1 = length (entries c) then None else Some (f + 1))
        else if exact then None else Some f, sort_if_dirty cmp c)) \<and>
     (f < length (entries c) \<and> key (entries (sort_if_dirty cmp c) ! f) = key k \<or> f \<le> length (entries c) \<and>
       (\<forall>i<f. key (entries (sort_if_dirty cmp c) ! i) < key k) \<and>
       (\<forall>i\<ge>f. i < length (entries c) \<longrightarrow> key k < key (entries (sort_if_dirty cmp c) ! i)))"

lemmas bs_pointD = bs_point_def [THEN iffD1, THEN conjunct1, rule_format]
  bs_point_def [THEN iffD1, THEN conjunct2]

context compare_order
begin

lemma cmp_greater: "cmp a b > 0 \<longleftrightarrow> key b < key a"
  using cmp_less [of a b] cmp_eq [of a b] by (metis linorder_neqE linorder_not_less order_less_irrefl order_le_less)

lemma bs_loop_spec:
  assumes "sorted (map key xs)" and "first + len \<le> length xs"
    and "\<And>m. m < first \<Longrightarrow> key (xs ! m) < key val"
    and "\<And>m. first + len \<le> m \<Longrightarrow> m < length xs \<Longrightarrow> key val < key (xs ! m)"
    and "len = 0 \<Longrightarrow> result = cmp (xs ! middle) val"
    and "bs_loop cmp xs val first middle result len = (f, m, r)"
  shows "r = cmp (xs ! m) val \<and>
    (f = m \<and> r = 0 \<and> f < length xs \<or>
     f \<le> length xs \<and> (\<forall>k<f. key (xs ! k) < key val) \<and> (\<forall>k\<ge>f. k < length xs \<longrightarrow> key val < key (xs ! k)))"
  using assms(2-)
proof (induction len arbitrary: first middle result rule: less_induct)
  case (less len)
  show ?case
  proof (cases "len = 0")
    case True
    with less.prems show ?thesis by (auto simp: bs_loop.simps)
  next
    case False
    define h where "h = first + len div 2"
    have h: "first \<le> h" "h < first + len" "h < length xs"
      using False less.prems(1) by (auto simp: h_def)
    consider (lt) "key (xs ! h) < key val" | (eq) "key (xs ! h) = key val" | (gt) "key val < key (xs ! h)"
      by (metis linorder_neqE)
    then show ?thesis
    proof cases
      case lt
      have le: "key (xs ! k) < key val" if "k < h + 1" for k
      proof -
        have "key (xs ! k) \<le> key (xs ! h)"
          using sorted_nth_mono [OF assms(1), of k h] that h(3) by simp
        with lt show ?thesis by simp
      qed
      have q: "bs_loop cmp xs val (h + 1) h (cmp (xs ! h) val) (len - len div 2 - 1) = (f, m, r)"
        using less.prems(5) False lt by (subst (asm) bs_loop.simps) (simp add: Let_def h_def cmp_less)
      show ?thesis
        using le h less.prems(1,3) False by (intro less.IH [OF _ _ _ _ _ q]) (auto simp: h_def)
    next
      case eq
      then have "(f, m, r) = (h, h, 0)"
        using less.prems(5) False cmp_eq [of "xs ! h" val] by (subst (asm) bs_loop.simps) (simp add: Let_def h_def)
      with eq h show ?thesis by (simp add: cmp_eq)
    next
      case gt
      have ge: "key val < key (xs ! k)" if "h \<le> k" "k < length xs" for k
      proof -
        have "key (xs ! h) \<le> key (xs ! k)"
          using sorted_nth_mono [OF assms(1), of h k] that by simp
        with gt show ?thesis by simp
      qed
      have q: "bs_loop cmp xs val first h (cmp (xs ! h) val) (len div 2) = (f, m, r)"
        using less.prems(5) False gt cmp_greater [of "xs ! h" val]
        by (subst (asm) bs_loop.simps) (simp add: Let_def h_def)
      show ?thesis
        using ge h less.prems(1,2) False by (intro less.IH [OF _ _ _ _ _ q]) (auto simp: h_def)
    qed
  qed
qed

lemma sort_if_dirty_entries:
  "mset (entries (sort_if_dirty cmp c)) = mset (entries c) \<and>
   (dirty c \<and> \<not> flag_set c CONTAINER_KEY_UNSORTED \<longrightarrow> sorted (map key (entries (sort_if_dirty cmp c))))"
proof (cases "dirty c \<and> \<not> flag_set c CONTAINER_KEY_UNSORTED")
  case True
  let ?xs = "entries c" and ?ys = "array_qsort cmp (entries c) 0 (int (length (entries c)) - 1)"
  have e: "entries (sort_if_dirty cmp c) = (if length ?xs > 1 then ?ys else ?xs)"
    using True by (simp add: sort_if_dirty_def Sort_Array_def Let_def)
  show ?thesis
  proof (cases "length ?xs > 1")
    case len: True
    have s: "permuted 0 (int (length ?xs) - 1) ?xs ?ys"
      "\<And>a b. 0 \<le> a \<Longrightarrow> a \<le> b \<Longrightarrow> b \<le> int (length ?xs) - 1 \<Longrightarrow> key (?ys ! nat a) \<le> key (?ys ! nat b)"
      using array_qsort_sorts [of 0 "int (length ?xs) - 1" ?xs] len by fastforce+
    have "key (?ys ! a) \<le> key (?ys ! b)" if "a \<le> b" "b < length ?ys" for a b
      using s(2) [of "int a" "int b"] that permutedD(1) [OF s(1)] by simp
    then have "sorted (map key ?ys)" by (simp add: sorted_iff_nth_mono)
    with e len permutedD(2) [OF s(1)] show ?thesis by simp
  next
    case False
    then have "sorted (map key ?xs)" by (cases ?xs) auto
    with e False show ?thesis by simp
  qed
next
  case False
  then show ?thesis by (auto simp: sort_if_dirty_def Sort_Array_def)
qed

lemma sort_if_dirty_set [simp]: "set (entries (sort_if_dirty cmp c)) = set (entries c)"
  and sort_if_dirty_length [simp]: "length (entries (sort_if_dirty cmp c)) = length (entries c)"
  using sort_if_dirty_entries by (metis set_mset_mset, metis size_mset)

lemma sort_if_dirty_inv:
  assumes "ba_inv key c"
  shows "ba_inv key (sort_if_dirty cmp c)"
    and "\<not> flag_set c CONTAINER_KEY_UNSORTED \<Longrightarrow> sorted (map key (entries (sort_if_dirty cmp c)))"
  using assms sort_if_dirty_entries [of c] sort_if_dirty_dirty [of cmp c]
  by (auto simp: ba_inv_def) (auto simp: sort_if_dirty_def)

lemma binary_search_sorted:
  assumes "ba_inv key c" and "entries c \<noteq> []" and "\<not> flag_set c CONTAINER_KEY_UNSORTED"
  shows "\<exists>f. bs_point cmp key c k f"
proof -
  let ?xs = "entries (sort_if_dirty cmp c)"
  have s: "sorted (map key ?xs)" using sort_if_dirty_inv(2) [OF assms(1,3)] .
  obtain f m r where q: "bs_loop cmp ?xs k 0 0 0 (length (entries c)) = (f, m, r)" using prod_cases3 by blast
  have spec: "r = cmp (?xs ! m) k \<and>
    (f = m \<and> r = 0 \<and> f < length ?xs \<or>
     f \<le> length ?xs \<and> (\<forall>i<f. key (?xs ! i) < key k) \<and> (\<forall>i\<ge>f. i < length ?xs \<longrightarrow> key k < key (?xs ! i)))"
    using assms(2) by (intro bs_loop_spec [OF s _ _ _ _ q]) auto
  have "bs_point cmp key c k f"
    unfolding bs_point_def
  proof (intro conjI allI)
    show "binary_search cmp k (sort_if_dirty cmp c) exact =
      (if f \<ge> length (entries c) then None
       else if key (?xs ! f) = key k then
         (if exact then Some f else if f + 1 = length (entries c) then None else Some (f + 1))
       else if exact then None else Some f, sort_if_dirty cmp c)" for exact
      using assms spec by (auto simp: binary_search_def Let_def q cmp_eq)
    show "f < length (entries c) \<and> key (?xs ! f) = key k \<or> f \<le> length (entries c) \<and>
      (\<forall>i<f. key (?xs ! i) < key k) \<and> (\<forall>i\<ge>f. i < length (entries c) \<longrightarrow> key k < key (?xs ! i))"
      using spec by (auto simp: cmp_eq)
  qed
  then show ?thesis ..
qed

lemma binary_search_exact:
  assumes "ba_inv key c"
  shows "snd (binary_search cmp k (sort_if_dirty cmp c) True) = sort_if_dirty cmp c \<and>
    (case fst (binary_search cmp k (sort_if_dirty cmp c) True) of
       None \<Rightarrow> \<forall>e\<in>set (entries c). key e \<noteq> key k
     | Some i \<Rightarrow> i < length (entries c) \<and> key (entries (sort_if_dirty cmp c) ! i) = key k)"
proof -
  let ?d = "sort_if_dirty cmp c"
  consider (nil) "entries c = []" | (uns) "entries c \<noteq> []" "flag_set c CONTAINER_KEY_UNSORTED"
    | (srt) "entries c \<noteq> []" "\<not> flag_set c CONTAINER_KEY_UNSORTED" by blast
  then show ?thesis
  proof cases
    case nil
    then show ?thesis by (simp add: binary_search_def)
  next
    case uns
    then show ?thesis using linear_loop_spec [where cmp = cmp and xs = "entries c" and val = k and pos = 0]
      by (auto simp: binary_search_def linear_search_def cmp_eq split: option.splits)
  next
    case srt
    obtain f where f: "bs_point cmp key c k f" using binary_search_sorted [OF assms srt] by blast
    have "\<forall>e\<in>set (entries ?d). key e \<noteq> key k" if "\<not> (f < length (entries c) \<and> key (entries ?d ! f) = key k)"
    proof -
      have "key (entries ?d ! i) \<noteq> key k" if "i < length (entries ?d)" for i
        using bs_pointD(2) [OF f] \<open>\<not> (f < _ \<and> _)\<close> that
        by (metis less_irrefl not_le sort_if_dirty_length)
      then show ?thesis by (metis in_set_conv_nth)
    qed
    then show ?thesis using bs_pointD(1) [OF f, of True] by auto
  qed
qed

lemma next_in_sorted:
  assumes "sorted (map key xs)" and "\<And>i. i < n \<Longrightarrow> key (xs ! i) \<le> k" and "n \<le> length xs"
    and "n < length xs \<Longrightarrow> k < key (xs ! n)"
  shows "is_next key (if n < length xs then Some (xs ! n) else None) k (set xs)"
proof (cases "n < length xs")
  case True
  have "key (xs ! n) \<le> key (xs ! i)" if "i < length xs" "k < key (xs ! i)" for i
  proof -
    have "n \<le> i" using assms(2) [of i] that(2) by force
    then show ?thesis using sorted_nth_mono [OF assms(1), of n i] that(1) by simp
  qed
  with True assms(4) show ?thesis by (auto simp: is_next_def in_set_conv_nth)
next
  case False
  with assms(2,3) show ?thesis by (auto simp: is_next_def in_set_conv_nth)
qed

lemma skip_duplicates_spec:
  assumes "sorted (map key xs)" and "\<And>i. i < n \<Longrightarrow> key (xs ! i) \<le> key k" and "n \<le> length xs"
    and "n < length xs \<Longrightarrow> key k \<le> key (xs ! n)"
  shows "is_next key (map_option (\<lambda>i. xs ! i) (skip_duplicates cmp xs k n)) (key k) (set xs)"
  using assms(2-)
proof (induction "length xs - n" arbitrary: n)
  case 0
  then have "n = length xs" by simp
  then show ?case using next_in_sorted [OF assms(1), of n "key k"] 0(2-) by (simp add: skip_duplicates.simps)
next
  case (Suc d)
  then have n: "n < length xs" by simp
  show ?case
  proof (cases "key (xs ! n) = key k")
    case True
    have "key (xs ! i) \<le> key k" if "i < n + 1" for i
      using that Suc.prems(1) [of i] True by (cases "i = n") auto
    moreover have "key k \<le> key (xs ! (n + 1))" if "n + 1 < length xs"
      using sorted_nth_mono [OF assms(1), of n "n + 1"] that True by simp
    ultimately have "is_next key (map_option ((!) xs) (skip_duplicates cmp xs k (n + 1))) (key k) (set xs)"
      using Suc(2) n by (intro Suc.hyps(1)) auto
    then show ?thesis using n True by (subst skip_duplicates.simps) (simp add: cmp_eq)
  next
    case False
    then show ?thesis
      using next_in_sorted [OF assms(1), of n "key k"] Suc.prems n
      by (subst skip_duplicates.simps) (simp add: cmp_eq order_less_le)
  qed
qed

end


subsection \<open>Correctness of the operations\<close>

definition settle :: "('a \<Rightarrow> 'a \<Rightarrow> int) \<Rightarrow> 'a container \<Rightarrow> 'a container" where
  "settle cmp c = (if entries c = [] then c else sort_if_dirty cmp c)"

lemma settle_fields [simp]:
  "c_flags (settle cmp c) = c_flags c" "max_size (settle cmp c) = max_size c"
  "flag_set (settle cmp c) fl = flag_set c fl"
  by (simp_all add: settle_def)

lemma mset_remove_at: "i < length xs \<Longrightarrow> mset xs = add_mset (xs ! i) (mset (take i xs @ drop (i + 1) xs))"
  by (subst (1) id_take_nth_drop) simp_all

lemma sorted_remove_at:
  assumes "sorted (map f xs)"
  shows "sorted (map f (take i xs @ drop (i + 1) xs))"
proof -
  have "sorted (map f (take i xs) @ map f (drop i xs))" using assms by (simp flip: map_append)
  then have s: "sorted (map f (take i xs))" "sorted (map f (drop i xs))"
    "\<forall>x\<in>set (take i xs). \<forall>y\<in>set (drop i xs). f x \<le> f y" by (auto simp: sorted_append)
  have "sorted (map f (drop (i + 1) xs))"
    using sorted_wrt_drop [OF assms, of "i + 1"] by (simp add: drop_map)
  with s show ?thesis using set_drop_subset_set_drop [of i "i + 1" xs] by (auto simp: sorted_append)
qed

context compare_order
begin

lemma settle_set [simp]: "set (entries (settle cmp c)) = set (entries c)"
  and settle_length [simp]: "length (entries (settle cmp c)) = length (entries c)"
  and settle_mset [simp]: "mset (entries (settle cmp c)) = mset (entries c)"
  using sort_if_dirty_entries [of c] by (simp_all add: settle_def)

lemma settle_inv: "ba_inv key c \<Longrightarrow> ba_inv key (settle cmp c)"
  by (simp add: settle_def sort_if_dirty_inv)

lemma distinct_sort: "distinct (map key (entries (sort_if_dirty cmp c))) \<longleftrightarrow> distinct (map key (entries c))"
  using sort_if_dirty_entries [of c] by (metis mset_eq_imp_distinct_iff mset_map)

lemma get_exact:
  assumes "ba_inv key c"
  shows "snd (netsnmp_binary_array_get cmp c (Some k) True) = settle cmp c"
    and "case fst (netsnmp_binary_array_get cmp c (Some k) True) of
       None \<Rightarrow> \<forall>e\<in>set (entries c). key e \<noteq> key k
     | Some e \<Rightarrow> e \<in> set (entries c) \<and> key e = key k"
proof -
  obtain r d where q: "binary_search cmp k (sort_if_dirty cmp c) True = (r, d)" by fastforce
  have "e \<in> set (entries c)" if "e = entries (sort_if_dirty cmp c) ! i" "i < length (entries c)" for e i
    using that by (metis nth_mem sort_if_dirty_set sort_if_dirty_length)
  then show "snd (netsnmp_binary_array_get cmp c (Some k) True) = settle cmp c"
    and "case fst (netsnmp_binary_array_get cmp c (Some k) True) of
       None \<Rightarrow> \<forall>e\<in>set (entries c). key e \<noteq> key k
     | Some e \<Rightarrow> e \<in> set (entries c) \<and> key e = key k"
    using binary_search_exact [OF assms, of k] q
    by (auto simp: netsnmp_binary_array_get_def settle_def Let_def split: option.splits)
qed

lemma get_next:
  assumes "ba_inv key c" and "\<not> flag_set c CONTAINER_KEY_UNSORTED"
    and "flag_set c CONTAINER_KEY_ALLOW_DUPLICATES \<or> distinct (map key (entries c))"
  shows "snd (netsnmp_binary_array_get cmp c (Some k) False) = settle cmp c"
    and "is_next key (fst (netsnmp_binary_array_get cmp c (Some k) False)) (key k) (set (entries c))"
proof -
  have "snd (netsnmp_binary_array_get cmp c (Some k) False) = settle cmp c \<and>
    is_next key (fst (netsnmp_binary_array_get cmp c (Some k) False)) (key k) (set (entries c))"
  proof (cases "entries c = []")
    case True
    then show ?thesis by (simp add: netsnmp_binary_array_get_def settle_def is_next_def)
  next
    case False
    let ?xs = "entries (sort_if_dirty cmp c)"
    have s: "sorted (map key ?xs)" using sort_if_dirty_inv(2) [OF assms(1,2)] .
    obtain f where f: "bs_point cmp key c k f" using binary_search_sorted [OF assms(1) False assms(2)] by blast
    define n where "n = (if f < length (entries c) \<and> key (?xs ! f) = key k then f + 1 else f)"
    have n: "n \<le> length ?xs" using bs_pointD(2) [OF f] by (auto simp: n_def)
    have lo: "key (?xs ! i) \<le> key k" if "i < n" for i
    proof (cases "f < length (entries c) \<and> key (?xs ! f) = key k")
      case True
      then show ?thesis using sorted_nth_mono [OF s, of i f] that by (simp add: n_def)
    next
      case False
      then show ?thesis using bs_pointD(2) [OF f] that by (auto simp: n_def)
    qed
    have hi: "key k \<le> key (?xs ! n)" if "n < length ?xs"
    proof (cases "f < length (entries c) \<and> key (?xs ! f) = key k")
      case True
      then show ?thesis using sorted_nth_mono [OF s, of f n] that by (simp add: n_def)
    next
      case False
      then show ?thesis using bs_pointD(2) [OF f] that by (auto simp: n_def order_less_imp_le)
    qed
    have res: "binary_search cmp k (sort_if_dirty cmp c) False =
        (if n < length ?xs then Some n else None, sort_if_dirty cmp c)"
      using bs_pointD(1) [OF f, of False] by (auto simp: n_def)
    show ?thesis
    proof (cases "flag_set c CONTAINER_KEY_ALLOW_DUPLICATES")
      case True
      have "netsnmp_binary_array_get cmp c (Some k) False =
          (map_option (\<lambda>i. ?xs ! i) (skip_duplicates cmp ?xs k n), sort_if_dirty cmp c)"
      proof (cases "n < length ?xs")
        case nlt: True
        then show ?thesis using False True res
          by (auto simp: netsnmp_binary_array_get_def Let_def split: option.splits)
      next
        case nge: False
        then have "skip_duplicates cmp ?xs k n = None" by (subst skip_duplicates.simps) simp
        with nge show ?thesis using False True res by (auto simp: netsnmp_binary_array_get_def Let_def)
      qed
      then show ?thesis using skip_duplicates_spec [OF s lo n hi] False by (simp add: settle_def)
    next
      case nodup: False
      then have "distinct (map key ?xs)" using assms(3) distinct_sort by blast
      then have "key k < key (?xs ! n)" if "n < length ?xs"
        using that hi bs_pointD(2) [OF f]
        by (auto simp: n_def distinct_conv_nth split: if_splits) (metis Suc_lessD n_not_Suc_n order_le_less)
      then have "is_next key (if n < length ?xs then Some (?xs ! n) else None) (key k) (set ?xs)"
        by (intro next_in_sorted [OF s lo n])
      then show ?thesis using nodup False res
        by (auto simp: netsnmp_binary_array_get_def settle_def Let_def split: if_splits)
    qed
  qed
  then show "snd (netsnmp_binary_array_get cmp c (Some k) False) = settle cmp c"
    and "is_next key (fst (netsnmp_binary_array_get cmp c (Some k) False)) (key k) (set (entries c))"
    by blast+
qed

lemma get_first:
  assumes "ba_inv key c" and "\<not> flag_set c CONTAINER_KEY_UNSORTED"
  shows "snd (netsnmp_binary_array_get cmp c None exact) = settle cmp c"
    and "case fst (netsnmp_binary_array_get cmp c None exact) of
       None \<Rightarrow> entries c = []
     | Some e \<Rightarrow> e \<in> set (entries c) \<and> (\<forall>e'\<in>set (entries c). key e \<le> key e')"
proof -
  let ?xs = "entries (sort_if_dirty cmp c)"
  have s: "sorted (map key ?xs)" using sort_if_dirty_inv(2) [OF assms] .
  have "?xs ! 0 \<in> set (entries c) \<and> (\<forall>e'\<in>set (entries c). key (?xs ! 0) \<le> key e')" if "entries c \<noteq> []"
  proof -
    obtain x ys where xs: "?xs = x # ys"
      using \<open>entries c \<noteq> []\<close> sort_if_dirty_length [of c] by (cases ?xs) auto
    have "\<forall>e'\<in>set ?xs. key x \<le> key e'" using s unfolding xs by auto
    then have "\<forall>e'\<in>set (entries c). key x \<le> key e'" by simp
    moreover have "x \<in> set (entries c)" using xs sort_if_dirty_set [of c] by (metis list.set_intros(1))
    ultimately show ?thesis using xs by simp
  qed
  then show "snd (netsnmp_binary_array_get cmp c None exact) = settle cmp c"
    and "case fst (netsnmp_binary_array_get cmp c None exact) of
       None \<Rightarrow> entries c = []
     | Some e \<Rightarrow> e \<in> set (entries c) \<and> (\<forall>e'\<in>set (entries c). key e \<le> key e')"
    by (auto simp: netsnmp_binary_array_get_def settle_def Let_def)
qed

end


context compare_order
begin

text \<open>Insertion: what it stores and exactly when it refuses.\<close>

lemma insert_spec:
  assumes "ba_inv key c" and "netsnmp_binary_array_insert cmp alloc c entry = (rc, c')"
  defines "dups \<equiv> flag_set c CONTAINER_KEY_ALLOW_DUPLICATES"
    and "full \<equiv> max_size c \<le> length (entries c) \<and> \<not> alloc (if max_size c > 0 then 2 * max_size c else 10)"
  shows "ba_inv key c' \<and> c_flags c' = c_flags c \<and>
    (if (\<not> dups \<and> key entry \<in> key ` set (entries c)) \<or> full
     then rc = -1 \<and> mset (entries c') = mset (entries c)
     else rc = 0 \<and> mset (entries c') = add_mset entry (mset (entries c)) \<and> dirty c')"
proof -
  define c1 where "c1 = (if dups then c else settle cmp c)"
  define found where "found = (if dups then None else fst (netsnmp_binary_array_get cmp c (Some entry) True))"
  have get: "(if dups then (None, c) else netsnmp_binary_array_get cmp c (Some entry) True) = (found, c1)"
    using get_exact(1) [OF assms(1), of entry] by (simp add: found_def c1_def prod_eq_iff)
  have f: "found \<noteq> None \<longleftrightarrow> \<not> dups \<and> key entry \<in> key ` set (entries c)"
    using get_exact(2) [OF assms(1), of entry] by (auto simp: found_def split: option.splits) (metis imageI)
  have c1: "ba_inv key c1" "c_flags c1 = c_flags c" "mset (entries c1) = mset (entries c)"
      "max_size c1 = max_size c" "length (entries c1) = length (entries c)"
    using settle_inv [OF assms(1)] assms(1) by (simp_all add: c1_def)
  have e: "netsnmp_binary_array_insert cmp alloc c entry =
     (if found \<noteq> None then (-1, c1) else
      if full then (-1, c1)
      else
          let c2 = (if max_size c1 \<le> length (entries c1)
                    then c1\<lparr>max_size := if max_size c1 > 0 then 2 * max_size c1 else 10\<rparr> else c1);
              c3 = c2\<lparr>entries := entries c2 @ [entry], dirty := True\<rparr> in
          (0, if \<not> (if dups then False else dirty c) then c3\<lparr>c_sync := c_sync c3 + 1\<rparr> else c3))"
    unfolding netsnmp_binary_array_insert_def Let_def dups_def [symmetric] get
    by (auto simp: c1(4,5) full_def)
  show ?thesis
    using assms(2) c1 f unfolding e full_def
    by (auto simp: Let_def ba_inv_def Suc_le_eq split: if_splits)
qed

lemma remove_at_spec:
  assumes "ba_inv key c" and "i < length (entries c)"
  shows "\<exists>c'. netsnmp_binary_array_remove_at c i = Some (0, Some (entries c ! i), c') \<and> ba_inv key c' \<and>
    c_flags c' = c_flags c \<and> mset (entries c) = add_mset (entries c ! i) (mset (entries c'))"
  using assms sorted_remove_at [of key "entries c" i] mset_remove_at [OF assms(2)]
  by (auto simp: netsnmp_binary_array_remove_at_def ba_inv_def Let_def)

lemma remove_spec:
  assumes "ba_inv key c"
  shows "\<exists>rc save c'. netsnmp_binary_array_remove cmp c k = Some (rc, save, c') \<and> ba_inv key c' \<and>
    c_flags c' = c_flags c \<and>
    (case save of
       None \<Rightarrow> key k \<notin> key ` set (entries c) \<and> mset (entries c') = mset (entries c) \<and>
         rc = (if entries c = [] then 0 else -1)
     | Some e \<Rightarrow> rc = 0 \<and> key e = key k \<and> mset (entries c) = add_mset e (mset (entries c')))"
proof (cases "entries c = []")
  case True
  then show ?thesis using assms by (simp add: netsnmp_binary_array_remove_def)
next
  case False
  let ?d = "sort_if_dirty cmp c"
  have d: "ba_inv key ?d" "mset (entries ?d) = mset (entries c)"
    using sort_if_dirty_inv(1) [OF assms] sort_if_dirty_entries by auto
  obtain r d' where q: "binary_search cmp k ?d True = (r, d')" by fastforce
  note bs = binary_search_exact [OF assms, of k, unfolded q]
  show ?thesis
  proof (cases r)
    case None
    then show ?thesis using bs False d q by (auto simp: netsnmp_binary_array_remove_def)
  next
    case (Some i)
    then have i: "i < length (entries ?d)" "key (entries ?d ! i) = key k" "d' = ?d" using bs by auto
    with remove_at_spec [OF d(1) i(1)] show ?thesis
      using False Some q d(2) by (auto simp: netsnmp_binary_array_remove_def)
  qed
qed

lemma clear_inv: "ba_inv key (snd (netsnmp_binary_array_clear c fe))"
  by (simp add: netsnmp_binary_array_clear_def ba_inv_def)

lemma get_inv:
  assumes "ba_inv key c"
  shows "ba_inv key (snd (netsnmp_binary_array_get cmp c k exact)) \<and>
    c_flags (snd (netsnmp_binary_array_get cmp c k exact)) = c_flags c \<and>
    mset (entries (snd (netsnmp_binary_array_get cmp c k exact))) = mset (entries c)"
proof -
  have "snd (binary_search cmp x (sort_if_dirty cmp c) exact) = sort_if_dirty cmp c" for x
    by (auto simp: binary_search_def Let_def split: prod.splits)
  then have "snd (netsnmp_binary_array_get cmp c k exact) = settle cmp c"
    by (auto simp: netsnmp_binary_array_get_def settle_def Let_def split: option.splits prod.splits)
       (metis snd_conv)+
  with settle_inv [OF assms] show ?thesis by simp
qed

end

end
