(* ===== verification/Container_Table.thy ===== *)
theory Container_Table
  imports Container_Array
begin

section \<open>The binary array as a table\<close>

text \<open>
  The container against its contract: it implements \<open>keyed_store\<close> for every comparison function
  that satisfies \<open>compare_order\<close>, every reachable container has the invariant, and the properties
  of the sorted table of rows indexed by object identifiers.
\<close>

subsection \<open>The container as a keyed store\<close>

text \<open>
  \<open>ba_remove\<close> is \<open>_ba_remove\<close>, which passes no \<open>save\<close>.  A table is a container with the flags 0,
  distinct keys and the invariant.
\<close>

definition ba_remove :: "('a \<Rightarrow> 'a \<Rightarrow> int) \<Rightarrow> 'a container \<Rightarrow> 'a \<Rightarrow> (int \<times> 'a container) option" where
  "ba_remove cmp c k =
     map_option (\<lambda>(rc, save, c'). (rc, c')) (netsnmp_binary_array_remove cmp c k)"

definition ba_table :: "('a \<Rightarrow> 'k::linorder) \<Rightarrow> 'a container \<Rightarrow> bool" where
  "ba_table key c \<longleftrightarrow> ba_inv key c \<and> c_flags c = 0 \<and> distinct (map key (entries c))"

lemma distinct_mset: "mset xs = mset ys \<Longrightarrow> distinct (map f xs) = distinct (map f ys)"
  by (metis mset_eq_imp_distinct_iff mset_map)

lemma ba_table_flags: "ba_table key c \<Longrightarrow> \<not> flag_set c fl"
  by (simp add: ba_table_def flag_set_def)

context compare_order
begin

lemma ba_table_get:
  assumes "ba_table key c"
  shows "ba_table key (snd (netsnmp_binary_array_get cmp c k exact)) \<and>
    set (entries (snd (netsnmp_binary_array_get cmp c k exact))) = set (entries c)"
proof -
  let ?d = "snd (netsnmp_binary_array_get cmp c k exact)"
  have "ba_inv key ?d \<and> c_flags ?d = c_flags c \<and> mset (entries ?d) = mset (entries c)"
    using assms by (intro get_inv) (simp add: ba_table_def)
  then show ?thesis using assms distinct_mset [of "entries ?d" "entries c" key]
    by (metis ba_table_def mset_eq_setD)
qed

lemma ba_table_insert:
  assumes "ba_table key c"
  shows "ba_table key (snd (netsnmp_binary_array_insert cmp alloc c e)) \<and>
    (if fst (netsnmp_binary_array_insert cmp alloc c e) = 0
     then key e \<notin> key ` set (entries c) \<and>
       set (entries (snd (netsnmp_binary_array_insert cmp alloc c e))) = insert e (set (entries c))
     else set (entries (snd (netsnmp_binary_array_insert cmp alloc c e))) = set (entries c))"
proof -
  obtain rc c' where i: "netsnmp_binary_array_insert cmp alloc c e = (rc, c')" by fastforce
  have inv: "ba_inv key c" using assms by (simp add: ba_table_def)
  note s = insert_spec [OF inv i]
  show ?thesis
  proof (cases "rc = 0")
    case True
    then have m: "mset (entries c') = mset (e # entries c)" "key e \<notin> key ` set (entries c)"
      "ba_inv key c'" "c_flags c' = c_flags c"
      using s ba_table_flags [OF assms] by (auto split: if_splits)
    with assms distinct_mset [OF m(1), of key] mset_eq_setD [OF m(1)] show ?thesis
      unfolding i fst_conv snd_conv ba_table_def using True by simp
  next
    case False
    then have m: "mset (entries c') = mset (entries c)" "ba_inv key c'" "c_flags c' = c_flags c"
      using s by (auto split: if_splits)
    with assms distinct_mset [OF m(1), of key] mset_eq_setD [OF m(1)] show ?thesis
      unfolding i fst_conv snd_conv ba_table_def using False by simp
  qed
qed

lemma ba_table_remove:
  assumes "ba_table key c"
  shows "\<exists>rc c'. ba_remove cmp c k = Some (rc, c') \<and> ba_table key c' \<and>
    set (entries c') = {e \<in> set (entries c). key e \<noteq> key k}"
proof -
  have inv: "ba_inv key c" "c_flags c = 0" "distinct (map key (entries c))" using assms by (simp_all add: ba_table_def)
  obtain rc save c' where r: "netsnmp_binary_array_remove cmp c k = Some (rc, save, c')"
      "ba_inv key c'" "c_flags c' = c_flags c"
    and sv: "case save of
       None \<Rightarrow> key k \<notin> key ` set (entries c) \<and> mset (entries c') = mset (entries c) \<and>
         rc = (if entries c = [] then 0 else -1)
     | Some e \<Rightarrow> rc = 0 \<and> key e = key k \<and> mset (entries c) = add_mset e (mset (entries c'))"
    using remove_spec [OF inv(1), of k] by blast
  have "distinct (map key (entries c')) \<and> set (entries c') = {e \<in> set (entries c). key e \<noteq> key k}"
  proof (cases save)
    case None
    then show ?thesis using sv inv distinct_mset [of "entries c'" "entries c" key] mset_eq_setD [of "entries c'" "entries c"]
      by (auto simp: image_iff)
  next
    case (Some e)
    then have m: "mset (entries c) = mset (e # entries c')" "key e = key k" using sv by auto
    then have "distinct (map key (e # entries c'))" using inv(3) distinct_mset by blast
    moreover have "set (entries c) = insert e (set (entries c'))" using mset_eq_setD [OF m(1)] by simp
    ultimately show ?thesis using m(2) by (auto simp: image_iff)
  qed
  with r inv show ?thesis by (auto simp: ba_remove_def ba_table_def)
qed

end

sublocale compare_order \<subseteq> ba: keyed_store "ba_table key" "\<lambda>c. set (entries c)" key
  "ba_find_next cmp" "ba_find cmp"
  "netsnmp_binary_array_insert cmp alloc" "ba_remove cmp"
  for alloc
proof unfold_locales
  fix s :: "'a container" and e k :: "'a" and kn :: "'a option"
  assume t: "ba_table key s"
  have i: "ba_inv key s" "\<not> flag_set s CONTAINER_KEY_UNSORTED" "distinct (map key (entries s))"
    using t ba_table_flags [OF t] by (simp_all add: ba_table_def)
  show "finite (set (entries s))" by simp
  show "inj_on key (set (entries s))" using i(3) by (simp add: distinct_map)
  show "ba_table key (snd (ba_find_next cmp s kn)) \<and>
      set (entries (snd (ba_find_next cmp s kn))) = set (entries s)"
    unfolding ba_find_next_def by (rule ba_table_get [OF t])
  show "case fst (ba_find_next cmp s None) of None \<Rightarrow> set (entries s) = {}
      | Some e \<Rightarrow> e \<in> set (entries s) \<and> (\<forall>e'\<in>set (entries s). key e \<le> key e')"
    using get_first(2) [OF i(1,2), of False] unfolding ba_find_next_def by (auto split: option.splits)
  show "is_next key (fst (ba_find_next cmp s (Some e))) (key e) (set (entries s))"
    unfolding ba_find_next_def by (rule get_next(2) [OF i(1,2)]) (simp add: i(3))
  show "ba_table key (snd (ba_find cmp s k)) \<and>
      set (entries (snd (ba_find cmp s k))) = set (entries s)"
    unfolding ba_find_def by (rule ba_table_get [OF t])
  show "case fst (ba_find cmp s k) of None \<Rightarrow> \<forall>e\<in>set (entries s). key e \<noteq> key k
      | Some e \<Rightarrow> e \<in> set (entries s) \<and> key e = key k"
    unfolding ba_find_def by (rule get_exact(2) [OF i(1)])
  show "ba_table key (snd (netsnmp_binary_array_insert cmp alloc s e))"
    using ba_table_insert [OF t] by blast
  show "key e \<notin> key ` set (entries s) \<and>
      set (entries (snd (netsnmp_binary_array_insert cmp alloc s e))) = insert e (set (entries s))"
    if "fst (netsnmp_binary_array_insert cmp alloc s e) = 0"
    using ba_table_insert [OF t, of alloc e] that by simp
  show "set (entries (snd (netsnmp_binary_array_insert cmp alloc s e))) = set (entries s)"
    if "fst (netsnmp_binary_array_insert cmp alloc s e) \<noteq> 0"
    using ba_table_insert [OF t, of alloc e] that by simp
  show "\<exists>rc s'. ba_remove cmp s k = Some (rc, s') \<and> ba_table key s' \<and>
      set (entries s') = {e \<in> set (entries s). key e \<noteq> key k}"
    by (rule ba_table_remove [OF t])
qed


subsection \<open>Reachable containers\<close>

text \<open>
  The containers a program gets from \<open>netsnmp_container_get_binary_array\<close>, with the options \<open>fl\<close>,
  by any sequence of the operations.  The options are set once, when the container is created, as its users do:
  \<open>netsnmp_binary_array_options_set\<close> itself may be called at any time, and clearing \<open>CONTAINER_KEY_ALLOW_DUPLICATES\<close> of an
  array that holds duplicates leaves them there.
\<close>

inductive ba_reach :: "('a \<Rightarrow> 'a \<Rightarrow> int) \<Rightarrow> u32 \<Rightarrow> 'a container \<Rightarrow> bool" for cmp fl where
  created: "netsnmp_binary_array_options_set netsnmp_binary_array_initialize True fl = (rc, c) \<Longrightarrow> rc \<noteq> -1 \<Longrightarrow>
    ba_reach cmp fl c"
| inserted: "ba_reach cmp fl c \<Longrightarrow> ba_reach cmp fl (snd (netsnmp_binary_array_insert cmp alloc c e))"
| got: "ba_reach cmp fl c \<Longrightarrow> ba_reach cmp fl (snd (netsnmp_binary_array_get cmp c k exact))"
| removed: "ba_reach cmp fl c \<Longrightarrow> netsnmp_binary_array_remove cmp c k = Some (rc, save, c') \<Longrightarrow> ba_reach cmp fl c'"
| subset: "ba_reach cmp fl c \<Longrightarrow> ba_reach cmp fl (snd (netsnmp_binary_array_get_subset cmp ncmp alloc c k))"
| duplicated: "ba_reach cmp fl c \<Longrightarrow> ba_duplicate produced alloc c 0 = Some c' \<Longrightarrow> ba_reach cmp fl c'"
| visited: "ba_reach cmp fl c \<Longrightarrow> ba_reach cmp fl (snd (netsnmp_binary_array_for_each cmp c sort1))"
| cleared: "ba_reach cmp fl c \<Longrightarrow> ba_reach cmp fl (snd (netsnmp_binary_array_clear c fe))"
| reset: "ba_reach cmp fl c \<Longrightarrow> ba_reach cmp fl (fst (snd (ba_iterator_reset cmp c it)))"
| iterator_removed: "ba_reach cmp fl c \<Longrightarrow> ba_iterator_remove c it = Some (rc, c', it') \<Longrightarrow> ba_reach cmp fl c'"

definition ba_good :: "('a \<Rightarrow> 'k::linorder) \<Rightarrow> u32 \<Rightarrow> 'a container \<Rightarrow> bool" where
  "ba_good key fl c \<longleftrightarrow> ba_inv key c \<and> c_flags c = fl \<and>
     (fl AND CONTAINER_KEY_ALLOW_DUPLICATES = 0 \<longrightarrow> distinct (map key (entries c)))"

lemma ba_good_mset:
  assumes "ba_good key fl c" and "ba_inv key c'" and "c_flags c' = c_flags c" and "mset (entries c') = mset (entries c)"
  shows "ba_good key fl c'"
  using assms distinct_mset [OF assms(4), of key] by (simp add: ba_good_def)

lemma ba_good_submset:
  assumes "ba_good key fl c" and "ba_inv key c'" and "c_flags c' = c_flags c"
    and "mset (entries c) = add_mset e (mset (entries c'))"
  shows "ba_good key fl c'"
  using assms distinct_mset [of "entries c" "e # entries c'" key] by (simp add: ba_good_def)

lemma subset_state: "snd (netsnmp_binary_array_get_subset cmp ncmp alloc c k) \<in> {c, sort_if_dirty cmp c}"
proof -
  have "snd (binary_search_for_start cmp nc k d) \<in> {d, sort_if_dirty cmp d}" for nc d
    by (simp add: binary_search_for_start_def Let_def)
  from this [of _ "sort_if_dirty cmp c"] show ?thesis
    by (auto simp: netsnmp_binary_array_get_subset_def Let_def split: option.splits prod.splits) (metis snd_conv)+
qed

context compare_order
begin

lemma reach_good: "ba_reach cmp fl c \<Longrightarrow> ba_good key fl c"
proof (induction rule: ba_reach.induct)
  case (created rc c)
  then show ?case
    by (auto simp: netsnmp_binary_array_options_set_def netsnmp_binary_array_initialize_def ba_good_def ba_inv_def
        Let_def split: if_splits)
next
  case (inserted c alloc e)
  obtain rc c' where i: "netsnmp_binary_array_insert cmp alloc c e = (rc, c')" by fastforce
  have g: "ba_inv key c" "c_flags c = fl" using inserted.IH by (simp_all add: ba_good_def)
  note s = insert_spec [OF g(1) i]
  show ?case
  proof (cases "rc = 0")
    case True
    then have m: "mset (entries c') = mset (e # entries c)" "ba_inv key c'" "c_flags c' = fl"
      "fl AND 1 = 0 \<Longrightarrow> key e \<notin> key ` set (entries c)"
      using s g(2) by (auto simp: flag_set_def split: if_splits)
    then show ?thesis using inserted.IH distinct_mset [OF m(1), of key] by (simp add: i ba_good_def)
  next
    case False
    then show ?thesis using s ba_good_mset [OF inserted.IH, of c'] by (auto simp: i split: if_splits)
  qed
next
  case (got c k exact)
  then show ?case using get_inv [of c k exact] by (intro ba_good_mset [OF got.IH]) (simp_all add: ba_good_def)
next
  case (removed c k rc save c')
  have "ba_inv key c" using removed.IH by (simp add: ba_good_def)
  from remove_spec [OF this, of k] removed.hyps(2) show ?case
    by (auto split: option.splits intro: ba_good_mset [OF removed.IH] ba_good_submset [OF removed.IH])
next
  case (subset c ncmp alloc k)
  have i: "ba_inv key c" using subset.IH by (simp add: ba_good_def)
  have "snd (netsnmp_binary_array_get_subset cmp ncmp alloc c k) \<in> {c, sort_if_dirty cmp c}"
    by (rule subset_state)
  then show ?case
    using sort_if_dirty_inv(1) [OF i] sort_if_dirty_entries [of c] subset.IH
    by (auto intro: ba_good_mset [OF subset.IH])
next
  case (duplicated c produced alloc c')
  then have "entries c' = entries c" "dirty c' = dirty c" "c_flags c' = c_flags c" "max_size c' = max_size c"
    by (auto simp: ba_duplicate_def split: if_splits)
  then show ?case using duplicated.IH by (simp add: ba_good_def ba_inv_def)
next
  case (visited c sort1)
  have i: "ba_inv key c" using visited.IH by (simp add: ba_good_def)
  show ?case
    using sort_if_dirty_inv(1) [OF i] sort_if_dirty_entries [of c] visited.IH
    by (auto simp: netsnmp_binary_array_for_each_def Let_def intro: ba_good_mset [OF visited.IH])
next
  case (cleared c fe)
  then show ?case using clear_inv [of c fe] by (simp add: ba_good_def netsnmp_binary_array_clear_def)
next
  case (reset c it)
  have i: "ba_inv key c" using reset.IH by (simp add: ba_good_def)
  show ?case
    using sort_if_dirty_inv(1) [OF i] sort_if_dirty_entries [of c]
    by (auto simp: ba_iterator_reset_def Let_def intro: ba_good_mset [OF reset.IH])
next
  case (iterator_removed c it rc c' it')
  have i: "ba_inv key c" using iterator_removed.IH by (simp add: ba_good_def)
  show ?case
  proof (cases "unat (it_pos it) < length (entries c)")
    case True
    then show ?thesis
      using remove_at_spec [OF i True] iterator_removed.hyps(2)
      by (auto simp: ba_iterator_remove_def intro: ba_good_submset [OF iterator_removed.IH])
  next
    case False
    then have "c' = c" using iterator_removed.hyps(2)
      by (auto simp: ba_iterator_remove_def netsnmp_binary_array_remove_at_def split: if_splits)
    with iterator_removed.IH show ?thesis by simp
  qed
qed

end

lemma reach_table: "ba_reach netsnmp_compare_netsnmp_index 0 c \<Longrightarrow> ba_table fst c"
  using index_order.reach_good [of 0 c] by (simp add: ba_good_def ba_table_def)

lemma table_sorted:
  assumes "ba_table fst c"
  shows "entries (sort_if_dirty netsnmp_compare_netsnmp_index c) = sort_key fst (entries c)"
proof (rule map_sorted_distinct_set_unique [of fst])
  have inv: "ba_inv fst c" "distinct (map fst (entries c))" using assms by (simp_all add: ba_table_def)
  show "inj_on fst (set (entries (sort_if_dirty netsnmp_compare_netsnmp_index c)) \<union> set (sort_key fst (entries c)))"
    using inv(2) by (simp add: distinct_map)
  show "sorted (map fst (entries (sort_if_dirty netsnmp_compare_netsnmp_index c)))"
    using index_order.sort_if_dirty_inv(2) [OF inv(1)] ba_table_flags [OF assms] by blast
  show "distinct (map fst (entries (sort_if_dirty netsnmp_compare_netsnmp_index c)))"
    using index_order.distinct_sort inv(2) by blast
  show "sorted (map fst (sort_key fst (entries c)))" by simp
  show "distinct (map fst (sort_key fst (entries c)))"
    using distinct_mset [of "sort_key fst (entries c)" "entries c" fst] inv(2) by simp
  show "set (entries (sort_if_dirty netsnmp_compare_netsnmp_index c)) = set (sort_key fst (entries c))" by simp
qed

lemma walk_table:
  assumes "ba_table fst c" and "length (entries c) \<le> n"
  shows "walk (ba_find_next netsnmp_compare_netsnmp_index) n c None = sort_key fst (entries c)"
proof (rule map_sorted_distinct_set_unique [of fst])
  let ?w = "walk (ba_find_next netsnmp_compare_netsnmp_index) n c None"
  have inv: "distinct (map fst (entries c))" using assms by (simp add: ba_table_def)
  have "card (set (entries c)) \<le> n" using assms(2) card_length [of "entries c"] by linarith
  with index_order.ba.walk_all [OF assms(1)] have w: "set ?w = set (entries c)" "sorted_wrt (<) (map fst ?w)" by blast+
  show "inj_on fst (set ?w \<union> set (sort_key fst (entries c)))" using inv w(1) by (simp add: distinct_map)
  show "sorted (map fst ?w)" "distinct (map fst ?w)"
    using w(2) strict_sorted_iff by blast+
  show "sorted (map fst (sort_key fst (entries c)))" by simp
  show "distinct (map fst (sort_key fst (entries c)))"
    using distinct_mset [of "sort_key fst (entries c)" "entries c" fst] inv by simp
  show "set ?w = set (sort_key fst (entries c))" using w(1) by simp
qed


text \<open>
  The partial-key search.  \<open>ncompare\<close> looks only at as many sub-identifiers as the key has; along
  a sorted array its results are ascending, so the search finds the first match and the matches
  are consecutive.
\<close>

lemma take_lex_mono: "(a :: oid) \<le> b \<Longrightarrow> take n a \<le> take n b"
proof (induction n arbitrary: a b)
  case (Suc n)
  then show ?case by (cases a; cases b) auto
qed simp

lemma ncompare_sign:
  "netsnmp_ncompare_netsnmp_index e k < 0 \<longleftrightarrow> take (length (fst k)) (fst e) < fst k"
  "netsnmp_ncompare_netsnmp_index e k = 0 \<longleftrightarrow> prefix (fst k) (fst e)"
proof -
  have p: "prefix (fst k) (fst e) \<longleftrightarrow> take (length (fst k)) (fst e) = fst k"
    by (metis append_eq_conv_conj prefix_def take_is_prefix)
  show "netsnmp_ncompare_netsnmp_index e k < 0 \<longleftrightarrow> take (length (fst k)) (fst e) < fst k"
    and "netsnmp_ncompare_netsnmp_index e k = 0 \<longleftrightarrow> prefix (fst k) (fst e)"
    unfolding netsnmp_ncompare_netsnmp_index_def oid_ncompare_take oid_compare_lex p by auto
qed

lemma bs_start_loop_spec:
  assumes "\<And>i j. i \<le> j \<Longrightarrow> j < length xs \<Longrightarrow> ncmp (xs ! j) val < 0 \<Longrightarrow> ncmp (xs ! i) val < 0"
    and "first + len \<le> length xs"
    and "\<And>i. i < first \<Longrightarrow> ncmp (xs ! i) val < 0"
    and "\<And>i. first + len \<le> i \<Longrightarrow> i < length xs \<Longrightarrow> \<not> ncmp (xs ! i) val < 0"
  shows "bs_start_loop ncmp xs val first len \<le> length xs \<and>
    (\<forall>i < bs_start_loop ncmp xs val first len. ncmp (xs ! i) val < 0) \<and>
    (\<forall>i \<ge> bs_start_loop ncmp xs val first len. i < length xs \<longrightarrow> \<not> ncmp (xs ! i) val < 0)"
  using assms(2-)
proof (induction len arbitrary: first rule: less_induct)
  case (less len)
  show ?case
  proof (cases "len = 0")
    case True
    then have e: "bs_start_loop ncmp xs val first len = first" by (subst bs_start_loop.simps) simp
    show ?thesis unfolding e using less.prems True by simp
  next
    case False
    define h where "h = first + len div 2"
    have h: "first \<le> h" "h < first + len" "h < length xs" using False less.prems(1) by (auto simp: h_def)
    show ?thesis
    proof (cases "ncmp (xs ! h) val < 0")
      case True
      have e: "bs_start_loop ncmp xs val first len = bs_start_loop ncmp xs val (h + 1) (len - len div 2 - 1)"
        using False True by (subst bs_start_loop.simps) (simp add: Let_def h_def)
      have "ncmp (xs ! i) val < 0" if "i < h + 1" for i using assms(1) [of i h] that h(3) True by simp
      then show ?thesis unfolding e using h less.prems(1,3) False
        by (intro less.IH) (auto simp: h_def)
    next
      case ge: False
      have e: "bs_start_loop ncmp xs val first len = bs_start_loop ncmp xs val first (len div 2)"
        using False ge by (subst bs_start_loop.simps) (simp add: Let_def h_def)
      have "\<not> ncmp (xs ! i) val < 0" if "h \<le> i" "i < length xs" for i using assms(1) [of h i] that ge by blast
      then show ?thesis unfolding e using h less.prems(1,2) False
        by (intro less.IH) (auto simp: h_def)
    qed
  qed
qed

lemma filter_interval:
  assumes "n \<le> length xs" and "\<And>i. i < n \<Longrightarrow> \<not> P (xs ! i)"
    and "\<And>i j. n \<le> i \<Longrightarrow> i \<le> j \<Longrightarrow> j < length xs \<Longrightarrow> P (xs ! j) \<Longrightarrow> P (xs ! i)"
  shows "filter P xs = takeWhile P (drop n xs)"
proof -
  have "filter P (take n xs) = []" using assms(1,2) by (auto simp: filter_empty_conv in_set_conv_nth)
  moreover have "filter P ys = takeWhile P ys"
    if "\<And>i j. i \<le> j \<Longrightarrow> j < length ys \<Longrightarrow> P (ys ! j) \<Longrightarrow> P (ys ! i)" for ys
    using that
  proof (induction ys)
    case (Cons y ys)
    show ?case
    proof (cases "P y")
      case True
      have "P (ys ! i)" if "i \<le> j" "j < length ys" "P (ys ! j)" for i j
        using Cons.prems [of "Suc i" "Suc j"] that by simp
      with Cons.IH True show ?thesis by simp
    next
      case False
      have "\<not> P (ys ! j)" if "j < length ys" for j using Cons.prems [of 0 "Suc j"] that False by auto
      then show ?thesis using False by (auto simp: filter_empty_conv in_set_conv_nth)
    qed
  qed simp
  moreover have "P (drop n xs ! i)" if "i \<le> j" "j < length (drop n xs)" "P (drop n xs ! j)" for i j
    using assms(3) [of "n + i" "n + j"] assms(1) that by simp
  ultimately have "filter P (drop n xs) = takeWhile P (drop n xs)" by blast
  with \<open>filter P (take n xs) = []\<close> show ?thesis by (metis append_take_drop_id append_Nil filter_append)
qed


lemma get_subset_prefix:
  assumes "ba_table fst c"
  shows "fst (netsnmp_binary_array_get_subset netsnmp_compare_netsnmp_index (Some netsnmp_ncompare_netsnmp_index) alloc c k) =
    (let F = filter (\<lambda>e. prefix (fst k) (fst e)) (sort_key fst (entries c)) in
     if F = [] \<or> \<not> alloc (length F) then None else Some F)"
proof (cases "entries c = []")
  case True
  then show ?thesis by (simp add: netsnmp_binary_array_get_subset_def)
next
  case False
  let ?nc = netsnmp_ncompare_netsnmp_index
  let ?d = "sort_if_dirty netsnmp_compare_netsnmp_index c"
  define xs where "xs = sort_key fst (entries c)"
  define f where "f = bs_start_loop ?nc xs k 0 (length xs)"
  define P where "P = (\<lambda>e :: oid \<times> 'a. prefix (fst k) (fst e))"
  have d: "entries ?d = xs" using table_sorted [OF assms] by (simp add: xs_def)
  have P: "?nc e k = 0 \<longleftrightarrow> P e" for e by (simp add: P_def ncompare_sign)
  have mono: "take (length (fst k)) (fst (xs ! i)) \<le> take (length (fst k)) (fst (xs ! j))"
    if "i \<le> j" "j < length xs" for i j
  proof -
    have "map fst xs ! i \<le> map fst xs ! j"
      by (rule sorted_nth_mono) (use that in \<open>simp_all add: xs_def\<close>)
    then have "fst (xs ! i) \<le> fst (xs ! j)" using that by simp
    then show ?thesis by (rule take_lex_mono)
  qed
  have neg: "?nc (xs ! i) k < 0" if "i \<le> j" "j < length xs" "?nc (xs ! j) k < 0" for i j
    using mono [OF that(1,2)] that(3) unfolding ncompare_sign(1) by (rule order_le_less_trans)
  have "f \<le> length xs \<and> (\<forall>i<f. ?nc (xs ! i) k < 0) \<and> (\<forall>i\<ge>f. i < length xs \<longrightarrow> \<not> ?nc (xs ! i) k < 0)"
    unfolding f_def by (rule bs_start_loop_spec) (use neg in auto)
  then have f: "f \<le> length xs" "\<And>i. i < f \<Longrightarrow> ?nc (xs ! i) k < 0"
      "\<And>i. f \<le> i \<Longrightarrow> i < length xs \<Longrightarrow> \<not> ?nc (xs ! i) k < 0"
    by blast+
  have "P (xs ! i)" if "f \<le> i" "i \<le> j" "j < length xs" "P (xs ! j)" for i j
  proof -
    have "take (length (fst k)) (fst (xs ! j)) = fst k" using that(4) by (auto simp: P_def prefix_def)
    moreover have "\<not> take (length (fst k)) (fst (xs ! i)) < fst k"
      using f(3) [of i] that by (simp add: ncompare_sign(1))
    ultimately have "take (length (fst k)) (fst (xs ! i)) = fst k" using mono [of i j] that by simp
    then show ?thesis by (metis P_def take_is_prefix)
  qed
  moreover have "\<not> P (xs ! i)" if "i < f" for i using f(2) [OF that] P [of "xs ! i"] by simp
  ultimately have F: "filter P xs = takeWhile P (drop f xs)" by (intro filter_interval f(1))
  have start: "binary_search_for_start netsnmp_compare_netsnmp_index ?nc k ?d =
      (if f < length xs \<and> P (xs ! f) then Some f else None, ?d)"
    using False by (auto simp: binary_search_for_start_def Let_def d P f_def xs_def simp flip: P)
  show ?thesis
  proof (cases "f < length xs \<and> P (xs ! f)")
    case True
    then have dr: "drop f xs = xs ! f # drop (f + 1) xs" by (simp add: Cons_nth_drop_Suc)
    have "take (length (takeWhile P (drop (f + 1) xs)) + 1) (drop f xs) = filter P xs"
      using True by (simp add: F dr takeWhile_eq_take [symmetric])
    moreover have "length (filter P xs) = length (takeWhile P (drop (f + 1) xs)) + 1" "filter P xs \<noteq> []"
      using True by (simp_all add: F dr)
    ultimately show ?thesis
      using False True start d by (simp add: netsnmp_binary_array_get_subset_def Let_def P flip: P_def xs_def)
  next
    case no: False
    then have "filter P xs = []" by (cases "f < length xs") (simp_all add: F flip: Cons_nth_drop_Suc)
    then show ?thesis
      using False no start by (auto simp: netsnmp_binary_array_get_subset_def Let_def P_def xs_def)
  qed
qed


subsection \<open>Properties\<close>

text \<open>A container with two rows, for the witnesses.\<close>

definition two_rows :: "(oid \<times> nat) container" where
  "two_rows =
     snd (netsnmp_binary_array_insert netsnmp_compare_netsnmp_index (\<lambda>_. True)
       (snd (netsnmp_binary_array_insert netsnmp_compare_netsnmp_index (\<lambda>_. True)
          netsnmp_binary_array_initialize ([2], 20))) ([1], 10))"

lemma reach_new: "ba_reach cmp 0 netsnmp_binary_array_initialize"
  by (rule ba_reach.created [of 0 0])
     (simp_all add: netsnmp_binary_array_options_set_def netsnmp_binary_array_initialize_def)

lemma reach_two_rows: "ba_reach netsnmp_compare_netsnmp_index 0 two_rows"
  unfolding two_rows_def by (intro ba_reach.inserted reach_new)

lemma entries_two_rows: "entries two_rows = [([2], 20), ([1], 10)]"
  by (simp add: two_rows_def netsnmp_binary_array_insert_def netsnmp_binary_array_get_def netsnmp_binary_array_initialize_def
      flag_set_def binary_search_def sort_if_dirty_def Sort_Array_def bs_loop.simps
      netsnmp_compare_netsnmp_index_def snmp_oid_compare_def)

text \<open>
  C22 (invariant of the sorted container).  Whatever sequence of operations a program performs,
  a container created with the options \<open>fl\<close> keeps them, is sorted unless it is marked dirty, fits
  its allocation, and holds no two entries with the same index unless duplicates are allowed.
\<close>

theorem ba_reach_invariant:
  assumes "ba_reach netsnmp_compare_netsnmp_index fl c"
  shows "ba_inv fst c \<and> c_flags c = fl \<and>
    (fl AND CONTAINER_KEY_ALLOW_DUPLICATES = 0 \<longrightarrow> distinct (map fst (entries c)))"
  using index_order.reach_good [OF assms] by (simp add: ba_good_def)

theorem ba_reach_invariant_witness: "ba_inv fst two_rows \<and> distinct (map fst (entries two_rows))"
  using ba_reach_invariant [OF reach_two_rows] by simp

text \<open>
  C24 (GETNEXT on a table).  In every reachable sorted container \<open>find_next\<close> returns an entry with
  the least index above the given one, and \<open>NULL\<close> only when there is none; duplicates allowed or
  not, it never returns an entry with the given index again.
\<close>

theorem ba_find_next_least:
  assumes "ba_reach netsnmp_compare_netsnmp_index fl c" and "fl AND CONTAINER_KEY_UNSORTED = 0"
  shows "is_next fst (fst (ba_find_next netsnmp_compare_netsnmp_index c (Some k))) (fst k) (set (entries c))"
proof -
  have g: "ba_inv fst c" "c_flags c = fl" "fl AND 1 = 0 \<longrightarrow> distinct (map fst (entries c))"
    using index_order.reach_good [OF assms(1)] by (simp_all add: ba_good_def)
  then have "flag_set c 1 \<or> distinct (map fst (entries c))" "\<not> flag_set c 2"
    using assms(2) by (auto simp: flag_set_def)
  then show ?thesis unfolding ba_find_next_def using index_order.get_next(2) [OF g(1)] by blast
qed

theorem ba_find_next_least_witness:
  "is_next fst (fst (ba_find_next netsnmp_compare_netsnmp_index two_rows (Some ([1, 5], 0)))) [1, 5]
     {([2], 20), ([1], 10)}"
  using ba_find_next_least [OF reach_two_rows, of "([1, 5], 0)"] by (simp add: entries_two_rows insert_commute)

text \<open>
  C15 (the container is a finite map).  For every reachable container that allows no duplicates,
  \<open>find\<close> returns exactly the entry with the key; after a successful \<open>insert\<close> it returns the new
  entry under its key and what it returned before under every other key; a refused \<open>insert\<close> changes
  no answer; \<open>remove\<close> always terminates inside the array and makes exactly its key absent.
\<close>

theorem ba_refines_map:
  assumes "ba_reach netsnmp_compare_netsnmp_index 0 c"
  defines "look \<equiv> \<lambda>c k. fst (ba_find netsnmp_compare_netsnmp_index c k)"
  shows "(look c k = Some e \<longleftrightarrow> e \<in> set (entries c) \<and> fst e = fst k) \<and>
    look (snd (netsnmp_binary_array_insert netsnmp_compare_netsnmp_index alloc c e)) k =
      (if fst (netsnmp_binary_array_insert netsnmp_compare_netsnmp_index alloc c e) = 0 \<and> fst k = fst e
       then Some e else look c k) \<and>
    (\<exists>rc c'. ba_remove netsnmp_compare_netsnmp_index c d = Some (rc, c') \<and>
       look c' k = (if fst k = fst d then None else look c k))"
proof (intro conjI)
  note t = reach_table [OF assms(1)]
  show "look c k = Some e \<longleftrightarrow> e \<in> set (entries c) \<and> fst e = fst k"
    unfolding look_def by (rule index_order.ba.find_iff [OF t])
  let ?i = "netsnmp_binary_array_insert netsnmp_compare_netsnmp_index alloc c e"
  show "look (snd ?i) k = (if fst ?i = 0 \<and> fst k = fst e then Some e else look c k)"
  proof (cases "fst ?i = 0")
    case True
    then show ?thesis unfolding look_def using index_order.ba.find_insert [OF t True, of k] by simp
  next
    case False
    have "look (snd ?i) k = Some x \<longleftrightarrow> look c k = Some x" for x
      unfolding look_def using index_order.ba.find_iff [OF index_order.ba.insert_inv [OF t, of alloc e], of k x]
        index_order.ba.find_iff [OF t, of k x] index_order.ba.insert_fails [OF t False] by simp
    then show ?thesis using False option_eqI [of "look (snd ?i) k" "look c k"] by simp
  qed
  obtain rc c' where r: "ba_remove netsnmp_compare_netsnmp_index c d = Some (rc, c')"
    using index_order.ba_table_remove [OF t] by blast
  show "\<exists>rc c'. ba_remove netsnmp_compare_netsnmp_index c d = Some (rc, c') \<and>
       look c' k = (if fst k = fst d then None else look c k)"
    unfolding look_def using r index_order.ba.find_remove [OF t r, of k] by blast
qed

theorem ba_refines_map_witness:
  "fst (ba_find netsnmp_compare_netsnmp_index two_rows ([1], 0)) = Some ([1], 10)"
  using ba_refines_map [OF reach_two_rows, of "([1], 0)" "([1], 10)"] by (simp add: entries_two_rows)

text \<open>
  C28 (a walk meets every row once, in order).  The loop with \<open>CONTAINER_FIRST\<close> and
  \<open>CONTAINER_NEXT\<close> over a reachable container, with as many steps as there are rows, returns the
  rows sorted by index; no row is missed or repeated although the array is sorted on the way.
\<close>

theorem ba_walk_sorted:
  assumes "ba_reach netsnmp_compare_netsnmp_index 0 c" and "length (entries c) \<le> n"
  shows "walk (ba_find_next netsnmp_compare_netsnmp_index) n c None = sort_key fst (entries c)"
  using walk_table [OF reach_table [OF assms(1)] assms(2)] .

theorem ba_walk_sorted_witness:
  "walk (ba_find_next netsnmp_compare_netsnmp_index) 5 two_rows None = [([1], 10), ([2], 20)]"
  using ba_walk_sorted [OF reach_two_rows, of 5] by (simp add: entries_two_rows)

text \<open>
  C26 (quicksort).  \<open>array_qsort\<close> terminates on every array and every index range, and on the
  whole array it returns a permutation sorted by index.
\<close>

theorem array_qsort_correct:
  assumes "xs \<noteq> []"
  shows "mset (array_qsort netsnmp_compare_netsnmp_index xs 0 (int (length xs) - 1)) = mset xs \<and>
    sorted (map fst (array_qsort netsnmp_compare_netsnmp_index xs 0 (int (length xs) - 1)))"
proof -
  let ?c = "\<lparr>c_flags = 0, c_sync = 0, max_size = length xs, dirty = True, entries = xs\<rparr>"
  show ?thesis
  proof (cases "length xs > 1")
    case True
    then show ?thesis using index_order.sort_if_dirty_entries [of ?c]
      by (simp add: sort_if_dirty_def Sort_Array_def flag_set_def)
  next
    case False
    with assms obtain x where x: "xs = [x]" by (cases xs; cases "tl xs") auto
    have "permuted 0 0 [x] (array_qsort netsnmp_compare_netsnmp_index [x] 0 0)"
      using index_order.array_qsort_sorts [of 0 0 "[x]"] by simp
    then have "length (array_qsort netsnmp_compare_netsnmp_index [x] 0 0) = 1"
      "mset (array_qsort netsnmp_compare_netsnmp_index [x] 0 0) = mset [x]"
      by (auto dest: permutedD)
    then show ?thesis unfolding x by (cases "array_qsort netsnmp_compare_netsnmp_index [x] 0 0") auto
  qed
qed

theorem array_qsort_correct_witness:
  "sorted (map fst (array_qsort netsnmp_compare_netsnmp_index [([3], ()), ([1], ()), ([2], ())] 0 2))"
  using array_qsort_correct [of "[([3], ()), ([1], ()), ([2], ())]"] by simp

text \<open>
  C31 (partial keys).  \<open>get_subset\<close> returns exactly the rows whose index starts with the given one,
  in ascending order, and \<open>NULL\<close> when there are none or memory is short.
\<close>

theorem ba_get_subset_prefix:
  assumes "ba_reach netsnmp_compare_netsnmp_index 0 c"
  shows "fst (netsnmp_binary_array_get_subset netsnmp_compare_netsnmp_index (Some netsnmp_ncompare_netsnmp_index) alloc c k) =
    (let F = filter (\<lambda>e. prefix (fst k) (fst e)) (sort_key fst (entries c)) in
     if F = [] \<or> \<not> alloc (length F) then None else Some F)"
  using get_subset_prefix [OF reach_table [OF assms]] .

theorem ba_get_subset_prefix_witness:
  "fst (netsnmp_binary_array_get_subset netsnmp_compare_netsnmp_index (Some netsnmp_ncompare_netsnmp_index)
     (\<lambda>_. True) two_rows ([], 0)) = Some [([1], 10), ([2], 20)]"
  using ba_get_subset_prefix [OF reach_two_rows, of "\<lambda>_. True" "([], 0)"] by (simp add: entries_two_rows)

text \<open>
  Removing through an iterator.  \<open>_ba_iterator_remove\<close> counts one modification in the
  iterator, but the container counts one only when the removed entry was not the last.  Removing
  another entry keeps the iterator valid, and \<open>next\<close> returns the entry that followed; after
  removing the last entry the iterator is out of step and returns \<open>NULL\<close> for every position,
  although entries remain.
\<close>

lemma ba_iterator_remove_sync:
  assumes "it_sync it = c_sync c" and "unat (it_pos it) = i" and "i < length (entries c)"
    and "length (entries c) < 2 ^ 64"
  shows "\<exists>c' it'. ba_iterator_remove c it = Some (0, c', it') \<and>
    entries c' = take i (entries c) @ drop (i + 1) (entries c) \<and>
    (if i + 1 < length (entries c) then fst (ba_iterator_next c' it') = Some (entries c ! (i + 1))
     else \<forall>pos. ba_iterator_position c' it' pos = None)"
proof (cases "i + 1 < length (entries c)")
  case True
  then have "length (entries c) \<noteq> 0" "i \<noteq> length (entries c) - 1" by auto
  with assms True show ?thesis
    by (auto simp: ba_iterator_remove_def netsnmp_binary_array_remove_at_def ba_iterator_next_def
        ba_iterator_position_def Let_def nth_append)
next
  case False
  then have "i = length (entries c) - 1" using assms(3) by simp
  with assms show ?thesis
    by (auto simp: ba_iterator_remove_def netsnmp_binary_array_remove_at_def ba_iterator_position_def Let_def)
qed

lemma ba_iterator_remove_sync_witness:
  "\<exists>c' it'. ba_iterator_remove \<lparr>c_flags = 0, c_sync = 7, max_size = 10, dirty = False, entries = [1, 2 :: nat]\<rparr>
       \<lparr>it_sync = 7, it_pos = 1\<rparr> = Some (0, c', it') \<and>
     entries c' = [1] \<and> ba_iterator_position c' it' 0 = None"
  using ba_iterator_remove_sync [of "\<lparr>it_sync = 7, it_pos = 1\<rparr>"
      "\<lparr>c_flags = 0, c_sync = 7, max_size = 10, dirty = False, entries = [1, 2 :: nat]\<rparr>" 1] by auto

end
