(* ===== verification/Container_List.thy ===== *)
theory Container_List
  imports Container_Compare Container_Spec "HOL-Library.Multiset"
begin

section \<open>The singly linked list container (\<open>snmplib/container_list_ssll.c\<close>)\<close>

text \<open>
  The sorted list, and the unsorted one that serves as a stack (lifo) or a queue (fifo).  The chain
  of \<open>sl_node\<close>s from \<open>sl->head\<close> is the list \<open>nodes\<close>; \<open>sl_count\<close> is the counter the code keeps beside
  it.  \<open>unsorted\<close> and \<open>fifo\<close> are the \<open>int\<close> flags.  A \<open>NULL\<close> key or entry is \<open>None\<close>.  A position of an
  iterator is the number of the node; the code dereferences it only while the container has not
  changed.
\<close>

record 'a sl_container =
  sl_sync :: u64
  sl_count :: u64
  nodes :: "'a list"
  unsorted :: int
  fifo :: int

definition netsnmp_container_get_ssll :: "'a sl_container" where
  "netsnmp_container_get_ssll = \<lparr>sl_sync = 0, sl_count = 0, nodes = [], unsorted = 0, fifo = 0\<rparr>"

definition netsnmp_container_get_usll :: "'a sl_container" where
  "netsnmp_container_get_usll = netsnmp_container_get_ssll\<lparr>unsorted := 1\<rparr>"

definition netsnmp_container_get_singly_linked_list :: "int \<Rightarrow> 'a sl_container" where
  "netsnmp_container_get_singly_linked_list fi = netsnmp_container_get_usll\<lparr>fifo := fi\<rparr>"

definition netsnmp_container_get_fifo :: "'a sl_container" where
  "netsnmp_container_get_fifo = netsnmp_container_get_singly_linked_list 1"

text \<open>The search loop: the last comparison and the nodes from where it stopped.\<close>

fun sl_loop :: "('a \<Rightarrow> 'a \<Rightarrow> int) \<Rightarrow> int \<Rightarrow> 'a \<Rightarrow> int \<Rightarrow> 'a list \<Rightarrow> int \<times> 'a list" where
  "sl_loop cmp uns key rc [] = (rc, [])"
| "sl_loop cmp uns key rc (x # xs) =
     (let rc' = cmp x key in
      if rc' = 0 then (rc', x # xs)
      else if rc' > 0 \<and> uns = 0 then (rc', x # xs)
      else sl_loop cmp uns key rc' xs)"

definition hd_opt :: "'a list \<Rightarrow> 'a option" where
  "hd_opt xs = (case xs of [] \<Rightarrow> None | x # _ \<Rightarrow> Some x)"

definition sl_get :: "('a \<Rightarrow> 'a \<Rightarrow> int) \<Rightarrow> 'a sl_container \<Rightarrow> 'a option \<Rightarrow> bool \<Rightarrow> 'a option" where
  "sl_get cmp sl key exact =
     (case key of
        None \<Rightarrow> hd_opt (nodes sl)
      | Some k \<Rightarrow>
          (case sl_loop cmp (unsorted sl) k 0 (nodes sl) of
             (rc, cur) \<Rightarrow>
               hd_opt (if cur \<noteq> [] \<and> \<not> exact \<and> rc = 0 then tl cur else cur)))"

definition ssll_find :: "('a \<Rightarrow> 'a \<Rightarrow> int) \<Rightarrow> 'a sl_container \<Rightarrow> 'a option \<Rightarrow> 'a option" where
  "ssll_find cmp c data = (if data = None then None else sl_get cmp c data True)"

definition ssll_find_next :: "('a \<Rightarrow> 'a \<Rightarrow> int) \<Rightarrow> 'a sl_container \<Rightarrow> 'a option \<Rightarrow> 'a option" where
  "ssll_find_next cmp c data = sl_get cmp c data False"

text \<open>The sorted insertion: before the first entry that compares greater.\<close>

fun insert_sorted :: "('a \<Rightarrow> 'a \<Rightarrow> int) \<Rightarrow> 'a \<Rightarrow> 'a list \<Rightarrow> 'a list" where
  "insert_sorted cmp data [] = [data]"
| "insert_sorted cmp data (x # xs) =
     (if cmp x data > 0 then data # x # xs else x # insert_sorted cmp data xs)"

definition ssll_insert ::
  "('a \<Rightarrow> 'a \<Rightarrow> int) \<Rightarrow> bool \<Rightarrow> 'a sl_container \<Rightarrow> 'a \<Rightarrow> int \<times> 'a sl_container" where
  "ssll_insert cmp alloc sl data =
     (if \<not> alloc then (-1, sl)
      else
        let sl1 = sl\<lparr>sl_count := sl_count sl + 1, sl_sync := sl_sync sl + 1\<rparr> in
        if nodes sl = [] then (0, sl1\<lparr>nodes := [data]\<rparr>)
        else if unsorted sl = 1 then
          (if fifo sl = 1 then (0, sl1\<lparr>nodes := nodes sl @ [data]\<rparr>)
           else (0, sl1\<lparr>nodes := data # nodes sl\<rparr>))
        else (0, sl1\<lparr>nodes := insert_sorted cmp data (nodes sl)\<rparr>))"

text \<open>The search of \<open>_ssll_remove\<close> behind the head: the remaining nodes when the entry was found.\<close>

fun remove_loop :: "('a \<Rightarrow> 'a \<Rightarrow> int) \<Rightarrow> int \<Rightarrow> 'a \<Rightarrow> 'a list \<Rightarrow> 'a list option" where
  "remove_loop cmp uns data [] = None"
| "remove_loop cmp uns data (x # xs) =
     (let rc = cmp x data in
      if rc = 0 then Some xs
      else if rc > 0 \<and> uns = 0 then None
      else map_option (\<lambda>ys. x # ys) (remove_loop cmp uns data xs))"

definition ssll_remove ::
  "('a \<Rightarrow> 'a \<Rightarrow> int) \<Rightarrow> 'a sl_container \<Rightarrow> 'a option \<Rightarrow> int \<times> 'a sl_container" where
  "ssll_remove cmp sl data =
     (case nodes sl of
        [] \<Rightarrow> (-1, sl)
      | x # xs \<Rightarrow>
          (case (case data of
                   None \<Rightarrow> Some xs
                 | Some d \<Rightarrow>
                     if cmp x d = 0 then Some xs
                     else map_option (\<lambda>ys. x # ys) (remove_loop cmp (unsorted sl) d xs)) of
             None \<Rightarrow> (-2, sl)
           | Some ys \<Rightarrow>
               (0, sl\<lparr>nodes := ys, sl_count := sl_count sl - 1, sl_sync := sl_sync sl + 1\<rparr>)))"

definition ssll_size :: "'a sl_container \<Rightarrow> u64" where
  "ssll_size c = sl_count c"

definition ssll_for_each :: "'a sl_container \<Rightarrow> 'a list" where
  "ssll_for_each c = nodes c"

definition ssll_clear :: "'a sl_container \<Rightarrow> bool \<Rightarrow> 'a list \<times> 'a sl_container" where
  "ssll_clear c f =
     (if f then nodes c else [], c\<lparr>nodes := [], sl_count := 0, sl_sync := sl_sync c + 1\<rparr>)"


subsection \<open>Iterators\<close>

record ssll_iterator =
  sit_sync :: u64
  sit_pos :: "nat option"
  sit_last :: "nat option"

text \<open>What an iterator function may return: a data pointer, or the address of a node.\<close>

datatype 'a it_result = NULL | Data 'a | Node nat

definition data_at :: "'a list \<Rightarrow> nat \<Rightarrow> 'a it_result" where
  "data_at xs n = (if n < length xs then Data (xs ! n) else NULL)"

definition ssll_it2cont :: "'a sl_container \<Rightarrow> ssll_iterator \<Rightarrow> bool" where
  "ssll_it2cont c it \<longleftrightarrow> sl_sync c = sit_sync it"

definition ssll_iterator_curr :: "'a sl_container \<Rightarrow> ssll_iterator \<Rightarrow> 'a it_result" where
  "ssll_iterator_curr c it =
     (if \<not> ssll_it2cont c it then NULL
      else case sit_pos it of None \<Rightarrow> NULL | Some n \<Rightarrow> data_at (nodes c) n)"

definition ssll_iterator_first :: "'a sl_container \<Rightarrow> ssll_iterator \<Rightarrow> 'a it_result" where
  "ssll_iterator_first c it =
     (if \<not> ssll_it2cont c it \<or> nodes c = [] then NULL else data_at (nodes c) 0)"

definition ssll_iterator_next :: "'a sl_container \<Rightarrow> ssll_iterator \<Rightarrow> 'a it_result \<times> ssll_iterator" where
  "ssll_iterator_next c it =
     (if \<not> ssll_it2cont c it then (NULL, it)
      else case sit_pos it of
             None \<Rightarrow> (NULL, it)
           | Some n \<Rightarrow>
               if n + 1 < length (nodes c) then (data_at (nodes c) (n + 1), it\<lparr>sit_pos := Some (n + 1)\<rparr>)
               else (NULL, it\<lparr>sit_pos := None\<rparr>))"

definition ssll_iterator_last :: "'a sl_container \<Rightarrow> ssll_iterator \<Rightarrow> 'a it_result \<times> ssll_iterator" where
  "ssll_iterator_last c it =
     (if \<not> ssll_it2cont c it then (NULL, it)
      else case sit_last it of
             Some n \<Rightarrow> (Node n, it)
           | None \<Rightarrow>
               if sit_pos it = None \<and> nodes c = [] then (NULL, it)
               else (let n = length (nodes c) - 1 in (data_at (nodes c) n, it\<lparr>sit_last := Some n\<rparr>)))"

definition ssll_iterator_reset :: "'a sl_container \<Rightarrow> ssll_iterator \<Rightarrow> int \<times> ssll_iterator" where
  "ssll_iterator_reset c it =
     (0, it\<lparr>sit_last := None, sit_pos := (if nodes c = [] then None else Some 0), sit_sync := sl_sync c\<rparr>)"

definition ssll_iterator_get :: "bool \<Rightarrow> 'a sl_container \<Rightarrow> ssll_iterator option" where
  "ssll_iterator_get produced c =
     (if \<not> produced then None
      else Some (snd (ssll_iterator_reset c \<lparr>sit_sync = 0, sit_pos = None, sit_last = None\<rparr>)))"


subsection \<open>The sorted list\<close>

text \<open>
  The invariant of a sorted list, and a list that holds every key once.  The code does not refuse a second entry with
  the same key.
\<close>

definition ssll_inv :: "(oid \<times> 'v) sl_container \<Rightarrow> bool" where
  "ssll_inv c \<longleftrightarrow> unsorted c = 0 \<and> sorted (map fst (nodes c)) \<and> sl_count c = word_of_nat (length (nodes c))"

definition ssll_ok :: "(oid \<times> 'v) sl_container \<Rightarrow> bool" where
  "ssll_ok c \<longleftrightarrow> ssll_inv c \<and> distinct (map fst (nodes c))"

text \<open>The list without the first entry with the key \<open>k\<close>.\<close>

primrec remove_first :: "('a \<Rightarrow> 'k) \<Rightarrow> 'k \<Rightarrow> 'a list \<Rightarrow> 'a list" where
  "remove_first key k [] = []"
| "remove_first key k (x # xs) = (if key x = k then xs else x # remove_first key k xs)"

lemma remove_first_missing: "k \<notin> key ` set xs \<Longrightarrow> remove_first key k xs = xs"
  by (induction xs) auto

lemma length_remove_first: "k \<in> key ` set xs \<Longrightarrow> length xs = length (remove_first key k xs) + 1"
  by (induction xs) auto

lemma set_remove_first: "set (remove_first key k xs) \<subseteq> set xs"
  by (induction xs) auto

lemma sorted_remove_first: "sorted (map key xs) \<Longrightarrow> sorted (map key (remove_first key k xs))"
  using set_remove_first by (induction xs) fastforce+

lemma hd_opt_simps [simp]: "hd_opt [] = None" "hd_opt (x # xs) = Some x"
  by (simp_all add: hd_opt_def)

context compare_order
begin

lemma sl_loop_sorted:
  assumes "sorted (map key xs)"
  shows "\<exists>rc. sl_loop cmp 0 k r xs = (rc, dropWhile (\<lambda>e. key e < key k) xs) \<and>
    (case dropWhile (\<lambda>e. key e < key k) xs of [] \<Rightarrow> True | e # _ \<Rightarrow> rc = 0 \<longleftrightarrow> key e = key k)"
  using assms
proof (induction xs arbitrary: r)
  case Nil
  then show ?case by simp
next
  case (Cons x xs)
  show ?case
  proof (cases "key x < key k")
    case True
    then have "cmp x k < 0" by (simp add: cmp_less)
    with True Cons show ?thesis by (auto simp: Let_def)
  next
    case False
    then have "\<not> cmp x k < 0" by (simp add: cmp_less)
    with False show ?thesis using cmp_eq [of x k] by (auto simp: Let_def)
  qed
qed

lemma insert_sorted_place:
  assumes "sorted (map key xs)"
  shows "insert_sorted cmp e xs = takeWhile (\<lambda>x. key x \<le> key e) xs @ e # dropWhile (\<lambda>x. key x \<le> key e) xs"
  using assms
proof (induction xs)
  case (Cons x xs)
  have "cmp x e > 0 \<longleftrightarrow> \<not> key x \<le> key e"
    using cmp_less [of x e] cmp_eq [of x e] by (metis linorder_neqE not_less_iff_gr_or_eq not_le)
  then show ?case using Cons by auto
qed simp

lemma insert_sorted_mset [simp]: "mset (insert_sorted cmp e xs) = add_mset e (mset xs)"
  by (induction xs) auto

lemma insert_sorted_set [simp]: "set (insert_sorted cmp e xs) = insert e (set xs)"
  by (induction xs) auto

lemma insert_sorted_sorted:
  assumes "sorted (map key xs)"
  shows "sorted (map key (insert_sorted cmp e xs))"
  using assms
proof (induction xs)
  case (Cons x xs)
  have "cmp x e > 0 \<longleftrightarrow> key e < key x"
    using cmp_less [of x e] cmp_eq [of x e] by (metis linorder_neqE not_less_iff_gr_or_eq)
  then show ?case using Cons by (auto simp: not_less intro: less_imp_le order_trans)
qed simp

lemma remove_loop_sorted:
  assumes "sorted (map key xs)"
  shows "remove_loop cmp 0 d xs = (if key d \<in> key ` set xs then Some (remove_first key (key d) xs) else None)"
  using assms
proof (induction xs)
  case (Cons x xs)
  consider "key x < key d" | "key x = key d" | "key d < key x" by (metis linorder_neqE)
  then show ?case
  proof cases
    case 1
    then have "cmp x d < 0" by (simp add: cmp_less)
    with 1 Cons show ?thesis by (auto simp: Let_def)
  next
    case 2
    then have "cmp x d = 0" by (simp add: cmp_eq)
    with 2 show ?thesis by (auto simp: Let_def)
  next
    case 3
    then have "\<not> cmp x d < 0" "cmp x d \<noteq> 0" using cmp_less [of x d] cmp_eq [of x d] by auto
    moreover have "key d \<notin> key ` set (x # xs)" using 3 Cons.prems(1) by auto
    ultimately show ?thesis by (auto simp: Let_def)
  qed
qed simp

lemma next_dropWhile:
  fixes k :: 'k
  assumes "sorted (map key xs)" and "distinct (map key xs)"
  defines "ys \<equiv> dropWhile (\<lambda>e. key e < k) xs"
  shows "is_next key (hd_opt (if ys \<noteq> [] \<and> key (hd ys) = k then tl ys else ys)) k (set xs)"
proof -
  have xs: "xs = takeWhile (\<lambda>e. key e < k) xs @ ys" by (simp add: ys_def)
  have lo: "\<forall>e\<in>set (takeWhile (\<lambda>e. key e < k) xs). key e < k" by (auto dest: set_takeWhileD)
  have s: "sorted (map key ys)" "distinct (map key ys)"
    using assms(1,2) xs by (metis map_append sorted_append, metis map_append distinct_append)
  have "set xs = set (takeWhile (\<lambda>e. key e < k) xs) \<union> set ys" using xs by (metis set_append)
  moreover have "is_next key (hd_opt (if ys \<noteq> [] \<and> key (hd ys) = k then tl ys else ys)) k (set ys)"
  proof (cases ys)
    case (Cons y zs)
    then have "\<not> key y < k" using hd_dropWhile [of "\<lambda>e. key e < k" xs] by (simp add: ys_def)
    with Cons s show ?thesis by (cases zs) (auto simp: is_next_def)
  qed (simp add: is_next_def)
  ultimately show ?thesis using lo by (auto simp: is_next_def split: option.splits)
qed

end


text \<open>Reachable sorted lists: whatever entries are inserted, removed and cleared, in any order.\<close>

inductive ssll_reach :: "(oid \<times> 'v) sl_container \<Rightarrow> bool" where
  created: "ssll_reach netsnmp_container_get_ssll"
| inserted: "ssll_reach c \<Longrightarrow> ssll_reach (snd (ssll_insert netsnmp_compare_netsnmp_index alloc c e))"
| removed: "ssll_reach c \<Longrightarrow> ssll_reach (snd (ssll_remove netsnmp_compare_netsnmp_index c d))"
| cleared: "ssll_reach c \<Longrightarrow> ssll_reach (snd (ssll_clear c f))"

lemma ssll_insert_place:
  assumes "ssll_inv c"
  shows "ssll_insert netsnmp_compare_netsnmp_index True c e =
    (0, c\<lparr>nodes := takeWhile (\<lambda>x. fst x \<le> fst e) (nodes c) @ e # dropWhile (\<lambda>x. fst x \<le> fst e) (nodes c),
          sl_count := sl_count c + 1, sl_sync := sl_sync c + 1\<rparr>)"
  using assms index_order.insert_sorted_place [of "nodes c" e]
  by (auto simp: ssll_insert_def ssll_inv_def Let_def)

lemma ssll_inv_insert:
  assumes "ssll_inv c"
  shows "ssll_inv (snd (ssll_insert netsnmp_compare_netsnmp_index alloc c e))"
proof -
  let ?ins = "insert_sorted netsnmp_compare_netsnmp_index e (nodes c)"
  have "sorted (map fst ?ins)" using assms by (intro index_order.insert_sorted_sorted) (simp add: ssll_inv_def)
  moreover have "length ?ins = length (nodes c) + 1"
    by (metis index_order.insert_sorted_mset size_add_mset size_mset Suc_eq_plus1)
  ultimately show ?thesis using assms by (auto simp: ssll_insert_def ssll_inv_def Let_def)
qed

lemma ssll_remove_sorted:
  assumes "ssll_inv c"
  shows "ssll_remove netsnmp_compare_netsnmp_index c (Some d) =
    (if nodes c = [] then (-1, c)
     else if fst d \<in> fst ` set (nodes c)
     then (0, c\<lparr>nodes := remove_first fst (fst d) (nodes c), sl_count := sl_count c - 1, sl_sync := sl_sync c + 1\<rparr>)
     else (-2, c))"
proof (cases "nodes c")
  case Nil
  then show ?thesis by (simp add: ssll_remove_def)
next
  case (Cons x xs)
  have ok: "sorted (map fst xs)" "unsorted c = 0" using assms Cons by (auto simp: ssll_inv_def)
  show ?thesis
    using Cons ok(2) index_order.remove_loop_sorted [OF ok(1), of d] index_order.cmp_eq [of x d]
    by (auto simp: ssll_remove_def)
qed

lemma ssll_inv_remove:
  assumes "ssll_inv c"
  shows "ssll_inv (snd (ssll_remove netsnmp_compare_netsnmp_index c d))"
proof (cases d)
  case None
  then show ?thesis using assms by (auto simp: ssll_remove_def ssll_inv_def split: list.splits)
next
  case (Some k)
  have "word_of_nat (length (remove_first fst (fst k) (nodes c))) = sl_count c - 1"
    if "fst k \<in> fst ` set (nodes c)"
    using length_remove_first [OF that] assms by (simp add: ssll_inv_def)
  then show ?thesis
    unfolding Some ssll_remove_sorted [OF assms]
    using assms sorted_remove_first [of fst "nodes c"] by (auto simp: ssll_inv_def)
qed

lemma reach_inv: "ssll_reach c \<Longrightarrow> ssll_inv c"
proof (induction rule: ssll_reach.induct)
  case created
  then show ?case by (simp add: netsnmp_container_get_ssll_def ssll_inv_def)
next
  case (cleared c f)
  then show ?case by (simp add: ssll_clear_def ssll_inv_def)
qed (simp_all add: ssll_inv_insert ssll_inv_remove)

lemma ssll_next:
  assumes "ssll_ok c"
  shows "is_next fst (ssll_find_next netsnmp_compare_netsnmp_index c (Some k)) (fst k) (set (nodes c))"
proof -
  let ?ys = "dropWhile (\<lambda>e. fst e < fst k) (nodes c)"
  have s: "sorted (map fst (nodes c))" "distinct (map fst (nodes c))" "unsorted c = 0"
    using assms by (simp_all add: ssll_ok_def ssll_inv_def)
  obtain rc where rc: "sl_loop netsnmp_compare_netsnmp_index 0 k 0 (nodes c) = (rc, ?ys)"
      "case ?ys of [] \<Rightarrow> True | e # _ \<Rightarrow> rc = 0 \<longleftrightarrow> fst e = fst k"
    using index_order.sl_loop_sorted [OF s(1), of k 0] by blast
  have "ssll_find_next netsnmp_compare_netsnmp_index c (Some k) =
      hd_opt (if ?ys \<noteq> [] \<and> fst (hd ?ys) = fst k then tl ?ys else ?ys)"
    using rc s(3) by (auto simp: ssll_find_next_def sl_get_def split: list.splits)
  then show ?thesis using index_order.next_dropWhile [OF s(1,2), of "fst k"] by simp
qed

interpretation ssll_store: ordered_store ssll_ok "\<lambda>c. set (nodes c)" "fst :: oid \<times> 'v \<Rightarrow> oid"
  "\<lambda>c k. (ssll_find_next netsnmp_compare_netsnmp_index c k, c)"
proof unfold_locales
  fix s :: "(oid \<times> 'v) sl_container" and e :: "oid \<times> 'v"
  assume ok: "ssll_ok s"
  show "inj_on fst (set (nodes s))" using ok by (simp add: ssll_ok_def distinct_map)
  show "case fst (ssll_find_next netsnmp_compare_netsnmp_index s None, s) of None \<Rightarrow> set (nodes s) = {}
      | Some e \<Rightarrow> e \<in> set (nodes s) \<and> (\<forall>e'\<in>set (nodes s). fst e \<le> fst e')"
    using ok by (cases "nodes s") (auto simp: ssll_find_next_def sl_get_def ssll_ok_def ssll_inv_def)
  show "is_next fst (fst (ssll_find_next netsnmp_compare_netsnmp_index s (Some e), s)) (fst e) (set (nodes s))"
    using ssll_next [OF ok] by simp
qed simp_all


subsection \<open>Properties\<close>

definition two_nodes :: "(oid \<times> nat) sl_container" where
  "two_nodes =
     snd (ssll_insert netsnmp_compare_netsnmp_index True
       (snd (ssll_insert netsnmp_compare_netsnmp_index True netsnmp_container_get_ssll ([3], 30))) ([1], 10))"

lemma nodes_two_nodes: "nodes two_nodes = [([1], 10), ([3], 30)]"
  by (simp add: two_nodes_def ssll_insert_def netsnmp_container_get_ssll_def netsnmp_compare_netsnmp_index_def
      snmp_oid_compare_def)

lemma reach_two_nodes: "ssll_reach two_nodes"
  unfolding two_nodes_def
  by (intro ssll_reach.inserted ssll_reach.created)

lemma ssll_walk:
  assumes ok: "ssll_ok c" and n: "length (nodes c) \<le> n"
  shows "walk (\<lambda>c k. (ssll_find_next netsnmp_compare_netsnmp_index c k, c)) n c None = nodes c" (is "?w = _")
proof (rule map_sorted_distinct_set_unique [of fst])
  have "card (set (nodes c)) \<le> n" using n card_length [of "nodes c"] by linarith
  with ssll_store.walk_all [OF ok] have w: "set ?w = set (nodes c)" "sorted_wrt (<) (map fst ?w)" by blast+
  show "inj_on fst (set ?w \<union> set (nodes c))" using ok w(1) by (simp add: ssll_ok_def distinct_map)
  show "sorted (map fst ?w)" "distinct (map fst ?w)" using w(2) strict_sorted_iff by blast+
  show "sorted (map fst (nodes c))" "distinct (map fst (nodes c))" using ok by (simp_all add: ssll_ok_def ssll_inv_def)
  show "set ?w = set (nodes c)" by (rule w(1))
qed

text \<open>
  C29 (the sorted list).  Whatever entries were inserted into a sorted list and removed from it, with repeated keys or without,
  its nodes are in ascending order and the counter is their number.  A new entry is linked
  behind the entries with smaller or equal keys.  \<open>remove\<close> unlinks the first node with the key and no other, returns
  -2 when there is none and -1 for an empty list.  If no key occurs twice, the walk with \<open>find_next\<close> returns the nodes in their
  order and ends.
\<close>

theorem ssll_sorted_list:
  assumes "ssll_reach c"
  shows "sorted (map fst (nodes c)) \<and> ssll_size c = word_of_nat (length (nodes c)) \<and>
    (let (rc, c') = ssll_insert netsnmp_compare_netsnmp_index True c e in
       rc = 0 \<and> nodes c' = takeWhile (\<lambda>x. fst x \<le> fst e) (nodes c) @ e # dropWhile (\<lambda>x. fst x \<le> fst e) (nodes c)) \<and>
    (let (rc, c') = ssll_remove netsnmp_compare_netsnmp_index c (Some d) in
       nodes c' = remove_first fst (fst d) (nodes c) \<and>
       rc = (if nodes c = [] then -1 else if fst d \<in> fst ` set (nodes c) then 0 else -2)) \<and>
    (distinct (map fst (nodes c)) \<and> length (nodes c) \<le> n \<longrightarrow>
       walk (\<lambda>c k. (ssll_find_next netsnmp_compare_netsnmp_index c k, c)) n c None = nodes c)"
proof -
  have inv: "ssll_inv c" by (rule reach_inv [OF assms])
  have "remove_first fst (fst d) (nodes c) = nodes c" if "fst d \<notin> fst ` set (nodes c)"
    using that by (rule remove_first_missing)
  then have "let (rc, c') = ssll_remove netsnmp_compare_netsnmp_index c (Some d) in
       nodes c' = remove_first fst (fst d) (nodes c) \<and>
       rc = (if nodes c = [] then -1 else if fst d \<in> fst ` set (nodes c) then 0 else -2)"
    unfolding ssll_remove_sorted [OF inv] by auto
  moreover have "sorted (map fst (nodes c)) \<and> ssll_size c = word_of_nat (length (nodes c))"
    using inv by (simp add: ssll_inv_def ssll_size_def)
  ultimately show ?thesis
    using inv ssll_walk [of c n] by (simp add: ssll_insert_place ssll_ok_def)
qed

theorem ssll_sorted_list_witness:
  "walk (\<lambda>c k. (ssll_find_next netsnmp_compare_netsnmp_index c k, c)) 2 two_nodes None = [([1], 10), ([3], 30)] \<and>
   nodes (snd (ssll_insert netsnmp_compare_netsnmp_index True two_nodes ([1], 11))) = [([1], 10), ([1], 11), ([3], 30)]"
  using ssll_sorted_list [OF reach_two_nodes, of "([1], 11)" "([1], 0)" 2] by (simp add: nodes_two_nodes split: prod.splits)

text \<open>
  With a repeated key the walk does not move on.  \<open>find_next\<close> of the second of two entries with the same key stops at
  the first one and returns its successor, the second entry itself.
\<close>

lemma ssll_find_next_repeats:
  assumes "ssll_inv c" and n: "nodes c = xs @ e # e' # ys" "fst e = fst e'" "\<forall>x\<in>set xs. fst x < fst e"
  shows "ssll_find_next netsnmp_compare_netsnmp_index c (Some e') = Some e'"
proof -
  have d: "dropWhile (\<lambda>x. fst x < fst e') (nodes c) = e # e' # ys" using n by simp
  have s: "sorted (map fst (nodes c))" "unsorted c = 0" using assms(1) by (simp_all add: ssll_inv_def)
  obtain rc where "sl_loop netsnmp_compare_netsnmp_index 0 e' 0 (nodes c) = (rc, e # e' # ys)" "rc = 0"
    using index_order.sl_loop_sorted [OF s(1), of e' 0] n(2) unfolding d by auto
  then show ?thesis using s(2) by (simp add: ssll_find_next_def sl_get_def)
qed

text \<open>
  \<open>find\<close> on a sorted list returns a wrong entry.  \<open>_get\<close> does not look at \<open>exact\<close> when the
  search stopped at a larger entry, so for a key that is not in the list \<open>find\<close> returns the
  same as \<open>find_next\<close>: the next larger entry, where the contract of \<open>find\<close> asks for \<open>NULL\<close>.
\<close>

lemma ssll_find_missing:
  assumes "ssll_reach c" and "fst k \<notin> fst ` set (nodes c)"
  shows "ssll_find netsnmp_compare_netsnmp_index c (Some k) = ssll_find_next netsnmp_compare_netsnmp_index c (Some k) \<and>
    (\<forall>e\<in>set (nodes c). fst k < fst e \<longrightarrow> ssll_find netsnmp_compare_netsnmp_index c (Some k) \<noteq> None)"
proof -
  have s: "sorted (map fst (nodes c))" "unsorted c = 0" using reach_inv [OF assms(1)] by (simp_all add: ssll_inv_def)
  let ?ys = "dropWhile (\<lambda>e. fst e < fst k) (nodes c)"
  obtain rc where rc: "sl_loop netsnmp_compare_netsnmp_index 0 k 0 (nodes c) = (rc, ?ys)"
      "case ?ys of [] \<Rightarrow> True | e # _ \<Rightarrow> rc = 0 \<longleftrightarrow> fst e = fst k"
    using index_order.sl_loop_sorted [OF s(1), of k 0] by blast
  have "rc \<noteq> 0" if "?ys = y # ys" for y ys
  proof -
    have "y \<in> set (nodes c)" using that set_dropWhileD [of y "\<lambda>e. fst e < fst k" "nodes c"] by simp
    then have "fst y \<noteq> fst k" using assms(2) by (metis imageI)
    with rc(2) that show ?thesis by simp
  qed
  then have e: "ssll_find netsnmp_compare_netsnmp_index c (Some k) = ssll_find_next netsnmp_compare_netsnmp_index c (Some k)"
    using rc(1) s(2) by (cases ?ys) (simp_all add: ssll_find_def ssll_find_next_def sl_get_def)
  have "?ys \<noteq> []" if "x \<in> set (nodes c)" "fst k < fst x" for x
    using that by (auto simp: dropWhile_eq_Nil_conv intro!: bexI [of _ x])
  moreover have "ssll_find netsnmp_compare_netsnmp_index c (Some k) = hd_opt ?ys"
    using rc(1) s(2) by (simp add: ssll_find_def sl_get_def)
  ultimately show ?thesis using e by (auto simp: hd_opt_def split: list.splits)
qed

lemma ssll_find_missing_witness:
  "ssll_find netsnmp_compare_netsnmp_index two_nodes (Some ([2], 0)) \<noteq> None"
  using ssll_find_missing [OF reach_two_nodes, of "([2], 0)", THEN conjunct2] by (simp add: nodes_two_nodes)

text \<open>The unsorted list is a queue or a stack: \<open>insert\<close> and \<open>remove\<close> without a key.\<close>

lemma ssll_fifo_lifo:
  "unsorted c = 1 \<Longrightarrow> fifo c = 1 \<Longrightarrow> nodes (snd (ssll_insert cmp True c e)) = nodes c @ [e]"
  "unsorted c = 1 \<Longrightarrow> fifo c = 0 \<Longrightarrow> nodes (snd (ssll_insert cmp True c e)) = e # nodes c"
  "nodes c = x # xs \<Longrightarrow> fst (ssll_remove cmp c None) = 0 \<and> nodes (snd (ssll_remove cmp c None)) = xs"
  by (auto simp: ssll_insert_def ssll_remove_def Let_def)

text \<open>
  The second call of \<open>_ssll_iterator_last\<close> returns the address of the list node that the first call
  remembered, where the first call returned the entry.
\<close>

lemma ssll_iterator_last_twice:
  assumes "nodes c \<noteq> []" and "ssll_iterator_get True c = Some it"
  shows "\<exists>it'. ssll_iterator_last c it = (Data (last (nodes c)), it') \<and>
    ssll_iterator_last c it' = (Node (length (nodes c) - 1), it')"
proof -
  have it: "it = \<lparr>sit_sync = sl_sync c, sit_pos = Some 0, sit_last = None\<rparr>"
    using assms by (simp add: ssll_iterator_get_def ssll_iterator_reset_def)
  show ?thesis using assms(1)
    by (intro exI [of _ "it\<lparr>sit_last := Some (length (nodes c) - 1)\<rparr>"])
       (simp add: it ssll_iterator_last_def ssll_it2cont_def data_at_def last_conv_nth Let_def)
qed

end
