(* ===== verification/Container_Chain.thy ===== *)
theory Container_Chain
  imports Container_Table
begin

section \<open>Containers with several indexes (\<open>snmplib/container.c\<close>)\<close>

text \<open>
  A primary container and its additional indexes form a chain (\<open>next\<close>/\<open>prev\<close>); here the list from
  the first container on.  Each one carries its own operations, as the C structure carries function
  pointers: \<open>ix_insert\<close>, \<open>ix_remove\<close> (\<open>None\<close> stands for an access outside the container),
  \<open>ix_filter\<close> and its name.  \<open>CONTAINER_INSERT\<close> and \<open>CONTAINER_REMOVE\<close> go to the first or last
  container of the chain from any of them, so they are functions of the whole chain.
\<close>

record ('s, 'e) indexed =
  ix_state :: 's
  ix_insert :: "'s \<Rightarrow> 'e \<Rightarrow> int \<times> 's"
  ix_remove :: "'s \<Rightarrow> 'e \<Rightarrow> (int \<times> 's) option"
  ix_filter :: "('s \<Rightarrow> 'e \<Rightarrow> int) option"
  ix_name :: "string option"

definition filtered :: "('s, 'e) indexed \<Rightarrow> 'e \<Rightarrow> bool" where
  "filtered x k \<longleftrightarrow> (case ix_filter x of None \<Rightarrow> False | Some f \<Rightarrow> f (ix_state x) k = 1)"

fun CONTAINER_INSERT_HELPER ::
  "('s, 'e) indexed list \<Rightarrow> 'e \<Rightarrow> (int \<times> ('s, 'e) indexed list) option" where
  "CONTAINER_INSERT_HELPER [] k = Some (0, [])"
| "CONTAINER_INSERT_HELPER (x # xs) k =
     (if filtered x k
      then map_option (\<lambda>(rc, xs'). (rc, x # xs')) (CONTAINER_INSERT_HELPER xs k)
      else
        case ix_insert x (ix_state x) k of
          (rc, s) \<Rightarrow>
            if rc \<noteq> 0 then Some (rc, x\<lparr>ix_state := s\<rparr> # xs)
            else
              case CONTAINER_INSERT_HELPER xs k of
                None \<Rightarrow> None
              | Some (rc', xs') \<Rightarrow>
                  if rc' \<noteq> 0 then
                    map_option (\<lambda>(_, s'). (rc', x\<lparr>ix_state := s'\<rparr> # xs')) (ix_remove x s k)
                  else Some (rc', x\<lparr>ix_state := s\<rparr> # xs'))"

definition CONTAINER_INSERT ::
  "('s, 'e) indexed list \<Rightarrow> 'e \<Rightarrow> (int \<times> ('s, 'e) indexed list) option" where
  "CONTAINER_INSERT chain k = CONTAINER_INSERT_HELPER chain k"

text \<open>\<open>CONTAINER_REMOVE\<close> works from the last container to the first; the tail is done first.\<close>

fun CONTAINER_REMOVE ::
  "('s, 'e) indexed list \<Rightarrow> 'e \<Rightarrow> (int \<times> ('s, 'e) indexed list) option" where
  "CONTAINER_REMOVE [] k = Some (0, [])"
| "CONTAINER_REMOVE (x # xs) k =
     (case CONTAINER_REMOVE xs k of
        None \<Rightarrow> None
      | Some (rc, xs') \<Rightarrow>
          (case ix_remove x (ix_state x) k of
             None \<Rightarrow> None
           | Some (rc2, s) \<Rightarrow>
               Some (if rc2 \<noteq> 0 \<and> ix_filter x = None then rc2 else rc, x\<lparr>ix_state := s\<rparr> # xs')))"

definition netsnmp_container_add_index ::
  "('s, 'e) indexed list \<Rightarrow> ('s, 'e) indexed \<Rightarrow> ('s, 'e) indexed list" where
  "netsnmp_container_add_index primary new_index = primary @ [new_index]"

fun SUBCONTAINER_FIND :: "('s, 'e) indexed list \<Rightarrow> string \<Rightarrow> ('s, 'e) indexed option" where
  "SUBCONTAINER_FIND [] name = None"
| "SUBCONTAINER_FIND (x # xs) name =
     (case ix_name x of
        None \<Rightarrow> SUBCONTAINER_FIND xs name
      | Some nm \<Rightarrow> if strcmp name nm = 0 then Some x else SUBCONTAINER_FIND xs name)"


subsection \<open>The contract of an index\<close>

text \<open>
  What the chain relies on: a successful insertion can be undone by removing the same entry, and
  a failed one changes nothing.
\<close>

locale undoable =
  fixes good :: "('s, 'e) indexed \<Rightarrow> bool" and items :: "'s \<Rightarrow> 'e set"
  assumes insert_good: "good x \<Longrightarrow> good (x\<lparr>ix_state := snd (ix_insert x (ix_state x) e)\<rparr>)"
    and insert_adds: "good x \<Longrightarrow> fst (ix_insert x (ix_state x) e) = 0 \<Longrightarrow>
      e \<notin> items (ix_state x) \<and> items (snd (ix_insert x (ix_state x) e)) = insert e (items (ix_state x))"
    and insert_fails: "good x \<Longrightarrow> fst (ix_insert x (ix_state x) e) \<noteq> 0 \<Longrightarrow>
      items (snd (ix_insert x (ix_state x) e)) = items (ix_state x)"
    and remove_undoes: "good x \<Longrightarrow> fst (ix_insert x (ix_state x) e) = 0 \<Longrightarrow>
      \<exists>rc s. ix_remove x (snd (ix_insert x (ix_state x) e)) e = Some (rc, s) \<and> good (x\<lparr>ix_state := s\<rparr>) \<and>
        items s = items (ix_state x)"
begin

lemma insert_all_or_nothing:
  assumes "\<forall>x\<in>set xs. good x"
  shows "\<exists>rc xs'. CONTAINER_INSERT_HELPER xs e = Some (rc, xs') \<and> (\<forall>x\<in>set xs'. good x) \<and>
    (rc = 0 \<longleftrightarrow> (\<forall>x\<in>set xs. \<not> filtered x e \<longrightarrow> fst (ix_insert x (ix_state x) e) = 0)) \<and>
    map (\<lambda>x. items (ix_state x)) xs' =
      map (\<lambda>x. if rc = 0 \<and> \<not> filtered x e then insert e (items (ix_state x)) else items (ix_state x)) xs"
  using assms
proof (induction xs)
  case Nil
  then show ?case by simp
next
  case (Cons x xs)
  have g: "good x" and "\<forall>x\<in>set xs. good x" using Cons.prems by simp_all
  then obtain rc' xs' where r: "CONTAINER_INSERT_HELPER xs e = Some (rc', xs')" "\<forall>x\<in>set xs'. good x"
      "rc' = 0 \<longleftrightarrow> (\<forall>x\<in>set xs. \<not> filtered x e \<longrightarrow> fst (ix_insert x (ix_state x) e) = 0)"
      "map (\<lambda>x. items (ix_state x)) xs' =
        map (\<lambda>x. if rc' = 0 \<and> \<not> filtered x e then insert e (items (ix_state x)) else items (ix_state x)) xs"
    using Cons.IH by blast
  obtain rc s where i: "ix_insert x (ix_state x) e = (rc, s)" by fastforce
  note good_s = insert_good [OF g, of e, unfolded i snd_conv]
  consider "filtered x e" | "\<not> filtered x e" "rc \<noteq> 0" | "\<not> filtered x e" "rc = 0" "rc' \<noteq> 0"
    | "\<not> filtered x e" "rc = 0" "rc' = 0" by blast
  then show ?case
  proof cases
    case 1
    then show ?thesis using r g by auto
  next
    case 2
    then show ?thesis using insert_fails [OF g, of e] i good_s Cons.prems by simp
  next
    case 3
    obtain rc2 s' where "ix_remove x s e = Some (rc2, s')" "good (x\<lparr>ix_state := s'\<rparr>)" "items s' = items (ix_state x)"
      using remove_undoes [OF g, of e] i 3 by auto
    then show ?thesis using 3 r(1,2,4) i r(3) by auto
  next
    case 4
    then show ?thesis using r i insert_adds [OF g, of e] good_s by simp
  qed
qed

end


subsection \<open>Chains of binary arrays\<close>

text \<open>
  An index implemented by a binary array ordered by the object identifier \<open>ix e\<close> of an entry,
  allowing no duplicates.  The contract does not hold for an index that allows them; the last lemma of this
  theory shows what happens there.
\<close>

definition compare_by :: "('e \<Rightarrow> oid) \<Rightarrow> 'e \<Rightarrow> 'e \<Rightarrow> int" where
  "compare_by ix lhs rhs = snmp_oid_compare (ix lhs) (ix rhs)"

definition array_by :: "('e \<Rightarrow> oid) \<Rightarrow> (nat \<Rightarrow> bool) \<Rightarrow> ('e container, 'e) indexed \<Rightarrow> bool" where
  "array_by ix alloc x \<longleftrightarrow> ix_insert x = netsnmp_binary_array_insert (compare_by ix) alloc \<and>
     ix_remove x = ba_remove (compare_by ix) \<and> ba_table ix (ix_state x)"

definition array_index :: "('e container, 'e) indexed \<Rightarrow> bool" where
  "array_index x \<longleftrightarrow> (\<exists>ix alloc. array_by ix alloc x)"

text \<open>The array has a free slot or can be enlarged.\<close>

definition has_room :: "(nat \<Rightarrow> bool) \<Rightarrow> 'e container \<Rightarrow> bool" where
  "has_room alloc c \<longleftrightarrow> length (entries c) < max_size c \<or> alloc (if max_size c > 0 then 2 * max_size c else 10)"

lemma compare_by_order: "compare_order (compare_by ix) ix"
  by unfold_locales (auto simp: compare_by_def oid_compare_lex)

interpretation array_chain: undoable array_index "\<lambda>c :: 'e container. set (entries c)"
proof unfold_locales
  fix x :: "('e container, 'e) indexed" and e :: 'e
  assume "array_index x"
  then obtain ix alloc where x: "ix_insert x = netsnmp_binary_array_insert (compare_by ix) alloc"
      "ix_remove x = ba_remove (compare_by ix)" "ba_table ix (ix_state x)"
    unfolding array_index_def array_by_def by blast
  note ins = compare_order.ba_table_insert [OF compare_by_order x(3), of alloc e]
  show "array_index (x\<lparr>ix_state := snd (ix_insert x (ix_state x) e)\<rparr>)"
    unfolding array_index_def array_by_def using x ins by (intro exI [of _ ix] exI [of _ alloc]) simp
  show "set (entries (snd (ix_insert x (ix_state x) e))) = set (entries (ix_state x))"
    if "fst (ix_insert x (ix_state x) e) \<noteq> 0" using that ins unfolding x(1) by simp
  show "e \<notin> set (entries (ix_state x)) \<and>
      set (entries (snd (ix_insert x (ix_state x) e))) = insert e (set (entries (ix_state x)))"
    if "fst (ix_insert x (ix_state x) e) = 0" using that ins unfolding x(1) by auto
  show "\<exists>rc s. ix_remove x (snd (ix_insert x (ix_state x) e)) e = Some (rc, s) \<and> array_index (x\<lparr>ix_state := s\<rparr>) \<and>
      set (entries s) = set (entries (ix_state x))"
    if ok: "fst (ix_insert x (ix_state x) e) = 0"
  proof -
    let ?s = "snd (ix_insert x (ix_state x) e)"
    have i: "ba_table ix ?s" "ix e \<notin> ix ` set (entries (ix_state x))" "set (entries ?s) = insert e (set (entries (ix_state x)))"
      using ok ins unfolding x(1) by simp_all
    obtain rc s where r: "ba_remove (compare_by ix) ?s e = Some (rc, s)" "ba_table ix s"
        "set (entries s) = {e' \<in> set (entries ?s). ix e' \<noteq> ix e}"
      using compare_order.ba_table_remove [OF compare_by_order i(1)] by blast
    have "set (entries s) = set (entries (ix_state x))" using r(3) i(2,3) by (auto simp: image_iff)
    moreover have "array_index (x\<lparr>ix_state := s\<rparr>)"
      unfolding array_index_def array_by_def using x(1,2) r(2) by (intro exI [of _ ix] exI [of _ alloc]) simp
    ultimately show ?thesis using r(1) x(2) by auto
  qed
qed

lemma array_accepts:
  assumes "array_by ix alloc x"
  shows "fst (ix_insert x (ix_state x) e) = 0 \<longleftrightarrow> ix e \<notin> ix ` set (entries (ix_state x)) \<and> has_room alloc (ix_state x)"
proof -
  have x: "ix_insert x = netsnmp_binary_array_insert (compare_by ix) alloc" "ba_inv ix (ix_state x)" "ba_table ix (ix_state x)"
    using assms by (simp_all add: array_by_def ba_table_def)
  obtain rc c' where i: "netsnmp_binary_array_insert (compare_by ix) alloc (ix_state x) e = (rc, c')" by fastforce
  have "\<not> flag_set (ix_state x) CONTAINER_KEY_ALLOW_DUPLICATES" using ba_table_flags [OF x(3)] .
  with compare_order.insert_spec [OF compare_by_order x(2) i] show ?thesis
    unfolding x(1) i fst_conv has_room_def by (auto split: if_splits)
qed

text \<open>
  C27 (insertion into all indexes is atomic).  Take a chain of binary array indexes that allow no
  duplicates, whatever keys they use.  Inserting an entry always completes.  It returns 0 exactly when every index that does not
  filter the entry holds no entry with the same key yet and has room; then each of these indexes holds the entry beside
  the old ones.  Otherwise it returns an error and every index holds what it held before: the insertions already made
  are undone.  Indexes whose filter skips the entry are unchanged in both cases.  Chains with an index that allows duplicates are not
  covered.
\<close>

theorem CONTAINER_INSERT_atomic:
  assumes "\<forall>x\<in>set chain. array_by (key x) (alloc x) x"
  shows "\<exists>rc chain'. CONTAINER_INSERT chain e = Some (rc, chain') \<and>
    (rc = 0 \<longleftrightarrow> (\<forall>x\<in>set chain. \<not> filtered x e \<longrightarrow>
       key x e \<notin> key x ` set (entries (ix_state x)) \<and> has_room (alloc x) (ix_state x))) \<and>
    map (\<lambda>x. set (entries (ix_state x))) chain' =
      map (\<lambda>x. if rc = 0 \<and> \<not> filtered x e then insert e (set (entries (ix_state x)))
               else set (entries (ix_state x))) chain"
proof -
  have "\<forall>x\<in>set chain. array_index x" using assms unfolding array_index_def by blast
  from array_chain.insert_all_or_nothing [OF this, of e] obtain rc chain'
    where all: "CONTAINER_INSERT_HELPER chain e = Some (rc, chain')"
      "rc = 0 \<longleftrightarrow> (\<forall>x\<in>set chain. \<not> filtered x e \<longrightarrow> fst (ix_insert x (ix_state x) e) = 0)"
      "map (\<lambda>x. set (entries (ix_state x))) chain' =
        map (\<lambda>x. if rc = 0 \<and> \<not> filtered x e then insert e (set (entries (ix_state x))) else set (entries (ix_state x))) chain"
    by blast
  have "fst (ix_insert x (ix_state x) e) = 0 \<longleftrightarrow>
      key x e \<notin> key x ` set (entries (ix_state x)) \<and> has_room (alloc x) (ix_state x)" if "x \<in> set chain" for x
    using that assms by (intro array_accepts) simp
  then have "(\<forall>x\<in>set chain. \<not> filtered x e \<longrightarrow> fst (ix_insert x (ix_state x) e) = 0) \<longleftrightarrow>
      (\<forall>x\<in>set chain. \<not> filtered x e \<longrightarrow> key x e \<notin> key x ` set (entries (ix_state x)) \<and> has_room (alloc x) (ix_state x))"
    by (intro ball_cong refl) simp
  with all(2) have "rc = 0 \<longleftrightarrow> (\<forall>x\<in>set chain. \<not> filtered x e \<longrightarrow>
      key x e \<notin> key x ` set (entries (ix_state x)) \<and> has_room (alloc x) (ix_state x))" by (rule trans)
  with all(1,3) show ?thesis unfolding CONTAINER_INSERT_def by blast
qed

text \<open>A chain of two empty indexes on the two components of an entry; the second one has no memory if \<open>\<not> mem\<close>.\<close>

definition sample_chain :: "bool \<Rightarrow> ((oid \<times> oid) container, oid \<times> oid) indexed list" where
  "sample_chain mem =
     [\<lparr>ix_state = netsnmp_binary_array_initialize, ix_insert = netsnmp_binary_array_insert (compare_by fst) (\<lambda>_. True),
       ix_remove = ba_remove (compare_by fst), ix_filter = None, ix_name = None\<rparr>,
      \<lparr>ix_state = netsnmp_binary_array_initialize, ix_insert = netsnmp_binary_array_insert (compare_by snd) (\<lambda>_. mem),
       ix_remove = ba_remove (compare_by snd), ix_filter = None, ix_name = Some ''second''\<rparr>]"

theorem CONTAINER_INSERT_atomic_witness:
  "(\<exists>chain'. CONTAINER_INSERT (sample_chain True) ([1], [2]) = Some (0, chain') \<and>
      map (\<lambda>x. set (entries (ix_state x))) chain' = [{([1], [2])}, {([1], [2])}]) \<and>
   (\<exists>rc chain'. CONTAINER_INSERT (sample_chain False) ([1], [2]) = Some (rc, chain') \<and> rc \<noteq> 0 \<and>
      map (\<lambda>x. set (entries (ix_state x))) chain' = [{}, {}])"
proof -
  define key :: "((oid \<times> oid) container, oid \<times> oid) indexed \<Rightarrow> oid \<times> oid \<Rightarrow> oid"
    where "key x = (if ix_name x = None then fst else snd)" for x
  define alloc :: "bool \<Rightarrow> ((oid \<times> oid) container, oid \<times> oid) indexed \<Rightarrow> nat \<Rightarrow> bool"
    where "alloc mem x n = (if ix_name x = None then True else mem)" for mem x n
  have a: "alloc mem x = (if ix_name x = None then \<lambda>_. True else (\<lambda>_. mem))" for mem x
    by (auto simp: alloc_def)
  have "\<forall>x\<in>set (sample_chain mem). array_by (key x) (alloc mem x) x" for mem
    by (auto simp: a sample_chain_def key_def array_by_def ba_table_def ba_inv_def netsnmp_binary_array_initialize_def)
  note c = CONTAINER_INSERT_atomic [where e = "([1], [2])", OF this]
  have e: "\<not> filtered x f" if "x \<in> set (sample_chain mem)" for mem x f
    using that by (auto simp: sample_chain_def filtered_def)
  have r: "has_room (alloc mem x) (ix_state x) \<longleftrightarrow> ix_name x = None \<or> mem" "entries (ix_state x) = []"
    if "x \<in> set (sample_chain mem)" for mem x
    using that by (auto simp: sample_chain_def alloc_def has_room_def netsnmp_binary_array_initialize_def)
  have n: "\<exists>x\<in>set (sample_chain mem). ix_name x \<noteq> None" for mem by (simp add: sample_chain_def)
  obtain chain' where t: "CONTAINER_INSERT (sample_chain True) ([1], [2]) = Some (0, chain')"
      "map (\<lambda>x. set (entries (ix_state x))) chain' = map (\<lambda>x. {([1], [2])}) (sample_chain True)"
    using c [of True] by (auto simp: r e cong: map_cong)
  obtain rc chain'' where f: "CONTAINER_INSERT (sample_chain False) ([1], [2]) = Some (rc, chain'')" "rc \<noteq> 0"
      "map (\<lambda>x. set (entries (ix_state x))) chain'' = map (\<lambda>x. {}) (sample_chain False)"
    using c [of False] n [of False] by (auto simp: r e cong: map_cong)
  have "map (\<lambda>x. y) (sample_chain mem) = [y, y]" for mem and y :: "(oid \<times> oid) set" by (simp add: sample_chain_def)
  with t f show ?thesis by simp
qed

text \<open>
  The rollback removes by key.  In an index that allows duplicates it may take away another entry with the
  same key: here the second index has no memory, the insertion of \<open>([1], [6])\<close> fails, and the first index has lost
  \<open>([1], [5])\<close> and keeps the new entry.
\<close>

lemma CONTAINER_INSERT_rollback_duplicates:
  "map_option (\<lambda>(rc, chain'). (rc, map (\<lambda>x. entries (ix_state x)) chain'))
     (CONTAINER_INSERT
       [(sample_chain False ! 0)\<lparr>ix_state := netsnmp_binary_array_initialize
           \<lparr>c_flags := CONTAINER_KEY_ALLOW_DUPLICATES, max_size := 10, entries := [([1], [5])]\<rparr>\<rparr>,
        sample_chain False ! 1] ([1], [6])) = Some (-1, [[([1], [6])], []])"
  by code_simp

end
