(* ===== verification/Vacm.thy ===== *)
theory Vacm
  imports Container_Compare "HOL-Library.Product_Lexorder"
begin

section \<open>View-based access control (\<open>snmplib/vacm.c\<close>, \<open>agent/mibgroup/mibII/vacm_conf.c\<close>)\<close>

text \<open>
  The three tables of the view-based access control model and the decisions taken from them.  The
  linked lists \<open>viewList\<close>, \<open>groupList\<close> and \<open>accessList\<close> are lists; a returned pointer to an entry
  is the entry.  Names are kept as in C with their length in front (\<open>prefixed\<close>) and compared with
  \<open>memcmp\<close>; a C string argument is its bytes without the terminating zero.  \<open>viewSubtree\<close> too has its
  length in front and \<open>viewSubtreeLen\<close> is the length of the list; \<open>viewMaskLen\<close> is the length of
  \<open>viewMask\<close>.  The columns the decisions do not read (storage type, status) are left out.  Whether
  \<open>calloc\<close> succeeds is the argument \<open>alloc\<close>.
\<close>

abbreviation VACM_MAX_STRING :: nat where "VACM_MAX_STRING \<equiv> 32"
abbreviation MAX_OID_LEN :: nat where "MAX_OID_LEN \<equiv> 128"
abbreviation VACM_SUCCESS :: int where "VACM_SUCCESS \<equiv> 0"
abbreviation VACM_NOSECNAME :: int where "VACM_NOSECNAME \<equiv> 1"
abbreviation VACM_NOGROUP :: int where "VACM_NOGROUP \<equiv> 2"
abbreviation VACM_NOACCESS :: int where "VACM_NOACCESS \<equiv> 3"
abbreviation VACM_NOVIEW :: int where "VACM_NOVIEW \<equiv> 4"
abbreviation VACM_NOTINVIEW :: int where "VACM_NOTINVIEW \<equiv> 5"
abbreviation VACM_NOSUCHCONTEXT :: int where "VACM_NOSUCHCONTEXT \<equiv> 6"
abbreviation VACM_SUBTREE_UNKNOWN :: int where "VACM_SUBTREE_UNKNOWN \<equiv> 7"
abbreviation SNMP_VIEW_INCLUDED :: int where "SNMP_VIEW_INCLUDED \<equiv> 1"
abbreviation SNMP_VIEW_EXCLUDED :: int where "SNMP_VIEW_EXCLUDED \<equiv> 2"
abbreviation SNMP_SEC_MODEL_ANY :: int where "SNMP_SEC_MODEL_ANY \<equiv> 0"
abbreviation CONTEXT_MATCH_EXACT :: int where "CONTEXT_MATCH_EXACT \<equiv> 1"
abbreviation CONTEXT_MATCH_PREFIX :: int where "CONTEXT_MATCH_PREFIX \<equiv> 2"
abbreviation VACM_MAX_VIEWS :: nat where "VACM_MAX_VIEWS \<equiv> 8"

datatype view_mode = VACM_MODE_FIND | VACM_MODE_IGNORE_MASK | VACM_MODE_CHECK_SUBTREE

record vacm_viewEntry =
  viewName :: bytes
  viewSubtree :: oid
  viewMask :: bytes
  viewType :: int

record vacm_groupEntry =
  g_securityModel :: int
  g_securityName :: bytes
  g_groupName :: bytes

record vacm_accessEntry =
  a_groupName :: bytes
  a_contextPrefix :: bytes
  a_securityModel :: int
  a_securityLevel :: int
  a_contextMatch :: int
  a_views :: "bytes list"

definition prefixed :: "bytes \<Rightarrow> bytes" where
  "prefixed s = word_of_nat (length s) # s"


subsection \<open>Views\<close>

definition VIEW_MASK :: "bytes \<Rightarrow> nat \<Rightarrow> u8 \<Rightarrow> u8" where
  "VIEW_MASK vm idx mbit = (if idx \<ge> length vm then mbit else vm ! idx AND mbit)"

text \<open>
  The loop over the sub-identifiers: \<open>name\<close> is the object identifier asked for, \<open>sub\<close> the entry's
  (without the length).  It ends with the shorter of the two.
\<close>

fun mask_loop :: "bool \<Rightarrow> bytes \<Rightarrow> nat \<Rightarrow> u8 \<Rightarrow> oid \<Rightarrow> oid \<Rightarrow> bool" where
  "mask_loop ign vm maskpos mbit (x # name) (y # sub) =
     (if (ign \<or> VIEW_MASK vm maskpos mbit \<noteq> 0) \<and> x \<noteq> y then False
      else if mbit = 1 then mask_loop ign vm (maskpos + 1) 0x80 name sub
      else mask_loop ign vm maskpos (drop_bit 1 mbit) name sub)"
| "mask_loop ign vm maskpos mbit _ _ = True"

text \<open>The entry is kept when it is longer, or as long and lexicographically greater.\<close>

definition better_view :: "vacm_viewEntry \<Rightarrow> vacm_viewEntry option \<Rightarrow> bool" where
  "better_view vp vpret \<longleftrightarrow>
     (case vpret of
        None \<Rightarrow> True
      | Some v \<Rightarrow>
          length (viewSubtree vp) > length (viewSubtree v) \<or>
          length (viewSubtree vp) = length (viewSubtree v) \<and>
            snmp_oid_compare (tl (viewSubtree vp)) (tl (viewSubtree v)) > 0)"

definition view_covers :: "view_mode \<Rightarrow> bytes \<Rightarrow> oid \<Rightarrow> vacm_viewEntry \<Rightarrow> bool" where
  "view_covers mode viewNm name vp \<longleftrightarrow>
     memcmp (prefixed viewNm) (viewName vp) (length viewNm + 1) = 0 \<and>
     length name \<ge> usub64 (length (viewSubtree vp)) 1 \<and>
     mask_loop (mode = VACM_MODE_IGNORE_MASK) (viewMask vp) 0 0x80 name (tl (viewSubtree vp))"

fun view_scan ::
  "view_mode \<Rightarrow> bytes \<Rightarrow> oid \<Rightarrow> vacm_viewEntry list \<Rightarrow> vacm_viewEntry option \<Rightarrow> nat
     \<Rightarrow> vacm_viewEntry option \<times> nat" where
  "view_scan mode viewNm name [] vpret cnt = (vpret, cnt)"
| "view_scan mode viewNm name (vp # vps) vpret cnt =
     (if view_covers mode viewNm name vp then
        view_scan mode viewNm name vps
          (if mode = VACM_MODE_CHECK_SUBTREE \<or> better_view vp vpret then Some vp else vpret) (cnt + 1)
      else view_scan mode viewNm name vps vpret cnt)"

definition netsnmp_view_get ::
  "vacm_viewEntry list \<Rightarrow> bytes \<Rightarrow> oid \<Rightarrow> view_mode \<Rightarrow> vacm_viewEntry option" where
  "netsnmp_view_get head viewNm name mode =
     (if length viewNm > VACM_MAX_STRING then None
      else case view_scan mode viewNm name head None 0 of
             (vpret, cnt) \<Rightarrow>
               if mode = VACM_MODE_CHECK_SUBTREE \<and> cnt > 1 then None else vpret)"

text \<open>
  The scan of \<open>netsnmp_view_subtree_check\<close>: \<open>Inl\<close> is the early return, otherwise \<open>vpShorter\<close> and
  \<open>vpLonger\<close>.
\<close>

fun subtree_scan ::
  "bytes \<Rightarrow> oid \<Rightarrow> vacm_viewEntry list \<Rightarrow> vacm_viewEntry option \<Rightarrow> vacm_viewEntry option
     \<Rightarrow> int + vacm_viewEntry option \<times> vacm_viewEntry option" where
  "subtree_scan viewNm name [] shorter longer = Inr (shorter, longer)"
| "subtree_scan viewNm name (vp # vps) shorter longer =
     (if memcmp (prefixed viewNm) (viewName vp) (length viewNm + 1) \<noteq> 0
      then subtree_scan viewNm name vps shorter longer
      else if length name \<ge> usub64 (length (viewSubtree vp)) 1 then
        (if mask_loop False (viewMask vp) 0 0x80 name (tl (viewSubtree vp)) \<and> better_view vp shorter
         then subtree_scan viewNm name vps (Some vp) longer
         else subtree_scan viewNm name vps shorter longer)
      else if mask_loop False (viewMask vp) 0 0x80 name (tl (viewSubtree vp)) then
        (case longer of
           Some l \<Rightarrow>
             if viewType l \<noteq> viewType vp then Inl VACM_SUBTREE_UNKNOWN
             else subtree_scan viewNm name vps shorter longer
         | None \<Rightarrow> subtree_scan viewNm name vps shorter (Some vp))
      else subtree_scan viewNm name vps shorter longer)"

definition netsnmp_view_subtree_check :: "vacm_viewEntry list \<Rightarrow> bytes \<Rightarrow> oid \<Rightarrow> int" where
  "netsnmp_view_subtree_check head viewNm name =
     (if length viewNm > VACM_MAX_STRING then VACM_NOTINVIEW
      else case subtree_scan viewNm name head None None of
        Inl r \<Rightarrow> r
      | Inr (shorter, longer) \<Rightarrow>
          if (case longer of
                None \<Rightarrow> False
              | Some l \<Rightarrow>
                  (case shorter of
                     None \<Rightarrow> viewType l \<noteq> SNMP_VIEW_EXCLUDED
                   | Some s \<Rightarrow> viewType l \<noteq> viewType s))
          then VACM_SUBTREE_UNKNOWN
          else if (case shorter of None \<Rightarrow> False | Some s \<Rightarrow> viewType s \<noteq> SNMP_VIEW_EXCLUDED)
          then VACM_SUCCESS else VACM_NOTINVIEW)"

fun view_link :: "vacm_viewEntry \<Rightarrow> nat \<Rightarrow> vacm_viewEntry list \<Rightarrow> vacm_viewEntry list" where
  "view_link vp glen [] = [vp]"
| "view_link vp glen (lp # lps) =
     (let cmp = memcmp (viewName lp) (viewName vp) (glen + 1);
          cmp2 = snmp_oid_compare (viewSubtree lp) (viewSubtree vp) in
      if cmp = 0 \<and> cmp2 > 0 \<or> cmp > 0 then vp # lp # lps
      else lp # view_link vp glen lps)"

text \<open>
  \<open>viewSubtree\<close> is an array of \<open>MAX_OID_LEN\<close> elements, and the length and the sub-identifiers are
  copied into it without a check.
\<close>

definition netsnmp_view_create ::
  "bool \<Rightarrow> vacm_viewEntry list \<Rightarrow> bytes \<Rightarrow> oid \<Rightarrow> (vacm_viewEntry option \<times> vacm_viewEntry list) res" where
  "netsnmp_view_create alloc head viewNm sub =
     (if length viewNm > VACM_MAX_STRING \<or> \<not> alloc then Inr (None, head)
      else if length sub + 1 > MAX_OID_LEN then Inl OverWrite
      else
        let vp = \<lparr>viewName = prefixed viewNm, viewSubtree = word_of_nat (length sub) # sub,
                  viewMask = [], viewType = 0\<rparr> in
        Inr (Some vp, view_link vp (length viewNm) head))"

definition view_is :: "bytes \<Rightarrow> oid \<Rightarrow> vacm_viewEntry \<Rightarrow> bool" where
  "view_is viewNm sub vp \<longleftrightarrow> tl (viewName vp) = viewNm \<and> viewSubtree vp = sub"

text \<open>The \<open>viewSubtree\<close> argument here has its length in front.\<close>

fun netsnmp_view_destroy :: "vacm_viewEntry list \<Rightarrow> bytes \<Rightarrow> oid \<Rightarrow> vacm_viewEntry list" where
  "netsnmp_view_destroy [] viewNm sub = []"
| "netsnmp_view_destroy (vp # vps) viewNm sub =
     (if view_is viewNm sub vp then vps else vp # netsnmp_view_destroy vps viewNm sub)"

definition netsnmp_view_clear :: "vacm_viewEntry list \<Rightarrow> vacm_viewEntry list" where
  "netsnmp_view_clear head = []"


subsection \<open>Groups\<close>

definition group_matches :: "int \<Rightarrow> bytes \<Rightarrow> vacm_groupEntry \<Rightarrow> bool" where
  "group_matches securityModel secName vp \<longleftrightarrow>
     (securityModel = g_securityModel vp \<or> g_securityModel vp = SNMP_SEC_MODEL_ANY) \<and>
     memcmp (g_securityName vp) (prefixed secName) (length secName + 1) = 0"

definition vacm_getGroupEntry :: "vacm_groupEntry list \<Rightarrow> int \<Rightarrow> bytes \<Rightarrow> vacm_groupEntry option" where
  "vacm_getGroupEntry groupList securityModel secName =
     (if length secName > VACM_MAX_STRING then None
      else List.find (group_matches securityModel secName) groupList)"

fun group_link :: "vacm_groupEntry \<Rightarrow> nat \<Rightarrow> vacm_groupEntry list \<Rightarrow> vacm_groupEntry list" where
  "group_link gp glen [] = [gp]"
| "group_link gp glen (lg # lgs) =
     (if g_securityModel lg > g_securityModel gp \<or>
         g_securityModel lg = g_securityModel gp \<and>
           memcmp (g_securityName lg) (g_securityName gp) (glen + 1) > 0
      then gp # lg # lgs
      else lg # group_link gp glen lgs)"

definition vacm_createGroupEntry ::
  "bool \<Rightarrow> vacm_groupEntry list \<Rightarrow> int \<Rightarrow> bytes \<Rightarrow> vacm_groupEntry option \<times> vacm_groupEntry list" where
  "vacm_createGroupEntry alloc groupList securityModel secName =
     (if length secName > VACM_MAX_STRING \<or> \<not> alloc then (None, groupList)
      else
        let gp = \<lparr>g_securityModel = securityModel, g_securityName = prefixed secName, g_groupName = []\<rparr> in
        (Some gp, group_link gp (length secName) groupList))"

fun vacm_destroyGroupEntry :: "vacm_groupEntry list \<Rightarrow> int \<Rightarrow> bytes \<Rightarrow> vacm_groupEntry list" where
  "vacm_destroyGroupEntry [] securityModel secName = []"
| "vacm_destroyGroupEntry (vp # vps) securityModel secName =
     (if g_securityModel vp = securityModel \<and> tl (g_securityName vp) = secName then vps
      else vp # vacm_destroyGroupEntry vps securityModel secName)"


subsection \<open>Access rights\<close>

definition vacm_choose_best :: "vacm_accessEntry option \<Rightarrow> vacm_accessEntry \<Rightarrow> vacm_accessEntry" where
  "vacm_choose_best current candidate =
     (case current of
        None \<Rightarrow> candidate
      | Some cur \<Rightarrow>
          if a_securityModel cur = SNMP_SEC_MODEL_ANY \<and> a_securityModel candidate \<noteq> SNMP_SEC_MODEL_ANY \<or>
             a_contextMatch cur = CONTEXT_MATCH_PREFIX \<and> a_contextMatch candidate = CONTEXT_MATCH_EXACT \<or>
             a_contextMatch cur = CONTEXT_MATCH_PREFIX \<and>
               hd (a_contextPrefix cur) < hd (a_contextPrefix candidate) \<or>
             a_securityLevel cur < a_securityLevel candidate
          then candidate else cur)"

definition access_matches :: "bytes \<Rightarrow> bytes \<Rightarrow> int \<Rightarrow> int \<Rightarrow> vacm_accessEntry \<Rightarrow> bool" where
  "access_matches groupNm context securityModel securityLevel vp \<longleftrightarrow>
     (securityModel = a_securityModel vp \<or> a_securityModel vp = SNMP_SEC_MODEL_ANY) \<and>
     securityLevel \<ge> a_securityLevel vp \<and>
     memcmp (a_groupName vp) (prefixed groupNm) (length groupNm + 1) = 0 \<and>
     (a_contextMatch vp = CONTEXT_MATCH_EXACT \<and>
        length context = unat (hd (a_contextPrefix vp)) \<and>
        memcmp (a_contextPrefix vp) (prefixed context) (length context + 1) = 0 \<or>
      a_contextMatch vp = CONTEXT_MATCH_PREFIX \<and>
        length context \<ge> unat (hd (a_contextPrefix vp)) \<and>
        memcmp (tl (a_contextPrefix vp)) context (unat (hd (a_contextPrefix vp))) = 0)"

fun access_scan ::
  "bytes \<Rightarrow> bytes \<Rightarrow> int \<Rightarrow> int \<Rightarrow> vacm_accessEntry list \<Rightarrow> vacm_accessEntry option \<Rightarrow> vacm_accessEntry option" where
  "access_scan groupNm context sm sl [] best = best"
| "access_scan groupNm context sm sl (vp # vps) best =
     access_scan groupNm context sm sl vps
       (if access_matches groupNm context sm sl vp then Some (vacm_choose_best best vp) else best)"

definition vacm_getAccessEntry ::
  "vacm_accessEntry list \<Rightarrow> bytes \<Rightarrow> bytes \<Rightarrow> int \<Rightarrow> int \<Rightarrow> vacm_accessEntry option" where
  "vacm_getAccessEntry accessList groupNm context securityModel securityLevel =
     (if length groupNm > VACM_MAX_STRING \<or> length context > VACM_MAX_STRING then None
      else access_scan groupNm context securityModel securityLevel accessList None)"

fun access_link :: "vacm_accessEntry \<Rightarrow> nat \<Rightarrow> nat \<Rightarrow> vacm_accessEntry list \<Rightarrow> vacm_accessEntry list" where
  "access_link vp glen clen [] = [vp]"
| "access_link vp glen clen (lp # lps) =
     (let cmp = memcmp (a_groupName lp) (a_groupName vp) (glen + 1) in
      if cmp > 0 then vp # lp # lps
      else if cmp < 0 then lp # access_link vp glen clen lps
      else
        let cmp' = memcmp (a_contextPrefix lp) (a_contextPrefix vp) (clen + 1) in
        if cmp' > 0 then vp # lp # lps
        else if cmp' < 0 then lp # access_link vp glen clen lps
        else if a_securityModel lp > a_securityModel vp then vp # lp # lps
        else if a_securityModel lp < a_securityModel vp then lp # access_link vp glen clen lps
        else if a_securityLevel lp > a_securityLevel vp then vp # lp # lps
        else lp # access_link vp glen clen lps)"

definition vacm_createAccessEntry ::
  "bool \<Rightarrow> vacm_accessEntry list \<Rightarrow> bytes \<Rightarrow> bytes \<Rightarrow> int \<Rightarrow> int
     \<Rightarrow> vacm_accessEntry option \<times> vacm_accessEntry list" where
  "vacm_createAccessEntry alloc accessList groupNm context securityModel securityLevel =
     (if length groupNm > VACM_MAX_STRING \<or> length context > VACM_MAX_STRING \<or> \<not> alloc
      then (None, accessList)
      else
        let vp = \<lparr>a_groupName = prefixed groupNm, a_contextPrefix = prefixed context,
                  a_securityModel = securityModel, a_securityLevel = securityLevel, a_contextMatch = 0,
                  a_views = replicate VACM_MAX_VIEWS []\<rparr> in
        (Some vp, access_link vp (length groupNm) (length context) accessList))"

fun vacm_destroyAccessEntry ::
  "vacm_accessEntry list \<Rightarrow> bytes \<Rightarrow> bytes \<Rightarrow> int \<Rightarrow> int \<Rightarrow> vacm_accessEntry list" where
  "vacm_destroyAccessEntry [] groupNm context sm sl = []"
| "vacm_destroyAccessEntry (vp # vps) groupNm context sm sl =
     (if a_securityModel vp = sm \<and> a_securityLevel vp = sl \<and> tl (a_groupName vp) = groupNm \<and>
         tl (a_contextPrefix vp) = context
      then vps else vp # vacm_destroyAccessEntry vps groupNm context sm sl)"


subsection \<open>The decision\<close>

record vacm_tables =
  viewList :: "vacm_viewEntry list"
  groupList :: "vacm_groupEntry list"
  accessList :: "vacm_accessEntry list"

definition vacm_is_configured :: "vacm_tables \<Rightarrow> int" where
  "vacm_is_configured st = (if accessList st = [] \<and> groupList st = [] then 0 else 1)"

text \<open>
  The fields of \<open>netsnmp_pdu\<close> that \<open>vacm_check_view_contents\<close> reads.  A \<open>NULL\<close> community or context
  name is the empty one.  Three calls are arguments: \<open>getSecName\<close>, the \<open>com2sec\<close> mapping of the
  transport (the success flag and the two values it stores, \<open>None\<close> when it stores nothing),
  \<open>find_sec_mod\<close>, and \<open>context_known\<close>, whether the agent has registrations in a context
  (\<open>netsnmp_subtree_find_first\<close>).  \<open>dne_ok\<close> is the flag \<open>VACM_CHECK_VIEW_CONTENTS_DNE_CONTEXT_OK\<close>.
  \<open>name = None\<close> is a \<open>NULL\<close> object identifier: only the setup is checked.
\<close>

datatype transport_domain = UDPDomain | UDPIPv6Domain | UnixDomain | OtherDomain

datatype vacm_statistic = STAT_SNMPINBADCOMMUNITYNAMES | STAT_SNMPINBADCOMMUNITYUSES

record vacm_pdu =
  version :: int
  tDomain :: transport_domain
  community :: bytes
  p_securityModel :: int
  p_securityLevel :: int
  p_securityName :: "bytes option"
  p_contextName :: bytes

type_synonym sec_name_map = "transport_domain \<Rightarrow> bytes \<Rightarrow> bool \<times> bytes option \<times> bytes option"

abbreviation SNMP_VERSION_1 :: int where "SNMP_VERSION_1 \<equiv> 0"
abbreviation SNMP_VERSION_2c :: int where "SNMP_VERSION_2c \<equiv> 1"

definition community_based :: "vacm_pdu \<Rightarrow> bool" where
  "community_based pdu \<longleftrightarrow> version pdu = SNMP_VERSION_1 \<or> version pdu = SNMP_VERSION_2c"

text \<open>
  The first half: the security name, and the community's context name stored in the PDU.  \<open>getSecName\<close> stands for the
  functions of the transport domains (\<open>netsnmp_udp_getSecName\<close> and its siblings), whose tables are filled from the
  configuration; nothing is assumed of it.
\<close>

definition vacm_security_name ::
  "sec_name_map \<Rightarrow> (int \<Rightarrow> bool) \<Rightarrow> vacm_pdu \<Rightarrow> bytes option \<times> vacm_pdu" where
  "vacm_security_name getSecName find_sec_mod pdu =
     (if community_based pdu then
        (if tDomain pdu = OtherDomain then (None, pdu)
         else
           case getSecName (tDomain pdu) (community pdu) of
             (ret, sn, ctx) \<Rightarrow>
               (if ret then sn else None,
                pdu\<lparr>p_contextName := (case ctx of None \<Rightarrow> [] | Some c \<Rightarrow> c)\<rparr>))
      else if find_sec_mod (p_securityModel pdu) then (p_securityName pdu, pdu)
      else (None, pdu))"

text \<open>
  \<open>contextNameIndex\<close> is the PDU's context name with a terminating zero, so what the callees see ends
  at its first zero.
\<close>

definition contextNameIndex :: "vacm_pdu \<Rightarrow> bytes" where
  "contextNameIndex pdu = takeWhile (\<lambda>b. b \<noteq> 0) (p_contextName pdu)"

definition vacm_check_view_contents ::
  "sec_name_map \<Rightarrow> (int \<Rightarrow> bool) \<Rightarrow> (bytes \<Rightarrow> bool) \<Rightarrow> vacm_tables \<Rightarrow> vacm_pdu \<Rightarrow> oid option \<Rightarrow> bool \<Rightarrow> int
     \<Rightarrow> bool \<Rightarrow> int \<times> vacm_statistic list \<times> vacm_pdu" where
  "vacm_check_view_contents getSecName find_sec_mod context_known st pdu0 name check_subtree viewtype dne_ok =
     (case vacm_security_name getSecName find_sec_mod pdu0 of
        (None, pdu) \<Rightarrow> (VACM_NOSECNAME, [STAT_SNMPINBADCOMMUNITYNAMES], pdu)
      | (Some sn, pdu) \<Rightarrow>
          if length (p_contextName pdu) > 32 then (VACM_NOSUCHCONTEXT, [], pdu)
          else if \<not> dne_ok \<and> \<not> context_known (contextNameIndex pdu) then (VACM_NOSUCHCONTEXT, [], pdu)
          else case vacm_getGroupEntry (groupList st) (p_securityModel pdu) sn of
            None \<Rightarrow> (VACM_NOGROUP, [], pdu)
          | Some gp \<Rightarrow>
              (case vacm_getAccessEntry (accessList st) (g_groupName gp) (contextNameIndex pdu)
                      (p_securityModel pdu) (p_securityLevel pdu) of
                 None \<Rightarrow> (VACM_NOACCESS, [], pdu)
               | Some ap \<Rightarrow>
                   (case name of
                      None \<Rightarrow> (VACM_SUCCESS, [], pdu)
                    | Some nm \<Rightarrow>
                        if viewtype < 0 \<or> viewtype \<ge> int VACM_MAX_VIEWS then (VACM_NOACCESS, [], pdu)
                        else
                          let vn = a_views ap ! nat viewtype in
                          if check_subtree then (netsnmp_view_subtree_check (viewList st) vn nm, [], pdu)
                          else case netsnmp_view_get (viewList st) vn nm VACM_MODE_FIND of
                            None \<Rightarrow> (VACM_NOVIEW, [], pdu)
                          | Some vp \<Rightarrow>
                              if viewType vp = SNMP_VIEW_EXCLUDED
                              then (VACM_NOTINVIEW,
                                    if community_based pdu then [STAT_SNMPINBADCOMMUNITYUSES] else [], pdu)
                              else (VACM_SUCCESS, [], pdu))))"


subsection \<open>What an entry covers\<close>

text \<open>
  The family of subtrees of an entry as RFC 3415 defines it: bit \<open>i\<close> of the mask, counted from the
  most significant bit of the first octet, tells whether sub-identifier \<open>i\<close> has to be equal; a
  mask that is too short is extended with ones.
\<close>

definition family_bit :: "bytes \<Rightarrow> nat \<Rightarrow> bool" where
  "family_bit vm i \<longleftrightarrow> i div 8 \<ge> length vm \<or> bit (vm ! (i div 8)) (7 - i mod 8)"

definition in_view_family :: "bytes \<Rightarrow> oid \<Rightarrow> vacm_viewEntry \<Rightarrow> bool" where
  "in_view_family viewNm name vp \<longleftrightarrow> viewName vp = prefixed viewNm \<and>
     length (tl (viewSubtree vp)) \<le> length name \<and>
     (\<forall>i<length (tl (viewSubtree vp)). family_bit (viewMask vp) i \<longrightarrow> name ! i = tl (viewSubtree vp) ! i)"

definition view_wf :: "vacm_viewEntry \<Rightarrow> bool" where
  "view_wf vp \<longleftrightarrow> (\<exists>nm. viewName vp = prefixed nm \<and> length nm \<le> VACM_MAX_STRING) \<and>
     viewSubtree vp \<noteq> [] \<and> length (viewSubtree vp) \<le> MAX_OID_LEN"

definition view_rank :: "vacm_viewEntry \<Rightarrow> nat \<times> oid" where
  "view_rank vp = (length (viewSubtree vp), tl (viewSubtree vp))"

lemma memcmp_zero: "memcmp xs ys n = 0 \<longleftrightarrow> (\<forall>i < min n (min (length xs) (length ys)). xs ! i = ys ! i)"
proof (induction xs ys n rule: memcmp.induct)
  case (1 x xs y ys n)
  have "(\<forall>i < min (Suc n) (min (length (x # xs)) (length (y # ys))). (x # xs) ! i = (y # ys) ! i) \<longleftrightarrow>
      x = y \<and> (\<forall>i < min n (min (length xs) (length ys)). xs ! i = ys ! i)"
    by (auto simp: less_Suc_eq_0_disj)
  with 1 show ?case by auto
qed simp_all

lemma memcmp_name:
  assumes "length a < 256" and "length b < 256"
  shows "memcmp (prefixed a) (prefixed b) (length a + 1) = 0 \<longleftrightarrow> a = b"
    and "memcmp (prefixed b) (prefixed a) (length a + 1) = 0 \<longleftrightarrow> a = b"
proof -
  have len: "(word_of_nat (length a) :: u8) = word_of_nat (length b) \<longleftrightarrow> length a = length b"
    using assms by (simp add: word_of_nat_eq_iff take_bit_nat_eq_self)
  have cons: "memcmp (x # xs) (y # ys) (n + 1) = 0 \<longleftrightarrow> x = y \<and> memcmp xs ys n = 0" for x y :: u8 and xs ys n
    by auto
  have m: "length a = length b \<Longrightarrow> memcmp a b (length a) = 0 \<longleftrightarrow> a = b"
    "length a = length b \<Longrightarrow> memcmp b a (length a) = 0 \<longleftrightarrow> a = b"
    by (auto simp: memcmp_zero list_eq_iff_nth_eq)
  show "memcmp (prefixed a) (prefixed b) (length a + 1) = 0 \<longleftrightarrow> a = b"
    unfolding prefixed_def cons len using m(1) by metis
  show "memcmp (prefixed b) (prefixed a) (length a + 1) = 0 \<longleftrightarrow> a = b"
    unfolding prefixed_def cons eq_commute [of "word_of_nat (length b)"] len using m(2) by metis
qed

lemma VIEW_MASK_bit:
  assumes "k < 8"
  shows "VIEW_MASK vm p (2 ^ (7 - k)) \<noteq> 0 \<longleftrightarrow> family_bit vm (8 * p + k)"
proof -
  have "w AND 2 ^ n \<noteq> 0 \<longleftrightarrow> bit w n" if "n < 8" for w :: u8 and n
    using that by (simp add: and_exp_eq_0_iff_not_bit)
  moreover have "(8 * p + k) div 8 = p" "(8 * p + k) mod 8 = k" using assms by simp_all
  moreover have "(2 :: u8) ^ (7 - k) \<noteq> 0" using assms by simp
  ultimately show ?thesis using assms by (auto simp: VIEW_MASK_def family_bit_def)
qed

lemma next_mask:
  assumes "k < 8"
  shows "(2 :: u8) ^ (7 - k) = 1 \<longleftrightarrow> k = 7" and "k < 7 \<Longrightarrow> drop_bit 1 ((2 :: u8) ^ (7 - k)) = 2 ^ (7 - (k + 1))"
proof -
  have "k \<in> {0, 1, 2, 3, 4, 5, 6, 7}" using assms by auto
  then show "(2 :: u8) ^ (7 - k) = 1 \<longleftrightarrow> k = 7" and "k < 7 \<Longrightarrow> drop_bit 1 ((2 :: u8) ^ (7 - k)) = 2 ^ (7 - (k + 1))"
    by (auto simp: drop_bit_eq_div)
qed

lemma mask_loop_spec:
  assumes "k < 8"
  shows "mask_loop ign vm p (2 ^ (7 - k)) name sub \<longleftrightarrow>
    (\<forall>i < min (length name) (length sub). (ign \<or> family_bit vm (8 * p + k + i)) \<longrightarrow> name ! i = sub ! i)"
  using assms
proof (induction name arbitrary: sub p k)
  case Nil
  then show ?case by simp
next
  case (Cons x name)
  show ?case
  proof (cases sub)
    case Nil
    then show ?thesis by simp
  next
    case sub: (Cons y sub')
    define q where "q = (if k = 7 then p + 1 else p)"
    define m where "m = (if k = 7 then 0 else k + 1)"
    have m: "m < 8" "8 * q + m = 8 * p + k + 1" using Cons.prems by (auto simp: q_def m_def)
    have step: "mask_loop ign vm p (2 ^ (7 - k)) (x # name) (y # sub') \<longleftrightarrow>
        \<not> ((ign \<or> family_bit vm (8 * p + k)) \<and> x \<noteq> y) \<and> mask_loop ign vm q (2 ^ (7 - m)) name sub'"
      using next_mask [OF Cons.prems] VIEW_MASK_bit [OF Cons.prems, of vm p] Cons.prems
      by (auto simp: q_def m_def)
    have "(\<forall>i < min (length (x # name)) (length (y # sub')). (ign \<or> family_bit vm (8 * p + k + i)) \<longrightarrow>
          (x # name) ! i = (y # sub') ! i) \<longleftrightarrow>
        \<not> ((ign \<or> family_bit vm (8 * p + k)) \<and> x \<noteq> y) \<and>
        (\<forall>i < min (length name) (length sub'). (ign \<or> family_bit vm (8 * q + m + i)) \<longrightarrow> name ! i = sub' ! i)"
      unfolding m(2) by (auto simp: less_Suc_eq_0_disj)
    then show ?thesis unfolding sub step using Cons.IH [OF m(1), of q sub'] by blast
  qed
qed

lemma view_name_eq:
  assumes "view_wf vp" and "length nm \<le> VACM_MAX_STRING"
  shows "memcmp (prefixed nm) (viewName vp) (length nm + 1) = 0 \<longleftrightarrow> viewName vp = prefixed nm"
proof -
  obtain b where b: "viewName vp = prefixed b" "length b \<le> 32" using assms(1) by (auto simp: view_wf_def)
  have "prefixed b = prefixed nm \<longleftrightarrow> nm = b" by (auto simp: prefixed_def)
  with memcmp_name(1) [of nm b] b assms(2) show ?thesis by simp
qed

lemma view_len:
  assumes "view_wf vp"
  shows "usub64 (length (viewSubtree vp)) 1 = length (tl (viewSubtree vp))"
  using assms by (cases "viewSubtree vp") (auto simp: view_wf_def usub64_def)

lemma view_covers_family:
  assumes "view_wf vp" and "length nm \<le> VACM_MAX_STRING"
  shows "view_covers VACM_MODE_FIND nm name vp \<longleftrightarrow> in_view_family nm name vp"
proof -
  have "(0x80 :: u8) = 2 ^ (7 - 0)" by simp
  then show ?thesis
    unfolding view_covers_def in_view_family_def view_name_eq [OF assms] view_len [OF assms(1)]
    using mask_loop_spec [of 0 False "viewMask vp" 0 name "tl (viewSubtree vp)"] by auto
qed


subsection \<open>The search takes the most specific entry\<close>

lemma better_view_rank: "better_view vp (Some v) \<longleftrightarrow> view_rank v < view_rank vp"
proof -
  have "snmp_oid_compare a b > 0 \<longleftrightarrow> b < a" for a b
    by (auto simp: oid_compare_lex not_less_iff_gr_or_eq)
  then show ?thesis by (auto simp: better_view_def view_rank_def less_prod_def')
qed

definition best_view :: "(vacm_viewEntry \<Rightarrow> bool) \<Rightarrow> vacm_viewEntry set \<Rightarrow> vacm_viewEntry option \<Rightarrow> bool" where
  "best_view cov S r \<longleftrightarrow> (case r of None \<Rightarrow> \<forall>vp\<in>S. \<not> cov vp
     | Some v \<Rightarrow> v \<in> S \<and> cov v \<and> (\<forall>vp\<in>S. cov vp \<longrightarrow> view_rank vp \<le> view_rank v))"

lemma view_scan_best:
  assumes "mode \<noteq> VACM_MODE_CHECK_SUBTREE" and "best_view (view_covers mode nm name) S r"
  shows "best_view (view_covers mode nm name) (S \<union> set vps) (fst (view_scan mode nm name vps r c))"
  using assms(2)
proof (induction vps arbitrary: S r c)
  case Nil
  then show ?case by simp
next
  case (Cons vp vps)
  let ?cov = "view_covers mode nm name"
  define r' where "r' = (if ?cov vp \<and> better_view vp r then Some vp else r)"
  have "best_view ?cov (insert vp S) r'"
    using Cons.prems better_view_rank [of vp]
    by (auto simp: best_view_def r'_def better_view_def [of _ None] not_less intro: order_less_imp_le order_trans
        split: option.splits)
  then have "best_view ?cov (insert vp S \<union> set vps) (fst (view_scan mode nm name vps r' (if ?cov vp then c + 1 else c)))"
    by (rule Cons.IH)
  moreover have "view_scan mode nm name (vp # vps) r c = view_scan mode nm name vps r' (if ?cov vp then c + 1 else c)"
    using assms(1) by (simp add: r'_def)
  ultimately show ?case by (simp only: set_simps Un_insert_right Un_insert_left)
qed

lemma view_get_scan:
  "length nm \<le> VACM_MAX_STRING \<Longrightarrow>
    netsnmp_view_get head nm name VACM_MODE_FIND = fst (view_scan VACM_MODE_FIND nm name head None 0)"
  by (simp add: netsnmp_view_get_def split: prod.splits)

lemma view_get_best:
  assumes "\<forall>vp\<in>set head. view_wf vp" and "length nm \<le> VACM_MAX_STRING"
  shows "best_view (in_view_family nm name) (set head) (netsnmp_view_get head nm name VACM_MODE_FIND)"
proof -
  have "best_view (view_covers VACM_MODE_FIND nm name) (set head) (netsnmp_view_get head nm name VACM_MODE_FIND)"
    using view_scan_best [of VACM_MODE_FIND nm name "{}" None head 0] view_get_scan [OF assms(2)] by (simp add: best_view_def)
  then show ?thesis using view_covers_family assms unfolding best_view_def by (auto split: option.splits)
qed

lemma view_scan_cong:
  assumes "\<forall>vp\<in>set vps. view_covers VACM_MODE_FIND nm a vp = view_covers VACM_MODE_FIND nm b vp"
  shows "fst (view_scan VACM_MODE_FIND nm a vps r c) = fst (view_scan VACM_MODE_FIND nm b vps r c)"
  using assms by (induction vps arbitrary: r c) simp_all


subsection \<open>Checking a whole subtree\<close>

text \<open>An entry for a longer object identifier that may cover a part of the subtree.\<close>

definition longer_view :: "bytes \<Rightarrow> oid \<Rightarrow> vacm_viewEntry \<Rightarrow> bool" where
  "longer_view nm name vp \<longleftrightarrow> memcmp (prefixed nm) (viewName vp) (length nm + 1) = 0 \<and>
     length name < usub64 (length (viewSubtree vp)) 1 \<and>
     mask_loop False (viewMask vp) 0 0x80 name (tl (viewSubtree vp))"

lemma subtree_scan_shorter:
  assumes "subtree_scan nm name vps sh lo = Inr (sh', lo')"
  shows "sh' = fst (view_scan VACM_MODE_FIND nm name vps sh c)"
  using assms
proof (induction vps arbitrary: sh lo c)
  case Nil
  then show ?case by simp
next
  case (Cons vp vps)
  then show ?case
    by (auto simp: view_covers_def split: if_splits option.splits)
qed

lemma subtree_scan_longer:
  assumes "subtree_scan nm name vps sh lo = Inr (sh', lo')"
  shows "(lo \<noteq> None \<longrightarrow> lo' = lo) \<and>
    (\<forall>vp\<in>set vps. longer_view nm name vp \<longrightarrow> (\<exists>l. lo' = Some l \<and> viewType vp = viewType l))"
  using assms
proof (induction vps arbitrary: sh lo)
  case Nil
  then show ?case by simp
next
  case (Cons vp vps)
  show ?case
  proof (cases "longer_view nm name vp")
    case True
    show ?thesis
    proof (cases lo)
      case None
      then have "subtree_scan nm name vps sh (Some vp) = Inr (sh', lo')"
        using True Cons.prems by (auto simp: longer_view_def split: if_splits)
      from Cons.IH [OF this] None show ?thesis by auto
    next
      case (Some l)
      then have "subtree_scan nm name vps sh lo = Inr (sh', lo')" "viewType l = viewType vp"
        using True Cons.prems by (auto simp: longer_view_def split: if_splits)
      with Cons.IH [OF this(1)] Some show ?thesis by auto
    qed
  next
    case False
    obtain sh1 where "subtree_scan nm name vps sh1 lo = Inr (sh', lo')"
      using False Cons.prems by (auto simp: longer_view_def split: if_splits)
    from Cons.IH [OF this] False show ?thesis by auto
  qed
qed

lemma subtree_scan_Inl: "subtree_scan nm name vps sh lo = Inl r \<Longrightarrow> r = VACM_SUBTREE_UNKNOWN"
  by (induction vps arbitrary: sh lo) (auto split: if_splits option.splits)

lemma family_extends:
  assumes "view_wf vp" and "length nm \<le> VACM_MAX_STRING"
  shows "view_covers VACM_MODE_FIND nm (sub @ ext) vp \<longleftrightarrow>
    (if length (tl (viewSubtree vp)) \<le> length sub then view_covers VACM_MODE_FIND nm sub vp
     else in_view_family nm (sub @ ext) vp)"
  and "in_view_family nm (sub @ ext) vp \<Longrightarrow> length sub < length (tl (viewSubtree vp)) \<Longrightarrow> longer_view nm sub vp"
proof -
  show "view_covers VACM_MODE_FIND nm (sub @ ext) vp \<longleftrightarrow>
    (if length (tl (viewSubtree vp)) \<le> length sub then view_covers VACM_MODE_FIND nm sub vp
     else in_view_family nm (sub @ ext) vp)"
    unfolding view_covers_family [OF assms] in_view_family_def by (auto simp: nth_append)
  assume m: "in_view_family nm (sub @ ext) vp" "length sub < length (tl (viewSubtree vp))"
  have "sub ! i = tl (viewSubtree vp) ! i" if "i < length sub" "family_bit (viewMask vp) i" for i
  proof -
    have "i < length (tl (viewSubtree vp))" using that(1) m(2) by linarith
    with m(1) that(2) have "(sub @ ext) ! i = tl (viewSubtree vp) ! i" unfolding in_view_family_def by blast
    with that(1) show ?thesis by (simp add: nth_append)
  qed
  then have "mask_loop False (viewMask vp) 0 (2 ^ (7 - 0)) sub (tl (viewSubtree vp))"
    by (subst mask_loop_spec) auto
  then show "longer_view nm sub vp"
    using m view_name_eq [OF assms] view_len [OF assms(1)]
    by (auto simp: longer_view_def in_view_family_def)
qed


lemma subtree_check_sound:
  assumes "\<forall>vp\<in>set head. view_wf vp" and "length nm \<le> VACM_MAX_STRING"
  defines "found \<equiv> \<lambda>name. netsnmp_view_get head nm name VACM_MODE_FIND"
  shows "netsnmp_view_subtree_check head nm sub = VACM_SUCCESS \<Longrightarrow>
      \<exists>vp. found (sub @ ext) = Some vp \<and> viewType vp \<noteq> SNMP_VIEW_EXCLUDED"
    and "netsnmp_view_subtree_check head nm sub = VACM_NOTINVIEW \<Longrightarrow> found (sub @ ext) = Some vp \<Longrightarrow>
      viewType vp = SNMP_VIEW_EXCLUDED"
proof -
  have main: "if netsnmp_view_subtree_check head nm sub = VACM_SUCCESS
       then \<exists>vp. found (sub @ ext) = Some vp \<and> viewType vp \<noteq> SNMP_VIEW_EXCLUDED
       else \<forall>vp. found (sub @ ext) = Some vp \<longrightarrow> viewType vp = SNMP_VIEW_EXCLUDED"
    if res: "netsnmp_view_subtree_check head nm sub = VACM_SUCCESS \<or> netsnmp_view_subtree_check head nm sub = VACM_NOTINVIEW"
  proof -
    obtain sh lo where sc: "subtree_scan nm sub head None None = Inr (sh, lo)"
    proof (cases "subtree_scan nm sub head None None")
      case (Inl r)
      then have "r = VACM_SUBTREE_UNKNOWN"
        using subtree_scan_Inl by blast
      with Inl res assms(2) show ?thesis by (simp add: netsnmp_view_subtree_check_def)
    next
      case (Inr p)
      then show ?thesis using that by (cases p) auto
    qed
    have sh: "sh = found sub" using subtree_scan_shorter [OF sc, of 0] view_get_scan [OF assms(2)] by (simp add: found_def)
    have lo: "\<exists>l. lo = Some l \<and> viewType vp = viewType l" if "vp \<in> set head" "longer_view nm sub vp" for vp
      using subtree_scan_longer [OF sc] that by blast
    have type: "if netsnmp_view_subtree_check head nm sub = VACM_SUCCESS
        then (\<exists>s. sh = Some s \<and> viewType s \<noteq> SNMP_VIEW_EXCLUDED) \<and> (\<forall>l. lo = Some l \<longrightarrow> viewType l \<noteq> SNMP_VIEW_EXCLUDED)
        else (\<forall>s. sh = Some s \<longrightarrow> viewType s = SNMP_VIEW_EXCLUDED) \<and> (\<forall>l. lo = Some l \<longrightarrow> viewType l = SNMP_VIEW_EXCLUDED)"
      using res assms(2) sc by (auto simp: netsnmp_view_subtree_check_def split: option.splits if_splits)
    have best: "best_view (in_view_family nm (sub @ ext)) (set head) (found (sub @ ext))"
      unfolding found_def by (rule view_get_best [OF assms(1,2)])
    show ?thesis
    proof (cases "\<exists>vp\<in>set head. in_view_family nm (sub @ ext) vp \<and> length sub < length (tl (viewSubtree vp))")
      case True
      then obtain v where v: "v \<in> set head" "in_view_family nm (sub @ ext) v" "length sub < length (tl (viewSubtree v))" by blast
      then obtain w where w: "found (sub @ ext) = Some w" "w \<in> set head" "in_view_family nm (sub @ ext) w" "view_rank v \<le> view_rank w"
        using best by (auto simp: best_view_def split: option.splits)
      have "length (viewSubtree v) \<le> length (viewSubtree w)" using w(4) by (auto simp: view_rank_def less_eq_prod_def)
      then have "longer_view nm sub w"
        using w(2,3) v(3) assms(1,2) by (intro family_extends(2)) auto
      then obtain l where "lo = Some l" "viewType w = viewType l" using lo w(2) by blast
      with type w(1) show ?thesis by auto
    next
      case False
      have "view_covers VACM_MODE_FIND nm (sub @ ext) vp = view_covers VACM_MODE_FIND nm sub vp" if "vp \<in> set head" for vp
      proof (cases "length (tl (viewSubtree vp)) \<le> length sub")
        case True
        then show ?thesis using family_extends(1) [of vp nm sub ext] that assms(1,2) by simp
      next
        case longer: False
        then have "\<not> in_view_family nm sub vp" by (simp add: in_view_family_def)
        then show ?thesis
          using False that longer view_covers_family [of vp nm] assms(1,2) by auto
      qed
      then have "found (sub @ ext) = sh"
        unfolding sh found_def view_get_scan [OF assms(2)] by (intro view_scan_cong) blast
      with type show ?thesis by auto
    qed
  qed
  show "netsnmp_view_subtree_check head nm sub = VACM_SUCCESS \<Longrightarrow>
      \<exists>vp. found (sub @ ext) = Some vp \<and> viewType vp \<noteq> SNMP_VIEW_EXCLUDED" using main by simp
  show "netsnmp_view_subtree_check head nm sub = VACM_NOTINVIEW \<Longrightarrow> found (sub @ ext) = Some vp \<Longrightarrow>
      viewType vp = SNMP_VIEW_EXCLUDED" using main by simp
qed


subsection \<open>Creating entries\<close>

lemma view_link_set [simp]: "set (view_link vp glen lps) = insert vp (set lps)"
  by (induction lps) (auto simp: Let_def)

text \<open>The list of views is ordered by the index of \<open>vacmViewTreeFamilyTable\<close>.\<close>

definition view_key :: "vacm_viewEntry \<Rightarrow> bytes \<times> oid" where
  "view_key vp = (viewName vp, viewSubtree vp)"

definition view_insert :: "vacm_viewEntry \<Rightarrow> vacm_viewEntry list \<Rightarrow> vacm_viewEntry list" where
  "view_insert vp head = takeWhile (\<lambda>lp. view_key lp \<le> view_key vp) head @ vp # dropWhile (\<lambda>lp. view_key lp \<le> view_key vp) head"

lemma sorted_place:
  fixes f :: "'a \<Rightarrow> 'k :: linorder"
  shows "sorted (map f xs) \<Longrightarrow> sorted (map f (takeWhile (\<lambda>x. f x \<le> f v) xs @ v # dropWhile (\<lambda>x. f x \<le> f v) xs))"
  by (induction xs) (auto dest: set_takeWhileD set_dropWhileD)

lemma memcmp_prefixed:
  assumes "length a \<le> VACM_MAX_STRING" and "length b \<le> VACM_MAX_STRING"
  shows "memcmp (prefixed a) (prefixed b) (length b + 1) =
    (if prefixed a < prefixed b then -1 else if prefixed a = prefixed b then 0 else 1)"
proof (cases "length a = length b")
  case True
  then have "netsnmp_compare_mem (prefixed a) (prefixed b) = memcmp (prefixed a) (prefixed b) (length b + 1)"
    by (simp add: netsnmp_compare_mem_def prefixed_def)
  then show ?thesis by (simp add: memcmp_lex)
next
  case False
  have "unat (word_of_nat (length a) :: u8) = length a" "unat (word_of_nat (length b) :: u8) = length b"
    using assms by (simp_all add: unat_of_nat)
  then have "(word_of_nat (length a) :: u8) \<noteq> word_of_nat (length b)" using False by metis
  then show ?thesis by (auto simp: prefixed_def)
qed

lemma view_link_place:
  assumes "\<forall>lp\<in>set head. view_wf lp" and "viewName vp = prefixed nm" and "length nm \<le> VACM_MAX_STRING"
  shows "view_link vp (length nm) head = view_insert vp head"
  using assms(1)
proof (induction head)
  case (Cons lp lps)
  obtain b where b: "viewName lp = prefixed b" "length b \<le> 32" using Cons.prems by (auto simp: view_wf_def)
  have "view_key lp \<le> view_key vp \<longleftrightarrow> viewName lp < viewName vp \<or> viewName lp = viewName vp \<and> viewSubtree lp \<le> viewSubtree vp"
    by (auto simp: view_key_def)
  moreover have "memcmp (viewName lp) (viewName vp) (length nm + 1) =
      (if viewName lp < viewName vp then -1 else if viewName lp = viewName vp then 0 else 1)"
    using memcmp_prefixed [of b nm] b assms(2,3) by simp
  ultimately show ?case using Cons
    by (auto simp: view_insert_def oid_compare_lex Let_def not_less)
qed (simp add: view_insert_def)

lemma view_create_spec:
  assumes "\<forall>vp\<in>set head. view_wf vp" and "length nm \<le> VACM_MAX_STRING" and "length sub < MAX_OID_LEN"
    and vp: "vp = \<lparr>viewName = prefixed nm, viewSubtree = word_of_nat (length sub) # sub, viewMask = [], viewType = 0\<rparr>"
  shows "netsnmp_view_create True head nm sub = Inr (Some vp, view_insert vp head)" and "view_wf vp"
proof -
  show "view_wf vp" using assms(2,3) by (simp add: vp view_wf_def) blast
  have "view_link vp (length nm) head = view_insert vp head" using assms(1,2) by (intro view_link_place) (simp_all add: vp)
  then show "netsnmp_view_create True head nm sub = Inr (Some vp, view_insert vp head)"
    using assms(2,3) unfolding vp by (simp add: netsnmp_view_create_def Let_def)
qed

lemma prefix_nth: "prefix a b \<longleftrightarrow> length a \<le> length b \<and> (\<forall>i < length a. b ! i = a ! i)"
  by (metis append_eq_conv_conj append_take_drop_id length_append le_add1 list_eq_iff_nth_eq length_take
      min.absorb2 nth_take prefixI prefixE)

lemma covers_ignoring_mask:
  assumes "view_wf vp" and "length nm \<le> VACM_MAX_STRING"
  shows "view_covers VACM_MODE_IGNORE_MASK nm name vp \<longleftrightarrow> viewName vp = prefixed nm \<and> prefix (tl (viewSubtree vp)) name"
proof -
  have "(0x80 :: u8) = 2 ^ (7 - 0)" by simp
  then have "mask_loop True (viewMask vp) 0 0x80 name (tl (viewSubtree vp)) \<longleftrightarrow>
      (\<forall>i < min (length name) (length (tl (viewSubtree vp))). name ! i = tl (viewSubtree vp) ! i)"
    using mask_loop_spec [of 0 True "viewMask vp" 0 name "tl (viewSubtree vp)"] by simp
  then show ?thesis
    unfolding view_covers_def view_name_eq [OF assms] view_len [OF assms(1)] prefix_nth
    by (auto simp: min_def)
qed

lemma view_get_created:
  assumes wf: "\<forall>vp\<in>set head'. view_wf vp" and nm: "length nm \<le> VACM_MAX_STRING"
    and vp: "vp \<in> set head'" "viewName vp = prefixed nm" "tl (viewSubtree vp) = sub"
  shows "\<exists>v\<in>set head'. netsnmp_view_get head' nm sub VACM_MODE_IGNORE_MASK = Some v \<and>
    viewName v = prefixed nm \<and> tl (viewSubtree v) = sub"
proof -
  let ?cov = "view_covers VACM_MODE_IGNORE_MASK nm sub"
  have get: "netsnmp_view_get head' nm sub VACM_MODE_IGNORE_MASK = fst (view_scan VACM_MODE_IGNORE_MASK nm sub head' None 0)"
    using nm by (simp add: netsnmp_view_get_def split: prod.splits)
  have best: "best_view ?cov (set head') (netsnmp_view_get head' nm sub VACM_MODE_IGNORE_MASK)"
    using view_scan_best [of VACM_MODE_IGNORE_MASK nm sub "{}" None head' 0] by (simp add: get best_view_def)
  have "?cov vp" using covers_ignoring_mask [OF _ nm] wf vp by simp
  then obtain v where v: "netsnmp_view_get head' nm sub VACM_MODE_IGNORE_MASK = Some v" "v \<in> set head'" "?cov v"
      "view_rank vp \<le> view_rank v"
    using best vp(1) by (auto simp: best_view_def split: option.splits)
  have wv: "view_wf v" using wf v(2) by blast
  have p: "viewName v = prefixed nm" "prefix (tl (viewSubtree v)) sub"
    using covers_ignoring_mask [OF wv nm] v(3) by simp_all
  have "length (viewSubtree vp) \<le> length (viewSubtree v)" using v(4) by (auto simp: view_rank_def less_eq_prod_def)
  then have "length sub \<le> length (tl (viewSubtree v))" using vp(3) by auto
  then have "tl (viewSubtree v) = sub" using p(2) by (metis prefix_length_le prefix_order.antisym prefix_def append_eq_append_conv append_Nil2 le_antisym)
  with v(1,2) p(1) show ?thesis by blast
qed


subsection \<open>Access rights\<close>

definition access_wf :: "vacm_accessEntry \<Rightarrow> bool" where
  "access_wf vp \<longleftrightarrow> (\<exists>g. a_groupName vp = prefixed g \<and> length g \<le> VACM_MAX_STRING) \<and>
     (\<exists>c. a_contextPrefix vp = prefixed c \<and> length c \<le> VACM_MAX_STRING)"

definition access_applies :: "bytes \<Rightarrow> bytes \<Rightarrow> int \<Rightarrow> int \<Rightarrow> vacm_accessEntry \<Rightarrow> bool" where
  "access_applies groupNm context sm sl vp \<longleftrightarrow>
     (a_securityModel vp = sm \<or> a_securityModel vp = SNMP_SEC_MODEL_ANY) \<and> a_securityLevel vp \<le> sl \<and>
     a_groupName vp = prefixed groupNm \<and>
     (a_contextMatch vp = CONTEXT_MATCH_EXACT \<and> a_contextPrefix vp = prefixed context \<or>
      a_contextMatch vp = CONTEXT_MATCH_PREFIX \<and> prefix (tl (a_contextPrefix vp)) context)"

lemma prefixed_eq [simp]: "prefixed a = prefixed b \<longleftrightarrow> a = b"
  by (auto simp: prefixed_def)

lemma memcmp_prefix: "length p \<le> length s \<Longrightarrow> memcmp p s (length p) = 0 \<longleftrightarrow> prefix p s"
  by (auto simp: memcmp_zero prefix_nth)

lemma access_matches_applies:
  assumes "access_wf vp" and "length groupNm \<le> VACM_MAX_STRING" and "length context \<le> VACM_MAX_STRING"
  shows "access_matches groupNm context sm sl vp \<longleftrightarrow> access_applies groupNm context sm sl vp"
proof -
  obtain g c where w: "a_groupName vp = prefixed g" "length g \<le> 32" "a_contextPrefix vp = prefixed c" "length c \<le> 32"
    using assms(1) by (auto simp: access_wf_def)
  have u: "unat (word_of_nat (length c) :: u8) = length c"
    using w(4) by (simp add: unat_of_nat take_bit_nat_eq_self)
  have h: "hd (prefixed c) = word_of_nat (length c)" "tl (prefixed c) = c" by (simp_all add: prefixed_def)
  have "length c \<le> length context \<and> memcmp c context (length c) = 0 \<longleftrightarrow> prefix c context"
    using memcmp_prefix [of c "context"] prefix_length_le [of c "context"] by blast
  then show ?thesis
    unfolding access_matches_def access_applies_def w(1,3) h u
    using memcmp_name(2) [of groupNm g] memcmp_name(2) [of "context" c] w assms(2,3) by auto
qed

lemma access_scan_sound:
  "(case best of None \<Rightarrow> True | Some b \<Rightarrow> P b) \<Longrightarrow> \<forall>vp\<in>set vps. access_matches g c sm sl vp \<longrightarrow> P vp \<Longrightarrow>
   (case access_scan g c sm sl vps best of
      None \<Rightarrow> best = None \<and> (\<forall>vp\<in>set vps. \<not> access_matches g c sm sl vp)
    | Some b \<Rightarrow> P b)"
proof (induction vps arbitrary: best)
  case Nil
  then show ?case by (simp split: option.splits)
next
  case (Cons vp vps)
  let ?best = "if access_matches g c sm sl vp then Some (vacm_choose_best best vp) else best"
  have "case ?best of None \<Rightarrow> True | Some b \<Rightarrow> P b"
    using Cons.prems by (cases best) (auto simp: vacm_choose_best_def)
  from Cons.IH [OF this] Cons.prems(2) show ?case by (auto split: option.splits if_splits)
qed


lemma get_access_applies:
  assumes "\<forall>vp\<in>set al. access_wf vp" and "length groupNm \<le> VACM_MAX_STRING" and "length ctx \<le> VACM_MAX_STRING"
  shows "case vacm_getAccessEntry al groupNm ctx sm sl of
     None \<Rightarrow> \<forall>vp\<in>set al. \<not> access_applies groupNm ctx sm sl vp
   | Some ap \<Rightarrow> ap \<in> set al \<and> access_applies groupNm ctx sm sl ap"
  using access_scan_sound [where best = None and P = "\<lambda>vp. vp \<in> set al \<and> access_applies groupNm ctx sm sl vp" and
      vps = al and g = groupNm and c = ctx and sm = sm and sl = sl]
    access_matches_applies assms
  by (auto simp: vacm_getAccessEntry_def split: option.splits)


subsection \<open>Properties\<close>

text \<open>
  C25 (the view entry found).  For well-formed entries and a view name of at most 32 octets,
  \<open>netsnmp_view_get\<close> returns an entry of the list whose family contains the object identifier and
  which is the longest, and among those of that length the lexicographically greatest; it returns
  \<open>NULL\<close> only when no entry of the view covers the object identifier.
\<close>

theorem netsnmp_view_get_best:
  assumes "\<forall>vp\<in>set head. view_wf vp" and "length viewNm \<le> VACM_MAX_STRING"
  shows "case netsnmp_view_get head viewNm name VACM_MODE_FIND of
     None \<Rightarrow> \<forall>vp\<in>set head. \<not> in_view_family viewNm name vp
   | Some v \<Rightarrow> v \<in> set head \<and> in_view_family viewNm name v \<and>
       (\<forall>vp\<in>set head. in_view_family viewNm name vp \<longrightarrow>
          length (viewSubtree vp) < length (viewSubtree v) \<or>
          length (viewSubtree vp) = length (viewSubtree v) \<and> tl (viewSubtree vp) \<le> tl (viewSubtree v))"
  using view_get_best [OF assms, of name]
  by (auto simp: best_view_def view_rank_def less_eq_prod_def split: option.splits)

definition sys_view :: "vacm_viewEntry list" where
  "sys_view =
     [\<lparr>viewName = prefixed [97], viewSubtree = [2, 1, 3], viewMask = [], viewType = SNMP_VIEW_INCLUDED\<rparr>,
      \<lparr>viewName = prefixed [97], viewSubtree = [4, 1, 3, 6, 1], viewMask = [], viewType = SNMP_VIEW_EXCLUDED\<rparr>]"

lemma sys_view_wf: "\<forall>vp\<in>set sys_view. view_wf vp"
  by (auto simp: sys_view_def view_wf_def)

theorem netsnmp_view_get_best_witness:
  "case netsnmp_view_get sys_view [97] [1, 3, 6, 1, 5] VACM_MODE_FIND of
     None \<Rightarrow> \<forall>vp\<in>set sys_view. \<not> in_view_family [97] [1, 3, 6, 1, 5] vp
   | Some v \<Rightarrow> v \<in> set sys_view \<and> in_view_family [97] [1, 3, 6, 1, 5] v \<and>
       (\<forall>vp\<in>set sys_view. in_view_family [97] [1, 3, 6, 1, 5] vp \<longrightarrow>
          length (viewSubtree vp) < length (viewSubtree v) \<or>
          length (viewSubtree vp) = length (viewSubtree v) \<and> tl (viewSubtree vp) \<le> tl (viewSubtree v))"
  using netsnmp_view_get_best [OF sys_view_wf, of "[97]" "[1, 3, 6, 1, 5]"] by simp

text \<open>
  C23 (a whole subtree).  When \<open>netsnmp_view_subtree_check\<close> answers \<open>VACM_SUCCESS\<close>, every object
  identifier below the subtree is found in the view with an entry that is not an exclusion; when it
  answers \<open>VACM_NOTINVIEW\<close>, every one of them is excluded or not covered at all.
\<close>

theorem view_subtree_check_sound:
  assumes "\<forall>vp\<in>set head. view_wf vp" and "length viewNm \<le> VACM_MAX_STRING"
  shows "(netsnmp_view_subtree_check head viewNm sub = VACM_SUCCESS \<longrightarrow>
      (\<exists>vp. netsnmp_view_get head viewNm (sub @ ext) VACM_MODE_FIND = Some vp \<and>
            viewType vp \<noteq> SNMP_VIEW_EXCLUDED)) \<and>
    (netsnmp_view_subtree_check head viewNm sub = VACM_NOTINVIEW \<longrightarrow>
      (case netsnmp_view_get head viewNm (sub @ ext) VACM_MODE_FIND of
         None \<Rightarrow> True | Some vp \<Rightarrow> viewType vp = SNMP_VIEW_EXCLUDED))"
  using subtree_check_sound [OF assms, of sub ext] by (auto split: option.splits)

theorem view_subtree_check_sound_witness:
  "netsnmp_view_subtree_check sys_view [97] [1, 3, 5] = VACM_SUCCESS \<and>
   (\<exists>vp. netsnmp_view_get sys_view [97] ([1, 3, 5] @ [9, 9]) VACM_MODE_FIND = Some vp \<and>
         viewType vp \<noteq> SNMP_VIEW_EXCLUDED)"
proof -
  have "netsnmp_view_subtree_check sys_view [97] [1, 3, 5] = VACM_SUCCESS"
    by (simp add: netsnmp_view_subtree_check_def sys_view_def prefixed_def better_view_def usub64_def VIEW_MASK_def)
  with view_subtree_check_sound [OF sys_view_wf, of "[97]" "[1, 3, 5]" "[9, 9]"] show ?thesis by simp
qed

text \<open>
  C32 (creating a view).  For a name of at most 32 octets and fewer than 128
  sub-identifiers, in a well-formed list, \<open>netsnmp_view_create\<close> makes an entry with this name and subtree, no mask and no type,
  and links it into the list behind the entries with smaller or equal index; every old
  entry stays, in its order, so a list ordered by its index stays ordered, and it stays well formed.
  Then \<open>netsnmp_view_get\<close> with \<open>VACM_MODE_IGNORE_MASK\<close> under the name and subtree returns an entry with exactly this
  name and subtree, namely the created one unless the list had such an entry before.
\<close>

theorem netsnmp_view_create_get:
  assumes "\<forall>vp\<in>set head. view_wf vp" and "length viewNm \<le> VACM_MAX_STRING" and "length sub < MAX_OID_LEN"
  shows "\<exists>vp v. netsnmp_view_create True head viewNm sub = Inr (Some vp, view_insert vp head) \<and>
    vp = \<lparr>viewName = prefixed viewNm, viewSubtree = word_of_nat (length sub) # sub, viewMask = [], viewType = 0\<rparr> \<and>
    (\<forall>vp\<in>set (view_insert vp head). view_wf vp) \<and>
    (sorted (map view_key head) \<longrightarrow> sorted (map view_key (view_insert vp head))) \<and>
    netsnmp_view_get (view_insert vp head) viewNm sub VACM_MODE_IGNORE_MASK = Some v \<and>
    viewName v = prefixed viewNm \<and> tl (viewSubtree v) = sub \<and>
    ((\<forall>old\<in>set head. viewName old = prefixed viewNm \<longrightarrow> tl (viewSubtree old) \<noteq> sub) \<longrightarrow> v = vp)"
proof -
  define vp where c3: "vp = \<lparr>viewName = prefixed viewNm, viewSubtree = word_of_nat (length sub) # sub, viewMask = [], viewType = 0\<rparr>"
  note c = view_create_spec [OF assms c3] c3
  have set: "set (view_insert vp head) = insert vp (set head)"
    using view_link_place [OF assms(1), of vp viewNm] view_link_set [of vp "length viewNm" head] assms(2) c(3) by simp
  then have wf: "\<forall>vp\<in>set (view_insert vp head). view_wf vp" using c(2) assms(1) by simp
  have "viewName vp = prefixed viewNm" "tl (viewSubtree vp) = sub" using c(3) by simp_all
  from view_get_created [OF wf assms(2) _ this] obtain v where v: "v \<in> insert vp (set head)"
      "netsnmp_view_get (view_insert vp head) viewNm sub VACM_MODE_IGNORE_MASK = Some v"
      "viewName v = prefixed viewNm" "tl (viewSubtree v) = sub"
    unfolding set by blast
  have "sorted (map view_key head) \<longrightarrow> sorted (map view_key (view_insert vp head))"
    unfolding view_insert_def by (intro impI sorted_place)
  moreover have "(\<forall>old\<in>set head. viewName old = prefixed viewNm \<longrightarrow> tl (viewSubtree old) \<noteq> sub) \<longrightarrow> v = vp"
    using v(1,3,4) by blast
  ultimately show ?thesis using c(1,3) wf v(2-4) by (intro exI [of _ vp] exI [of _ v] conjI)
qed

theorem netsnmp_view_create_get_witness:
  "\<exists>head' v. netsnmp_view_create True sys_view [98] [1, 3, 6] = Inr (Some v, head') \<and> length head' = length sys_view + 1 \<and>
    netsnmp_view_get head' [98] [1, 3, 6] VACM_MODE_IGNORE_MASK = Some v"
proof -
  have n: "\<forall>old\<in>set sys_view. viewName old = prefixed [98] \<longrightarrow> tl (viewSubtree old) \<noteq> [1, 3, 6]"
    by (simp add: sys_view_def prefixed_def)
  have "length (takeWhile P xs @ x # dropWhile P xs) = length xs + 1" for P and x :: vacm_viewEntry and xs
    by (induction xs) auto
  then have l: "length (view_insert vp sys_view) = length sys_view + 1" for vp unfolding view_insert_def .
  have "length [98 :: u8] \<le> VACM_MAX_STRING" "length [1, 3, 6 :: u64] < MAX_OID_LEN" by simp_all
  from netsnmp_view_create_get [OF sys_view_wf this] show ?thesis
  proof (elim exE conjE)
    fix vp v
    assume c: "netsnmp_view_create True sys_view [98] [1, 3, 6] = Inr (Some vp, view_insert vp sys_view)"
      "netsnmp_view_get (view_insert vp sys_view) [98] [1, 3, 6] VACM_MODE_IGNORE_MASK = Some v"
    assume "(\<forall>old\<in>set sys_view. viewName old = prefixed [98] \<longrightarrow> tl (viewSubtree old) \<noteq> [1, 3, 6]) \<longrightarrow> v = vp"
    with n have "v = vp" by (rule mp [rotated])
    with c l show ?thesis by (intro exI [of _ "view_insert vp sys_view"] exI [of _ vp]) simp
  qed
qed

text \<open>
  C30 (the access entry).  \<open>vacm_getAccessEntry\<close> returns \<open>NULL\<close> exactly when no entry applies to the
  group, the context, the security model and the security level, and otherwise an entry of the list
  that applies.
\<close>

theorem vacm_getAccessEntry_applies:
  assumes "\<forall>vp\<in>set al. access_wf vp" and "length groupNm \<le> VACM_MAX_STRING" and "length ctx \<le> VACM_MAX_STRING"
  shows "case vacm_getAccessEntry al groupNm ctx sm sl of
     None \<Rightarrow> \<forall>vp\<in>set al. \<not> access_applies groupNm ctx sm sl vp
   | Some ap \<Rightarrow> ap \<in> set al \<and> access_applies groupNm ctx sm sl ap"
  by (rule get_access_applies [OF assms])

definition access_any_priv :: vacm_accessEntry where
  "access_any_priv = \<lparr>a_groupName = prefixed [103], a_contextPrefix = prefixed [], a_securityModel = SNMP_SEC_MODEL_ANY,
     a_securityLevel = 3, a_contextMatch = CONTEXT_MATCH_PREFIX, a_views = replicate VACM_MAX_VIEWS [97]\<rparr>"

definition access_usm_auth :: vacm_accessEntry where
  "access_usm_auth = \<lparr>a_groupName = prefixed [103], a_contextPrefix = prefixed [], a_securityModel = 3,
     a_securityLevel = 1, a_contextMatch = CONTEXT_MATCH_EXACT, a_views = replicate VACM_MAX_VIEWS [98]\<rparr>"

theorem vacm_getAccessEntry_applies_witness:
  "case vacm_getAccessEntry [access_any_priv, access_usm_auth] [103] [] 3 1 of
     None \<Rightarrow> \<forall>vp\<in>set [access_any_priv, access_usm_auth]. \<not> access_applies [103] [] 3 1 vp
   | Some ap \<Rightarrow> ap \<in> set [access_any_priv, access_usm_auth] \<and> access_applies [103] [] 3 1 ap"
proof -
  have "\<forall>vp\<in>set [access_any_priv, access_usm_auth]. access_wf vp"
    by (auto simp: access_wf_def access_any_priv_def access_usm_auth_def)
  from vacm_getAccessEntry_applies [OF this, of "[103]" "[]" 3 1] show ?thesis by simp
qed

text \<open>
  The order of the preferences.  The four criteria of RFC 3415 are meant to apply one after the
  other, but a higher security level alone replaces a current choice that is better by the first
  criteria: with an entry for any security model at level \<open>authPriv\<close> and one for the message's model
  with an exact context match at \<open>noAuthNoPriv\<close>, an \<open>authPriv\<close> request gets whichever of them comes
  later in the list.
\<close>

lemma vacm_choose_best_order:
  "vacm_getAccessEntry [access_usm_auth, access_any_priv] [103] [] 3 3 = Some access_any_priv \<and>
   vacm_getAccessEntry [access_any_priv, access_usm_auth] [103] [] 3 3 = Some access_usm_auth"
  by (simp add: vacm_getAccessEntry_def access_matches_def vacm_choose_best_def access_any_priv_def
      access_usm_auth_def prefixed_def)

text \<open>
  C21 (default deny).  A request on an object identifier is allowed (\<open>VACM_SUCCESS\<close>, single object)
  only when the security name was found, belongs to a group, the group has an access entry that
  applies to the context, model and level, the view type is one of the eight, and the best entry
  of the view the access entry names covers the object identifier and is not an exclusion.
\<close>

theorem vacm_check_view_contents_default_deny:
  assumes "\<forall>vp\<in>set (viewList st). view_wf vp" and "\<forall>ap\<in>set (accessList st). access_wf ap"
    and "vacm_check_view_contents getSecName find_sec_mod context_known st pdu (Some name) False viewtype dne_ok
         = (VACM_SUCCESS, stats, pdu')"
  shows "stats = [] \<and> (\<exists>sn gp ap v. vacm_security_name getSecName find_sec_mod pdu = (Some sn, pdu') \<and>
    vacm_getGroupEntry (groupList st) (p_securityModel pdu') sn = Some gp \<and>
    ap \<in> set (accessList st) \<and>
    access_applies (g_groupName gp) (contextNameIndex pdu') (p_securityModel pdu') (p_securityLevel pdu') ap \<and>
    0 \<le> viewtype \<and> viewtype < 8 \<and> v \<in> set (viewList st) \<and>
    in_view_family (a_views ap ! nat viewtype) name v \<and> viewType v \<noteq> SNMP_VIEW_EXCLUDED \<and>
    (\<forall>vp\<in>set (viewList st). in_view_family (a_views ap ! nat viewtype) name vp \<longrightarrow> view_rank vp \<le> view_rank v))"
proof -
  obtain sn gp ap v where r: "vacm_security_name getSecName find_sec_mod pdu = (Some sn, pdu')" "stats = []"
      "length (p_contextName pdu') \<le> 32" "vacm_getGroupEntry (groupList st) (p_securityModel pdu') sn = Some gp"
      "vacm_getAccessEntry (accessList st) (g_groupName gp) (contextNameIndex pdu') (p_securityModel pdu')
         (p_securityLevel pdu') = Some ap" "0 \<le> viewtype" "viewtype < 8"
      "netsnmp_view_get (viewList st) (a_views ap ! nat viewtype) name VACM_MODE_FIND = Some v"
      "viewType v \<noteq> SNMP_VIEW_EXCLUDED"
    using assms(3) by (auto simp: vacm_check_view_contents_def Let_def not_less not_le split: prod.splits option.splits if_splits)
  have len: "length (a_views ap ! nat viewtype) \<le> 32" "length (g_groupName gp) \<le> 32"
    using r(5,8) by (auto simp: netsnmp_view_get_def vacm_getAccessEntry_def not_less split: if_splits)
  have ctx: "length (contextNameIndex pdu') \<le> 32"
    using r(3) length_takeWhile_le [of "\<lambda>b. b \<noteq> 0" "p_contextName pdu'"] by (simp add: contextNameIndex_def)
  have "ap \<in> set (accessList st) \<and>
      access_applies (g_groupName gp) (contextNameIndex pdu') (p_securityModel pdu') (p_securityLevel pdu') ap"
    using get_access_applies [OF assms(2) len(2) ctx, of "p_securityModel pdu'" "p_securityLevel pdu'"] r(5) by simp
  moreover have "best_view (in_view_family (a_views ap ! nat viewtype) name) (set (viewList st)) (Some v)"
    using view_get_best [OF assms(1) len(1), of name] r(8) by simp
  ultimately show ?thesis using r unfolding best_view_def by auto
qed

definition sys_tables :: vacm_tables where
  "sys_tables = \<lparr>viewList = sys_view,
     groupList = [\<lparr>g_securityModel = 3, g_securityName = prefixed [117], g_groupName = [103]\<rparr>],
     accessList = [access_any_priv]\<rparr>"

definition usm_pdu :: vacm_pdu where
  "usm_pdu = \<lparr>version = 3, tDomain = UDPDomain, community = [], p_securityModel = 3, p_securityLevel = 3,
     p_securityName = Some [117], p_contextName = []\<rparr>"

theorem vacm_check_view_contents_default_deny_witness:
  "\<exists>v. vacm_check_view_contents (\<lambda>d c. (False, None, None)) (\<lambda>m. m = 3) (\<lambda>c. c = []) sys_tables usm_pdu
         (Some [1, 3, 5]) False 0 False = (VACM_SUCCESS, [], usm_pdu) \<and>
     v \<in> set sys_view \<and> in_view_family [97] [1, 3, 5] v \<and> viewType v \<noteq> SNMP_VIEW_EXCLUDED"
proof -
  let ?run = "vacm_check_view_contents (\<lambda>d c. (False, None, None)) (\<lambda>m. m = 3) (\<lambda>c. c = []) sys_tables usm_pdu
         (Some [1, 3, 5]) False 0 False"
  have run: "?run = (VACM_SUCCESS, [], usm_pdu)"
    by (simp add: vacm_check_view_contents_def vacm_security_name_def community_based_def contextNameIndex_def
        vacm_getGroupEntry_def group_matches_def vacm_getAccessEntry_def access_matches_def vacm_choose_best_def
        netsnmp_view_get_def view_covers_def better_view_def VIEW_MASK_def usub64_def prefixed_def
        sys_tables_def usm_pdu_def sys_view_def access_any_priv_def)
  have "\<forall>vp\<in>set (viewList sys_tables). view_wf vp" "\<forall>ap\<in>set (accessList sys_tables). access_wf ap"
    using sys_view_wf by (auto simp: sys_tables_def access_wf_def access_any_priv_def)
  from vacm_check_view_contents_default_deny [OF this run]
  have "\<exists>v. v \<in> set sys_view \<and> in_view_family [97] [1, 3, 5] v \<and> viewType v \<noteq> SNMP_VIEW_EXCLUDED"
    by (auto simp: sys_tables_def access_any_priv_def)
  with run show ?thesis by blast
qed

end
