(* ===== verification/Spec2Isabelle.thy ===== *)
theory Spec2Isabelle
  imports Snmpv3_Out Asn1_Float Asn1_Rbuild Int64_Arith Container_Table Container_List Container_Chain Vacm
begin

text \<open>
  \<^bold>\<open>The net-snmp library, verified.\<close>  The repository installs a network emulator and an SNMP stack; its C
  program is net-snmp 5.7.3 under \<open>src/SNMP-gen/net-snmp-5.7.3\<close>.  The development models the parts of
  its library (\<open>snmplib/\<close>) that every SNMP message and every table passes through, and the access
  decision of the agent.  Paths below are relative to that directory.

  \<^bold>\<open>How C is modelled.\<close>  The data model is LP64: \<open>int\<close> and \<open>u_int\<close> have 32 bits, \<open>long\<close>, \<open>size_t\<close> and
  \<open>oid\<close> have 64, and words keep their width wherever wrap-around can be seen.  A packet is the byte
  memory of theory \<open>Prelude\<close>, read and written by address, where an access outside it is an error
  value: a theorem that a decoder returns \<open>Inr\<close> says that it stayed inside the memory, and how many bytes the memory
  has behind the packet is part of the statement.  \<open>NULL\<close> returns and error
  branches are \<open>Inl\<close> values of one error type or \<open>None\<close>.  Loops are \<open>fun\<close> or \<open>function\<close> with a
  measure; nothing in the development is partial.  Two loops count their steps down from a bound: \<open>vp_rounds\<close>, the rounds over the ring
  of variables, has one more than there are variables, and \<open>walk\<close>, the client loop over a container, is shown to need
  as many steps as there are entries; both are proved to end within it.  The results of \<open>malloc\<close> and \<open>calloc\<close>, the clock and the
  cryptographic library are arguments.

  \<^bold>\<open>The parts and their theories.\<close>
  \<^item> \<open>Prelude\<close>: error monad, byte memory, \<open>size_t\<close> subtraction, word and big-endian lemmas.
  \<^item> \<open>Asn1_Base\<close>, \<open>Asn1_Int\<close>, \<open>Asn1_String\<close>, \<open>Asn1_Oid\<close>, \<open>Asn1_Int64\<close>, \<open>Asn1_Float\<close>: the BER layer of
    \<open>snmplib/asn1.c\<close>, one definition per \<open>asn_parse_*\<close> and \<open>asn_build_*\<close> function, with the inner loops
    as definitions of their own.  The encoding of every type is also given as a byte list
    (\<open>enc_int\<close>, \<open>enc_oid\<close>, ...); encoders are proved to store it, decoders to read it.  The locale
    \<open>asn_codec\<close> states the contract of such a pair; every pair is an interpretation of it.
  \<^item> \<open>Asn1_Rbuild\<close>: the reverse encoders \<open>asn_realloc_rbuild_*\<close> that fill a growing buffer from its
    end (\<open>asn_realloc\<close>, \<open>snmp_realloc\<close> of \<open>snmplib/tools.c\<close>).  The locale \<open>reverse_encoder\<close> states that
    such an encoder prepends the encoding of the forward one; each encoder is an interpretation.
  \<^item> \<open>Asn1_Safe\<close>: the decoders together, none of which reads more than a few bytes behind the announced data, the over-read of
    truncated headers.
  \<^item> \<open>Snmp_Var\<close>, \<open>Snmp_Pdu\<close>, \<open>Snmp_Rpdu\<close>: variable bindings and PDUs of \<open>snmplib/snmp.c\<close> and
    \<open>snmplib/snmp_api.c\<close>: \<open>snmp_build_var_op\<close>, \<open>snmp_pdu_build\<close>, \<open>snmp_pdu_parse\<close> and the reverse encoder with its ring of
    fifty pointers.
  \<^item> \<open>Snmp_Ids\<close>, \<open>Snmp_Message\<close>: request identifiers, community strings (\<open>snmplib/snmp_auth.c\<close>) and the
    messages of versions 1 and 2c, \<open>snmp_build\<close> and \<open>snmp_parse\<close>.  The version 3 branches of these two functions are arguments.
  \<^item> \<open>Lcd_Time\<close>, \<open>Usm_Time\<close>, \<open>Usm_User\<close>: the clocks of other engines (\<open>snmplib/lcd_time.c\<close>), the timeliness check and the
    user list of \<open>snmplib/snmpusm.c\<close>.
  \<^item> \<open>Scapi\<close>, \<open>Usm_In\<close>, \<open>Usm_Out\<close>, \<open>Usm_Roundtrip\<close>: the checks of \<open>snmplib/scapi.c\<close> around the cryptographic library, the
    processing of incoming messages (\<open>usm_process_in_msg\<close>), the generation of outgoing ones (\<open>usm_rgenerate_out_msg\<close>), and that they fit.
  \<^item> \<open>Snmpv3\<close>: \<open>snmpv3_parse\<close> over any security model; the locale \<open>security_service\<close> is what it relies
    on, the user-based model is the interpretation.
  \<^item> \<open>Snmpv3_Out\<close>: \<open>snmpv3_build\<close> with reverse encoding: the defaults of the session, the scoped PDU, the header and the call of the
    security service, and \<open>snmpv3_verify_msg\<close>.  The locale \<open>secmod_pair\<close> states that what one side's service makes the other's delivers;
    the user-based model on both sides is the interpretation.
  \<^item> \<open>Int64_Arith\<close>: the 64-bit numbers in two halves of \<open>snmplib/int64.c\<close> against arithmetic modulo
    \<open>2 ^ 64\<close>, their decimal text, and the 64-bit counters kept from 32-bit readings.
  \<^item> \<open>Oid_Compare\<close>: the comparison and subtree tests of \<open>snmplib/snmp_api.c\<close> against the
    lexicographic and the prefix order.
  \<^item> \<open>Container_Sort\<close>, \<open>Container_Compare\<close>, \<open>Container_Spec\<close>, \<open>Container_Array\<close>, \<open>Container_Table\<close>: the
    sorted array of \<open>snmplib/container_binary_array.c\<close> with the comparison functions of
    \<open>snmplib/container.c\<close>.  The locale \<open>compare_order\<close> is what the array relies on (a comparison
    function that orders entries by a key), with one interpretation per comparison function; \<open>ordered_store\<close>
    and \<open>keyed_store\<close> are what it promises (ordered successor; lookup after insert and remove), a
    \<open>sublocale\<close> of \<open>compare_order\<close>.  Reachable containers are an inductive predicate.
  \<^item> \<open>Container_List\<close>: the linked lists of \<open>snmplib/container_list_ssll.c\<close>, another provider of
    \<open>ordered_store\<close>.
  \<^item> \<open>Container_Chain\<close>: insertion into and removal from all indexes of a container
    (\<open>CONTAINER_INSERT\<close>, \<open>CONTAINER_REMOVE\<close> of \<open>snmplib/container.c\<close>), over the locale \<open>undoable\<close>.
  \<^item> \<open>Vacm\<close>: views, groups and access rights of \<open>snmplib/vacm.c\<close> and the access decision
    \<open>vacm_check_view_contents\<close> of \<open>agent/mibgroup/mibII/vacm_conf.c\<close>.

  \<^bold>\<open>What is shown.\<close>  For the BER layer: round trips for all types, shortest integer encodings, the
  contents that a decoded header announces lie inside the data and the decoders write only inside the output buffer, forward and reverse encoders agree, and
  the exceptions (reads behind the packet, which happen exactly for headers that are cut, a wrap in \<open>asn_parse_null\<close>, object identifiers that are
  not read back).  For messages: PDUs and community messages whose values the encoding can represent are read back as they were built, by the forward and the reverse encoder,
  the parser of versions 1 and 2c reads at most 32 bytes behind any packet and writes inside its buffers, and only legal combinations of version and command are sent.  For SNMPv3: an accepted
  message of a level with authentication carries the keyed hash of an active user over the whole message, its own boots and time are timely and what is handed on
  comes from it, no message
  is accepted long after a newer one, users are found again, and what one engine signs and encrypts another with the
  same keys accepts and decrypts, from \<open>snmpv3_build\<close> with all its defaults to the variables that \<open>snmpv3_parse\<close> returns; the parameters of a message can be read beyond its end.  For 64-bit numbers: exactness of counter updates and of the decimal text.
  For the containers: the invariant over all reachable states, that a duplicate-free array refines a
  finite map, that the successor search is the least greater key and walks are complete and
  ordered, that quicksort sorts, that insertion into several indexes without duplicates succeeds or fails as a whole, and where iterators,
  \<open>find\<close>, repeated keys in a list and the rollback with duplicates go wrong.  For access control: a created view is linked at its place and found, the view entry chosen is the most specific one,
  the subtree check is sound for all object identifiers below, access entries are sound and complete, and
  a request is granted only when every table agrees.

  \<^bold>\<open>Not modelled.\<close>  Sockets, sessions and the dispatch loops of \<open>snmp_api.c\<close> and \<open>snmp_transport.c\<close>
  (operating-system input and output); the forward generator \<open>usm_generate_out_msg\<close> with \<open>snmpv3_packet_build\<close>, and
  the reports of version 3; the cryptography behind \<open>scapi.c\<close> (OpenSSL: HMAC, DES and AES are parameters); the MIB parser
  and text output (\<open>parse.c\<close>, \<open>mib.c\<close>); configuration files and logging; the instrumentation of
  \<open>agent/mibgroup\<close>, much of it generated; debugging output and memory deallocation everywhere.  In
  \<open>vacm_check_view_contents\<close> the \<open>com2sec\<close> mapping, the registered security models and the
  registered contexts are arguments of the definition.
\<close>

end
